(* ===== verification/C_Prelude.thy ===== *)
theory C_Prelude
  imports Main "HOL-Library.Word" "HOL-Library.Monad_Syntax"
begin

unbundle bit_operations_syntax

text \<open>
  The shared ground of the development: the names of the C integer types at the widths the
  library is built for, the two ways the code reads a buffer, and the few facts on words and
  lists that several components use.
\<close>

section \<open>C integer types\<close>

text \<open>
  \<open>unsigned long\<close> is taken at its narrowest conforming width, 32 bits (Win32, and 32-bit
  Linux); wherever the width matters this is the case in which a sum can wrap.
\<close>

type_synonym byte = "8 word"
type_synonym ushort = "16 word"
type_synonym uint = "32 word"
type_synonym ulong = "32 word"

section \<open>Buffers\<close>

text \<open>
  A pointer into a buffer is the list of the bytes from it to the end of the object. Reading
  \<open>p[i]\<close> past the end is undefined in C and is \<open>None\<close> here.
\<close>

definition peek :: "'a list \<Rightarrow> nat \<Rightarrow> 'a option" where
  "peek p i = (if i < length p then Some (p ! i) else None)"

text \<open>The idiom \<open>*p++\<close>: the object read and the advanced pointer.\<close>

fun next_item :: "'a list \<Rightarrow> ('a \<times> 'a list) option" where
  "next_item [] = None"
| "next_item (x # p) = Some (x, p)"

lemma peek_in [simp]: "i < length p \<Longrightarrow> peek p i = Some (p ! i)"
  by (simp add: peek_def)

lemma peek_out [simp]: "length p \<le> i \<Longrightarrow> peek p i = None"
  by (simp add: peek_def)

lemma peek_Some_iff: "peek p i = Some x \<longleftrightarrow> i < length p \<and> p ! i = x"
  by (auto simp: peek_def)

text \<open>A store to \<open>p[i]\<close>; past the end it is undefined as well.\<close>

definition poke :: "'a list \<Rightarrow> nat \<Rightarrow> 'a \<Rightarrow> 'a list option" where
  "poke p i x = (if i < length p then Some (p[i := x]) else None)"

lemma poke_in [simp]: "i < length p \<Longrightarrow> poke p i x = Some (p[i := x])"
  by (simp add: poke_def)

lemma poke_out [simp]: "length p \<le> i \<Longrightarrow> poke p i x = None"
  by (simp add: poke_def)

section \<open>Words\<close>

lemma unat_ucast_byte [simp]: "unat (ucast (b :: byte) :: 32 word) = unat b"
  by (simp add: unsigned_ucast_eq take_bit_nat_eq_self_iff less_le_trans [OF unsigned_less])

lemma unat_byte_less: "unat (b :: byte) < 256"
  using unsigned_less [of b, where ?'a = nat] by simp

lemma unat_byte_le: "unat (b :: byte) \<le> 255"
  using unat_byte_less [of b] by linarith

lemma unat_add_no_wrap:
  fixes a b :: "'a::len word"
  shows "unat a + unat b < 2 ^ LENGTH('a) \<Longrightarrow> unat (a + b) = unat a + unat b"
  by (metis unat_add_lem)

lemma word_unat_less_iff: "(a :: 'a::len word) < b \<longleftrightarrow> unat a < unat b"
  by (rule word_less_nat_alt)

text \<open>Masks and small values, bit by bit.\<close>

lemma and_mask_8: "(a :: 'a::len word) AND 0xff = take_bit 8 a"
  by (simp add: take_bit_eq_mask mask_numeral)

lemma and_mask_16: "(a :: 'a::len word) AND 0xffff = take_bit 16 a"
  by (simp add: take_bit_eq_mask mask_numeral)

lemma unat_take_bit: "unat (take_bit n (a :: 'a::len word)) = unat a mod 2 ^ n"
  unfolding unsigned_take_bit_eq by (rule take_bit_eq_mod)

lemma unat_drop_bit: "unat (drop_bit n (a :: 'a::len word)) = unat a div 2 ^ n"
  unfolding unat_drop_bit_eq by (rule drop_bit_eq_div)

lemma unat_push_bit: "unat (push_bit n (a :: 'a::len word)) = (unat a * 2 ^ n) mod 2 ^ LENGTH('a)"
  unfolding unsigned_push_bit_eq
  by (rule trans [OF take_bit_eq_mod arg_cong [OF push_bit_eq_mult]])

lemma unat_push_no_wrap:
  fixes a :: "'a::len word"
  shows "unat a * 2 ^ n < 2 ^ LENGTH('a) \<Longrightarrow> unat (push_bit n a) = unat a * 2 ^ n"
  by (simp add: unat_push_bit)

lemma take_bit_small: "unat a < 2 ^ n \<Longrightarrow> take_bit n a = (a :: 'a::len word)"
  by (simp add: word_unat_eq_iff unsigned_take_bit_eq take_bit_nat_eq_self)

lemma bit_small: "unat (a :: 'a::len word) < 2 ^ k \<Longrightarrow> k \<le> n \<Longrightarrow> \<not> bit a n"
  by (metis take_bit_small bit_take_bit_iff not_le)

lemma bit_byte_beyond: "8 \<le> n \<Longrightarrow> \<not> bit (b :: byte) n"
  using bit_imp_le_length [of b n] by auto

lemma bit_beyond: "32 \<le> n \<Longrightarrow> \<not> bit (w :: 32 word) n"
  using bit_imp_le_length [of w n] by auto

lemma unat_take_bit_less: "unat (take_bit n (a :: 'a::len word)) < 2 ^ n"
  by (simp add: unat_take_bit)

lemma unat_and_field:
  "k + m \<le> LENGTH('a) \<Longrightarrow>
   unat ((a :: 'a::len word) AND push_bit k (mask m)) = unat a div 2 ^ k mod 2 ^ m * 2 ^ k"
proof -
  assume le: "k + m \<le> LENGTH('a)"
  have eq: "a AND push_bit k (mask m) = push_bit k (take_bit m (drop_bit k a))"
    by (rule bit_eqI) (auto simp: bit_simps)
  have "unat a div 2 ^ k mod 2 ^ m * 2 ^ k < 2 ^ m * 2 ^ k" by simp
  also have "\<dots> \<le> 2 ^ LENGTH('a)" using le by (simp flip: power_add add: add.commute)
  finally show ?thesis
    unfolding eq by (simp add: unat_push_bit unat_take_bit unat_drop_bit)
qed

end
