(* ===== verification/Checksum.thy ===== *)
theory Checksum
  imports C_Prelude
begin

text \<open>
  The interface through which the stream code uses its check value: \<open>strm->adler =
  adler32(strm->adler, buf, len)\<close> in \<^verbatim>\<open>src/AOS/aos/zlib/deflate.c\<close> and the
  \<open>UPDATE\<close> macro of \<^verbatim>\<open>src/AOS/aos/zlib/inflate.c\<close>. The stream code feeds the
  data in whatever pieces its buffers give it, and relies on the check value being that of
  the whole. The two providers are \<open>adler32\<close> and \<open>crc32\<close>.
\<close>

text \<open>Feeding the pieces one after the other.\<close>

fun feed :: "('c \<Rightarrow> byte list \<Rightarrow> 'c option) \<Rightarrow> 'c \<Rightarrow> byte list list \<Rightarrow> 'c option" where
  "feed update c [] = Some c"
| "feed update c (p # ps) = do { c \<leftarrow> update c p; feed update c ps }"

text \<open>The length argument of both functions is an \<open>unsigned int\<close>.\<close>

definition fits :: "byte list \<Rightarrow> bool" where
  "fits xs \<longleftrightarrow> length xs < 2 ^ 32"

locale checksum =
  fixes update :: "'c \<Rightarrow> byte list \<Rightarrow> 'c option"
    and valid :: "'c \<Rightarrow> bool"
    and init :: "'c"
  assumes valid_init: "valid init"
    and update_defined: "valid c \<Longrightarrow> fits xs \<Longrightarrow> \<exists>c'. update c xs = Some c' \<and> valid c'"
    and update_Nil: "valid c \<Longrightarrow> update c [] = Some c"
    and update_append: "valid c \<Longrightarrow> fits (xs @ ys) \<Longrightarrow>
      update c (xs @ ys) = do { c \<leftarrow> update c xs; update c ys }"
begin

lemma feed_concat:
  "valid c \<Longrightarrow> fits (concat ps) \<Longrightarrow> feed update c ps = update c (concat ps)"
proof (induction ps arbitrary: c)
  case Nil
  then show ?case by (simp add: update_Nil)
next
  case (Cons p ps)
  then have "fits p" "fits (concat ps)" by (auto simp: fits_def)
  with Cons.prems(1) obtain c' where "update c p = Some c'" "valid c'"
    using update_defined by blast
  with Cons \<open>fits (concat ps)\<close> show ?case by (simp add: update_append)
qed

lemma feed_any_split:
  "fits (concat ps) \<Longrightarrow> concat ps = concat qs \<Longrightarrow> feed update init ps = feed update init qs"
  by (metis feed_concat valid_init)

end

end
