(* ===== verification/Adler32.thy ===== *)
theory Adler32
  imports Checksum
begin

text \<open>
  \<^verbatim>\<open>src/AOS/aos/zlib/adler32.c\<close>: the Adler-32 checksum with its deferred
  reductions, and the combination of two checksums. The reference is the checksum that
  reduces after every byte; the theorems say that the deferred reductions compute the same,
  which is where the constant \<open>NMAX\<close> has to be right.
\<close>

section \<open>The code\<close>

definition BASE :: ulong where "BASE = 65521"

definition NMAX :: nat where "NMAX = 5552"

text \<open>\<open>MOD\<close> and \<open>MOD4\<close> without \<open>NO_DIVIDE\<close>, the built configuration.\<close>

definition MOD :: "ulong \<Rightarrow> ulong" where "MOD a = a mod BASE"
definition MOD4 :: "ulong \<Rightarrow> ulong" where "MOD4 a = a mod BASE"

text \<open>
  The same macros under \<open>NO_DIVIDE\<close>: a chain of conditional subtractions, from
  \<open>BASE << 16\<close> (\<open>BASE << 4\<close> for \<open>MOD4\<close>) down to \<open>BASE\<close>.
\<close>

fun sub_chain :: "nat \<Rightarrow> ulong \<Rightarrow> ulong" where
  "sub_chain 0 a = (if a \<ge> BASE then a - BASE else a)"
| "sub_chain (Suc k) a =
     sub_chain k (if a \<ge> push_bit (Suc k) BASE then a - push_bit (Suc k) BASE else a)"

definition MOD_no_divide :: "ulong \<Rightarrow> ulong" where "MOD_no_divide = sub_chain 16"
definition MOD4_no_divide :: "ulong \<Rightarrow> ulong" where "MOD4_no_divide = sub_chain 4"

text \<open>The two running sums, \<open>adler\<close> and \<open>sum2\<close>.\<close>

type_synonym sums = "ulong \<times> ulong"

fun add_byte :: "sums \<Rightarrow> byte \<Rightarrow> sums" where
  "add_byte (adler, sum2) b = (let adler = adler + ucast b in (adler, sum2 + adler))"

definition DO1 :: "byte list \<Rightarrow> nat \<Rightarrow> sums \<Rightarrow> sums option" where
  "DO1 buf i st = map_option (add_byte st) (peek buf i)"

definition DO2 :: "byte list \<Rightarrow> nat \<Rightarrow> sums \<Rightarrow> sums option" where
  "DO2 buf i st = do { st \<leftarrow> DO1 buf i st; DO1 buf (i + 1) st }"

definition DO4 :: "byte list \<Rightarrow> nat \<Rightarrow> sums \<Rightarrow> sums option" where
  "DO4 buf i st = do { st \<leftarrow> DO2 buf i st; DO2 buf (i + 2) st }"

definition DO8 :: "byte list \<Rightarrow> nat \<Rightarrow> sums \<Rightarrow> sums option" where
  "DO8 buf i st = do { st \<leftarrow> DO4 buf i st; DO4 buf (i + 4) st }"

definition DO16 :: "byte list \<Rightarrow> sums \<Rightarrow> sums option" where
  "DO16 buf st = do { st \<leftarrow> DO8 buf 0 st; DO8 buf 8 st }"

text \<open>\<open>while (len--) { adler += *buf++; sum2 += adler; }\<close>\<close>

fun byte_loop :: "nat \<Rightarrow> byte list \<Rightarrow> sums \<Rightarrow> sums option" where
  "byte_loop 0 buf st = Some st"
| "byte_loop (Suc len) buf st =
     do { (b, buf) \<leftarrow> next_item buf; byte_loop len buf (add_byte st b) }"

text \<open>\<open>do { DO16(buf); buf += 16; } while (--n)\<close>, entered with \<open>n > 0\<close>.\<close>

fun do16_loop :: "nat \<Rightarrow> byte list \<Rightarrow> sums \<Rightarrow> (byte list \<times> sums) option" where
  "do16_loop 0 buf st = Some (buf, st)"
| "do16_loop (Suc n) buf st =
     do { st \<leftarrow> DO16 buf st; do16_loop n (drop 16 buf) st }"

text \<open>\<open>while (len >= NMAX)\<close>: one reduction per block of \<open>NMAX\<close> bytes.\<close>

function nmax_loop :: "nat \<Rightarrow> byte list \<Rightarrow> sums \<Rightarrow> (nat \<times> byte list \<times> sums) option" where
  "nmax_loop len buf st =
     (if len \<ge> NMAX then
        do { (buf, adler, sum2) \<leftarrow> do16_loop (NMAX div 16) buf st;
             nmax_loop (len - NMAX) buf (MOD adler, MOD sum2) }
      else Some (len, buf, st))"
  by pat_completeness auto
termination by (relation "measure fst") (auto simp: NMAX_def)

text \<open>\<open>while (len >= 16)\<close>\<close>

function sixteen_loop :: "nat \<Rightarrow> byte list \<Rightarrow> sums \<Rightarrow> (nat \<times> byte list \<times> sums) option" where
  "sixteen_loop len buf st =
     (if len \<ge> 16 then
        do { st \<leftarrow> DO16 buf st; sixteen_loop (len - 16) (drop 16 buf) st }
      else Some (len, buf, st))"
  by pat_completeness auto
termination by (relation "measure fst") auto

declare nmax_loop.simps [simp del] sixteen_loop.simps [simp del]

definition low16 :: "ulong \<Rightarrow> ulong" where "low16 a = a AND 0xffff"
definition high16 :: "ulong \<Rightarrow> ulong" where "high16 a = drop_bit 16 a AND 0xffff"
definition recombine :: "sums \<Rightarrow> ulong" where "recombine = (\<lambda>(adler, sum2). adler OR push_bit 16 sum2)"

text \<open>
  \<open>adler32(adler, buf, len)\<close>; \<open>Z_NULL\<close> is \<open>None\<close>. The result is \<open>None\<close> where the code
  reads through a null pointer or past the buffer.
\<close>

definition adler32 :: "ulong \<Rightarrow> byte list option \<Rightarrow> uint \<Rightarrow> ulong option" where
  "adler32 adler buf len =
    (let sum2 = high16 adler; adler = low16 adler; len = unat len in
     if len = 1 then
       do { buf \<leftarrow> buf;
            b \<leftarrow> peek buf 0;
            let adler = adler + ucast b;
            let adler = (if adler \<ge> BASE then adler - BASE else adler);
            let sum2 = sum2 + adler;
            let sum2 = (if sum2 \<ge> BASE then sum2 - BASE else sum2);
            Some (recombine (adler, sum2)) }
     else case buf of None \<Rightarrow> Some 1 | Some buf \<Rightarrow>
       if len < 16 then
         do { (adler, sum2) \<leftarrow> byte_loop len buf (adler, sum2);
              let adler = (if adler \<ge> BASE then adler - BASE else adler);
              Some (recombine (adler, MOD4 sum2)) }
       else
         do { (len, buf, adler, sum2) \<leftarrow> nmax_loop len buf (adler, sum2);
              if len \<noteq> 0 then
                do { (len, buf, st) \<leftarrow> sixteen_loop len buf (adler, sum2);
                     (adler, sum2) \<leftarrow> byte_loop len buf st;
                     Some (recombine (MOD adler, MOD sum2)) }
              else Some (recombine (adler, sum2)) })"

text \<open>
  \<open>adler32_combine\<close>: the checksum of two blocks from theirs and the second's length, which
  \<open>len2 % BASE\<close> converts from \<open>z_off_t\<close> to \<open>unsigned long\<close>.
\<close>

definition adler32_combine :: "ulong \<Rightarrow> ulong \<Rightarrow> ulong \<Rightarrow> ulong" where
  "adler32_combine adler1 adler2 len2 =
    (let rem = len2 mod BASE;
         sum1 = adler1 AND 0xffff;
         sum2 = MOD (rem * sum1);
         sum1 = sum1 + ((adler2 AND 0xffff) + BASE - 1);
         sum2 = sum2 + ((drop_bit 16 adler1 AND 0xffff) + (drop_bit 16 adler2 AND 0xffff) + BASE - rem);
         sum1 = (if sum1 > BASE then sum1 - BASE else sum1);
         sum1 = (if sum1 > BASE then sum1 - BASE else sum1);
         sum2 = (if sum2 > push_bit 1 BASE then sum2 - push_bit 1 BASE else sum2);
         sum2 = (if sum2 > BASE then sum2 - BASE else sum2)
     in sum1 OR push_bit 16 sum2)"

section \<open>The reference: reduce after every byte\<close>

fun adler_step :: "nat \<times> nat \<Rightarrow> byte \<Rightarrow> nat \<times> nat" where
  "adler_step (a, s) b = (let a = (a + unat b) mod 65521 in (a, (s + a) mod 65521))"

definition adler_ref :: "nat \<times> nat \<Rightarrow> byte list \<Rightarrow> nat \<times> nat" where
  "adler_ref = foldl adler_step"

definition parts :: "ulong \<Rightarrow> nat \<times> nat" where
  "parts x = (unat (low16 x), unat (high16 x))"

definition canonical :: "ulong \<Rightarrow> bool" where
  "canonical x \<longleftrightarrow> low16 x < BASE \<and> high16 x < BASE"


section \<open>The sums without wrap-around\<close>

text \<open>The sums over the natural numbers, never reduced.\<close>

fun raw_step :: "nat \<times> nat \<Rightarrow> byte \<Rightarrow> nat \<times> nat" where
  "raw_step (a, s) b = (a + unat b, s + (a + unat b))"

text \<open>
  Room for \<open>n\<close> more bytes: the second sum grows by at most \<open>n * a + 255 n (n + 1) / 2\<close>, the
  formula in the comment on \<open>NMAX\<close>.
\<close>

definition room :: "nat \<Rightarrow> nat \<times> nat \<Rightarrow> bool" where
  "room n = (\<lambda>(a, s). a + 255 * n < 2 ^ 32 \<and> 2 * s + 2 * n * a + 255 * n * (n + 1) < 2 ^ 33)"

lemma room_Suc:
  fixes b :: byte
  assumes "room (Suc n) (a, s)"
  shows "a + unat b < 2 ^ 32" "s + (a + unat b) < 2 ^ 32" "room n (a + unat b, s + (a + unat b))"
proof -
  have b: "unat b \<le> 255" by (rule unat_byte_le)
  then have nb: "n * unat b \<le> n * 255" by (rule mult_le_mono2)
  have bound: "2 * s + 2 * (n * a) + 2 * a + 255 * (n * n) + 765 * n + 510 < 2 ^ 33"
    using assms by (simp add: room_def algebra_simps)
  show "a + unat b < 2 ^ 32" using assms b by (simp add: room_def)
  show "s + (a + unat b) < 2 ^ 32" using bound b by simp
  show "room n (a + unat b, s + (a + unat b))"
  proof -
    have "2 * (s + (a + unat b)) + 2 * n * (a + unat b) + 255 * n * (n + 1) < 2 ^ 33"
      using b nb bound unfolding distrib_left distrib_right mult.assoc by linarith
    then show ?thesis using assms b by (simp add: room_def)
  qed
qed

lemma room_mono: "room n (a, s) \<Longrightarrow> m \<le> n \<Longrightarrow> room m (a, s)"
proof (induction n)
  case (Suc n)
  have "room n (a, s)"
    using room_Suc(3) [OF Suc.prems(1), of 0] Suc.prems(1) by (simp add: room_def)
  then show ?case using Suc by (cases "m = Suc n") auto
qed simp

definition unat_sums :: "sums \<Rightarrow> nat \<times> nat" where
  "unat_sums st = (unat (fst st), unat (snd st))"

lemma foldl_add_byte:
  "room (length xs) (unat_sums st) \<Longrightarrow>
   unat_sums (foldl add_byte st xs) = foldl raw_step (unat_sums st) xs"
proof (induction xs arbitrary: st)
  case (Cons b xs)
  obtain a s where st: "st = (a, s)" by fastforce
  note r = room_Suc [OF Cons.prems [unfolded st unat_sums_def, simplified], of b]
  have "unat (a + ucast b) = unat a + unat b"
    using r(1) by (subst unat_add_no_wrap) simp_all
  moreover from this have "unat (s + (a + ucast b)) = unat s + (unat a + unat b)"
    using r(2) by (subst unat_add_no_wrap) simp_all
  ultimately have "unat_sums (add_byte st b) = raw_step (unat_sums st) b"
    by (simp add: st unat_sums_def Let_def)
  moreover have "room (length xs) (raw_step (unat_sums st) b)"
    using r(3) by (simp add: st unat_sums_def)
  ultimately show ?case using Cons.IH [of "add_byte st b"] by simp
qed simp

definition reduce :: "nat \<times> nat \<Rightarrow> nat \<times> nat" where
  "reduce p = (fst p mod 65521, snd p mod 65521)"

lemma reduce_raw_step: "reduce (raw_step p b) = adler_step (reduce p) b"
  by (cases p) (simp add: reduce_def Let_def mod_simps)

lemma reduce_foldl_raw: "reduce (foldl raw_step p xs) = adler_ref (reduce p) xs"
  unfolding adler_ref_def by (induction xs arbitrary: p) (simp_all add: reduce_raw_step)

lemma adler_ref_append: "adler_ref p (xs @ ys) = adler_ref (adler_ref p xs) ys"
  by (simp add: adler_ref_def)

definition below_base :: "nat \<times> nat \<Rightarrow> bool" where
  "below_base = (\<lambda>(a, s). a < 65521 \<and> s < 65521)"

lemma below_base_reduce [simp]: "below_base (reduce p)"
  by (simp add: below_base_def reduce_def)

lemma below_base_step: "below_base (adler_step p b)"
  by (cases p) (simp add: below_base_def Let_def)

lemma below_base_ref: "below_base p \<Longrightarrow> below_base (adler_ref p xs)"
  unfolding adler_ref_def by (induction xs arbitrary: p) (simp_all add: below_base_step)

lemma reduce_id: "below_base p \<Longrightarrow> reduce p = p"
  by (cases p) (simp add: below_base_def reduce_def)

text \<open>
  The reason for \<open>NMAX\<close>: from reduced sums, a block of at most 5552 bytes keeps both sums
  below \<open>2^32\<close>, and 5553 would not.
\<close>

lemma room_NMAX: "below_base p \<Longrightarrow> n \<le> NMAX \<Longrightarrow> room n p"
proof (cases p)
  case (Pair a s)
  assume "below_base p" "n \<le> NMAX"
  then have "a \<le> 65520" "s \<le> 65520" by (simp_all add: Pair below_base_def)
  then have "room NMAX (a, s)" by (simp add: room_def NMAX_def)
  then show ?thesis using Pair \<open>n \<le> NMAX\<close> by (auto intro: room_mono)
qed

lemma block_ref:
  assumes "below_base (unat_sums st)" "length xs \<le> NMAX"
  shows "reduce (unat_sums (foldl add_byte st xs)) = adler_ref (unat_sums st) xs"
  using assms by (simp add: foldl_add_byte room_NMAX reduce_foldl_raw reduce_id)

lemma unat_MOD: "unat (MOD a) = unat a mod 65521"
  by (simp add: MOD_def BASE_def unat_mod)

lemma unat_sums_MOD: "unat_sums (MOD a, MOD s) = reduce (unat_sums (a, s))"
  by (simp add: unat_sums_def reduce_def unat_MOD)

section \<open>The loops read their slice\<close>

lemma DO1_in: "i < length buf \<Longrightarrow> DO1 buf i st = Some (foldl add_byte st (take 1 (drop i buf)))"
  by (simp add: DO1_def take_Suc_conv_app_nth take_Suc hd_drop_conv_nth)

lemma DO_join:
  assumes "f = Some (foldl add_byte st (take m (drop i buf)))"
    and "\<And>st. g st = Some (foldl add_byte st (take n (drop (i + m) buf)))" and "k = m + n"
  shows "(do { st \<leftarrow> f; g st }) = Some (foldl add_byte st (take k (drop i buf)))"
  using assms by (simp add: take_add add.commute)

lemma DO2_in: "i + 2 \<le> length buf \<Longrightarrow> DO2 buf i st = Some (foldl add_byte st (take 2 (drop i buf)))"
  unfolding DO2_def by (rule DO_join [where m = 1 and n = 1]) (simp_all add: DO1_in)

lemma DO4_in: "i + 4 \<le> length buf \<Longrightarrow> DO4 buf i st = Some (foldl add_byte st (take 4 (drop i buf)))"
  unfolding DO4_def by (rule DO_join [where m = 2 and n = 2]) (simp_all add: DO2_in)

lemma DO8_in: "i + 8 \<le> length buf \<Longrightarrow> DO8 buf i st = Some (foldl add_byte st (take 8 (drop i buf)))"
  unfolding DO8_def by (rule DO_join [where m = 4 and n = 4]) (simp_all add: DO4_in)

lemma DO16_in: "16 \<le> length buf \<Longrightarrow> DO16 buf st = Some (foldl add_byte st (take 16 buf))"
  unfolding DO16_def
  by (rule DO_join [where i = 0 and m = 8 and n = 8, simplified]) (simp_all add: DO8_in)

lemma byte_loop_in:
  "len \<le> length buf \<Longrightarrow> byte_loop len buf st = Some (foldl add_byte st (take len buf))"
proof (induction len arbitrary: buf st)
  case (Suc len)
  then show ?case by (cases buf) simp_all
qed simp

lemma do16_loop_in:
  "16 * n \<le> length buf \<Longrightarrow>
   do16_loop n buf st = Some (drop (16 * n) buf, foldl add_byte st (take (16 * n) buf))"
proof (induction n arbitrary: buf st)
  case (Suc n)
  then have "do16_loop (Suc n) buf st = do16_loop n (drop 16 buf) (foldl add_byte st (take 16 buf))"
    by (simp add: DO16_in)
  also have "\<dots> = Some (drop (16 + 16 * n) buf, foldl add_byte st (take (16 + 16 * n) buf))"
    using Suc by (simp add: take_add add.commute)
  finally show ?case by simp
qed simp

lemma sixteen_loop_in:
  "len \<le> length buf \<Longrightarrow>
   \<exists>k. sixteen_loop len buf st =
     Some (len - k, drop k buf, foldl add_byte st (take k buf)) \<and> k \<le> len"
proof (induction len buf st rule: sixteen_loop.induct)
  case (1 len buf st)
  show ?case
  proof (cases "16 \<le> len")
    case True
    let ?st = "foldl add_byte st (take 16 buf)"
    have step: "DO16 buf st = Some ?st" using True "1.prems" by (intro DO16_in) linarith
    have "len - 16 \<le> length (drop 16 buf)" using "1.prems" by simp
    from "1.IH" [OF True step this] obtain k where k: "sixteen_loop (len - 16) (drop 16 buf) ?st =
        Some (len - 16 - k, drop k (drop 16 buf), foldl add_byte ?st (take k (drop 16 buf)))"
      "k \<le> len - 16"
      by blast
    have "foldl add_byte ?st (take k (drop 16 buf)) = foldl add_byte st (take (16 + k) buf)"
      by (simp add: take_add)
    then have "sixteen_loop len buf st = Some (len - (16 + k), drop (16 + k) buf,
        foldl add_byte st (take (16 + k) buf))"
      using True step k by (subst sixteen_loop.simps) (simp add: add.commute)
    moreover have "16 + k \<le> len" using k True by linarith
    ultimately show ?thesis by blast
  next
    case False
    then show ?thesis by (subst sixteen_loop.simps) (auto intro!: exI [of _ 0])
  qed
qed

text \<open>Whole blocks: reduced sums go in, reduced sums come out, and they are the reference's.\<close>

lemma nmax_loop_in:
  "len \<le> length buf \<Longrightarrow> below_base (unat_sums st) \<Longrightarrow>
   \<exists>k st'. nmax_loop len buf st = Some (len - k, drop k buf, st') \<and> k \<le> len \<and> len - k < NMAX \<and>
     unat_sums st' = adler_ref (unat_sums st) (take k buf)"
proof (induction len arbitrary: buf st rule: less_induct)
  case (less len)
  show ?case
  proof (cases "NMAX \<le> len")
    case True
    obtain a s where block: "foldl add_byte st (take NMAX buf) = (a, s)" by fastforce
    have "16 * (NMAX div 16) = NMAX" by (simp add: NMAX_def)
    then have step: "do16_loop (NMAX div 16) buf st = Some (drop NMAX buf, a, s)"
      using True less.prems(1) block do16_loop_in [of "NMAX div 16" buf st] by simp
    have ref: "unat_sums (MOD a, MOD s) = adler_ref (unat_sums st) (take NMAX buf)"
      using block_ref [OF less.prems(2), of "take NMAX buf"] by (simp add: block unat_sums_MOD)
    have "below_base (unat_sums (MOD a, MOD s))"
      by (simp add: unat_sums_MOD)
    moreover have "len - NMAX \<le> length (drop NMAX buf)" using less.prems(1) by simp
    moreover have "len - NMAX < len" using True by (simp add: NMAX_def)
    ultimately obtain k st' where k: "nmax_loop (len - NMAX) (drop NMAX buf) (MOD a, MOD s) =
        Some (len - NMAX - k, drop k (drop NMAX buf), st')" "k \<le> len - NMAX"
        "len - NMAX - k < NMAX"
        "unat_sums st' = adler_ref (unat_sums (MOD a, MOD s)) (take k (drop NMAX buf))"
      using less.IH by blast
    have "nmax_loop len buf st = Some (len - (NMAX + k), drop (NMAX + k) buf, st')"
      using True step k by (subst nmax_loop.simps) (simp add: add.commute)
    moreover have "unat_sums st' = adler_ref (unat_sums st) (take (NMAX + k) buf)"
      by (simp add: k(4) ref take_add adler_ref_append)
    moreover have "NMAX + k \<le> len" "len - (NMAX + k) < NMAX" using k True by linarith+
    ultimately show ?thesis by blast
  next
    case False
    then show ?thesis by (subst nmax_loop.simps) (auto simp: adler_ref_def intro!: exI [of _ 0])
  qed
qed

section \<open>Packing\<close>

lemma low16_take: "low16 a = take_bit 16 a"
  by (simp add: low16_def and_mask_16)

lemma high16_drop: "high16 a = drop_bit 16 a"
proof -
  have "unat (drop_bit 16 a) < 2 ^ 16"
    using unsigned_less [of a, where ?'a = nat] by (simp add: unat_drop_bit less_mult_imp_div_less)
  then show ?thesis by (simp add: high16_def and_mask_16 take_bit_small)
qed

lemma low16_recombine: "unat a < 65536 \<Longrightarrow> low16 (recombine (a, s)) = a"
  by (rule bit_word_eqI)
    (auto simp: low16_take recombine_def bit_simps not_less bit_small [where k = 16])

lemma high16_recombine: "unat a < 65536 \<Longrightarrow> unat s < 65536 \<Longrightarrow> high16 (recombine (a, s)) = s"
  by (rule bit_word_eqI)
    (auto simp: high16_drop recombine_def bit_simps bit_small [where k = 16]
      intro: ccontr)

lemma recombine_split: "recombine (low16 x, high16 x) = x"
proof (rule bit_word_eqI)
  fix n assume "n < LENGTH(32)"
  then show "bit (recombine (low16 x, high16 x)) n = bit x n"
    by (cases "n < 16") (simp_all add: low16_take high16_drop recombine_def bit_simps not_less)
qed

lemma parts_recombine:
  "below_base (unat_sums st) \<Longrightarrow> parts (recombine st) = unat_sums st"
  by (cases st) (simp add: parts_def unat_sums_def below_base_def low16_recombine high16_recombine)

lemma canonical_parts: "canonical x \<longleftrightarrow> below_base (parts x)"
  by (simp add: canonical_def parts_def below_base_def word_unat_less_iff BASE_def)

lemma parts_inj: "parts x = parts y \<Longrightarrow> x = y"
  by (metis parts_def prod.inject recombine_split word_unat_eq_iff)

section \<open>The checksum is the reference checksum\<close>

definition pack :: "nat \<times> nat \<Rightarrow> ulong" where
  "pack p = recombine (of_nat (fst p), of_nat (snd p))"

lemma recombine_pack: "unat_sums st = p \<Longrightarrow> recombine st = pack p"
  by (cases st) (auto simp: pack_def unat_sums_def)

lemma parts_pack: "below_base p \<Longrightarrow> parts (pack p) = p"
  by (cases p) (simp add: pack_def parts_recombine unat_sums_def below_base_def unat_of_nat)

lemma pack_parts: "pack (parts x) = x"
  by (simp add: pack_def parts_def recombine_split)

lemma canonical_pack: "below_base p \<Longrightarrow> canonical (pack p)"
  by (simp add: canonical_parts parts_pack)

text \<open>One conditional subtraction reduces a sum below \<open>2 * BASE\<close>.\<close>

lemma cond_sub_mod:
  "unat a < 2 * 65521 \<Longrightarrow> unat (if a \<ge> BASE then a - BASE else a) = unat a mod 65521"
  by (simp add: BASE_def word_le_nat_alt unat_sub mod_if)

lemma raw_fst_bound: "fst (foldl raw_step p xs) \<le> fst p + 255 * length xs"
proof (induction xs arbitrary: p)
  case (Cons b xs)
  show ?case
    using Cons [of "raw_step p b"] unat_byte_le [of b] by (cases p) simp
qed simp

lemma short_bound:
  assumes "below_base (unat_sums st)" "length xs < 16" "foldl add_byte st xs = (a, s)"
  shows "unat a < 2 * 65521"
proof -
  have "unat_sums (a, s) = foldl raw_step (unat_sums st) xs"
    using assms foldl_add_byte [of xs st] room_NMAX [of "unat_sums st" "length xs"]
    by (simp add: NMAX_def)
  then have "unat a \<le> fst (unat_sums st) + 255 * length xs"
    using raw_fst_bound [of "unat_sums st" xs] by (metis fst_conv unat_sums_def)
  with assms(1,2) show ?thesis by (auto simp: below_base_def)
qed

lemma unat_sums_parts: "unat_sums (low16 x, high16 x) = parts x"
  by (simp add: unat_sums_def parts_def)

lemma adler32_one:
  assumes "canonical x" "buf \<noteq> []"
  shows "adler32 x (Some buf) 1 = Some (pack (adler_ref (parts x) (take 1 buf)))"
proof -
  obtain b rest where buf: "buf = b # rest" using assms(2) by (cases buf) auto
  let ?a = "low16 x + ucast b" and ?red = "\<lambda>a. if a \<ge> BASE then a - BASE else a"
  have lim: "unat (low16 x) < 65521" "unat (high16 x) < 65521" "unat b \<le> 255"
    using assms(1) unat_byte_le [of b] by (auto simp: canonical_def word_unat_less_iff BASE_def)
  then have a: "unat ?a = unat (low16 x) + unat b"
    by (subst unat_add_no_wrap) simp_all
  then have a': "unat (?red ?a) = (unat (low16 x) + unat b) mod 65521"
    using lim by (subst cond_sub_mod) simp_all
  let ?s = "high16 x + ?red ?a"
  have s: "unat ?s = unat (high16 x) + unat (?red ?a)"
    using lim a' by (intro unat_add_no_wrap) (simp add: mod_if split: if_splits)
  have "unat (?red ?s) = (unat (high16 x) + unat (?red ?a)) mod 65521"
    using lim a' s by (subst cond_sub_mod) (simp_all add: mod_if split: if_splits)
  then have "unat_sums (?red ?a, ?red ?s) = adler_ref (parts x) [b]"
    using a' by (simp add: unat_sums_def adler_ref_def parts_def Let_def)
  then have "recombine (?red ?a, ?red ?s) = pack (adler_ref (parts x) [b])"
    by (rule recombine_pack)
  then show ?thesis by (simp add: adler32_def buf Let_def)
qed

lemma adler32_short:
  assumes "canonical x" "unat len \<le> length buf" "unat len < 16" "unat len \<noteq> 1"
  shows "adler32 x (Some buf) len = Some (pack (adler_ref (parts x) (take (unat len) buf)))"
proof -
  let ?xs = "take (unat len) buf"
  obtain a s where st: "foldl add_byte (low16 x, high16 x) ?xs = (a, s)" by fastforce
  have base: "below_base (unat_sums (low16 x, high16 x))"
    using assms(1) by (simp add: canonical_parts unat_sums_parts)
  have "unat a < 2 * 65521" using short_bound [OF base _ st] assms by simp
  then have "unat_sums (if a \<ge> BASE then a - BASE else a, MOD4 s) = reduce (unat_sums (a, s))"
    using cond_sub_mod [of a] by (simp add: unat_sums_def reduce_def MOD4_def MOD_def [symmetric] unat_MOD)
  also have "\<dots> = adler_ref (parts x) ?xs"
    using block_ref [OF base, of ?xs] assms(3) by (simp add: st NMAX_def unat_sums_parts)
  finally have "recombine (if a \<ge> BASE then a - BASE else a, MOD4 s) = pack (adler_ref (parts x) ?xs)"
    by (rule recombine_pack)
  then show ?thesis
    using assms(2-4) by (simp add: adler32_def byte_loop_in st Let_def)
qed

lemma adler32_long:
  assumes "canonical x" "unat len \<le> length buf" "16 \<le> unat len"
  shows "adler32 x (Some buf) len = Some (pack (adler_ref (parts x) (take (unat len) buf)))"
proof -
  let ?st = "(low16 x, high16 x)" and ?n = "unat len"
  have base: "below_base (unat_sums ?st)"
    using assms(1) by (simp add: canonical_parts unat_sums_parts)
  obtain k a s where k: "nmax_loop ?n buf ?st = Some (?n - k, drop k buf, a, s)" "k \<le> ?n"
      "?n - k < NMAX" and ref: "unat_sums (a, s) = adler_ref (parts x) (take k buf)"
    using nmax_loop_in [OF assms(2) base] by (auto simp: unat_sums_parts)
  have base': "below_base (unat_sums (a, s))"
    using ref assms(1) by (simp add: below_base_ref canonical_parts)
  show ?thesis
  proof (cases "?n - k = 0")
    case True
    then have "take ?n buf = take k buf" using k(2) by simp
    then show ?thesis using assms(3) k(1) True recombine_pack [OF ref] by (simp add: adler32_def Let_def)
  next
    case False
    let ?m = "?n - k" and ?buf = "drop k buf"
    have len: "?m \<le> length ?buf" using assms(2) by simp
    obtain j where j: "sixteen_loop ?m ?buf (a, s) =
        Some (?m - j, drop j ?buf, foldl add_byte (a, s) (take j ?buf))" "j \<le> ?m"
      using sixteen_loop_in [OF len] by blast
    obtain a' s' where st': "foldl add_byte (a, s) (take ?m ?buf) = (a', s')" by fastforce
    have "take ?m ?buf = take j ?buf @ take (?m - j) (drop j ?buf)"
      using j(2) by (metis le_add_diff_inverse take_add)
    then have "byte_loop (?m - j) (drop j ?buf) (foldl add_byte (a, s) (take j ?buf)) = Some (a', s')"
      using byte_loop_in [of "?m - j" "drop j ?buf"] len st' by simp
    moreover have "unat_sums (MOD a', MOD s') = adler_ref (parts x) (take ?n buf)"
    proof -
      have "take ?n buf = take k buf @ take ?m ?buf"
        using k(2) by (metis le_add_diff_inverse take_add)
      then show ?thesis
        using block_ref [OF base', of "take ?m ?buf"] k(3)
        by (simp add: unat_sums_MOD st' ref adler_ref_append)
    qed
    ultimately show ?thesis
      using assms(3) k(1) False j(1) recombine_pack by (simp add: adler32_def Let_def)
  qed
qed

lemma adler32_eq_ref:
  assumes "canonical x" "unat len \<le> length buf"
  shows "adler32 x (Some buf) len = Some (pack (adler_ref (parts x) (take (unat len) buf)))"
proof (cases "unat len = 1")
  case True
  then have "len = 1" by (simp add: word_unat_eq_iff)
  moreover have "buf \<noteq> []" using assms(2) True by auto
  ultimately show ?thesis using adler32_one [OF assms(1)] by simp
next
  case False
  with assms show ?thesis by (cases "unat len < 16") (simp_all add: adler32_short adler32_long)
qed

section \<open>Streaming\<close>

definition adler32_update :: "ulong \<Rightarrow> byte list \<Rightarrow> ulong option" where
  "adler32_update c xs = adler32 c (Some xs) (of_nat (length xs))"

lemma adler32_update_ref:
  "canonical c \<Longrightarrow> fits xs \<Longrightarrow> adler32_update c xs = Some (pack (adler_ref (parts c) xs))"
  by (simp add: adler32_update_def fits_def adler32_eq_ref unat_of_nat)

interpretation adler: checksum adler32_update canonical 1
proof unfold_locales
  show "canonical 1" by (simp add: canonical_def low16_def high16_def BASE_def)
next
  fix c xs assume "canonical c" "fits xs"
  then show "\<exists>c'. adler32_update c xs = Some c' \<and> canonical c'"
    by (simp add: adler32_update_ref canonical_parts parts_pack below_base_ref)
next
  fix c assume "canonical c"
  then show "adler32_update c [] = Some c"
    by (simp add: adler32_update_ref fits_def adler_ref_def pack_parts)
next
  fix c xs ys assume c: "canonical c" and f: "fits (xs @ ys)"
  then have "fits xs" "fits ys" by (simp_all add: fits_def)
  with c f show "adler32_update c (xs @ ys) =
      do { c \<leftarrow> adler32_update c xs; adler32_update c ys }"
    by (simp add: adler32_update_ref canonical_pack below_base_ref canonical_parts adler_ref_append
        parts_pack)
qed

section \<open>Combining two checksums\<close>

text \<open>The sums are affine in their start values.\<close>

lemma raw_affine:
  "foldl raw_step (a, s) ys =
   (a + fst (foldl raw_step (0, 0) ys), s + length ys * a + snd (foldl raw_step (0, 0) ys))"
proof (induction ys arbitrary: a s)
  case (Cons b ys)
  show ?case
    by (simp add: Cons [of "a + unat b"] Cons [of "unat b"] algebra_simps)
qed simp

definition combined_mod :: "nat \<times> nat \<Rightarrow> nat \<times> nat \<Rightarrow> nat \<Rightarrow> nat \<times> nat" where
  "combined_mod p q n =
    ((fst p + fst q + 65520) mod 65521,
     (n * fst p + snd p + snd q + 65521 - n mod 65521) mod 65521)"

lemma adler_ref_raw: "below_base p \<Longrightarrow> adler_ref p ys = reduce (foldl raw_step p ys)"
  by (simp add: reduce_foldl_raw reduce_id)

lemma mod_cong_nat: "(m :: nat) mod c = n mod c \<longleftrightarrow> int m mod int c = int n mod int c"
  by (metis of_nat_eq_iff of_nat_mod)

lemma mod_add_middle: "(a + x mod m + c) mod m = (a + x + c) mod (m :: nat)"
  by (metis mod_add_left_eq mod_add_right_eq)

lemma mod_add_sub: "(u + x mod m - y mod m) mod m = (u + x - y) mod (m :: int)"
  by (metis mod_add_right_eq mod_diff_left_eq mod_diff_right_eq)

lemma adler_ref_combined:
  assumes "below_base (a, s)"
  shows "adler_ref (a, s) ys = combined_mod (a, s) (adler_ref (1, 0) ys) (length ys)"
proof -
  obtain A S where raw: "foldl raw_step (0, 0) ys = (A, S)" by fastforce
  let ?n = "length ys"
  have one: "adler_ref (1, 0) ys = ((1 + A) mod 65521, (?n + S) mod 65521)"
    by (subst adler_ref_raw) (simp_all add: below_base_def raw_affine [of "Suc 0"] raw reduce_def)
  have lhs: "adler_ref (a, s) ys = ((a + A) mod 65521, (s + ?n * a + S) mod 65521)"
    by (subst adler_ref_raw [OF assms]) (simp add: raw_affine [of a s] raw reduce_def)
  have "(a + (1 + A) mod 65521 + 65520) mod 65521 = ((a + A) + 65521) mod 65521"
    by (subst mod_add_middle) (rule arg_cong [where f = "\<lambda>v. v mod 65521"], simp)
  also have "\<dots> = (a + A) mod 65521" by (rule mod_add_self2)
  finally have fst_eq: "(a + (1 + A) mod 65521 + 65520) mod 65521 = (a + A) mod 65521" .
  have "(?n * a + s + (?n + S) mod 65521 + 65521 - ?n mod 65521) mod 65521 = (s + ?n * a + S) mod 65521"
  proof -
    have "?n mod 65521 \<le> ?n * a + s + (?n + S) mod 65521 + 65521"
      by (rule trans_le_add2) simp
    then have "int (?n * a + s + (?n + S) mod 65521 + 65521 - ?n mod 65521) =
        int (?n * a + s + 65521) + int (?n + S) mod 65521 - int ?n mod 65521"
      by (simp add: of_nat_diff of_nat_mod)
    then have "int (?n * a + s + (?n + S) mod 65521 + 65521 - ?n mod 65521) mod 65521 =
        (int (s + ?n * a + S) + 65521) mod 65521"
      unfolding \<open>int _ = _\<close> mod_add_sub by (simp add: algebra_simps)
    then show ?thesis by (simp add: mod_cong_nat)
  qed
  with fst_eq show ?thesis unfolding combined_mod_def one lhs by simp
qed

text \<open>
  What \<open>adler32_combine\<close> returns: the right residues, but with \<open>65521\<close> in place of
  \<open>0\<close>, because the final corrections compare with \<open>>\<close> and not with \<open>\<ge>\<close>.
\<close>

definition base_for_zero :: "nat \<Rightarrow> nat" where
  "base_for_zero v = (if v = 0 then 65521 else v)"

lemma cond_gt:
  "unat (if v > BASE then v - BASE else v) = (if unat v > 65521 then unat v - 65521 else unat v)"
  by (simp add: BASE_def word_less_nat_alt word_le_nat_alt unat_sub)

lemma cond_gt2:
  "unat (if v > push_bit 1 BASE then v - push_bit 1 BASE else v) =
   (if unat v > 131042 then unat v - 131042 else unat v)"
  by (simp add: BASE_def word_less_nat_alt word_le_nat_alt unat_sub)

lemma mod_three:
  "v < 3 * c \<Longrightarrow> v mod c = (if v < c then v else if v < 2 * c then v - c else v - 2 * c)"
  for v c :: nat
  by (simp add: mod_if) arith

lemma mod_four:
  "v < 4 * c \<Longrightarrow> v mod c = (if v < c then v else if v < 2 * c then v - c
     else if v < 3 * c then v - 2 * c else v - 3 * c)"
  for v c :: nat
  by (simp add: mod_if) arith

lemma two_sub_residue:
  fixes v :: nat
  assumes "0 < v" "v < 3 * 65521" "w = (if v > 65521 then v - 65521 else v)"
  shows "(if w > 65521 then w - 65521 else w) = base_for_zero (v mod 65521)"
  using assms by (simp add: base_for_zero_def mod_three split: if_splits)

lemma sub2_residue:
  fixes v :: nat
  assumes "0 < v" "v < 4 * 65521" "w = (if v > 131042 then v - 131042 else v)"
  shows "(if w > 65521 then w - 65521 else w) = base_for_zero (v mod 65521)"
  using assms by (simp add: base_for_zero_def mod_four split: if_splits)

lemma unat_mult_no_wrap:
  fixes a b :: "'a::len word"
  shows "unat a * unat b < 2 ^ LENGTH('a) \<Longrightarrow> unat (a * b) = unat a * unat b"
  by (simp add: unat_word_ariths)

lemma combine_parts:
  assumes "canonical x" "canonical y"
  shows "parts (adler32_combine x y n) =
    map_prod base_for_zero base_for_zero (combined_mod (parts x) (parts y) (unat n))"
proof -
  define a b c d where "a = low16 x" and "b = high16 x" and "c = low16 y" and "d = high16 y"
  define r where "r = n mod BASE"
  note lim = assms [unfolded canonical_def word_unat_less_iff, folded a_def b_def c_def d_def]
  have B: "unat BASE = 65521" by (simp add: BASE_def)
  have lim: "unat a < 65521" "unat b < 65521" "unat c < 65521" "unat d < 65521"
    using lim by (simp_all add: B)
  have r: "unat r = unat n mod 65521" by (simp add: r_def unat_mod B)
  then have r_lt: "unat r < 65521" by simp
  have "unat r * unat a \<le> 65520 * 65520" using r_lt lim by (intro mult_le_mono) simp_all
  then have ra: "unat (MOD (r * a)) = (unat r * unat a) mod 65521"
    by (simp add: unat_MOD unat_mult_no_wrap)
  define s1 where "s1 = a + (c + BASE - 1)"
  define s2 where "s2 = MOD (r * a) + (b + d + BASE - r)"
  have s1: "unat s1 = unat a + unat c + 65520"
  proof -
    have "s1 = a + (c + 65520)" by (simp add: s1_def BASE_def)
    moreover have "unat (c + 65520) = unat c + 65520"
      using lim by (subst unat_add_no_wrap) simp_all
    ultimately show ?thesis using lim unat_add_no_wrap [of a "c + 65520"] by simp
  qed
  have s2: "unat s2 = (unat r * unat a) mod 65521 + (unat b + unat d + 65521 - unat r)"
  proof -
    have "unat (b + d) = unat b + unat d" using lim by (intro unat_add_no_wrap) simp
    then have bd: "unat (b + d + BASE) = unat b + unat d + 65521"
      using lim by (subst unat_add_no_wrap) (simp_all add: B)
    then have bd_r: "unat (b + d + BASE - r) = unat b + unat d + 65521 - unat r"
      using r_lt by (subst unat_sub) (simp_all add: word_le_nat_alt)
    moreover have "(unat r * unat a) mod 65521 < 65521" by simp
    ultimately have "unat (MOD (r * a)) + unat (b + d + BASE - r) < 2 ^ LENGTH(32)"
      using lim unfolding ra by simp
    then show ?thesis unfolding s2_def by (subst unat_add_no_wrap) (simp_all add: ra bd_r)
  qed
  define w1 where "w1 = (if s1 > BASE then s1 - BASE else s1)"
  define w2 where "w2 = (if s2 > push_bit 1 BASE then s2 - push_bit 1 BASE else s2)"
  define z1 where "z1 = (if w1 > BASE then w1 - BASE else w1)"
  define z2 where "z2 = (if w2 > BASE then w2 - BASE else w2)"
  have w1: "unat w1 = (if unat s1 > 65521 then unat s1 - 65521 else unat s1)"
    unfolding w1_def by (rule cond_gt)
  have w2: "unat w2 = (if unat s2 > 131042 then unat s2 - 131042 else unat s2)"
    unfolding w2_def by (rule cond_gt2)
  have z1: "unat z1 = base_for_zero ((unat a + unat c + 65520) mod 65521)"
    unfolding z1_def cond_gt using lim w1 by (intro two_sub_residue) (simp_all add: s1)
  have "(unat r * unat a) mod 65521 < 65521" by simp
  then have z2: "unat z2 = base_for_zero (unat s2 mod 65521)"
    unfolding z2_def cond_gt using lim r_lt
    by (intro sub2_residue [OF _ _ w2]) (simp_all add: s2)
  have "(unat r * unat a) mod 65521 = (unat n * unat a) mod 65521" by (simp add: r mod_simps)
  then have "int (unat s2) = int (unat b + unat d + 65521) + int (unat n * unat a) mod 65521
      - int (unat n) mod 65521"
    unfolding s2 using r_lt by (simp only: r of_nat_add of_nat_diff of_nat_mod) (simp add: of_nat_mod)
  then have "int (unat s2) mod 65521 = int (unat n * unat a + unat b + unat d + 65521 - unat r) mod 65521"
    using r_lt by (simp only: mod_add_sub) (simp add: r of_nat_diff of_nat_mod mod_diff_right_eq algebra_simps)
  then have s2_mod: "unat s2 mod 65521 = (unat n * unat a + unat b + unat d + 65521 - unat r) mod 65521"
    by (simp add: mod_cong_nat)
  have small: "base_for_zero (v mod 65521) < 65536" for v
    by (simp add: base_for_zero_def less_trans [OF mod_less_divisor])
  have "adler32_combine x y n = recombine (z1, z2)"
    by (simp only: adler32_combine_def recombine_def Let_def prod.case z1_def z2_def w1_def w2_def
        s1_def s2_def r_def a_def b_def c_def d_def low16_def high16_def)
  then have "parts (adler32_combine x y n) = (unat z1, unat z2)"
    by (simp add: parts_def low16_recombine high16_recombine z1 z2 small)
  then show ?thesis
    by (simp add: z1 z2 s2_mod combined_mod_def parts_def a_def b_def c_def d_def r)
qed

section \<open>The division-free reductions\<close>

lemma mod_sub_multiple: "m * c \<le> a \<Longrightarrow> (a - m * c) mod m = a mod (m :: nat)"
  by (metis le_add_diff_inverse2 mod_mult_self2)

lemma unat_push_BASE: "k \<le> 16 \<Longrightarrow> unat (push_bit k BASE) = 65521 * 2 ^ k"
proof -
  assume "k \<le> 16"
  then have "(65521 :: nat) * 2 ^ k \<le> 65521 * 2 ^ 16" by (intro mult_le_mono2 power_increasing) simp_all
  then show ?thesis
    by (subst unat_push_no_wrap) (simp_all add: BASE_def)
qed

lemma unat_sub_chain:
  "k \<le> 16 \<Longrightarrow> unat a < 65521 * 2 ^ Suc k \<Longrightarrow> unat (sub_chain k a) = unat a mod 65521"
proof (induction k arbitrary: a)
  case 0
  then have "unat a < 2 * 65521" by simp
  then show ?case unfolding sub_chain.simps by (rule cond_sub_mod)
next
  case (Suc k)
  let ?p = "push_bit (Suc k) BASE" and ?a = "if a \<ge> push_bit (Suc k) BASE then a - push_bit (Suc k) BASE else a"
  define P :: nat where "P = 65521 * 2 ^ Suc k"
  have "unat ?p = P" unfolding P_def using Suc.prems by (intro unat_push_BASE) simp
  then have a: "unat ?a = (if P \<le> unat a then unat a - P else unat a)"
    by (simp only: word_le_nat_alt unat_sub if_distrib [of unat] cong: if_cong)
  moreover have "unat a < 2 * P" using Suc.prems by (simp add: P_def)
  ultimately have "unat ?a < P" unfolding a by auto
  with Suc have "unat (sub_chain k ?a) = unat ?a mod 65521" unfolding P_def by simp
  also have "\<dots> = unat a mod 65521"
    unfolding a using mod_sub_multiple [of 65521 "2 ^ Suc k" "unat a"] by (simp add: P_def)
  finally show ?case by simp
qed

section \<open>Properties\<close>

text \<open>
  C9. From a canonical check value (both halves below 65521, as every value the code
  produces), \<open>adler32\<close> reads exactly the first \<open>len\<close> bytes and returns the Adler-32 value of
  the reference, which reduces after every byte: no 32-bit sum wraps between the deferred
  reductions, on the one-byte, the short, the whole-block and the remainder path alike.
\<close>

theorem adler32_correct:
  assumes "canonical x" "unat len \<le> length buf"
  shows "adler32 x (Some buf) len = Some (pack (adler_ref (parts x) (take (unat len) buf))) \<and>
    canonical (pack (adler_ref (parts x) (take (unat len) buf)))"
  using assms
  by (simp add: adler32_eq_ref canonical_pack below_base_ref canonical_parts [symmetric])

text \<open>A block of \<open>NMAX\<close> bytes 255, the largest sums the code ever holds.\<close>

theorem adler32_correct_witness:
  "adler32 1 (Some (replicate 5552 255)) 5552 = Some (pack (adler_ref (parts 1) (replicate 5552 255)))"
proof -
  have "canonical 1" by (simp add: canonical_def low16_def high16_def BASE_def)
  from adler32_correct [OF this, of 5552 "replicate 5552 255"] show ?thesis
    by simp
qed

text \<open>
  The check value of a stream does not depend on how the data is cut into pieces: feeding
  the pieces one by one gives the Adler-32 value of their concatenation.
\<close>

theorem adler32_streaming:
  assumes "fits (concat ps)"
  shows "feed adler32_update 1 ps = Some (pack (adler_ref (1, 0) (concat ps)))"
proof -
  have "feed adler32_update 1 ps = adler32_update 1 (concat ps)"
    by (rule adler.feed_concat [OF adler.valid_init assms])
  also have "\<dots> = Some (pack (adler_ref (parts 1) (concat ps)))"
    by (rule adler32_update_ref [OF adler.valid_init assms])
  also have "parts 1 = (1, 0)" by (simp add: parts_def low16_def high16_def)
  finally show ?thesis .
qed

theorem adler32_streaming_witness:
  "feed adler32_update 1 [[97], [98, 99]] = Some (pack (adler_ref (1, 0) [97, 98, 99]))"
  using adler32_streaming [of "[[97], [98, 99]]"] by (simp add: fits_def)

text \<open>
  C19. What \<open>adler32_combine\<close> computes from the check values of two blocks: the check value of
  their concatenation, except that a half which should be 0 comes out as 65521.
\<close>

theorem adler32_combine_value:
  assumes "fits (xs @ ys)" "adler32_update 1 xs = Some x" "adler32_update 1 ys = Some y"
  shows "parts (adler32_combine x y (of_nat (length ys))) =
    map_prod base_for_zero base_for_zero (adler_ref (1, 0) (xs @ ys))"
proof -
  have fits: "fits xs" "fits ys" using assms(1) by (simp_all add: fits_def)
  have one: "parts 1 = (1, 0)" by (simp add: parts_def low16_def high16_def)
  have x: "x = pack (adler_ref (1, 0) xs)" and y: "y = pack (adler_ref (1, 0) ys)"
    using assms fits adler32_update_ref [OF adler.valid_init] by (simp_all add: one)
  obtain a s where as: "adler_ref (1, 0) xs = (a, s)" by fastforce
  have base: "below_base (adler_ref (1, 0) zs)" for zs
    by (rule below_base_ref) (simp add: below_base_def)
  have "canonical x" "canonical y" using base by (simp_all add: x y canonical_pack)
  then have "parts (adler32_combine x y (of_nat (length ys))) = map_prod base_for_zero base_for_zero
      (combined_mod (adler_ref (1, 0) xs) (adler_ref (1, 0) ys) (length ys))"
    using fits
    by (simp add: combine_parts x y base parts_pack fits_def unat_of_nat del: One_nat_def)
  also have "combined_mod (adler_ref (1, 0) xs) (adler_ref (1, 0) ys) (length ys) =
      adler_ref (1, 0) (xs @ ys)"
    using adler_ref_combined [of a s ys] base [of xs] unfolding as adler_ref_append by simp
  finally show ?thesis .
qed

text \<open>
  At this input the second half of the sum of the 32 bytes is 0 and the combined value has
  65521 there: it is not the check value of the concatenation, nor a canonical one.
\<close>

definition combine_bytes :: "byte list" where
  "combine_bytes =
    [255, 255, 255, 255, 255, 255, 255, 255, 255, 255, 255, 255, 255, 255,
     255, 255, 255, 255, 255, 255, 255, 255, 255, 255, 255, 255, 255, 39, 0, 0, 0]"

theorem adler32_combine_value_witness:
  "\<exists>x y. adler32_update 1 combine_bytes = Some x \<and> adler32_update 1 [0] = Some y \<and>
     parts (adler32_combine x y 1) = (6925, 65521) \<and>
     adler32_update 1 (combine_bytes @ [0]) = Some (pack (6925, 0))"
proof -
  have fits: "fits (combine_bytes @ [0])" "fits combine_bytes" "fits [0]"
    by (simp_all add: fits_def combine_bytes_def)
  have one: "parts 1 = (1, 0)" by (simp add: parts_def low16_def high16_def)
  have ref: "adler_ref (1, 0) (combine_bytes @ [0]) = (6925, 0)"
    by (simp add: adler_ref_def combine_bytes_def Let_def)
  obtain x y where xy: "adler32_update 1 combine_bytes = Some x" "adler32_update 1 [0] = Some y"
    using adler.update_defined [OF adler.valid_init] fits by blast
  have "adler32_update 1 (combine_bytes @ [0]) = Some (pack (6925, 0))"
    using adler32_update_ref [OF adler.valid_init fits(1)] by (simp add: one ref del: One_nat_def)
  moreover have "parts (adler32_combine x y 1) = (6925, 65521)"
    using adler32_combine_value [OF fits(1) xy] by (simp add: ref base_for_zero_def del: One_nat_def)
  ultimately show ?thesis using xy by blast
qed

text \<open>
  The chains of conditional subtractions used where the processor does not divide compute
  the same residues: \<open>MOD\<close> for every 32-bit sum, \<open>MOD4\<close> for the sums of fewer than 16 bytes
  that it is applied to.
\<close>

theorem MOD_no_divide_eq:
  "MOD_no_divide a = MOD a \<and> (unat a < 65521 * 32 \<longrightarrow> MOD4_no_divide a = MOD4 a)"
proof -
  have "unat a < 65521 * 2 ^ Suc 16" using unsigned_less [of a, where ?'a = nat] by simp
  then have "unat (MOD_no_divide a) = unat (MOD a)"
    by (simp add: MOD_no_divide_def unat_sub_chain unat_MOD)
  moreover have "unat (MOD4_no_divide a) = unat (MOD4 a)" if "unat a < 65521 * 32"
    using that by (simp add: MOD4_no_divide_def MOD4_def unat_sub_chain MOD_def [symmetric] unat_MOD)
  ultimately show ?thesis by (simp add: word_unat_eq_iff)
qed

theorem MOD_no_divide_eq_witness: "MOD4_no_divide 1048576 = MOD4 1048576"
  using MOD_no_divide_eq [of 1048576] by simp

text \<open>
  The null pointer: \<open>zlib.h\<close> promises the initial value 1, but for \<open>len = 1\<close> the code
  dereferences \<open>buf\<close> before it compares it with \<open>Z_NULL\<close>.
\<close>

lemma adler32_null: "adler32 x None len = (if len = 1 then None else Some 1)"
proof -
  have "unat len = 1 \<longleftrightarrow> len = 1" by (simp add: word_unat_eq_iff)
  then show ?thesis by (simp add: adler32_def Let_def)
qed

end
