(* ===== verification/Crc32.thy ===== *)
theory Crc32
  imports Checksum Crc_Tables
begin

text \<open>
  \<^verbatim>\<open>src/AOS/aos/zlib/crc32.c\<close>: the CRC-32 check value a byte at a time, four
  bytes at a time on either byte order, the generation of the tables, and the combination of
  two check values by squaring matrices over GF(2). The reference is the shift register, one
  bit per step.
\<close>

section \<open>The code\<close>

text \<open>\<open>REV\<close>, the byte reversal of a \<open>u4\<close>.\<close>

definition REV :: "ulong \<Rightarrow> ulong" where
  "REV w = drop_bit 24 w + (drop_bit 8 w AND 0xff00) + push_bit 8 (w AND 0xff00)
     + push_bit 24 (w AND 0xff)"

subsection \<open>\<open>make_crc_table\<close>\<close>

text \<open>The exponents of the polynomial and the exclusive-or pattern made from them.\<close>

definition poly_terms :: "nat list" where
  "poly_terms = [0, 1, 2, 4, 5, 7, 8, 10, 11, 12, 16, 22, 23, 26]"

definition make_poly :: ulong where
  "make_poly = foldl (\<lambda>poly e. poly OR push_bit (31 - e) 1) 0 poly_terms"

text \<open>\<open>c = c & 1 ? poly ^ (c >> 1) : c >> 1\<close>, eight times for each entry of the first table.\<close>

definition table_step :: "ulong \<Rightarrow> ulong \<Rightarrow> ulong" where
  "table_step poly c = (if c AND 1 \<noteq> 0 then poly XOR drop_bit 1 c else drop_bit 1 c)"

definition first_table :: "ulong list" where
  "first_table = map (\<lambda>n. (table_step make_poly ^^ 8) (of_nat n)) [0..<256]"

text \<open>\<open>c = crc_table[0][c & 0xff] ^ (c >> 8)\<close>: the next of the tables 1 to 3.\<close>

definition next_table_entry :: "ulong list \<Rightarrow> ulong \<Rightarrow> ulong" where
  "next_table_entry t0 c = t0 ! unat (c AND 0xff) XOR drop_bit 8 c"

definition make_tables :: "ulong list list" where
  "make_tables =
    (let t0 = first_table;
         rows = map (\<lambda>k. map (\<lambda>c. (next_table_entry t0 ^^ k) c) t0) [0..<4]
     in rows @ map (map REV) rows)"

text \<open>
  The static variables of the \<open>DYNAMIC_CRC_TABLE\<close> build and the guards of
  \<open>make_crc_table\<close> and \<open>get_crc_table\<close>. A caller that is not the first waits for
  \<open>crc_table_empty\<close> to fall; \<open>None\<close> is waiting for ever, which is what a single thread that
  found the tables still empty would do.
\<close>

record crc_state =
  first_use :: bool
  crc_table_empty :: bool
  dyn_crc_table :: "ulong list list"

definition init_crc_state :: crc_state where
  "init_crc_state = \<lparr>first_use = True, crc_table_empty = True, dyn_crc_table = replicate 8 (replicate 256 0)\<rparr>"

definition make_crc_table :: "crc_state \<Rightarrow> crc_state option" where
  "make_crc_table s =
    (if first_use s then
       Some (s\<lparr>first_use := False, dyn_crc_table := make_tables, crc_table_empty := False\<rparr>)
     else if crc_table_empty s then None
     else Some s)"

definition get_crc_table :: "crc_state \<Rightarrow> (crc_state \<times> ulong list list) option" where
  "get_crc_table s =
    (do { s \<leftarrow> if crc_table_empty s then make_crc_table s else Some s;
          Some (s, dyn_crc_table s) })"

subsection \<open>\<open>crc32\<close>\<close>

definition tab :: "nat \<Rightarrow> ulong \<Rightarrow> ulong" where
  "tab k i = crc_table ! k ! unat i"

text \<open>\<open>DO1\<close> of the portable loop, and the byte steps of the two word versions.\<close>

definition CRC_DO1 :: "ulong \<Rightarrow> byte \<Rightarrow> ulong" where
  "CRC_DO1 crc b = tab 0 ((crc XOR ucast b) AND 0xff) XOR drop_bit 8 crc"

definition big_byte :: "ulong \<Rightarrow> byte \<Rightarrow> ulong" where
  "big_byte c b = tab 4 (drop_bit 24 c XOR ucast b) XOR push_bit 8 c"

text \<open>A \<open>u4\<close> read from memory in the two byte orders.\<close>

definition load_little :: "byte \<Rightarrow> byte \<Rightarrow> byte \<Rightarrow> byte \<Rightarrow> ulong" where
  "load_little b0 b1 b2 b3 = ucast b0 OR push_bit 8 (ucast b1) OR push_bit 16 (ucast b2)
     OR push_bit 24 (ucast b3)"

definition load_big :: "byte \<Rightarrow> byte \<Rightarrow> byte \<Rightarrow> byte \<Rightarrow> ulong" where
  "load_big b0 b1 b2 b3 = load_little b3 b2 b1 b0"

fun DOLIT4 :: "ulong \<Rightarrow> byte list \<Rightarrow> (ulong \<times> byte list) option" where
  "DOLIT4 c (b0 # b1 # b2 # b3 # buf) =
    (let c = c XOR load_little b0 b1 b2 b3 in
     Some (tab 3 (c AND 0xff) XOR tab 2 (drop_bit 8 c AND 0xff) XOR tab 1 (drop_bit 16 c AND 0xff)
       XOR tab 0 (drop_bit 24 c), buf))"
| "DOLIT4 c _ = None"

fun DOBIG4 :: "ulong \<Rightarrow> byte list \<Rightarrow> (ulong \<times> byte list) option" where
  "DOBIG4 c (b0 # b1 # b2 # b3 # buf) =
    (let c = c XOR load_big b0 b1 b2 b3 in
     Some (tab 4 (c AND 0xff) XOR tab 5 (drop_bit 8 c AND 0xff) XOR tab 6 (drop_bit 16 c AND 0xff)
       XOR tab 7 (drop_bit 24 c), buf))"
| "DOBIG4 c _ = None"

text \<open>A macro repeated, as \<open>DOLIT32\<close> and \<open>DOBIG32\<close> repeat their word step eight times.\<close>

type_synonym crc_do = "ulong \<Rightarrow> byte list \<Rightarrow> (ulong \<times> byte list) option"

fun repeat_do :: "nat \<Rightarrow> crc_do \<Rightarrow> crc_do" where
  "repeat_do 0 f c buf = Some (c, buf)"
| "repeat_do (Suc k) f c buf = do { (c, buf) \<leftarrow> f c buf; repeat_do k f c buf }"

definition DOLIT32 :: crc_do where "DOLIT32 = repeat_do 8 DOLIT4"
definition DOBIG32 :: crc_do where "DOBIG32 = repeat_do 8 DOBIG4"

text \<open>\<open>while (len && ((ptrdiff_t)buf & 3))\<close>: single bytes up to an aligned address.\<close>

fun align_loop :: "(ulong \<Rightarrow> byte \<Rightarrow> ulong) \<Rightarrow> nat \<Rightarrow> nat \<Rightarrow> ulong \<Rightarrow> byte list \<Rightarrow>
    (nat \<times> ulong \<times> byte list) option" where
  "align_loop f addr 0 c buf = Some (0, c, buf)"
| "align_loop f addr (Suc len) c buf =
    (if addr mod 4 \<noteq> 0 then
       do { (b, buf) \<leftarrow> next_item buf; align_loop f (addr + 1) len (f c b) buf }
     else Some (Suc len, c, buf))"

text \<open>\<open>while (len >= n) { DO; len -= n; }\<close>\<close>

function chunk_loop :: "nat \<Rightarrow> crc_do \<Rightarrow> nat \<Rightarrow> ulong \<Rightarrow> byte list \<Rightarrow>
    (nat \<times> ulong \<times> byte list) option" where
  "chunk_loop n f len c buf =
    (if 0 < n \<and> n \<le> len then do { (c, buf) \<leftarrow> f c buf; chunk_loop n f (len - n) c buf }
     else Some (len, c, buf))"
  by pat_completeness auto
termination by (relation "measure (\<lambda>(n, f, len, c, buf). len)") auto

declare chunk_loop.simps [simp del] upt_rec_numeral [simp del]

text \<open>\<open>if (len) do { ... } while (--len)\<close>: the remaining bytes.\<close>

fun tail_loop :: "(ulong \<Rightarrow> byte \<Rightarrow> ulong) \<Rightarrow> nat \<Rightarrow> ulong \<Rightarrow> byte list \<Rightarrow> ulong option" where
  "tail_loop f 0 c buf = Some c"
| "tail_loop f (Suc len) c buf = do { (b, buf) \<leftarrow> next_item buf; tail_loop f len (f c b) buf }"

definition crc32_little :: "nat \<Rightarrow> ulong \<Rightarrow> byte list \<Rightarrow> nat \<Rightarrow> ulong option" where
  "crc32_little addr crc buf len =
    do { (len, c, buf) \<leftarrow> align_loop CRC_DO1 addr len (NOT crc) buf;
         (len, c, buf) \<leftarrow> chunk_loop 32 DOLIT32 len c buf;
         (len, c, buf) \<leftarrow> chunk_loop 4 DOLIT4 len c buf;
         c \<leftarrow> tail_loop CRC_DO1 len c buf;
         Some (NOT c) }"

definition crc32_big :: "nat \<Rightarrow> ulong \<Rightarrow> byte list \<Rightarrow> nat \<Rightarrow> ulong option" where
  "crc32_big addr crc buf len =
    do { (len, c, buf) \<leftarrow> align_loop big_byte addr len (NOT (REV crc)) buf;
         (len, c, buf) \<leftarrow> chunk_loop 32 DOBIG32 len c buf;
         (len, c, buf) \<leftarrow> chunk_loop 4 DOBIG4 len c buf;
         c \<leftarrow> tail_loop big_byte len c buf;
         Some (REV (NOT c)) }"

text \<open>The body without \<open>BYFOUR\<close>: eight bytes at a time through the same byte step.\<close>

definition CRC_DO8 :: crc_do where
  "CRC_DO8 = repeat_do 8 (\<lambda>c buf. do { (b, buf) \<leftarrow> next_item buf; Some (CRC_DO1 c b, buf) })"

definition crc32_bytes :: "ulong \<Rightarrow> byte list \<Rightarrow> nat \<Rightarrow> ulong option" where
  "crc32_bytes crc buf len =
    do { (len, crc, buf) \<leftarrow> chunk_loop 8 CRC_DO8 len (crc XOR 0xffffffff) buf;
         crc \<leftarrow> tail_loop CRC_DO1 len crc buf;
         Some (crc XOR 0xffffffff) }"

text \<open>
  The build and the machine: without \<open>BYFOUR\<close>, or with it on a machine of either byte order,
  which the code finds out by looking at the first byte of a \<open>u4\<close> that is 1.
\<close>

datatype crc_build = NoByFour | Little | Big

definition crc32 :: "crc_build \<Rightarrow> nat \<Rightarrow> ulong \<Rightarrow> byte list option \<Rightarrow> uint \<Rightarrow> ulong option" where
  "crc32 build addr crc buf len =
    (case buf of None \<Rightarrow> Some 0
     | Some buf \<Rightarrow>
         (case build of
            NoByFour \<Rightarrow> crc32_bytes crc buf (unat len)
          | Little \<Rightarrow> crc32_little addr crc buf (unat len)
          | Big \<Rightarrow> crc32_big addr crc buf (unat len)))"

subsection \<open>\<open>crc32_combine\<close>\<close>

text \<open>
  A matrix is the list of its columns. \<open>gf2_matrix_times\<close> walks the columns while bits of
  the vector remain; reading a column that is not there is \<open>None\<close>.
\<close>

function times_loop :: "ulong list \<Rightarrow> ulong \<Rightarrow> ulong \<Rightarrow> ulong option" where
  "times_loop mat vec acc =
    (if vec = 0 then Some acc
     else do { acc \<leftarrow> if vec AND 1 \<noteq> 0 then map_option (\<lambda>m. acc XOR m) (peek mat 0) else Some acc;
               times_loop (drop 1 mat) (drop_bit 1 vec) acc })"
  by pat_completeness auto
termination
proof (relation "measure (\<lambda>(mat, vec, acc). unat vec)")
  fix mat :: "ulong list" and vec acc x :: ulong
  assume "vec \<noteq> 0"
  then have "0 < unat vec" by (simp add: unat_gt_0)
  then show "((drop 1 mat, drop_bit 1 vec, x), mat, vec, acc) \<in> measure (\<lambda>(mat, vec, acc). unat vec)"
    by (simp add: unat_drop_bit del: drop_bit_eq_div)
qed auto

declare times_loop.simps [simp del]

definition gf2_matrix_times :: "ulong list \<Rightarrow> ulong \<Rightarrow> ulong option" where
  "gf2_matrix_times mat vec = times_loop mat vec 0"

text \<open>\<open>for (n = 0; n < GF2_DIM; n++) square[n] = gf2_matrix_times(mat, mat[n]);\<close>\<close>

fun square_columns :: "ulong list \<Rightarrow> nat \<Rightarrow> nat \<Rightarrow> ulong list option" where
  "square_columns mat n 0 = Some []"
| "square_columns mat n (Suc k) =
    do { col \<leftarrow> peek mat n; v \<leftarrow> gf2_matrix_times mat col;
         vs \<leftarrow> square_columns mat (Suc n) k; Some (v # vs) }"

definition gf2_matrix_square :: "ulong list \<Rightarrow> ulong list option" where
  "gf2_matrix_square mat = square_columns mat 0 32"

text \<open>The operator for one zero bit.\<close>

definition one_zero_bit :: "ulong list" where
  "one_zero_bit = 0xedb88320 # map (\<lambda>n. push_bit n 1) [0..<31]"

text \<open>
  The loop over the bits of \<open>len2\<close>, two per round. \<open>z_off_t\<close> is signed and \<open>>>=\<close> on it
  is arithmetic; \<open>None\<close> is a loop that does not end.
\<close>

partial_function (option) combine_loop :: "ulong list \<Rightarrow> ulong \<Rightarrow> int \<Rightarrow> ulong option" where
  "combine_loop odd_op crc1 len2 =
    do { even_op \<leftarrow> gf2_matrix_square odd_op;
         crc1 \<leftarrow> if len2 AND 1 \<noteq> 0 then gf2_matrix_times even_op crc1 else Some crc1;
         let len2 = drop_bit 1 len2;
         if len2 = 0 then Some crc1
         else do {
           odd_op \<leftarrow> gf2_matrix_square even_op;
           crc1 \<leftarrow> if len2 AND 1 \<noteq> 0 then gf2_matrix_times odd_op crc1 else Some crc1;
           let len2 = drop_bit 1 len2;
           if len2 = 0 then Some crc1 else combine_loop odd_op crc1 len2 } }"

definition crc32_combine :: "ulong \<Rightarrow> ulong \<Rightarrow> int \<Rightarrow> ulong option" where
  "crc32_combine crc1 crc2 len2 =
    (if len2 = 0 then Some crc1
     else do { even_op \<leftarrow> gf2_matrix_square one_zero_bit;
               odd_op \<leftarrow> gf2_matrix_square even_op;
               crc1 \<leftarrow> combine_loop odd_op crc1 len2;
               Some (crc1 XOR crc2) })"

section \<open>Linear operators over GF(2)\<close>

text \<open>
  What the tables, the matrices and the combination rest on: an operator on 32-bit vectors
  that respects exclusive or. The client facts are proved from that law alone.
\<close>

lemma word_split_low: "(c :: ulong) = take_bit n c XOR push_bit n (drop_bit n c)"
  by (rule bit_word_eqI) (auto simp: bit_simps)

definition bit_at :: "ulong \<Rightarrow> nat \<Rightarrow> ulong" where
  "bit_at v i = (if bit v i then push_bit i 1 else 0)"

lemma split_bit: "push_bit i (drop_bit i v) = bit_at v i XOR push_bit (Suc i) (drop_bit (Suc i) v)"
proof (rule bit_word_eqI)
  fix n assume "n < LENGTH(32)"
  consider "n < i" | "n = i" | m where "n = Suc (i + m)"
    using less_imp_Suc_add linorder_cases by metis
  then show "bit (push_bit i (drop_bit i v)) n =
      bit (bit_at v i XOR push_bit (Suc i) (drop_bit (Suc i) v)) n"
    using \<open>n < LENGTH(32)\<close>
    by cases (simp_all add: bit_simps bit_at_def del: push_bit_Suc)
qed

lemma nat_bit_small: "n < 2 ^ k \<Longrightarrow> bit (n :: nat) i \<Longrightarrow> i < k"
  by (metis bit_take_bit_iff take_bit_nat_eq_self)

text \<open>A table of all values by doubling: entry \<open>n + 2^k\<close> is entry \<open>n\<close> with column \<open>k\<close> added.\<close>

fun doubling :: "ulong list \<Rightarrow> ulong list \<Rightarrow> ulong list" where
  "doubling t [] = t"
| "doubling t (b # bs) = doubling (t @ map (\<lambda>x. x XOR b) t) bs"

locale gf2_operator =
  fixes f :: "ulong \<Rightarrow> ulong"
  assumes respects_xor: "f (a XOR b) = f a XOR f b"
begin

lemma zero: "f 0 = 0"
  using respects_xor [of 0 0] by simp

lemma low_part: "f c = f (take_bit n c) XOR f (push_bit n (drop_bit n c))"
  by (subst word_split_low [of c n]) (rule respects_xor)

lemma doubling_eq:
  assumes "k + length bs \<le> 32" "bs = map (\<lambda>i. f (push_bit i 1)) [k..<k + length bs]"
    "t = map (\<lambda>n. f (of_nat n)) [0..<2 ^ k]"
  shows "doubling t bs = map (\<lambda>n. f (of_nat n)) [0..<2 ^ (k + length bs)]"
  using assms
proof (induction bs arbitrary: t k)
  case Nil
  then show ?case by simp
next
  case (Cons b bs)
  have "[k..<k + length (b # bs)] = k # [Suc k..<Suc k + length bs]"
    using upt_conv_Cons [of k "k + length (b # bs)"] by simp
  then have b: "b = f (push_bit k 1)" and bs: "bs = map (\<lambda>i. f (push_bit i 1)) [Suc k..<Suc k + length bs]"
    using Cons.prems(2) by simp_all
  have low: "2 ^ k + of_nat n = of_nat n XOR (2 ^ k :: ulong)" if "n < 2 ^ k" for n
  proof -
    have "\<not> bit n k" using that nat_bit_small by blast
    then have "of_nat n AND push_bit k (1 :: ulong) = 0"
      by (intro bit_word_eqI) (auto simp: bit_simps bit_of_nat_iff)
    then have "of_nat n XOR push_bit k (1 :: ulong) = of_nat n + push_bit k 1"
      by (simp add: disjunctive_add_eq_xor [symmetric])
    then show ?thesis by simp
  qed
  have "map (\<lambda>n. f (of_nat n)) [2 ^ k..<2 ^ Suc k] = map (\<lambda>n. f (of_nat (2 ^ k + n))) [0..<2 ^ k]"
    by (rule nth_equalityI) simp_all
  also have "\<dots> = map (\<lambda>x. x XOR b) t"
    by (auto simp: Cons.prems(3) b low respects_xor)
  finally have upper: "map (\<lambda>n. f (of_nat n)) [2 ^ k..<2 ^ Suc k] = map (\<lambda>x. x XOR b) t" .
  have "[0..<2 ^ k + 2 ^ k] = [0..<2 ^ k] @ [2 ^ k..<2 ^ k + 2 ^ k]"
    by (rule upt_add_eq_append) simp
  then have "[0..<2 ^ Suc k] = [0..<2 ^ k] @ [2 ^ k..<(2 :: nat) ^ Suc k]"
    by (simp add: mult_2)
  then have "t @ map (\<lambda>x. x XOR b) t = map (\<lambda>n. f (of_nat n)) [0..<2 ^ Suc k]"
    by (simp only: map_append upper Cons.prems(3) [symmetric])
  from Cons.IH [OF _ bs this] show ?case using Cons.prems(1) by simp
qed

end

section \<open>The shift register\<close>

abbreviation crc_step :: "ulong \<Rightarrow> ulong" where
  "crc_step \<equiv> table_step 0xedb88320"

text \<open>\<open>n\<close> steps of the register, that is, \<open>n\<close> zero bits.\<close>

definition shift :: "nat \<Rightarrow> ulong \<Rightarrow> ulong" where
  "shift n = crc_step ^^ n"

lemma make_poly_value: "make_poly = 0xedb88320"
  by (simp add: make_poly_def poly_terms_def)

lemma and_one_iff: "(c :: 'a::len word) AND 1 \<noteq> 0 \<longleftrightarrow> bit c 0"
  by (simp add: and_one_eq bit_0 mod_2_eq_odd)

lemma table_step_xor: "table_step p (a XOR b) = table_step p a XOR table_step p b"
  by (rule bit_word_eqI) (auto simp: table_step_def and_one_iff bit_simps)

interpretation shift: gf2_operator "shift n" for n
proof unfold_locales
  show "shift n (a XOR b) = shift n a XOR shift n b" for a b
    unfolding shift_def by (induction n) (simp_all add: table_step_xor)
qed

lemma shift_0 [simp]: "shift 0 c = c"
  by (simp add: shift_def)

lemma shift_add: "shift (m + n) c = shift m (shift n c)"
  by (simp add: shift_def funpow_add)

lemma shift_Suc: "shift (Suc n) c = shift n (crc_step c)"
  by (simp add: shift_def funpow_swap1)

text \<open>While only zeros are shifted out the register is just shifted.\<close>

lemma shift_high: "n \<le> 32 \<Longrightarrow> take_bit n c = 0 \<Longrightarrow> shift n c = drop_bit n c"
proof (induction n arbitrary: c)
  case (Suc n)
  have bits: "\<not> bit c i" if "i < Suc n" for i
    using Suc.prems(2) that by (metis bit_0_eq bit_take_bit_iff bot_apply bot_bool_def)
  then have "crc_step c = drop_bit 1 c" by (simp add: table_step_def and_one_iff)
  moreover have "take_bit n (drop_bit 1 c) = 0"
    by (rule bit_word_eqI) (auto simp: bit_simps bits)
  ultimately show ?case using Suc.IH [of "drop_bit 1 c"] Suc.prems(1)
    by (simp add: shift_Suc drop_bit_drop_bit)
qed simp

lemma shift_push: "n \<le> 32 \<Longrightarrow> shift n (push_bit n (drop_bit n c)) = drop_bit n c"
proof -
  assume n: "n \<le> 32"
  have "take_bit n (push_bit n (drop_bit n c)) = 0"
    by (rule bit_word_eqI) (auto simp: bit_simps)
  then have "shift n (push_bit n (drop_bit n c)) = drop_bit n (push_bit n (drop_bit n c))"
    by (rule shift_high [OF n])
  also have "\<dots> = drop_bit n c"
    by (rule bit_word_eqI) (auto simp: bit_simps dest: bit_imp_le_length)
  finally show ?thesis .
qed

text \<open>One byte of the register at a time.\<close>

lemma shift_8: "shift 8 c = shift 8 (take_bit 8 c) XOR drop_bit 8 c"
  by (subst shift.low_part [of 8 c 8]) (simp add: shift_push)

section \<open>The tables are what \<open>make_crc_table\<close> generates\<close>

lemma first_table_shift: "first_table = map (\<lambda>n. shift 8 (of_nat n)) [0..<256]"
  by (simp add: first_table_def make_poly_value shift_def)

lemma nth_first_table: "unat i < 256 \<Longrightarrow> first_table ! unat i = shift 8 i"
  by (simp add: first_table_shift)

lemma next_table_entry_shift: "next_table_entry first_table c = shift 8 c"
proof -
  have "unat (take_bit 8 c) < 256" by (simp add: unat_take_bit)
  then show ?thesis
    using nth_first_table [of "take_bit 8 c"]
    by (simp add: next_table_entry_def and_mask_8 shift_8 [of c])
qed

lemma table_row: "map (\<lambda>c. (next_table_entry first_table ^^ k) c) first_table =
    map (\<lambda>n. shift (8 * k + 8) (of_nat n)) [0..<256]"
proof -
  have "(next_table_entry first_table ^^ k) c = shift (8 * k) c" for c
    by (induction k arbitrary: c) (simp_all add: next_table_entry_shift shift_add)
  then show ?thesis by (simp add: first_table_shift shift_add)
qed

text \<open>\<open>REV\<close>, byte by byte.\<close>

lemma and_ff00: "w AND 0xff00 = push_bit 8 (take_bit 8 (drop_bit 8 (w :: ulong)))"
proof -
  have "(0xff00 :: ulong) = push_bit 8 (mask 8)" by (simp add: mask_numeral)
  then show ?thesis
    unfolding \<open>(0xff00 :: ulong) = _\<close>
    by (intro bit_word_eqI) (auto simp: bit_simps dest!: le_Suc_ex)
qed

text \<open>A bit position of a 32-bit word is a position in one of its four bytes.\<close>

lemma byte_position:
  assumes "n < (32 :: nat)"
  obtains m where "m < 8" "n = m" | m where "m < 8" "n = 8 + m" | m where "m < 8" "n = 16 + m"
    | m where "m < 8" "n = 24 + m"
proof -
  consider "n < 8" | "8 \<le> n" "n < 16" | "16 \<le> n" "n < 24" | "24 \<le> n" by linarith
  then show thesis
    using that(1) [of n] that(2) [of "n - 8"] that(3) [of "n - 16"] that(4) [of "n - 24"] assms
    by cases simp_all
qed

lemma REV_or: "REV w = drop_bit 24 w OR push_bit 8 (take_bit 8 (drop_bit 16 w))
    OR push_bit 16 (take_bit 8 (drop_bit 8 w)) OR push_bit 24 (take_bit 8 w)"
proof -
  let ?a = "drop_bit 24 w" and ?b = "push_bit 8 (take_bit 8 (drop_bit 16 w))"
    and ?c = "push_bit 16 (take_bit 8 (drop_bit 8 w))" and ?d = "push_bit 24 (take_bit 8 w)"
  have b: "drop_bit 8 w AND 0xff00 = ?b" and c: "push_bit 8 (w AND 0xff00) = ?c"
    and d: "push_bit 24 (w AND 0xff) = ?d"
    by (simp_all add: and_ff00 and_mask_8 drop_bit_drop_bit push_bit_push_bit)
  have "?a AND ?b = 0" by (rule bit_word_eqI) (simp add: bit_simps bit_beyond)
  then have ab: "?a + ?b = ?a OR ?b" by (rule disjunctive_add_eq_or)
  have "(?a OR ?b) AND ?c = 0" by (rule bit_word_eqI) (simp add: bit_simps bit_beyond)
  then have abc: "(?a OR ?b) + ?c = ?a OR ?b OR ?c" by (simp only: disjunctive_add_eq_or or.assoc)
  have "(?a OR ?b OR ?c) AND ?d = 0" by (rule bit_word_eqI) (simp add: bit_simps bit_beyond)
  then have "(?a OR ?b OR ?c) + ?d = ?a OR ?b OR ?c OR ?d" by (simp only: disjunctive_add_eq_or or.assoc)
  then show ?thesis unfolding REV_def b c d ab abc .
qed

lemma bit_REV:
  assumes "m < 8"
  shows "bit (REV w) m = bit w (24 + m)" "bit (REV w) (8 + m) = bit w (16 + m)"
    "bit (REV w) (16 + m) = bit w (8 + m)" "bit (REV w) (24 + m) = bit w m"
  using assms by (simp_all add: REV_or bit_simps bit_beyond)

lemma word32_eqI:
  assumes "\<And>m. m < 8 \<Longrightarrow> bit a m = bit b m \<and> bit a (8 + m) = bit b (8 + m) \<and>
    bit a (16 + m) = bit b (16 + m) \<and> bit a (24 + m) = bit b (24 + m)"
  shows "a = (b :: ulong)"
proof (rule bit_word_eqI)
  fix n assume "n < LENGTH(32)"
  then have "n < 32" by simp
  then show "bit a n = bit b n" by (cases n rule: byte_position) (simp_all add: assms)
qed

lemma REV_xor: "REV (a XOR b) = REV a XOR REV b"
  by (rule word32_eqI) (simp add: bit_REV bit_xor_iff)

lemma REV_REV: "REV (REV a) = a"
  by (rule word32_eqI) (simp add: bit_REV)

lemma REV_NOT: "REV (NOT a) = NOT (REV a)"
  by (rule word32_eqI) (simp add: bit_REV bit_not_iff)

interpretation rev_shift: gf2_operator "\<lambda>c. REV (shift n c)" for n
  by unfold_locales (simp add: shift.respects_xor REV_xor)

lemma doubled_table:
  assumes "gf2_operator f"
  shows "doubling [0] (map (\<lambda>i. f (push_bit i 1)) [0..<8]) = map (\<lambda>n. f (of_nat n)) [0..<256]"
  using gf2_operator.doubling_eq [OF assms, of 0 "map (\<lambda>i. f (push_bit i 1)) [0..<8]" "[0]"]
  by (simp add: gf2_operator.zero [OF assms])

text \<open>
  The columns of each table, that is, its entries at the powers of two; the header's table is
  their doubling. Both are evaluated by the simplifier.
\<close>

definition columns_0 :: "ulong list" where
  "columns_0 = [0x77073096, 0xee0e612c, 0x076dc419, 0x0edb8832,
     0x1db71064, 0x3b6e20c8, 0x76dc4190, 0xedb88320]"

definition columns_1 :: "ulong list" where
  "columns_1 = [0x191b3141, 0x32366282, 0x646cc504, 0xc8d98a08,
     0x4ac21251, 0x958424a2, 0xf0794f05, 0x3b83984b]"

definition columns_2 :: "ulong list" where
  "columns_2 = [0x01c26a37, 0x0384d46e, 0x0709a8dc, 0x0e1351b8,
     0x1c26a370, 0x384d46e0, 0x709a8dc0, 0xe1351b80]"

definition columns_3 :: "ulong list" where
  "columns_3 = [0xb8bc6765, 0xaa09c88b, 0x8f629757, 0xc5b428ef,
     0x5019579f, 0xa032af3e, 0x9b14583d, 0xed59b63b]"

definition columns_4 :: "ulong list" where
  "columns_4 = [0x96300777, 0x2c610eee, 0x19c46d07, 0x3288db0e,
     0x6410b71d, 0xc8206e3b, 0x9041dc76, 0x2083b8ed]"

definition columns_5 :: "ulong list" where
  "columns_5 = [0x41311b19, 0x82623632, 0x04c56c64, 0x088ad9c8,
     0x5112c24a, 0xa2248495, 0x054f79f0, 0x4b98833b]"

definition columns_6 :: "ulong list" where
  "columns_6 = [0x376ac201, 0x6ed48403, 0xdca80907, 0xb851130e,
     0x70a3261c, 0xe0464d38, 0xc08d9a70, 0x801b35e1]"

definition columns_7 :: "ulong list" where
  "columns_7 = [0x6567bcb8, 0x8bc809aa, 0x5797628f, 0xef28b4c5,
     0x9f571950, 0x3eaf32a0, 0x3d58149b, 0x3bb659ed]"

lemma shift_8_unfold:
  "shift 8 c = crc_step (crc_step (crc_step (crc_step (crc_step (crc_step (crc_step (crc_step c)))))))"
  by (simp add: shift_def numeral_eq_Suc)

lemma powers_of_two: "map (\<lambda>i. f (push_bit i 1)) [0..<8] = map f [1, 2, 4, 8, 16, 32, 64, 128 :: ulong]"
  by (simp add: upt_rec)

lemma columns_0_eq: "map (shift 8) [1, 2, 4, 8, 16, 32, 64, 128] = columns_0"
  by (simp add: shift_8_unfold table_step_def columns_0_def)

lemma columns_1_eq: "map (shift 8) columns_0 = columns_1"
  by (simp add: shift_8_unfold table_step_def columns_0_def columns_1_def)

lemma columns_2_eq: "map (shift 8) columns_1 = columns_2"
  by (simp add: shift_8_unfold table_step_def columns_1_def columns_2_def)

lemma columns_3_eq: "map (shift 8) columns_2 = columns_3"
  by (simp add: shift_8_unfold table_step_def columns_2_def columns_3_def)

lemma columns_4_eq: "map REV columns_0 = columns_4"
  by (simp add: REV_def columns_0_def columns_4_def)

lemma columns_5_eq: "map REV columns_1 = columns_5"
  by (simp add: REV_def columns_1_def columns_5_def)

lemma columns_6_eq: "map REV columns_2 = columns_6"
  by (simp add: REV_def columns_2_def columns_6_def)

lemma columns_7_eq: "map REV columns_3 = columns_7"
  by (simp add: REV_def columns_3_def columns_7_def)

lemma doubling_0: "doubling [0] columns_0 = crc_table_0"
  by (simp add: columns_0_def crc_table_0_def)

lemma doubling_1: "doubling [0] columns_1 = crc_table_1"
  by (simp add: columns_1_def crc_table_1_def)

lemma doubling_2: "doubling [0] columns_2 = crc_table_2"
  by (simp add: columns_2_def crc_table_2_def)

lemma doubling_3: "doubling [0] columns_3 = crc_table_3"
  by (simp add: columns_3_def crc_table_3_def)

lemma doubling_4: "doubling [0] columns_4 = crc_table_4"
  by (simp add: columns_4_def crc_table_4_def)

lemma doubling_5: "doubling [0] columns_5 = crc_table_5"
  by (simp add: columns_5_def crc_table_5_def)

lemma doubling_6: "doubling [0] columns_6 = crc_table_6"
  by (simp add: columns_6_def crc_table_6_def)

lemma doubling_7: "doubling [0] columns_7 = crc_table_7"
  by (simp add: columns_7_def crc_table_7_def)

lemma columns_shift:
  "map (\<lambda>i. shift 8 (push_bit i 1)) [0..<8] = columns_0"
  "map (\<lambda>i. shift 16 (push_bit i 1)) [0..<8] = columns_1"
  "map (\<lambda>i. shift 24 (push_bit i 1)) [0..<8] = columns_2"
  "map (\<lambda>i. shift 32 (push_bit i 1)) [0..<8] = columns_3"
proof -
  have step: "map (\<lambda>i. shift (8 + n) (push_bit i 1)) [0..<8] =
      map (shift 8) (map (\<lambda>i. shift n (push_bit i 1)) [0..<8])" for n
    by (simp add: shift_add)
  show c0: "map (\<lambda>i. shift 8 (push_bit i 1)) [0..<8] = columns_0"
    by (simp only: powers_of_two columns_0_eq)
  show c1: "map (\<lambda>i. shift 16 (push_bit i 1)) [0..<8] = columns_1"
    using step [of 8] by (simp only: c0 columns_1_eq) simp
  show c2: "map (\<lambda>i. shift 24 (push_bit i 1)) [0..<8] = columns_2"
    using step [of 16] by (simp only: c1 columns_2_eq) simp
  show "map (\<lambda>i. shift 32 (push_bit i 1)) [0..<8] = columns_3"
    using step [of 24] by (simp only: c2 columns_3_eq) simp
qed

lemma columns_rev_shift:
  "map (\<lambda>i. REV (shift 8 (push_bit i 1))) [0..<8] = columns_4"
  "map (\<lambda>i. REV (shift 16 (push_bit i 1))) [0..<8] = columns_5"
  "map (\<lambda>i. REV (shift 24 (push_bit i 1))) [0..<8] = columns_6"
  "map (\<lambda>i. REV (shift 32 (push_bit i 1))) [0..<8] = columns_7"
proof -
  have rev: "map (\<lambda>i. REV (shift n (push_bit i 1))) [0..<8] =
      map REV (map (\<lambda>i. shift n (push_bit i 1)) [0..<8])" for n
    by simp
  show "map (\<lambda>i. REV (shift 8 (push_bit i 1))) [0..<8] = columns_4"
    "map (\<lambda>i. REV (shift 16 (push_bit i 1))) [0..<8] = columns_5"
    "map (\<lambda>i. REV (shift 24 (push_bit i 1))) [0..<8] = columns_6"
    "map (\<lambda>i. REV (shift 32 (push_bit i 1))) [0..<8] = columns_7"
    by (simp_all only: rev columns_shift columns_4_eq columns_5_eq columns_6_eq columns_7_eq)
qed

lemmas shift_row = doubled_table [OF shift.gf2_operator_axioms]
lemmas rev_shift_row = doubled_table [OF rev_shift.gf2_operator_axioms]

lemma crc_table_rows:
  "crc_table_0 = map (\<lambda>n. shift 8 (of_nat n)) [0..<256]"
  "crc_table_1 = map (\<lambda>n. shift 16 (of_nat n)) [0..<256]"
  "crc_table_2 = map (\<lambda>n. shift 24 (of_nat n)) [0..<256]"
  "crc_table_3 = map (\<lambda>n. shift 32 (of_nat n)) [0..<256]"
  "crc_table_4 = map (\<lambda>n. REV (shift 8 (of_nat n))) [0..<256]"
  "crc_table_5 = map (\<lambda>n. REV (shift 16 (of_nat n))) [0..<256]"
  "crc_table_6 = map (\<lambda>n. REV (shift 24 (of_nat n))) [0..<256]"
  "crc_table_7 = map (\<lambda>n. REV (shift 32 (of_nat n))) [0..<256]"
  by (rule shift_row [of 8, unfolded columns_shift doubling_0],
      rule shift_row [of 16, unfolded columns_shift doubling_1],
      rule shift_row [of 24, unfolded columns_shift doubling_2],
      rule shift_row [of 32, unfolded columns_shift doubling_3],
      rule rev_shift_row [of 8, unfolded columns_rev_shift doubling_4],
      rule rev_shift_row [of 16, unfolded columns_rev_shift doubling_5],
      rule rev_shift_row [of 24, unfolded columns_rev_shift doubling_6],
      rule rev_shift_row [of 32, unfolded columns_rev_shift doubling_7])

lemma make_tables_rows:
  "make_tables = map (\<lambda>k. map (\<lambda>n. shift (8 * k + 8) (of_nat n)) [0..<256]) [0..<4]
     @ map (\<lambda>k. map (\<lambda>n. REV (shift (8 * k + 8) (of_nat n))) [0..<256]) [0..<4]"
  by (simp only: make_tables_def Let_def table_row) simp

lemma crc_table_generated: "crc_table = make_tables"
proof -
  have "[0..<4] = [0, 1, 2, 3 :: nat]" by (simp add: upt_rec)
  then show ?thesis by (simp add: make_tables_rows crc_table_def crc_table_rows)
qed

text \<open>The lookups of the code, with indices below 256.\<close>

lemma tab_shift:
  assumes "k < 4" "unat i < 256"
  shows "tab k i = shift (8 * k + 8) i" "tab (4 + k) i = REV (shift (8 * k + 8) i)"
  using assms by (simp_all add: tab_def crc_table_generated make_tables_rows nth_append)

section \<open>The loops compute the shift register\<close>

definition reg_byte :: "ulong \<Rightarrow> byte \<Rightarrow> ulong" where
  "reg_byte c b = shift 8 (c XOR ucast b)"

definition crc_ref :: "ulong \<Rightarrow> byte list \<Rightarrow> ulong" where
  "crc_ref = foldl reg_byte"

lemma drop_bit_8_byte: "drop_bit 8 (ucast (b :: byte) :: ulong) = 0"
  by (rule bit_word_eqI) (simp add: bit_simps bit_byte_beyond)

lemma CRC_DO1_reg: "CRC_DO1 c b = reg_byte c b"
proof -
  have "unat (take_bit 8 (c XOR ucast b)) < 256"
    using unat_take_bit_less [of 8 "c XOR ucast b"] by simp
  then show ?thesis
    using tab_shift(1) [of 0 "take_bit 8 (c XOR ucast b)"] shift_8 [of "c XOR ucast b"]
    by (simp add: CRC_DO1_def reg_byte_def and_mask_8 drop_bit_8_byte del: take_bit_xor)
qed

lemma big_byte_reg: "big_byte (REV c) b = REV (reg_byte c b)"
proof -
  have idx: "drop_bit 24 (REV c) XOR ucast b = take_bit 8 (c XOR ucast b)"
    by (rule word32_eqI) (auto simp: bit_simps bit_REV bit_beyond bit_byte_beyond)
  have sh: "push_bit 8 (REV c) = REV (drop_bit 8 c)"
    by (rule word32_eqI) (auto simp: bit_simps bit_REV bit_beyond bit_byte_beyond)
  have "unat (take_bit 8 (c XOR ucast b)) < 256"
    using unat_take_bit_less [of 8 "c XOR ucast b"] by simp
  then show ?thesis
    using tab_shift(2) [of 0 "take_bit 8 (c XOR ucast b)"] shift_8 [of "c XOR ucast b"]
    by (simp add: big_byte_def reg_byte_def idx sh REV_xor drop_bit_8_byte del: take_bit_xor)
qed

lemma take_bit_push: "take_bit n (push_bit n (a :: ulong)) = 0"
  by (rule bit_word_eqI) (auto simp: bit_simps)

lemma shift_push_byte:
  assumes "n \<le> 24"
  shows "shift n (push_bit n (ucast (b :: byte))) = ucast b"
proof -
  have "shift n (push_bit n (ucast b)) = drop_bit n (push_bit n (ucast b :: ulong))"
    using assms by (intro shift_high take_bit_push) simp
  also have "\<dots> = ucast b"
  proof (rule bit_word_eqI)
    fix m assume "m < LENGTH(32)"
    then show "bit (drop_bit n (push_bit n (ucast b :: ulong))) m = bit (ucast b :: ulong) m"
      using assms by (cases "m < 8") (simp_all add: bit_simps bit_byte_beyond)
  qed
  finally show ?thesis .
qed

lemma reg_byte_shift:
  "n \<le> 24 \<Longrightarrow> reg_byte (shift n c) b = shift (8 + n) (c XOR push_bit n (ucast b))"
  using shift_push_byte [of n b] by (simp add: reg_byte_def shift_add shift.respects_xor)

lemma load_little_xor: "load_little b0 b1 b2 b3 = ucast b0 XOR push_bit 8 (ucast b1)
    XOR push_bit 16 (ucast b2) XOR push_bit 24 (ucast b3)"
  by (rule word32_eqI) (simp add: load_little_def bit_simps bit_byte_beyond)

lemma four_bytes: "foldl reg_byte c [b0, b1, b2, b3] = shift 32 (c XOR load_little b0 b1 b2 b3)"
  using reg_byte_shift [of 0 c b0] reg_byte_shift [of 8 "c XOR ucast b0" b1]
    reg_byte_shift [of 16 "c XOR ucast b0 XOR push_bit 8 (ucast b1)" b2]
    reg_byte_shift [of 24 "c XOR ucast b0 XOR push_bit 8 (ucast b1) XOR push_bit 16 (ucast b2)" b3]
  by (simp add: load_little_xor xor.assoc)

text \<open>The word step: the register after 32 bits is the sum of four table entries.\<close>

lemma shift_push_part:
  assumes "8 * k + 8 \<le> 32"
  shows "shift 32 (push_bit (8 * k) (take_bit 8 a)) = shift (32 - 8 * k) (take_bit 8 a)"
proof -
  have "shift (8 * k) (push_bit (8 * k) (take_bit 8 a)) = drop_bit (8 * k) (push_bit (8 * k) (take_bit 8 a))"
    using assms by (intro shift_high take_bit_push) simp
  also have "\<dots> = take_bit 8 a"
    using assms by (intro bit_word_eqI) (auto simp: bit_simps)
  finally show ?thesis
    using shift_add [of "32 - 8 * k" "8 * k" "push_bit (8 * k) (take_bit 8 a)"] assms by simp
qed

lemma split_bytes: "c = take_bit 8 c XOR push_bit 8 (take_bit 8 (drop_bit 8 c))
    XOR push_bit 16 (take_bit 8 (drop_bit 16 c)) XOR push_bit 24 (take_bit 8 (drop_bit 24 c))" for c :: ulong
  by (rule word32_eqI) (simp add: bit_simps)

lemma shift_32: "shift 32 c = shift 32 (take_bit 8 c) XOR shift 24 (take_bit 8 (drop_bit 8 c))
    XOR shift 16 (take_bit 8 (drop_bit 16 c)) XOR shift 8 (take_bit 8 (drop_bit 24 c))"
  using shift_push_part [of 1 "drop_bit 8 c"] shift_push_part [of 2 "drop_bit 16 c"]
    shift_push_part [of 3 "drop_bit 24 c"]
  by (subst split_bytes [of c]) (simp add: shift.respects_xor)

lemma tab_byte:
  assumes "k < 4"
  shows "tab k (take_bit 8 a) = shift (8 * k + 8) (take_bit 8 a)"
    "tab (4 + k) (take_bit 8 a) = REV (shift (8 * k + 8) (take_bit 8 a))"
  using tab_shift [OF assms, of "take_bit 8 a"] unat_take_bit_less [of 8 a] by simp_all

lemma take_drop_24: "take_bit 8 (drop_bit 24 (c :: ulong)) = drop_bit 24 c"
  by (rule word32_eqI) (simp add: bit_simps bit_beyond)

lemma DOLIT4_reg:
  "DOLIT4 c (b0 # b1 # b2 # b3 # buf) = Some (foldl reg_byte c [b0, b1, b2, b3], buf)"
proof -
  define C where "C = c XOR load_little b0 b1 b2 b3"
  have "tab 3 (take_bit 8 C) XOR tab 2 (take_bit 8 (drop_bit 8 C)) XOR
      tab 1 (take_bit 8 (drop_bit 16 C)) XOR tab 0 (drop_bit 24 C) = shift 32 C"
    using tab_byte(1) [of 0 "drop_bit 24 C"] tab_byte(1) [of 1 "drop_bit 16 C"]
      tab_byte(1) [of 2 "drop_bit 8 C"] tab_byte(1) [of 3 C]
    by (subst shift_32 [of C]) (simp add: take_drop_24)
  then show ?thesis
    by (simp only: four_bytes DOLIT4.simps Let_def and_mask_8 C_def [symmetric])
qed

lemma REV_load: "REV (load_little b0 b1 b2 b3) = load_big b0 b1 b2 b3"
  by (rule word32_eqI) (simp add: load_big_def load_little_def bit_REV bit_simps bit_byte_beyond)

lemma REV_parts:
  "take_bit 8 (REV c) = take_bit 8 (drop_bit 24 c)"
  "take_bit 8 (drop_bit 8 (REV c)) = take_bit 8 (drop_bit 16 c)"
  "take_bit 8 (drop_bit 16 (REV c)) = take_bit 8 (drop_bit 8 c)"
  "take_bit 8 (drop_bit 24 (REV c)) = take_bit 8 c"
  by (rule word32_eqI, simp add: bit_simps bit_REV)+

lemma DOBIG4_reg:
  "DOBIG4 (REV c) (b0 # b1 # b2 # b3 # buf) = Some (REV (foldl reg_byte c [b0, b1, b2, b3]), buf)"
proof -
  define C where "C = c XOR load_little b0 b1 b2 b3"
  have REV: "REV c XOR load_big b0 b1 b2 b3 = REV C" by (simp add: C_def REV_xor REV_load)
  have top: "drop_bit 24 (REV C) = take_bit 8 C"
    using REV_parts(4) [of C] take_drop_24 [of "REV C"] by simp
  have "tab 4 (take_bit 8 (REV C)) XOR tab 5 (take_bit 8 (drop_bit 8 (REV C))) XOR
      tab 6 (take_bit 8 (drop_bit 16 (REV C))) XOR tab 7 (drop_bit 24 (REV C)) = REV (shift 32 C)"
    using tab_byte(2) [of 0 "drop_bit 24 C"] tab_byte(2) [of 1 "drop_bit 16 C"]
      tab_byte(2) [of 2 "drop_bit 8 C"] tab_byte(2) [of 3 C]
    by (subst shift_32 [of C]) (simp add: REV_parts top REV_xor ac_simps)
  then show ?thesis
    by (simp only: four_bytes DOBIG4.simps Let_def and_mask_8 REV C_def [symmetric])
qed

text \<open>
  The loops, once for both byte orders: \<open>R\<close> is the form in which the register is kept, as it is
  or byte-reversed, and each step of the code is a step of the register under \<open>R\<close>.
\<close>

definition reads_all :: "(ulong \<Rightarrow> ulong) \<Rightarrow> nat \<Rightarrow> crc_do \<Rightarrow> bool" where
  "reads_all R n f \<longleftrightarrow> (\<forall>c buf. n \<le> length buf \<longrightarrow>
     f (R c) buf = Some (R (foldl reg_byte c (take n buf)), drop n buf))"

lemma reads_all_DOLIT4: "reads_all (\<lambda>c. c) 4 DOLIT4"
  unfolding reads_all_def
proof (intro allI impI)
  fix c and buf :: "byte list" assume "4 \<le> length buf"
  then obtain b0 b1 b2 b3 rest where "buf = b0 # b1 # b2 # b3 # rest"
    by (auto simp: numeral_eq_Suc Suc_le_length_iff)
  then show "DOLIT4 c buf = Some (foldl reg_byte c (take 4 buf), drop 4 buf)"
    using DOLIT4_reg by simp
qed

lemma reads_all_DOBIG4: "reads_all REV 4 DOBIG4"
  unfolding reads_all_def
proof (intro allI impI)
  fix c and buf :: "byte list" assume "4 \<le> length buf"
  then obtain b0 b1 b2 b3 rest where "buf = b0 # b1 # b2 # b3 # rest"
    by (auto simp: numeral_eq_Suc Suc_le_length_iff)
  then show "DOBIG4 (REV c) buf = Some (REV (foldl reg_byte c (take 4 buf)), drop 4 buf)"
    using DOBIG4_reg by simp
qed

lemma reads_all_repeat: "reads_all R n f \<Longrightarrow> reads_all R (k * n) (repeat_do k f)"
proof (induction k)
  case 0
  then show ?case by (simp add: reads_all_def)
next
  case (Suc k)
  show ?case unfolding reads_all_def
  proof (intro allI impI)
    fix c and buf :: "byte list" assume len: "Suc k * n \<le> length buf"
    then have "f (R c) buf = Some (R (foldl reg_byte c (take n buf)), drop n buf)"
      using Suc.prems by (auto simp: reads_all_def)
    moreover have "k * n \<le> length (drop n buf)" using len by simp
    ultimately show "repeat_do (Suc k) f (R c) buf =
        Some (R (foldl reg_byte c (take (Suc k * n) buf)), drop (Suc k * n) buf)"
      using Suc.IH [OF Suc.prems] by (auto simp: reads_all_def take_add add.commute)
  qed
qed

lemma chunk_loop_reads:
  assumes "reads_all R n f" "len \<le> length buf"
  shows "\<exists>k \<le> len. chunk_loop n f len (R c) buf =
    Some (len - k, R (foldl reg_byte c (take k buf)), drop k buf)"
  using assms(2)
proof (induction len arbitrary: c buf rule: less_induct)
  case (less len)
  show ?case
  proof (cases "0 < n \<and> n \<le> len")
    case True
    then have step: "f (R c) buf = Some (R (foldl reg_byte c (take n buf)), drop n buf)"
      using assms(1) less.prems by (simp add: reads_all_def)
    have "len - n < len" "len - n \<le> length (drop n buf)" using True less.prems by simp_all
    from less.IH [OF this] obtain k where k: "k \<le> len - n"
      "chunk_loop n f (len - n) (R (foldl reg_byte c (take n buf))) (drop n buf) =
       Some (len - n - k, R (foldl reg_byte (foldl reg_byte c (take n buf)) (take k (drop n buf))), drop k (drop n buf))"
      by blast
    have "foldl reg_byte (foldl reg_byte c (take n buf)) (take k (drop n buf)) =
        foldl reg_byte c (take (n + k) buf)"
      by (simp add: take_add)
    then have "chunk_loop n f len (R c) buf =
        Some (len - (n + k), R (foldl reg_byte c (take (n + k) buf)), drop (n + k) buf)"
      using True step k(2) by (subst chunk_loop.simps) (simp add: add.commute)
    moreover have "n + k \<le> len" using True k(1) by linarith
    ultimately show ?thesis by blast
  next
    case False
    then show ?thesis by (subst chunk_loop.simps) (auto intro!: exI [of _ 0])
  qed
qed

definition byte_reads :: "(ulong \<Rightarrow> ulong) \<Rightarrow> (ulong \<Rightarrow> byte \<Rightarrow> ulong) \<Rightarrow> bool" where
  "byte_reads R f \<longleftrightarrow> (\<forall>c b. f (R c) b = R (reg_byte c b))"

lemma tail_loop_reads:
  "byte_reads R f \<Longrightarrow> len \<le> length buf \<Longrightarrow>
   tail_loop f len (R c) buf = Some (R (foldl reg_byte c (take len buf)))"
proof (induction len arbitrary: c buf)
  case (Suc len)
  then show ?case by (cases buf) (simp_all add: byte_reads_def)
qed simp

lemma align_loop_reads:
  assumes "byte_reads R f" "len \<le> length buf"
  shows "\<exists>k \<le> len. align_loop f addr len (R c) buf =
    Some (len - k, R (foldl reg_byte c (take k buf)), drop k buf)"
  using assms(2)
proof (induction len arbitrary: addr c buf)
  case (Suc len)
  then obtain b rest where buf: "buf = b # rest" by (cases buf) auto
  show ?case
  proof (cases "addr mod 4 = 0")
    case False
    have "len \<le> length rest" using Suc.prems buf by simp
    from Suc.IH [OF this, of "addr + 1" "reg_byte c b"] obtain k where
      "k \<le> len" "align_loop f (addr + 1) len (R (reg_byte c b)) rest =
       Some (len - k, R (foldl reg_byte (reg_byte c b) (take k rest)), drop k rest)"
      by blast
    then show ?thesis using False assms(1) by (intro exI [of _ "Suc k"]) (simp add: buf byte_reads_def)
  qed (auto intro!: exI [of _ 0])
qed simp

text \<open>The three loops of a word version in sequence read the whole buffer.\<close>

lemma foldl_take_drop:
  "k \<le> len \<Longrightarrow> foldl f (foldl f c (take k buf)) (take (len - k) (drop k buf)) = foldl f c (take len buf)"
  by (metis foldl_append le_add_diff_inverse take_add)

lemma word_loops_read:
  assumes "byte_reads R g" "reads_all R 32 f32" "reads_all R 4 f4" "len \<le> length buf"
  shows "do { (len, c, buf) \<leftarrow> align_loop g addr len (R c) buf;
              (len, c, buf) \<leftarrow> chunk_loop 32 f32 len c buf;
              (len, c, buf) \<leftarrow> chunk_loop 4 f4 len c buf;
              c \<leftarrow> tail_loop g len c buf;
              Some (h c) } = Some (h (R (foldl reg_byte c (take len buf))))"
proof -
  obtain i where i: "i \<le> len" "align_loop g addr len (R c) buf =
      Some (len - i, R (foldl reg_byte c (take i buf)), drop i buf)"
    using align_loop_reads [OF assms(1,4)] by blast
  let ?c1 = "foldl reg_byte c (take i buf)" and ?b1 = "drop i buf" and ?l1 = "len - i"
  have l1: "?l1 \<le> length ?b1" using assms(4) by simp
  obtain j where j: "j \<le> ?l1" "chunk_loop 32 f32 ?l1 (R ?c1) ?b1 =
      Some (?l1 - j, R (foldl reg_byte ?c1 (take j ?b1)), drop j ?b1)"
    using chunk_loop_reads [OF assms(2) l1] by blast
  let ?c2 = "foldl reg_byte ?c1 (take j ?b1)" and ?b2 = "drop j ?b1" and ?l2 = "?l1 - j"
  have l2: "?l2 \<le> length ?b2" using l1 by simp
  obtain k where k: "k \<le> ?l2" "chunk_loop 4 f4 ?l2 (R ?c2) ?b2 =
      Some (?l2 - k, R (foldl reg_byte ?c2 (take k ?b2)), drop k ?b2)"
    using chunk_loop_reads [OF assms(3) l2] by blast
  let ?c3 = "foldl reg_byte ?c2 (take k ?b2)" and ?b3 = "drop k ?b2" and ?l3 = "?l2 - k"
  have l3: "?l3 \<le> length ?b3" using l2 by simp
  have tail: "tail_loop g ?l3 (R ?c3) ?b3 = Some (R (foldl reg_byte ?c3 (take ?l3 ?b3)))"
    by (rule tail_loop_reads [OF assms(1) l3])
  have "foldl reg_byte ?c3 (take ?l3 ?b3) = foldl reg_byte c (take len buf)"
    by (simp only: foldl_take_drop [OF k(1)] foldl_take_drop [OF j(1)] foldl_take_drop [OF i(1)])
  with tail show ?thesis by (simp only: i(2) j(2) k(2) Option.bind.simps prod.case)
qed

lemma byte_reads_versions: "byte_reads (\<lambda>c. c) CRC_DO1" "byte_reads REV big_byte"
  by (simp_all add: byte_reads_def CRC_DO1_reg big_byte_reg)

lemma reads_all_32: "reads_all (\<lambda>c. c) 32 DOLIT32" "reads_all REV 32 DOBIG32"
  using reads_all_repeat [OF reads_all_DOLIT4, of 8] reads_all_repeat [OF reads_all_DOBIG4, of 8]
  by (simp_all add: DOLIT32_def DOBIG32_def)

lemma reads_all_CRC_DO8: "reads_all (\<lambda>c. c) 8 CRC_DO8"
proof -
  have "reads_all (\<lambda>c. c) 1 (\<lambda>c buf. do { (b, buf) \<leftarrow> next_item buf; Some (CRC_DO1 c b, buf) })"
    unfolding reads_all_def
  proof (intro allI impI)
    fix c and buf :: "byte list" assume "1 \<le> length buf"
    then show "do { (b, buf) \<leftarrow> next_item buf; Some (CRC_DO1 c b, buf) } =
        Some (foldl reg_byte c (take 1 buf), drop 1 buf)"
      by (cases buf) (simp_all add: CRC_DO1_reg)
  qed
  from reads_all_repeat [OF this, of 8] show ?thesis by (simp add: CRC_DO8_def)
qed

lemma crc32_little_ref:
  "len \<le> length buf \<Longrightarrow> crc32_little addr crc buf len = Some (NOT (crc_ref (NOT crc) (take len buf)))"
  unfolding crc32_little_def crc_ref_def
  by (rule word_loops_read [where R = "\<lambda>c. c", OF byte_reads_versions(1) reads_all_32(1) reads_all_DOLIT4])

lemma crc32_big_ref:
  assumes "len \<le> length buf"
  shows "crc32_big addr crc buf len = Some (NOT (crc_ref (NOT crc) (take len buf)))"
  using word_loops_read [OF byte_reads_versions(2) reads_all_32(2) reads_all_DOBIG4 assms,
      where c = "NOT crc" and h = "\<lambda>c. REV (NOT c)" and addr = addr]
  unfolding crc32_big_def crc_ref_def REV_NOT REV_REV by simp

lemma xor_ones: "c XOR 0xffffffff = NOT (c :: ulong)"
proof -
  have "(0xffffffff :: ulong) = mask 32" by (simp add: mask_numeral)
  then show ?thesis
    unfolding \<open>(0xffffffff :: ulong) = _\<close> by (intro bit_word_eqI) (simp add: bit_simps)
qed

lemma crc32_bytes_ref:
  assumes "len \<le> length buf"
  shows "crc32_bytes crc buf len = Some (NOT (crc_ref (NOT crc) (take len buf)))"
proof -
  obtain k where k: "k \<le> len" "chunk_loop 8 CRC_DO8 len (NOT crc) buf =
      Some (len - k, foldl reg_byte (NOT crc) (take k buf), drop k buf)"
    using chunk_loop_reads [OF reads_all_CRC_DO8 assms] by blast
  moreover have "len - k \<le> length (drop k buf)" using assms by simp
  ultimately show ?thesis
    using tail_loop_reads [OF byte_reads_versions(1)]
    by (simp add: crc32_bytes_def xor_ones crc_ref_def foldl_take_drop)
qed

lemma crc32_eq_ref:
  "unat len \<le> length buf \<Longrightarrow>
   crc32 build addr crc (Some buf) len = Some (NOT (crc_ref (NOT crc) (take (unat len) buf)))"
  by (cases build) (simp_all add: crc32_def crc32_bytes_ref crc32_little_ref crc32_big_ref)

section \<open>Streaming\<close>

definition crc32_update :: "crc_build \<Rightarrow> nat \<Rightarrow> ulong \<Rightarrow> byte list \<Rightarrow> ulong option" where
  "crc32_update build addr c xs = crc32 build addr c (Some xs) (of_nat (length xs))"

lemma crc32_update_ref:
  "fits xs \<Longrightarrow> crc32_update build addr c xs = Some (NOT (crc_ref (NOT c) xs))"
  by (simp add: crc32_update_def fits_def crc32_eq_ref unat_of_nat)

lemma crc_ref_append: "crc_ref c (xs @ ys) = crc_ref (crc_ref c xs) ys"
  by (simp add: crc_ref_def)

interpretation crc: checksum "crc32_update build addr" "\<lambda>_. True" 0 for build addr
proof unfold_locales
  fix c xs ys assume "fits (xs @ ys)"
  moreover from this have "fits xs" "fits ys" by (simp_all add: fits_def)
  ultimately show "crc32_update build addr c (xs @ ys) =
      do { c \<leftarrow> crc32_update build addr c xs; crc32_update build addr c ys }"
    by (simp add: crc32_update_ref crc_ref_append)
qed (simp_all add: crc32_update_ref fits_def crc_ref_def)

section \<open>Matrices and the combination\<close>

text \<open>A matrix represents an operator when its 32 columns are the images of the unit vectors.\<close>

definition represents :: "ulong list \<Rightarrow> (ulong \<Rightarrow> ulong) \<Rightarrow> bool" where
  "represents mat f \<longleftrightarrow> length mat = 32 \<and> (\<forall>i < 32. mat ! i = f (push_bit i 1))"

context gf2_operator
begin

lemma times_loop_from:
  assumes "represents mat f" "i \<le> 32"
  shows "times_loop (drop i mat) (drop_bit i v) acc = Some (acc XOR f (push_bit i (drop_bit i v)))"
  using assms(2)
proof (induction "32 - i" arbitrary: i acc)
  case 0
  then have "i = 32" by simp
  moreover have "drop_bit 32 v = 0" by (rule bit_word_eqI) (simp add: bit_simps bit_beyond)
  ultimately show ?case by (subst times_loop.simps) (simp add: zero)
next
  case (Suc k)
  then have i: "i < 32" and k: "k = 32 - Suc i" by simp_all
  show ?case
  proof (cases "drop_bit i v = 0")
    case True
    then show ?thesis by (subst times_loop.simps) (simp add: zero)
  next
    case False
    let ?acc = "acc XOR f (bit_at v i)"
    have "peek (drop i mat) 0 = Some (f (push_bit i 1))"
      using assms(1) i by (simp add: represents_def)
    then have "times_loop (drop i mat) (drop_bit i v) acc =
        times_loop (drop (Suc i) mat) (drop_bit (Suc i) v) ?acc"
      using False
      by (subst times_loop.simps)
        (auto simp: and_one_iff bit_drop_bit_eq bit_at_def zero drop_bit_drop_bit simp del: drop_bit_eq_div)
    also have "\<dots> = Some (?acc XOR f (push_bit (Suc i) (drop_bit (Suc i) v)))"
      using Suc.hyps(1) [OF k] i by simp
    finally show ?thesis
      by (simp only: split_bit [of i v] respects_xor xor.assoc)
  qed
qed

lemma matrix_times: "represents mat f \<Longrightarrow> gf2_matrix_times mat v = Some (f v)"
  using times_loop_from [of mat 0 v 0] by (simp add: gf2_matrix_times_def)

lemma square_columns_eq:
  assumes "represents mat f"
  shows "n + k \<le> 32 \<Longrightarrow> square_columns mat n k = Some (map (\<lambda>i. f (f (push_bit i 1))) [n..<n + k])"
proof (induction k arbitrary: n)
  case (Suc k)
  then have "peek mat n = Some (f (push_bit n 1))" using assms by (simp add: represents_def)
  moreover have "[n..<n + Suc k] = n # [Suc n..<Suc n + k]"
    using upt_conv_Cons [of n "n + Suc k"] by simp
  ultimately show ?case using Suc assms by (simp add: matrix_times)
qed simp

lemma matrix_square:
  assumes "represents mat f"
  shows "\<exists>sq. gf2_matrix_square mat = Some sq \<and> represents sq (\<lambda>c. f (f c))"
  using square_columns_eq [OF assms, of 0 32] by (simp add: gf2_matrix_square_def represents_def)

end

lemma represents_one_zero_bit: "represents one_zero_bit (shift 1)"
  unfolding represents_def
proof (intro conjI allI impI)
  show "length one_zero_bit = 32" by (simp add: one_zero_bit_def)
  fix i :: nat assume "i < 32"
  show "one_zero_bit ! i = shift 1 (push_bit i 1)"
  proof (cases i)
    case 0
    then show ?thesis by (simp add: one_zero_bit_def shift_def table_step_def)
  next
    case (Suc j)
    have "\<not> bit (push_bit (Suc j) (1 :: ulong)) 0" by (simp add: bit_simps del: push_bit_Suc)
    moreover have "drop_bit 1 (push_bit (Suc j) 1) = push_bit j (1 :: ulong)"
      using Suc \<open>i < 32\<close> by (intro bit_word_eqI) (auto simp: bit_simps simp del: push_bit_Suc)
    ultimately show ?thesis using Suc \<open>i < 32\<close>
      by (simp add: one_zero_bit_def shift_def table_step_def and_one_iff del: push_bit_Suc)
  qed
qed

lemma square_shift:
  "represents mat (shift m) \<Longrightarrow> \<exists>sq. gf2_matrix_square mat = Some sq \<and> represents sq (shift (2 * m))"
  using shift.matrix_square [of mat m] by (simp add: shift_add [symmetric] mult_2 cong: conj_cong)

lemma combine_round:
  assumes "represents mat (shift m)"
  shows "(if b then gf2_matrix_times mat c else Some c) = Some (shift (if b then m else 0) c)"
  using shift.matrix_times [OF assms] by simp

lemma combine_loop_shift:
  "0 < n \<Longrightarrow> represents mat (shift m) \<Longrightarrow> combine_loop mat c (int n) = Some (shift (2 * m * n) c)"
proof (induction n arbitrary: mat m c rule: less_induct)
  case (less n)
  obtain mat2 where mat2: "gf2_matrix_square mat = Some mat2" "represents mat2 (shift (2 * m))"
    using square_shift [OF less.prems(2)] by blast
  obtain mat4 where mat4: "gf2_matrix_square mat2 = Some mat4" "represents mat4 (shift (4 * m))"
    using square_shift [OF mat2(2)] by auto
  let ?n1 = "n div 2" and ?n2 = "n div 2 div 2"
  define c1 where "c1 = shift (if odd n then 2 * m else 0) c"
  define c2 where "c2 = shift (if odd ?n1 then 4 * m else 0) c1"
  have odd_int: "int k AND 1 \<noteq> 0 \<longleftrightarrow> odd k" for k
    by (simp add: and_one_eq mod_2_eq_odd)
  have half: "drop_bit 1 (int k) = int (k div 2)" for k
    by (simp add: drop_bit_eq_div of_nat_div)
  have unfold: "combine_loop mat c (int n) =
      (if ?n1 = 0 then Some c1 else if ?n2 = 0 then Some c2 else combine_loop mat4 c2 (int ?n2))"
    by (subst combine_loop.simps)
      (simp only: mat2(1) mat4(1) Option.bind.simps odd_int half combine_round [OF mat2(2)]
        combine_round [OF mat4(2)] c1_def [symmetric] c2_def [symmetric] Let_def of_nat_eq_0_iff)
  have c2: "c2 = shift (4 * m * (?n1 mod 2) + 2 * m * (n mod 2)) c"
    by (simp add: c2_def c1_def shift_add [symmetric] odd_iff_mod_2_eq_one)
  show ?case
  proof (cases "?n2 = 0")
    case False
    then have "combine_loop mat4 c2 (int ?n2) = Some (shift (2 * (4 * m) * ?n2) c2)"
      by (intro less.IH [OF _ _ mat4(2)]) (use less.prems(1) in simp_all)
    also have "\<dots> = Some (shift (2 * (4 * m) * ?n2 + (4 * m * (?n1 mod 2) + 2 * m * (n mod 2))) c)"
      by (simp add: c2 shift_add)
    also have "2 * (4 * m) * ?n2 + (4 * m * (?n1 mod 2) + 2 * m * (n mod 2)) = 2 * m * n"
    proof -
      have "n = 4 * ?n2 + 2 * (?n1 mod 2) + n mod 2" by presburger
      then have "2 * m * n = 2 * m * (4 * ?n2 + 2 * (?n1 mod 2) + n mod 2)" by (rule arg_cong)
      then show ?thesis by (simp only: algebra_simps)
    qed
    finally show ?thesis using False unfold by auto
  next
    case True
    then consider "n = 1" | "n = 2" | "n = 3" using less.prems(1) by linarith
    then show ?thesis
      using unfold by cases (simp_all add: c1_def c2)
  qed
qed

text \<open>A negative length never becomes 0 under the arithmetic shift.\<close>

lemma combine_loop_returns:
  assumes "combine_loop mat c len2 = Some r"
  shows "0 \<le> len2"
proof (rule combine_loop.raw_induct [where P = "\<lambda>mat c len2 r. 0 \<le> len2", OF _ assms])
  fix loop mat c and len2 :: int and r
  assume IH: "\<And>mat c len2 r. loop mat c len2 = Some r \<Longrightarrow> 0 \<le> len2"
    and ret: "do { even_op \<leftarrow> gf2_matrix_square mat;
         crc1 \<leftarrow> if len2 AND 1 \<noteq> 0 then gf2_matrix_times even_op c else Some c;
         let len2 = drop_bit 1 len2;
         if len2 = 0 then Some crc1
         else do {
           odd_op \<leftarrow> gf2_matrix_square even_op;
           crc1 \<leftarrow> if len2 AND 1 \<noteq> 0 then gf2_matrix_times odd_op crc1 else Some crc1;
           let len2 = drop_bit 1 len2;
           if len2 = 0 then Some crc1 else loop odd_op crc1 len2 } } = Some r"
  show "0 \<le> len2"
  proof (rule ccontr)
    assume "\<not> 0 \<le> len2"
    then have "drop_bit 1 len2 \<noteq> 0" "drop_bit 1 (drop_bit 1 len2) \<noteq> 0"
      "\<not> 0 \<le> drop_bit 1 (drop_bit 1 len2)"
      by (simp_all add: drop_bit_eq_div)
    with ret show False
      by (auto simp: bind_eq_Some_conv Let_def dest!: IH simp del: drop_bit_drop_bit)
  qed
qed

text \<open>The register is affine in its start value.\<close>

lemma crc_ref_affine: "crc_ref (a XOR b) ys = crc_ref a ys XOR shift (8 * length ys) b"
proof (induction ys arbitrary: a b)
  case Nil
  then show ?case by (simp add: crc_ref_def)
next
  case (Cons y ys)
  have "reg_byte (a XOR b) y = reg_byte a y XOR shift 8 b"
    by (simp add: reg_byte_def shift.respects_xor [symmetric] ac_simps)
  then show ?case
    using Cons [of "reg_byte a y" "shift 8 b"] shift_add [of "8 * length ys" 8 b]
    by (simp add: crc_ref_def add.commute)
qed

lemma crc32_combine_shift:
  assumes "0 \<le> n"
  shows "crc32_combine c1 c2 n = Some (if n = 0 then c1 else shift (8 * nat n) c1 XOR c2)"
proof (cases "n = 0")
  case False
  obtain mat2 where mat2: "gf2_matrix_square one_zero_bit = Some mat2" "represents mat2 (shift 2)"
    using square_shift [OF represents_one_zero_bit] by auto
  obtain mat4 where mat4: "gf2_matrix_square mat2 = Some mat4" "represents mat4 (shift 4)"
    using square_shift [OF mat2(2)] by auto
  have "combine_loop mat4 c1 (int (nat n)) = Some (shift (2 * 4 * nat n) c1)"
    using False assms by (intro combine_loop_shift mat4(2)) simp
  then show ?thesis using False assms by (simp add: crc32_combine_def mat2(1) mat4(1))
qed (simp add: crc32_combine_def)

section \<open>Properties\<close>

text \<open>
  C10. Whatever the build and the byte order, and wherever the buffer starts, \<open>crc32\<close> reads
  exactly the first \<open>len\<close> bytes and returns the value of the bit-by-bit shift register: the
  four-bytes-at-a-time loops with their eight tables, the alignment loop and the portable loop
  all compute the same check value.
\<close>

theorem crc32_correct:
  assumes "unat len \<le> length buf"
  shows "crc32 build addr crc (Some buf) len = Some (NOT (crc_ref (NOT crc) (take (unat len) buf)))"
  using assms by (rule crc32_eq_ref)

text \<open>The standard check input: the nine digits, from an odd address on a big-endian machine.\<close>

theorem crc32_correct_witness:
  "crc32 Big 1 0 (Some [49, 50, 51, 52, 53, 54, 55, 56, 57]) 9 = Some 0xcbf43926"
proof -
  have "crc_ref (NOT 0) [49, 50, 51, 52, 53, 54, 55, 56, 57] = NOT 0xcbf43926"
    by (simp add: crc_ref_def reg_byte_def shift_8_unfold table_step_def)
  then show ?thesis
    using crc32_correct [of 9 "[49, 50, 51, 52, 53, 54, 55, 56, 57]" Big 1 0] by simp
qed

text \<open>
  C17. The 2048 constants of \<open>crc32.h\<close> are the tables that \<open>make_crc_table\<close> generates from the
  polynomial, so the build with static tables and the \<open>DYNAMIC_CRC_TABLE\<close> build agree: the
  first call of \<open>get_crc_table\<close> fills the tables with them and later calls return them again.
\<close>

theorem crc_tables_generated:
  "crc_table = make_tables \<and>
   (\<exists>s. get_crc_table init_crc_state = Some (s, crc_table) \<and> get_crc_table s = Some (s, crc_table))"
  by (simp add: crc_table_generated get_crc_table_def make_crc_table_def init_crc_state_def)

text \<open>
  The check value of a stream does not depend on how the data is cut into pieces.
\<close>

theorem crc32_streaming:
  assumes "fits (concat ps)"
  shows "feed (crc32_update build addr) 0 ps = Some (NOT (crc_ref (NOT 0) (concat ps)))"
  using crc.feed_concat [OF crc.valid_init assms] crc32_update_ref [OF assms] by simp

theorem crc32_streaming_witness:
  "feed (crc32_update Little 3) 0 [[49, 50], [51]] = Some (NOT (crc_ref (NOT 0) [49, 50, 51]))"
  using crc32_streaming [of "[[49, 50], [51]]" Little 3] by (simp add: fits_def)

text \<open>
  C18. \<open>crc32_combine\<close> returns, for every length that is not negative, the check value of the
  concatenation of two blocks, computed from their check values and the length of the second.
\<close>

theorem crc32_combine_correct:
  assumes "fits (xs @ ys)" "crc32_update build addr 0 xs = Some x" "crc32_update build addr 0 ys = Some y"
  shows "crc32_combine x y (int (length ys)) = crc32_update build addr 0 (xs @ ys)"
proof -
  have "fits xs" "fits ys" using assms(1) by (simp_all add: fits_def)
  then have x: "x = NOT (crc_ref (NOT 0) xs)" and y: "y = NOT (crc_ref (NOT 0) ys)"
    using assms by (simp_all add: crc32_update_ref)
  let ?R = "crc_ref (NOT 0) xs"
  have "crc_ref ?R ys = crc_ref (NOT 0) ys XOR shift (8 * length ys) (NOT ?R)"
    using crc_ref_affine [of "NOT 0" "NOT ?R" ys] by simp
  then have ref: "NOT (crc_ref (NOT 0) (xs @ ys)) = shift (8 * length ys) x XOR y"
    unfolding crc_ref_append x y by (simp add: xor.commute)
  show ?thesis
  proof (cases "ys = []")
    case True
    then show ?thesis using assms by (simp add: crc32_combine_def)
  next
    case False
    then show ?thesis
      using crc32_combine_shift [of "int (length ys)" x y] ref assms(1) by (simp add: crc32_update_ref)
  qed
qed

theorem crc32_combine_correct_witness:
  "\<exists>x y. crc32_update Little 0 0 [1, 2] = Some x \<and> crc32_update Little 0 0 [3] = Some y \<and>
     crc32_combine x y 1 = crc32_update Little 0 0 [1, 2, 3]"
proof -
  have fits: "fits ([1, 2] @ [3])" "fits [1, 2]" "fits [3]" by (simp_all add: fits_def)
  obtain x y where xy: "crc32_update Little 0 0 [1, 2] = Some x" "crc32_update Little 0 0 [3] = Some y"
    using crc32_update_ref fits by blast
  then show ?thesis using crc32_combine_correct [OF fits(1) xy] by auto
qed

text \<open>
  C20. For a negative length, which the signed type admits, \<open>crc32_combine\<close> never returns:
  \<open>len2 >>= 1\<close> keeps the sign, so neither exit test succeeds.
\<close>

theorem crc32_combine_negative:
  assumes "len2 < 0"
  shows "crc32_combine x y len2 = None"
proof (rule ccontr)
  assume "crc32_combine x y len2 \<noteq> None"
  then obtain mat r where "combine_loop mat x len2 = Some r"
    using assms by (auto simp: crc32_combine_def bind_eq_Some_conv split: if_splits)
  then show False using combine_loop_returns assms by fastforce
qed

theorem crc32_combine_negative_witness: "crc32_combine 5 7 (- 1) = None"
  using crc32_combine_negative [of "- 1"] by simp

end
