(* ===== verification/Z_Stream.thy ===== *)
theory Z_Stream
  imports Adler32 Crc32
begin

text \<open>
  The interface of \<^verbatim>\<open>src/AOS/aos/zlib/zlib.h\<close> that the compressor and the decompressor share: return codes, flush values,
  the stream, and the header of a gzip file.
\<close>

section \<open>Return codes and flush values\<close>

definition Z_OK :: int where "Z_OK = 0"
definition Z_STREAM_END :: int where "Z_STREAM_END = 1"
definition Z_NEED_DICT :: int where "Z_NEED_DICT = 2"
definition Z_STREAM_ERROR :: int where "Z_STREAM_ERROR = -2"
definition Z_DATA_ERROR :: int where "Z_DATA_ERROR = -3"
definition Z_MEM_ERROR :: int where "Z_MEM_ERROR = -4"
definition Z_BUF_ERROR :: int where "Z_BUF_ERROR = -5"
definition Z_VERSION_ERROR :: int where "Z_VERSION_ERROR = -6"

definition Z_NO_FLUSH :: int where "Z_NO_FLUSH = 0"
definition Z_PARTIAL_FLUSH :: int where "Z_PARTIAL_FLUSH = 1"
definition Z_SYNC_FLUSH :: int where "Z_SYNC_FLUSH = 2"
definition Z_FULL_FLUSH :: int where "Z_FULL_FLUSH = 3"
definition Z_FINISH :: int where "Z_FINISH = 4"
definition Z_BLOCK :: int where "Z_BLOCK = 5"
definition Z_DEFLATED :: uint where "Z_DEFLATED = 8"

section \<open>The stream\<close>

text \<open>
  \<open>next_in\<close> is the list of the \<open>avail_in\<close> bytes at the pointer, so \<open>avail_in\<close> is its length; what a call
  writes at \<open>next_out\<close> is a list of the call. \<open>next_in_set\<close> and \<open>next_out_set\<close> say that
  the pointers are not \<open>Z_NULL\<close>. The allocator is the caller's: \<open>zalloc n\<close> is the fresh object of \<open>n\<close> bytes it
  gives, or none.
\<close>

record z_stream =
  next_in :: "byte list"
  next_in_set :: bool
  avail_out :: nat
  next_out_set :: bool
  total_in :: ulong
  total_out :: ulong
  msg :: "string option"
  strm_data_type :: int
  adler :: ulong
  zalloc :: "nat \<Rightarrow> byte list option"

abbreviation avail_in :: "'a z_stream_scheme \<Rightarrow> nat" where
  "avail_in s \<equiv> length (next_in s)"

text \<open>The caller's gzip header; a buffer is the object that the pointer refers to.\<close>

record gz_header =
  text_flag :: bool
  time :: ulong
  xflags :: uint
  os_code :: uint
  extra :: "byte list option"
  extra_len :: uint
  extra_max :: uint
  name :: "byte list option"
  name_max :: uint
  comment :: "byte list option"
  comm_max :: uint
  hcrc_flag :: bool
  done_flag :: int

section \<open>Check values and version\<close>

text \<open>\<open>adler32(0L, Z_NULL, 0)\<close> and \<open>crc32(0L, Z_NULL, 0)\<close>.\<close>

definition adler_init :: ulong where "adler_init = 1"
definition crc_init :: ulong where "crc_init = 0"

lemma check_inits: "adler32 0 None 0 = Some adler_init" "crc32 build addr 0 None 0 = Some crc_init"
  by (simp_all add: adler32_def crc32_def adler_init_def crc_init_def)

text \<open>The build and alignment that \<open>crc32\<close> takes do not change its value.\<close>

definition crc_of :: "ulong \<Rightarrow> byte list \<Rightarrow> ulong option" where
  "crc_of = crc32_update NoByFour 0"

text \<open>The version of the library, and the check of the caller's.\<close>

definition ZLIB_VERSION :: string where "ZLIB_VERSION = ''1.2.3''"

definition version_bad :: "string option \<Rightarrow> bool" where
  "version_bad version = (case version of None \<Rightarrow> True | Some v \<Rightarrow> v = [] \<or> hd v \<noteq> hd ZLIB_VERSION)"

end
