(* ===== verification/Bit_Output.thy ===== *)
theory Bit_Output
  imports C_Prelude
begin

text \<open>
  The bit output of the compressor, \<^verbatim>\<open>src/AOS/aos/zlib/trees.c\<close>: the macros
  \<open>put_byte\<close>, \<open>put_short\<close> and \<open>send_bits\<close>, \<open>bi_flush\<close>, \<open>bi_windup\<close> and \<open>copy_block\<close>. The
  pending buffer is the list of the bytes put so far; the callers guarantee that there is room.
\<close>

section \<open>State and operations\<close>

record bit_out =
  pending :: "byte list"
  bi_buf :: ushort
  bi_valid :: nat

definition put_byte :: "byte \<Rightarrow> 'a bit_out_scheme \<Rightarrow> 'a bit_out_scheme" where
  "put_byte c s = s \<lparr> pending := pending s @ [c] \<rparr>"

definition put_short :: "ushort \<Rightarrow> 'a bit_out_scheme \<Rightarrow> 'a bit_out_scheme" where
  "put_short w s = put_byte (ucast (drop_bit 8 w)) (put_byte (ucast (w AND 0xff)) s)"

definition Buf_size :: nat where "Buf_size = 16"

definition send_bits :: "uint \<Rightarrow> nat \<Rightarrow> 'a bit_out_scheme \<Rightarrow> 'a bit_out_scheme" where
  "send_bits val len s =
    (if bi_valid s + len > Buf_size
     then
       let s = s \<lparr> bi_buf := bi_buf s OR ucast (push_bit (bi_valid s) val) \<rparr>;
           s = put_short (bi_buf s) s
       in s \<lparr> bi_buf := drop_bit (Buf_size - bi_valid s) (ucast val), bi_valid := bi_valid s + len - Buf_size \<rparr>
     else
       s \<lparr> bi_buf := bi_buf s OR ucast (push_bit (bi_valid s) val), bi_valid := bi_valid s + len \<rparr>)"

definition bi_flush :: "'a bit_out_scheme \<Rightarrow> 'a bit_out_scheme" where
  "bi_flush s =
    (if bi_valid s = 16 then (put_short (bi_buf s) s) \<lparr> bi_buf := 0, bi_valid := 0 \<rparr>
     else if bi_valid s \<ge> 8 then
       (put_byte (ucast (bi_buf s)) s) \<lparr> bi_buf := drop_bit 8 (bi_buf s), bi_valid := bi_valid s - 8 \<rparr>
     else s)"

definition bi_windup :: "'a bit_out_scheme \<Rightarrow> 'a bit_out_scheme" where
  "bi_windup s =
    (let s = (if bi_valid s > 8 then put_short (bi_buf s) s
              else if bi_valid s > 0 then put_byte (ucast (bi_buf s)) s
              else s)
     in s \<lparr> bi_buf := 0, bi_valid := 0 \<rparr>)"

text \<open>\<open>while (len--) put_byte(s, *buf++);\<close>\<close>

fun put_bytes :: "byte list \<Rightarrow> nat \<Rightarrow> 'a bit_out_scheme \<Rightarrow> 'a bit_out_scheme option" where
  "put_bytes buf 0 s = Some s"
| "put_bytes buf (Suc n) s = do { (c, buf) \<leftarrow> next_item buf; put_bytes buf n (put_byte c s) }"

text \<open>\<open>last_eob_len = 8\<close> is set by the caller of this definition, with the rest of the state.\<close>

definition copy_block :: "byte list \<Rightarrow> uint \<Rightarrow> bool \<Rightarrow> 'a bit_out_scheme \<Rightarrow> 'a bit_out_scheme option" where
  "copy_block buf len header s =
    (let s = bi_windup s;
         s = (if header then put_short (ucast (NOT len)) (put_short (ucast len) s) else s)
     in put_bytes buf (unat len) s)"

section \<open>The bit stream\<close>

text \<open>
  The stream the state stands for, least significant bit first: the bytes put, then the valid
  bits of the buffer. The bits above them are zero.
\<close>

definition bits :: "nat \<Rightarrow> 'a::semiring_bit_operations \<Rightarrow> bool list" where
  "bits n v = map (bit v) [0..<n]"

definition byte_bits :: "byte list \<Rightarrow> bool list" where
  "byte_bits bs = concat (map (bits 8) bs)"

definition stream :: "'a bit_out_scheme \<Rightarrow> bool list" where
  "stream s = byte_bits (pending s) @ bits (bi_valid s) (bi_buf s)"

definition out_ok :: "'a bit_out_scheme \<Rightarrow> bool" where
  "out_ok s \<longleftrightarrow> bi_valid s \<le> 16 \<and> (\<forall>n. bi_valid s \<le> n \<longrightarrow> \<not> bit (bi_buf s) n)"

lemma length_bits [simp]: "length (bits n v) = n"
  by (simp add: bits_def)

lemma nth_bits [simp]: "i < n \<Longrightarrow> bits n v ! i = bit v i"
  by (simp add: bits_def)

lemma bits_0 [simp]: "bits 0 v = []"
  by (simp add: bits_def)

lemma bits_Suc: "bits (Suc n) v = bit v 0 # bits n (drop_bit 1 v)"
  by (simp add: bits_def bit_drop_bit_eq upt_conv_Cons map_Suc_upt [symmetric] comp_def del: upt_Suc)

lemma bits_append: "bits (m + n) v = bits m v @ bits n (drop_bit m v)"
  by (rule nth_equalityI) (auto simp: nth_append bit_drop_bit_eq)

lemma bits_cong: "(\<And>i. i < n \<Longrightarrow> bit v i = bit w i) \<Longrightarrow> bits n v = bits n w"
  by (simp add: bits_def)

text \<open>The number that a list of bits stands for.\<close>

definition bits_value :: "bool list \<Rightarrow> nat" where
  "bits_value bs = foldr (\<lambda>b v. of_bool b + 2 * v) bs 0"

lemma bits_value_bits: "v < 2 ^ n \<Longrightarrow> bits_value (bits n v) = v"
proof (induction n arbitrary: v)
  case (Suc n)
  then have "v div 2 < 2 ^ n" by simp
  then show ?case using Suc.IH [of "v div 2"] by (simp add: bits_Suc bits_value_def drop_bit_Suc bit_0 odd_two_times_div_two_succ mod_2_eq_odd [symmetric])
qed (simp add: bits_value_def)

lemma byte_bits_append [simp]: "byte_bits (xs @ ys) = byte_bits xs @ byte_bits ys"
  by (simp add: byte_bits_def)

lemma byte_bits_simps [simp]: "byte_bits [] = []" "byte_bits (b # bs) = bits 8 b @ byte_bits bs"
  by (simp_all add: byte_bits_def)

lemma length_byte_bits [simp]: "length (byte_bits bs) = 8 * length bs"
  by (induction bs) (simp_all add: byte_bits_def)

lemma pending_put_byte [simp]: "pending (put_byte c s) = pending s @ [c]"
  "bi_buf (put_byte c s) = bi_buf s" "bi_valid (put_byte c s) = bi_valid s"
  by (simp_all add: put_byte_def)

lemma put_short_bits:
  "byte_bits (pending (put_short w s)) = byte_bits (pending s) @ bits 16 w"
  "bi_buf (put_short w s) = bi_buf s" "bi_valid (put_short w s) = bi_valid s"
proof -
  have "bits 8 (ucast (w AND 0xff) :: byte) = bits 8 w"
    unfolding and_mask_8 by (rule bits_cong) (simp add: bit_simps)
  moreover have "bits 8 (ucast (drop_bit 8 w) :: byte) = bits 8 (drop_bit 8 w)"
    by (rule bits_cong) (simp add: bit_simps)
  moreover have "bits 16 w = bits 8 w @ bits 8 (drop_bit 8 w)"
    using bits_append [of 8 8 w] by simp
  ultimately show "byte_bits (pending (put_short w s)) = byte_bits (pending s) @ bits 16 w"
    by (simp add: put_short_def)
qed (simp_all add: put_short_def)

lemma bit_ushort_beyond: "16 \<le> n \<Longrightarrow> \<not> bit (w :: ushort) n"
  using bit_imp_le_length [of w n] by auto

text \<open>Sending bits appends them.\<close>

lemma send_bits_stream:
  assumes "out_ok s" "len \<le> 16" "unat val < 2 ^ len"
  shows "stream (send_bits val len s) = stream s @ bits len val \<and> out_ok (send_bits val len s)"
proof -
  let ?v = "bi_valid s"
  have v: "?v \<le> 16" and top: "\<And>n. ?v \<le> n \<Longrightarrow> \<not> bit (bi_buf s) n" using assms(1) by (auto simp: out_ok_def)
  have zero: "\<And>n. len \<le> n \<Longrightarrow> \<not> bit val n" using assms(3) by (rule bit_small)
  let ?w = "bi_buf s OR ucast (push_bit ?v val) :: ushort"
  have w: "bit ?w n \<longleftrightarrow> (if n < ?v then bit (bi_buf s) n else n < 16 \<and> bit val (n - ?v))" for n
    using top [of n] bit_ushort_beyond [of n "bi_buf s"] by (auto simp: bit_simps)
  show ?thesis
  proof (cases "?v + len > 16")
    case True
    let ?r = "drop_bit (16 - ?v) (ucast val) :: ushort"
    have "bits ?v (bi_buf s) @ bits len val = bits 16 ?w @ bits (?v + len - 16) ?r"
      using True v assms(2)
      by (intro nth_equalityI) (auto simp: nth_append w bit_drop_bit_eq bit_ucast_iff not_less algebra_simps intro!: arg_cong [of _ _ "bit val"])
    moreover have "\<not> bit ?r n" if "?v + len - 16 \<le> n" for n
      using zero [of "n + (16 - ?v)"] that True v by (auto simp: bit_drop_bit_eq bit_ucast_iff algebra_simps)
    ultimately show ?thesis using True assms(2) v
      by (simp add: send_bits_def Buf_size_def Let_def stream_def put_short_bits out_ok_def)
  next
    case False
    then have "bits ?v (bi_buf s) @ bits len val = bits (?v + len) ?w"
      by (intro nth_equalityI) (auto simp: nth_append w)
    moreover have "\<not> bit ?w n" if "?v + len \<le> n" for n
      using zero [of "n - ?v"] that w by auto
    ultimately show ?thesis using False
      by (simp add: send_bits_def Buf_size_def Let_def stream_def out_ok_def)
  qed
qed

text \<open>Flushing changes the state and not the stream.\<close>

lemma bi_flush_stream:
  assumes "out_ok s"
  shows "stream (bi_flush s) = stream s \<and> out_ok (bi_flush s) \<and> bi_valid (bi_flush s) \<le> 8"
proof -
  have v: "bi_valid s \<le> 16" and top: "\<And>n. bi_valid s \<le> n \<Longrightarrow> \<not> bit (bi_buf s) n" using assms by (auto simp: out_ok_def)
  consider "bi_valid s = 16" | "8 \<le> bi_valid s" "bi_valid s < 16" | "bi_valid s < 8" using v by linarith
  then show ?thesis
  proof cases
    case 1
    then show ?thesis by (simp add: bi_flush_def stream_def put_short_bits out_ok_def)
  next
    case 2
    have "bits (bi_valid s) (bi_buf s) = bits 8 (bi_buf s) @ bits (bi_valid s - 8) (drop_bit 8 (bi_buf s))"
      using bits_append [of 8 "bi_valid s - 8" "bi_buf s"] 2 by simp
    moreover have "bits 8 (ucast (bi_buf s) :: byte) = bits 8 (bi_buf s)" by (rule bits_cong) (simp add: bit_simps)
    ultimately show ?thesis using 2 top
      by (auto simp: bi_flush_def stream_def out_ok_def bit_drop_bit_eq)
  next
    case 3
    then show ?thesis using assms by (simp add: bi_flush_def)
  qed
qed

text \<open>The number of zero bits that fill the last byte.\<close>

definition padding :: "bool list \<Rightarrow> bool list" where
  "padding bs = replicate ((8 - length bs mod 8) mod 8) False"

lemma bi_windup_stream:
  assumes "out_ok s"
  shows "byte_bits (pending (bi_windup s)) = stream s @ padding (stream s) \<and>
    bi_buf (bi_windup s) = 0 \<and> bi_valid (bi_windup s) = 0"
proof -
  have v: "bi_valid s \<le> 16" and top: "\<And>n. bi_valid s \<le> n \<Longrightarrow> \<not> bit (bi_buf s) n" using assms by (auto simp: out_ok_def)
  have fill: "bits m (bi_buf s) = bits (bi_valid s) (bi_buf s) @ replicate (m - bi_valid s) False"
    if "bi_valid s \<le> m" for m
    using that top by (intro nth_equalityI) (auto simp: nth_append)
  have byte: "bits 8 (ucast (bi_buf s) :: byte) = bits 8 (bi_buf s)" by (rule bits_cong) (simp add: bit_simps)
  have len: "length (stream s) mod 8 = bi_valid s mod 8" by (simp add: stream_def)
  consider "8 < bi_valid s" | "0 < bi_valid s" "bi_valid s \<le> 8" | "bi_valid s = 0" by linarith
  then show ?thesis
  proof cases
    case 1
    then have "(8 - bi_valid s mod 8) mod 8 = 16 - bi_valid s"
      using v by (cases "bi_valid s = 16") (simp_all add: mod_if)
    then show ?thesis using 1 fill [of 16] v len
      by (simp add: bi_windup_def Let_def put_short_bits padding_def) (simp add: stream_def)
  next
    case 2
    then have "(8 - bi_valid s mod 8) mod 8 = 8 - bi_valid s" by (cases "bi_valid s = 8") simp_all
    then show ?thesis using 2 fill [of 8] byte len
      by (simp add: bi_windup_def Let_def padding_def) (simp add: stream_def)
  next
    case 3
    then show ?thesis using len by (simp add: bi_windup_def Let_def padding_def) (simp add: stream_def)
  qed
qed

lemma put_bytes_pending:
  "n \<le> length buf \<Longrightarrow> put_bytes buf n s = Some (s \<lparr> pending := pending s @ take n buf \<rparr>)"
proof (induction n arbitrary: buf s)
  case (Suc n)
  then obtain c buf' where "buf = c # buf'" by (cases buf) auto
  then show ?case using Suc by (simp add: put_byte_def)
qed simp

text \<open>A stored block: padding to the byte, the length and its complement, the bytes.\<close>

lemma copy_block_stream:
  assumes "out_ok s" "unat len \<le> length buf"
  shows "\<exists>s'. copy_block buf len header s = Some s' \<and> out_ok s' \<and> bi_valid s' = 0 \<and>
    stream s' = stream s @ padding (stream s) @
      (if header then bits 16 (ucast len :: ushort) @ bits 16 (ucast (NOT len) :: ushort) else []) @
      byte_bits (take (unat len) buf)"
proof -
  let ?w = "bi_windup s"
  let ?h = "if header then put_short (ucast (NOT len)) (put_short (ucast len) ?w) else ?w"
  have w: "byte_bits (pending ?w) = stream s @ padding (stream s)" "bi_buf ?w = 0" "bi_valid ?w = 0"
    using bi_windup_stream [OF assms(1)] by blast+
  have "copy_block buf len header s = Some (?h \<lparr> pending := pending ?h @ take (unat len) buf \<rparr>)"
    using put_bytes_pending [OF assms(2), of ?h] by (simp add: copy_block_def Let_def)
  then show ?thesis using w by (auto simp: out_ok_def stream_def put_short_bits)
qed

text \<open>
  An operation that sends the bits \<open>bs\<close>: they are appended to the stream, and the fields that do not
  belong to the bit output stay as they are.
\<close>

definition sent :: "bool list \<Rightarrow> 'a bit_out_scheme \<Rightarrow> 'a bit_out_scheme \<Rightarrow> bool" where
  "sent bs s s' \<longleftrightarrow> out_ok s' \<and> stream s' = stream s @ bs \<and> bit_out.more s' = bit_out.more s"

lemma more_bit_output [simp]:
  "bit_out.more (put_byte c s) = bit_out.more s" "bit_out.more (put_short w s) = bit_out.more s"
  "bit_out.more (send_bits v l s) = bit_out.more s" "bit_out.more (bi_flush s) = bit_out.more s"
  "bit_out.more (bi_windup s) = bit_out.more s"
  by (simp_all add: put_byte_def put_short_def send_bits_def bi_flush_def bi_windup_def Let_def)

lemma sent_send_bits:
  "out_ok s \<Longrightarrow> len \<le> 16 \<Longrightarrow> unat val < 2 ^ len \<Longrightarrow> sent (bits len val) s (send_bits val len s)"
  using send_bits_stream [of s len val] by (simp add: sent_def)

lemma sent_bi_flush: "out_ok s \<Longrightarrow> sent [] s (bi_flush s)"
  using bi_flush_stream [of s] by (simp add: sent_def)

lemma sent_refl: "out_ok s \<Longrightarrow> sent [] s s"
  by (simp add: sent_def)

lemma sent_trans: "sent bs s t \<Longrightarrow> sent cs t u \<Longrightarrow> sent (bs @ cs) s u"
  by (simp add: sent_def)

lemma sent_ok: "sent bs s t \<Longrightarrow> out_ok t"
  by (simp add: sent_def)

section \<open>Properties\<close>

lemma send_all_stream:
  "out_ok s \<Longrightarrow> \<forall>(v, l) \<in> set xs. l \<le> 16 \<and> unat v < 2 ^ l \<Longrightarrow>
   stream (fold (\<lambda>(v, l). send_bits v l) xs s) = stream s @ concat (map (\<lambda>(v, l). bits l v) xs) \<and>
   out_ok (fold (\<lambda>(v, l). send_bits v l) xs s)"
proof (induction xs arbitrary: s)
  case (Cons x xs)
  then show ?case using send_bits_stream [of s "snd x" "fst x"] by (cases x) auto
qed simp

text \<open>
  C32. The bit output refines appending to a list of bits: after any sequence of \<open>send_bits\<close> calls
  with values that fit their lengths, \<open>bi_windup\<close> leaves in the pending buffer exactly the bits sent
  before, the bits of the values in order, and zero bits up to the next byte; and a \<open>bi_flush\<close>
  anywhere before it makes no difference to the stream.
\<close>

theorem send_bits_refines_append:
  assumes "out_ok s" "\<forall>(v, l) \<in> set xs. l \<le> 16 \<and> unat v < 2 ^ l"
  shows "let sent = stream s @ concat (map (\<lambda>(v, l). bits l v) xs);
             s' = fold (\<lambda>(v, l). send_bits v l) xs s
         in byte_bits (pending (bi_windup s')) = sent @ padding sent \<and> bi_valid (bi_windup s') = 0 \<and>
            byte_bits (pending (bi_windup (bi_flush s'))) = sent @ padding sent"
  using send_all_stream [OF assms] bi_windup_stream [of "fold (\<lambda>(v, l). send_bits v l) xs s"]
    bi_windup_stream [of "bi_flush (fold (\<lambda>(v, l). send_bits v l) xs s)"]
    bi_flush_stream [of "fold (\<lambda>(v, l). send_bits v l) xs s"] by (simp add: Let_def)

lemma send_bits_refines_append_witness:
  "pending (bi_windup (fold (\<lambda>(v, l). send_bits v l) [(5, 3), (0x1234, 16), (1, 2)] \<lparr>pending = [7], bi_buf = 1, bi_valid = 1\<rparr>))
    = [7, 0x4b, 0x23, 0x11] \<and>
   byte_bits [7, 0x4b, 0x23, 0x11] =
     (let sent = byte_bits [7] @ [True] @ bits 3 (5 :: uint) @ bits 16 (0x1234 :: uint) @ bits 2 (1 :: uint)
      in sent @ padding sent)"
proof -
  let ?s = "\<lparr>pending = [7], bi_buf = 1, bi_valid = 1\<rparr> :: bit_out"
  let ?xs = "[(5, 3), (0x1234, 16), (1, 2)] :: (uint \<times> nat) list"
  have "out_ok ?s" by (auto simp: out_ok_def bit_1_iff)
  then have p: "byte_bits (pending (bi_windup (fold (\<lambda>(v, l). send_bits v l) ?xs ?s))) =
      (let sent = stream ?s @ concat (map (\<lambda>(v, l). bits l v) ?xs) in sent @ padding sent)"
    using send_bits_refines_append [of ?s ?xs] by (simp add: Let_def)
  have v: "pending (bi_windup (fold (\<lambda>(v, l). send_bits v l) ?xs ?s)) = [7, 0x4b, 0x23, 0x11]"
    by (simp add: send_bits_def bi_windup_def put_short_def put_byte_def Let_def Buf_size_def)
  show ?thesis using p unfolding v by (simp add: Let_def stream_def bits_Suc)
qed

end
