(* ===== verification/Gen_Codes.thy ===== *)
theory Gen_Codes
  imports Bit_Output "HOL-Library.Sublist"
begin

text \<open>
  Assigning the codes of a Huffman tree, \<^verbatim>\<open>src/AOS/aos/zlib/trees.c\<close>: \<open>bi_reverse\<close>
  and \<open>gen_codes\<close>, and what makes the codes decodable.
\<close>

section \<open>Tree nodes\<close>

text \<open>
  A \<open>ct_data\<close> is two unions of 16-bit fields: frequency or code, and father or length.
\<close>

record ct_data =
  fc :: ushort
  dl :: ushort

abbreviation Freq :: "ct_data \<Rightarrow> ushort" where "Freq \<equiv> fc"
abbreviation Code :: "ct_data \<Rightarrow> ushort" where "Code \<equiv> fc"
abbreviation Dad :: "ct_data \<Rightarrow> ushort" where "Dad \<equiv> dl"
abbreviation Len :: "ct_data \<Rightarrow> ushort" where "Len \<equiv> dl"

definition MAX_BITS :: nat where "MAX_BITS = 15"

section \<open>Generating codes\<close>

text \<open>\<open>do { res |= code & 1; code >>= 1, res <<= 1; } while (--len > 0); return res >> 1;\<close>\<close>

function reverse_loop :: "uint \<Rightarrow> uint \<Rightarrow> int \<Rightarrow> uint" where
  "reverse_loop code res len =
    (let res = res OR (code AND 1);
         code = drop_bit 1 code;
         res = push_bit 1 res;
         len = len - 1
     in if len > 0 then reverse_loop code res len else res)"
  by pat_completeness auto
termination by (relation "measure (\<lambda>(c, r, l). nat l)") auto

definition bi_reverse :: "uint \<Rightarrow> int \<Rightarrow> uint" where
  "bi_reverse code len = drop_bit 1 (reverse_loop code 0 len)"

text \<open>\<open>next_code[bits] = code = (code + bl_count[bits-1]) << 1;\<close> for \<open>k\<close> values from \<open>b\<close> on.\<close>

fun next_code_loop :: "nat \<Rightarrow> nat \<Rightarrow> ushort \<Rightarrow> ushort list \<Rightarrow> ushort list \<Rightarrow> ushort list option" where
  "next_code_loop b 0 code bl_count next_code = Some next_code"
| "next_code_loop b (Suc k) code bl_count next_code = do {
    c \<leftarrow> peek bl_count (b - 1);
    let code = push_bit 1 (code + c);
    next_code \<leftarrow> poke next_code b code;
    next_code_loop (b + 1) k code bl_count next_code }"

text \<open>\<open>for (n = 0; n <= max_code; n++)\<close>, for \<open>k\<close> nodes from \<open>n\<close> on.\<close>

fun codes_loop :: "nat \<Rightarrow> nat \<Rightarrow> ct_data list \<Rightarrow> ushort list \<Rightarrow> ct_data list option" where
  "codes_loop n 0 tree next_code = Some tree"
| "codes_loop n (Suc k) tree next_code = do {
    t \<leftarrow> peek tree n;
    let len = unat (Len t);
    if len = 0 then codes_loop (n + 1) k tree next_code
    else do {
      c \<leftarrow> peek next_code len;
      next_code \<leftarrow> poke next_code len (c + 1);
      tree \<leftarrow> poke tree n (t \<lparr> fc := ucast (bi_reverse (ucast c) (int len)) \<rparr>);
      codes_loop (n + 1) k tree next_code } }"

definition gen_codes :: "ct_data list \<Rightarrow> nat \<Rightarrow> ushort list \<Rightarrow> ct_data list option" where
  "gen_codes tree max_code bl_count = do {
    next_code \<leftarrow> next_code_loop 1 MAX_BITS 0 bl_count (replicate (MAX_BITS + 1) 0);
    codes_loop 0 (max_code + 1) tree next_code }"

declare reverse_loop.simps [simp del]

section \<open>Reversal\<close>

lemma reverse_loop_bits:
  "0 < len \<Longrightarrow> len \<le> 31 \<Longrightarrow> (\<And>i. 31 - len < i \<Longrightarrow> \<not> bit res i) \<Longrightarrow> \<not> bit res 0 \<Longrightarrow>
   bit (reverse_loop code res (int len)) i \<longleftrightarrow>
     (if i = 0 then False else if i \<le> len then bit code (len - i) else bit res (i - len))"
proof (induction len arbitrary: code res i)
  case (Suc l)
  define r1 where "r1 = push_bit 1 (res OR (code AND 1))"
  have r1: "bit r1 n \<longleftrightarrow> 0 < n \<and> n < 32 \<and> (bit res (n - 1) \<or> n = 1 \<and> bit code 0)" for n
    unfolding r1_def bit_push_bit_iff bit_or_iff bit_and_iff bit_1_iff by auto
  have step: "reverse_loop code res (int (Suc l)) =
      (if l > 0 then reverse_loop (drop_bit 1 code) r1 (int l) else r1)"
    by (subst reverse_loop.simps, unfold Let_def r1_def [symmetric]) simp
  show ?case
  proof (cases "l = 0")
    case True
    have "bit res n \<Longrightarrow> n \<le> 30" for n using Suc.prems(3) [of n] True by (cases "30 < n") auto
    then show ?thesis using step True Suc.prems(4) by (cases i) (force simp: r1)+
  next
    case False
    have "bit (reverse_loop (drop_bit 1 code) r1 (int l)) i \<longleftrightarrow>
        (if i = 0 then False else if i \<le> l then bit (drop_bit 1 code) (l - i) else bit r1 (i - l))"
    proof (rule Suc.IH)
      show "\<not> bit r1 n" if "31 - l < n" for n
        using that Suc.prems(2) Suc.prems(3) [of "n - 1"] False by (auto simp: r1)
    qed (use False Suc.prems r1 in auto)
    then show ?thesis using step False Suc.prems(3,4) Suc.prems(2)
      by (auto simp: bit_drop_bit_eq r1 Suc_diff_le not_le less_Suc_eq_le)
  qed
qed simp

lemma bit_bi_reverse:
  assumes "0 < len" "len \<le> 31"
  shows "bit (bi_reverse code (int len)) i \<longleftrightarrow> i < len \<and> bit code (len - 1 - i)"
  using reverse_loop_bits [of len 0 code "Suc i"] assms
  by (auto simp: bi_reverse_def bit_drop_bit_eq)


section \<open>Canonical codes\<close>

text \<open>
  The code lengths of a tree, the first code of each length and the code of each symbol, most
  significant bit first and as numbers without a width.
\<close>

definition tree_lens :: "ct_data list \<Rightarrow> nat \<Rightarrow> nat list" where
  "tree_lens tree k = map (\<lambda>t. unat (Len t)) (take k tree)"

definition cnt :: "nat list \<Rightarrow> nat \<Rightarrow> nat" where
  "cnt lens b = (if b = 0 then 0 else count_list lens b)"

fun first_code :: "nat list \<Rightarrow> nat \<Rightarrow> nat" where
  "first_code lens 0 = 0"
| "first_code lens (Suc b) = 2 * (first_code lens b + cnt lens b)"

definition canonical :: "nat list \<Rightarrow> nat \<Rightarrow> nat" where
  "canonical lens n = first_code lens (lens ! n) + count_list (take n lens) (lens ! n)"

text \<open>The Kraft inequality for lengths of at most \<open>MAX_BITS\<close>.\<close>

definition kraft :: "nat list \<Rightarrow> bool" where
  "kraft lens \<longleftrightarrow> (\<Sum>b\<in>{1..15}. cnt lens b * 2 ^ (15 - b)) \<le> 2 ^ 15"

lemma first_code_sum:
  "first_code lens b + cnt lens b = (\<Sum>i\<in>{1..b}. cnt lens i * 2 ^ (b - i))"
proof (induction b)
  case 0
  then show ?case by (simp add: cnt_def)
next
  case (Suc b)
  have "(\<Sum>i\<in>{1..b}. cnt lens i * 2 ^ (Suc b - i)) = 2 * (\<Sum>i\<in>{1..b}. cnt lens i * 2 ^ (b - i))"
    unfolding sum_distrib_left by (intro sum.cong) (auto simp: Suc_diff_le)
  then show ?case using Suc by simp
qed

lemma first_code_bound:
  assumes "kraft lens" "b \<le> 15"
  shows "first_code lens b + cnt lens b \<le> 2 ^ b"
proof -
  have "(first_code lens b + cnt lens b) * 2 ^ (15 - b) = (\<Sum>i\<in>{1..b}. cnt lens i * 2 ^ (15 - i))"
    unfolding first_code_sum sum_distrib_right
    using assms(2) by (intro sum.cong) (auto simp flip: power_add simp: mult.assoc)
  also have "\<dots> \<le> (\<Sum>i\<in>{1..15}. cnt lens i * 2 ^ (15 - i))"
    using assms(2) by (intro sum_mono2) auto
  also have "\<dots> \<le> 2 ^ b * 2 ^ (15 - b)" using assms by (simp add: kraft_def flip: power_add)
  finally show ?thesis by simp
qed

lemma first_code_mono:
  "b \<le> c \<Longrightarrow> 2 ^ (c - b) * first_code lens b \<le> first_code lens c"
proof (induction c)
  case (Suc c)
  show ?case
  proof (cases "b = Suc c")
    case False
    then have "2 ^ (c - b) * first_code lens b \<le> first_code lens c" using Suc by simp
    then show ?thesis using False Suc.prems by (simp add: Suc_diff_le)
  qed simp
qed simp

lemma first_code_after:
  "b < c \<Longrightarrow> 2 ^ (c - b) * (first_code lens b + cnt lens b) \<le> first_code lens c"
proof -
  assume "b < c"
  then have "2 ^ (c - b) = 2 ^ (c - Suc b) * (2 :: nat)" by (metis Suc_diff_Suc power_Suc2)
  then show ?thesis using first_code_mono [of "Suc b" c lens] \<open>b < c\<close> by (simp add: algebra_simps)
qed

lemma count_list_take_less:
  "n < length xs \<Longrightarrow> count_list (take n xs) (xs ! n) < count_list xs (xs ! n)"
proof -
  assume "n < length xs"
  then have "xs = take n xs @ xs ! n # drop (Suc n) xs" by (rule id_take_nth_drop)
  then have "count_list xs (xs ! n) = count_list (take n xs) (xs ! n) + 1 + count_list (drop (Suc n) xs) (xs ! n)"
    by (metis count_list.simps(2) count_list_append add.assoc add.commute)
  then show ?thesis by linarith
qed

lemma count_list_take_inj:
  assumes "n < m" "m < length xs" "xs ! n = xs ! m"
  shows "count_list (take n xs) (xs ! n) < count_list (take m xs) (xs ! m)"
  using count_list_take_less [of n "take m xs"] assms by (simp add: min_def)

lemma canonical_range:
  assumes "n < length lens" "lens ! n \<noteq> 0"
  shows "first_code lens (lens ! n) \<le> canonical lens n"
    and "canonical lens n < first_code lens (lens ! n) + cnt lens (lens ! n)"
  using count_list_take_less [OF assms(1)] assms(2) by (auto simp: canonical_def cnt_def)

text \<open>No code is the beginning of another, as numbers.\<close>

lemma canonical_not_prefix:
  assumes "kraft lens" "n < length lens" "m < length lens" "n \<noteq> m" "lens ! n \<noteq> 0" "lens ! m \<noteq> 0"
    and "lens ! n \<le> lens ! m"
  shows "canonical lens m div 2 ^ (lens ! m - lens ! n) \<noteq> canonical lens n"
proof (cases "lens ! n = lens ! m")
  case True
  then have "count_list (take n lens) (lens ! n) \<noteq> count_list (take m lens) (lens ! m)"
    using count_list_take_inj [of n m lens] count_list_take_inj [of m n lens] assms(2-4)
    by (cases "n < m") auto
  then show ?thesis using True by (simp add: canonical_def)
next
  case False
  let ?d = "lens ! m - lens ! n"
  have "2 ^ ?d * (first_code lens (lens ! n) + cnt lens (lens ! n)) \<le> canonical lens m"
    using first_code_after [of "lens ! n" "lens ! m" lens] canonical_range(1) [OF assms(3,6)] False assms(7) by simp
  then have "first_code lens (lens ! n) + cnt lens (lens ! n) \<le> canonical lens m div 2 ^ ?d"
    by (simp add: less_eq_div_iff_mult_less_eq mult.commute)
  then show ?thesis using canonical_range(2) [OF assms(2,5)] by linarith
qed

lemma canonical_bound:
  assumes "kraft lens" "n < length lens" "lens ! n \<noteq> 0" "lens ! n \<le> 15"
  shows "canonical lens n < 2 ^ (lens ! n)"
  using canonical_range(2) [OF assms(2,3)] first_code_bound [OF assms(1,4)] by linarith


section \<open>What \<open>gen_codes\<close> computes\<close>

lemma next_code_loop_value:
  assumes "length bl_count = 16" "bl_count ! 0 = 0" "\<And>b. 1 \<le> b \<Longrightarrow> b \<le> 15 \<Longrightarrow> bl_count ! b = of_nat (cnt lens b)"
  shows "1 \<le> b \<Longrightarrow> b + k = 16 \<Longrightarrow> length next_code = 16 \<Longrightarrow> code = of_nat (first_code lens (b - 1)) \<Longrightarrow>
    (\<And>i. 1 \<le> i \<Longrightarrow> i < b \<Longrightarrow> next_code ! i = of_nat (first_code lens i)) \<Longrightarrow>
    \<exists>nc. next_code_loop b k code bl_count next_code = Some nc \<and> length nc = 16 \<and>
      (\<forall>i. 1 \<le> i \<and> i < 16 \<longrightarrow> nc ! i = of_nat (first_code lens i))"
proof (induction k arbitrary: b code next_code)
  case 0
  then show ?case by simp
next
  case (Suc k)
  let ?code = "push_bit 1 (code + bl_count ! (b - 1))"
  have "bl_count ! (b - 1) = of_nat (cnt lens (b - 1))"
    using assms(2) assms(3) [of "b - 1"] Suc.prems by (cases "b = 1") (simp_all add: cnt_def)
  then have code: "?code = of_nat (first_code lens b)"
    using Suc.prems(1,4) by (cases b) (simp_all add: push_bit_eq_mult)
  have "\<exists>nc. next_code_loop (b + 1) k ?code bl_count (next_code[b := ?code]) = Some nc \<and> length nc = 16 \<and>
      (\<forall>i. 1 \<le> i \<and> i < 16 \<longrightarrow> nc ! i = of_nat (first_code lens i))"
  proof (rule Suc.IH)
    show "(next_code[b := ?code]) ! i = of_nat (first_code lens i)" if "1 \<le> i" "i < b + 1" for i
      using that Suc.prems(2,3) Suc.prems(5) [of i] code by (cases "i = b") auto
  qed (use Suc.prems code in auto)
  then show ?case using Suc.prems assms(1) by (simp add: Let_def)
qed

definition code_word :: "nat list \<Rightarrow> nat \<Rightarrow> ushort" where
  "code_word lens n = ucast (bi_reverse (ucast (of_nat (canonical lens n) :: ushort)) (int (lens ! n)))"

lemma codes_loop_value:
  assumes "length lens \<le> length tree0" "\<And>l. l \<in> set lens \<Longrightarrow> l \<le> 15"
  shows "n + k = length lens \<Longrightarrow> length tree = length tree0 \<Longrightarrow> length nc = 16 \<Longrightarrow>
    (\<And>i. i < length tree0 \<Longrightarrow> Len (tree ! i) = Len (tree0 ! i)) \<Longrightarrow>
    (\<And>i. i < length lens \<Longrightarrow> unat (Len (tree0 ! i)) = lens ! i) \<Longrightarrow>
    (\<And>b. 1 \<le> b \<Longrightarrow> b < 16 \<Longrightarrow> nc ! b = of_nat (first_code lens b + count_list (take n lens) b)) \<Longrightarrow>
    (\<And>i. i < n \<Longrightarrow> lens ! i \<noteq> 0 \<Longrightarrow> Code (tree ! i) = code_word lens i) \<Longrightarrow>
    \<exists>tree'. codes_loop n k tree nc = Some tree' \<and> length tree' = length tree0 \<and>
      (\<forall>i < length tree0. Len (tree' ! i) = Len (tree0 ! i)) \<and>
      (\<forall>i < length lens. lens ! i \<noteq> 0 \<longrightarrow> Code (tree' ! i) = code_word lens i)"
proof (induction k arbitrary: n tree nc)
  case 0
  then show ?case by simp
next
  case (Suc k)
  have n: "n < length lens" "n < length tree0" using Suc.prems(1) assms(1) by auto
  have len: "unat (Len (tree ! n)) = lens ! n" using Suc.prems(4,5) n by simp
  have take: "take (n + 1) lens = take n lens @ [lens ! n]" "take (Suc n) lens = take n lens @ [lens ! n]"
    using n(1) by (simp_all add: take_Suc_conv_app_nth)
  show ?case
  proof (cases "lens ! n = 0")
    case True
    have "\<exists>tree'. codes_loop (n + 1) k tree nc = Some tree' \<and> length tree' = length tree0 \<and>
      (\<forall>i < length tree0. Len (tree' ! i) = Len (tree0 ! i)) \<and>
      (\<forall>i < length lens. lens ! i \<noteq> 0 \<longrightarrow> Code (tree' ! i) = code_word lens i)"
    proof (rule Suc.IH)
      show "nc ! b = of_nat (first_code lens b + count_list (take (n + 1) lens) b)" if "1 \<le> b" "b < 16" for b
        using Suc.prems(6) [OF that] that True by (simp add: take)
      show "Code (tree ! i) = code_word lens i" if "i < n + 1" "lens ! i \<noteq> 0" for i
        using Suc.prems(7) [of i] that True by (cases "i = n") auto
    qed (use Suc.prems in auto)
    then show ?thesis using True len n Suc.prems(2) by simp
  next
    case False
    let ?l = "lens ! n"
    have l: "1 \<le> ?l" "?l < 16" using False assms(2) [of ?l] n(1) by (auto simp: nth_mem less_Suc_eq_le)
    have c: "nc ! ?l = of_nat (canonical lens n)" using Suc.prems(6) [OF l] by (simp add: canonical_def)
    let ?t = "(tree ! n) \<lparr> fc := ucast (bi_reverse (ucast (nc ! ?l)) (int ?l)) \<rparr>"
    have t: "Code ?t = code_word lens n" "Len ?t = Len (tree ! n)" by (simp_all add: code_word_def c)
    have "\<exists>tree'. codes_loop (n + 1) k (tree[n := ?t]) (nc[?l := nc ! ?l + 1]) = Some tree' \<and> length tree' = length tree0 \<and>
      (\<forall>i < length tree0. Len (tree' ! i) = Len (tree0 ! i)) \<and>
      (\<forall>i < length lens. lens ! i \<noteq> 0 \<longrightarrow> Code (tree' ! i) = code_word lens i)"
    proof (rule Suc.IH)
      show "(nc[?l := nc ! ?l + 1]) ! b = of_nat (first_code lens b + count_list (take (n + 1) lens) b)" if "1 \<le> b" "b < 16" for b
        using Suc.prems(6) [OF that] Suc.prems(3) that l by (cases "b = ?l") (auto simp: take)
      show "Len ((tree[n := ?t]) ! i) = Len (tree0 ! i)" if "i < length tree0" for i
        using Suc.prems(2) Suc.prems(4) [OF that] that t(2) n by (cases "i = n") auto
      show "Code ((tree[n := ?t]) ! i) = code_word lens i" if "i < n + 1" "lens ! i \<noteq> 0" for i
        using Suc.prems(2) Suc.prems(7) [of i] that t(1) n by (cases "i = n") auto
    qed (use Suc.prems in auto)
    then show ?thesis using False len n l Suc.prems(2,3) by (simp add: Let_def)
  qed
qed

text \<open>The bits sent for a code, first bit first.\<close>

lemma bits_code_word:
  assumes "kraft lens" "n < length lens" "lens ! n \<noteq> 0" "lens ! n \<le> 15"
  shows "bits (lens ! n) (code_word lens n) = map (\<lambda>i. bit (canonical lens n) (lens ! n - 1 - i)) [0..<lens ! n]"
proof (rule nth_equalityI)
  have small: "canonical lens n < 2 ^ 16"
    by (rule less_le_trans [OF canonical_bound [OF assms]], rule power_increasing) (use assms(4) in auto)
  fix i assume "i < length (bits (lens ! n) (code_word lens n))"
  then have i: "i < lens ! n" by simp
  have "bit (canonical lens n) k \<Longrightarrow> k < 16" for k
    using small by (metis bit_take_bit_iff take_bit_nat_eq_self)
  then show "bits (lens ! n) (code_word lens n) ! i =
      map (\<lambda>i. bit (canonical lens n) (lens ! n - 1 - i)) [0..<lens ! n] ! i"
    using i assms(3,4)
    by (auto simp: code_word_def bit_ucast_iff bit_bi_reverse bit_of_nat_iff simp del: of_nat_diff)
qed simp

lemma code_words_prefix_free:
  assumes "kraft lens" "n < length lens" "m < length lens" "n \<noteq> m" "lens ! n \<noteq> 0" "lens ! m \<noteq> 0"
    and "\<And>l. l \<in> set lens \<Longrightarrow> l \<le> 15"
  shows "\<not> prefix (bits (lens ! n) (code_word lens n)) (bits (lens ! m) (code_word lens m))"
proof
  assume pre: "prefix (bits (lens ! n) (code_word lens n)) (bits (lens ! m) (code_word lens m))"
  let ?l = "lens ! n" and ?k = "lens ! m"
  have le: "?l \<le> 15" "?k \<le> 15" using assms(2,3,7) nth_mem by blast+
  have len: "?l \<le> ?k" using prefix_length_le [OF pre] by simp
  have eq: "bit (canonical lens n) (?l - 1 - i) = bit (canonical lens m) (?k - 1 - i)" if "i < ?l" for i
    using pre that len unfolding bits_code_word [OF assms(1,2,5) le(1)] bits_code_word [OF assms(1,3,6) le(2)]
    by (auto simp: prefix_def dest!: arg_cong [of _ _ "\<lambda>xs. xs ! i"] simp: nth_append)
  have "bit (drop_bit (?k - ?l) (canonical lens m)) j = bit (canonical lens n) j" for j
  proof (cases "j < ?l")
    case True
    then show ?thesis using eq [of "?l - 1 - j"] len by (simp add: bit_drop_bit_eq algebra_simps)
  next
    case False
    have "canonical lens n < 2 ^ j" "canonical lens m < 2 ^ (?k - ?l + j)"
      using canonical_bound [OF assms(1,2,5) le(1)] canonical_bound [OF assms(1,3,6) le(2)] False len
      by (auto intro: less_le_trans power_increasing)
    then show ?thesis unfolding bit_drop_bit_eq
      by (metis bit_take_bit_iff comp_apply less_irrefl take_bit_nat_eq_self)
  qed
  then have "canonical lens m div 2 ^ (?k - ?l) = canonical lens n"
    by (metis bit_eqI drop_bit_eq_div)
  then show False using canonical_not_prefix [OF assms(1-6) len] by simp
qed

text \<open>Everything \<open>gen_codes\<close> does, with the lengths of the tree and their counts given.\<close>

lemma gen_codes_value:
  assumes "max_code < length tree" "lens = tree_lens tree (max_code + 1)" "\<And>l. l \<in> set lens \<Longrightarrow> l \<le> 15"
    and "length bl_count = 16" "bl_count ! 0 = 0" "\<And>b. 1 \<le> b \<Longrightarrow> b \<le> 15 \<Longrightarrow> bl_count ! b = of_nat (cnt lens b)"
  shows "\<exists>tree'. gen_codes tree max_code bl_count = Some tree' \<and> length tree' = length tree \<and>
    (\<forall>i < length tree. Len (tree' ! i) = Len (tree ! i)) \<and>
    (\<forall>i \<le> max_code. lens ! i \<noteq> 0 \<longrightarrow> Code (tree' ! i) = code_word lens i)"
proof -
  have len: "length lens = max_code + 1" using assms(1,2) by (simp add: tree_lens_def)
  obtain nc where nc: "next_code_loop 1 MAX_BITS 0 bl_count (replicate (MAX_BITS + 1) 0) = Some nc"
      "length nc = 16" "\<And>i. 1 \<le> i \<Longrightarrow> i < 16 \<Longrightarrow> nc ! i = of_nat (first_code lens i)"
    using next_code_loop_value [OF assms(4,5,6), where b = 1 and k = 15 and next_code = "replicate 16 0" and code = 0]
    by (auto simp: MAX_BITS_def)
  have "\<exists>tree'. codes_loop 0 (max_code + 1) tree nc = Some tree' \<and> length tree' = length tree \<and>
      (\<forall>i < length tree. Len (tree' ! i) = Len (tree ! i)) \<and>
      (\<forall>i < length lens. lens ! i \<noteq> 0 \<longrightarrow> Code (tree' ! i) = code_word lens i)"
    by (rule codes_loop_value [OF _ assms(3)]) (use len nc assms(1,2) in \<open>auto simp: tree_lens_def\<close>)
  then show ?thesis using nc(1) len by (auto simp: gen_codes_def less_Suc_eq_le)
qed


section \<open>Properties\<close>

text \<open>
  C6. For code lengths that satisfy the Kraft inequality \<open>gen_codes\<close> returns, keeps the lengths, and
  the codes it assigns, in the order in which \<open>send_bits\<close> emits their bits, are prefix free.
\<close>

theorem gen_codes_prefix_free:
  assumes "max_code < length tree"
    and "\<forall>l \<in> set (tree_lens tree (max_code + 1)). l \<le> MAX_BITS"
    and "kraft (tree_lens tree (max_code + 1))"
    and "length bl_count = MAX_BITS + 1" "bl_count ! 0 = 0"
    and "\<forall>b. 1 \<le> b \<and> b \<le> MAX_BITS \<longrightarrow> bl_count ! b = of_nat (cnt (tree_lens tree (max_code + 1)) b)"
  shows "\<exists>tree'. gen_codes tree max_code bl_count = Some tree' \<and> length tree' = length tree \<and>
    (\<forall>i < length tree. Len (tree' ! i) = Len (tree ! i)) \<and>
    (\<forall>n m. n \<le> max_code \<and> m \<le> max_code \<and> n \<noteq> m \<and> Len (tree' ! n) \<noteq> 0 \<and> Len (tree' ! m) \<noteq> 0 \<longrightarrow>
      \<not> prefix (bits (unat (Len (tree' ! n))) (Code (tree' ! n))) (bits (unat (Len (tree' ! m))) (Code (tree' ! m))))"
proof -
  let ?lens = "tree_lens tree (max_code + 1)"
  have max: "\<And>l. l \<in> set ?lens \<Longrightarrow> l \<le> 15" using assms(2) by (simp add: MAX_BITS_def)
  have nth: "length ?lens = max_code + 1" "\<And>i. i \<le> max_code \<Longrightarrow> ?lens ! i = unat (Len (tree ! i))"
    using assms(1) by (simp_all add: tree_lens_def)
  obtain tree' where t: "gen_codes tree max_code bl_count = Some tree'" "length tree' = length tree"
      "\<forall>i < length tree. Len (tree' ! i) = Len (tree ! i)"
      "\<forall>i \<le> max_code. ?lens ! i \<noteq> 0 \<longrightarrow> Code (tree' ! i) = code_word ?lens i"
    using gen_codes_value [OF assms(1) refl max, of bl_count] assms(4-6) unfolding MAX_BITS_def by fastforce
  have "\<not> prefix (bits (unat (Len (tree' ! n))) (Code (tree' ! n))) (bits (unat (Len (tree' ! m))) (Code (tree' ! m)))"
    if "n \<le> max_code" "m \<le> max_code" "n \<noteq> m" "Len (tree' ! n) \<noteq> 0" "Len (tree' ! m) \<noteq> 0" for n m
  proof -
    have l: "unat (Len (tree' ! n)) = ?lens ! n" "unat (Len (tree' ! m)) = ?lens ! m"
      using that t(3) nth assms(1) by auto
    then have z: "?lens ! n \<noteq> 0" "?lens ! m \<noteq> 0" using that(4,5) by (metis unat_eq_0)+
    then show ?thesis using code_words_prefix_free [OF assms(3) _ _ that(3) z max] t(4) that(1,2) nth(1) l by simp
  qed
  then show ?thesis using t by blast
qed

lemma gen_codes_prefix_free_witness:
  "\<exists>tree'. gen_codes [\<lparr>fc = 7, dl = 2\<rparr>, \<lparr>fc = 9, dl = 1\<rparr>, \<lparr>fc = 0, dl = 0\<rparr>, \<lparr>fc = 5, dl = 2\<rparr>] 3
      [0, 1, 2, 0, 0, 0, 0, 0, 0, 0, 0, 0, 0, 0, 0, 0] = Some tree' \<and>
    \<not> prefix (bits (unat (Len (tree' ! 1))) (Code (tree' ! 1))) (bits (unat (Len (tree' ! 3))) (Code (tree' ! 3)))"
proof -
  let ?t = "[\<lparr>fc = 7, dl = 2\<rparr>, \<lparr>fc = 9, dl = 1\<rparr>, \<lparr>fc = 0, dl = 0\<rparr>, \<lparr>fc = 5, dl = 2\<rparr>]"
  let ?c = "[0, 1, 2, 0, 0, 0, 0, 0, 0, 0, 0, 0, 0, 0, 0, 0] :: ushort list"
  have l: "tree_lens ?t (3 + 1) = [2, 1, 0, 2]" by (simp add: tree_lens_def)
  have b: "?c ! b = of_nat (cnt [2, 1, 0, 2] b)" if "1 \<le> b \<and> b \<le> MAX_BITS" for b
  proof -
    have "b \<in> {1, 2, 3, 4, 5, 6, 7, 8, 9, 10, 11, 12, 13, 14, 15}" using that by (simp add: MAX_BITS_def) presburger
    then show ?thesis by (auto simp: cnt_def)
  qed
  have k: "kraft [2, 1, 0, 2]" by (simp add: kraft_def cnt_def atLeastAtMost_upt upt_rec)
  have p: "3 < length ?t" "\<forall>l \<in> set (tree_lens ?t (3 + 1)). l \<le> MAX_BITS" "kraft (tree_lens ?t (3 + 1))"
      "length ?c = MAX_BITS + 1" "?c ! 0 = 0"
      "\<forall>b. 1 \<le> b \<and> b \<le> MAX_BITS \<longrightarrow> ?c ! b = of_nat (cnt (tree_lens ?t (3 + 1)) b)"
    unfolding l using b k by (simp_all add: MAX_BITS_def)
  obtain tree' where t: "gen_codes ?t 3 ?c = Some tree'" "\<forall>i < length ?t. Len (tree' ! i) = Len (?t ! i)"
    "\<forall>n m. n \<le> 3 \<and> m \<le> 3 \<and> n \<noteq> m \<and> Len (tree' ! n) \<noteq> 0 \<and> Len (tree' ! m) \<noteq> 0 \<longrightarrow>
      \<not> prefix (bits (unat (Len (tree' ! n))) (Code (tree' ! n))) (bits (unat (Len (tree' ! m))) (Code (tree' ! m)))"
    using gen_codes_prefix_free [OF p] by (elim exE conjE)
  have "Len (tree' ! 1) = 1" "Len (tree' ! 3) = 2" using t(2) by simp_all
  then have "\<not> prefix (bits (unat (Len (tree' ! 1))) (Code (tree' ! 1))) (bits (unat (Len (tree' ! 3))) (Code (tree' ! 3)))"
    using t(3) [rule_format, of 1 3] by simp
  then show ?thesis using t(1) by blast
qed

end
