(* ===== verification/Static_Trees.thy ===== *)
theory Static_Trees
  imports Gen_Codes
begin

text \<open>
  The constants and static trees of the compressor, \<^verbatim>\<open>src/AOS/aos/zlib/trees.c\<close> and the generated
  header \<^verbatim>\<open>src/AOS/aos/zlib/trees.h\<close>: the tables, \<open>tr_static_init\<close> which builds them where the
  header cannot be used, and \<open>d_code\<close>. The two ways give the same tables, and the tables invert
  the base values and extra bits.
\<close>

section \<open>Constants\<close>

definition LENGTH_CODES :: nat where "LENGTH_CODES = 29"
definition LITERALS :: nat where "LITERALS = 256"
definition L_CODES :: nat where "L_CODES = LITERALS + 1 + LENGTH_CODES"
definition D_CODES :: nat where "D_CODES = 30"
definition BL_CODES :: nat where "BL_CODES = 19"
definition HEAP_SIZE :: nat where "HEAP_SIZE = 2 * L_CODES + 1"
definition MAX_BL_BITS :: nat where "MAX_BL_BITS = 7"
definition END_BLOCK :: nat where "END_BLOCK = 256"
definition REP_3_6 :: nat where "REP_3_6 = 16"
definition REPZ_3_10 :: nat where "REPZ_3_10 = 17"
definition REPZ_11_138 :: nat where "REPZ_11_138 = 18"
definition DIST_CODE_LEN :: nat where "DIST_CODE_LEN = 512"

definition extra_lbits :: "nat list" where
  "extra_lbits = [0,0,0,0,0,0,0,0,1,1,1,1,2,2,2,2,3,3,3,3,4,4,4,4,5,5,5,5,0]"

definition extra_dbits :: "nat list" where
  "extra_dbits = [0,0,0,0,1,1,2,2,3,3,4,4,5,5,6,6,7,7,8,8,9,9,10,10,11,11,12,12,13,13]"

definition extra_blbits :: "nat list" where
  "extra_blbits = [0,0,0,0,0,0,0,0,0,0,0,0,0,0,0,0,2,3,7]"

definition bl_order :: "nat list" where
  "bl_order = [16,17,18,0,8,7,9,6,10,5,11,4,12,3,13,2,14,1,15]"

section \<open>The tables of \<open>trees.h\<close>\<close>

text \<open>Each entry is a code and its length.\<close>

definition static_ltree :: "ct_data list" where
  "static_ltree = map (\<lambda>(c, l). \<lparr> fc = c, dl = l \<rparr>) [
    (12, 8), (140, 8), (76, 8), (204, 8), (44, 8), (172, 8), (108, 8), (236, 8), (28, 8), (156, 8),
    (92, 8), (220, 8), (60, 8), (188, 8), (124, 8), (252, 8), (2, 8), (130, 8), (66, 8), (194, 8),
    (34, 8), (162, 8), (98, 8), (226, 8), (18, 8), (146, 8), (82, 8), (210, 8), (50, 8), (178, 8),
    (114, 8), (242, 8), (10, 8), (138, 8), (74, 8), (202, 8), (42, 8), (170, 8), (106, 8), (234, 8),
    (26, 8), (154, 8), (90, 8), (218, 8), (58, 8), (186, 8), (122, 8), (250, 8), (6, 8), (134, 8),
    (70, 8), (198, 8), (38, 8), (166, 8), (102, 8), (230, 8), (22, 8), (150, 8), (86, 8), (214, 8),
    (54, 8), (182, 8), (118, 8), (246, 8), (14, 8), (142, 8), (78, 8), (206, 8), (46, 8), (174, 8),
    (110, 8), (238, 8), (30, 8), (158, 8), (94, 8), (222, 8), (62, 8), (190, 8), (126, 8), (254, 8),
    (1, 8), (129, 8), (65, 8), (193, 8), (33, 8), (161, 8), (97, 8), (225, 8), (17, 8), (145, 8),
    (81, 8), (209, 8), (49, 8), (177, 8), (113, 8), (241, 8), (9, 8), (137, 8), (73, 8), (201, 8),
    (41, 8), (169, 8), (105, 8), (233, 8), (25, 8), (153, 8), (89, 8), (217, 8), (57, 8), (185, 8),
    (121, 8), (249, 8), (5, 8), (133, 8), (69, 8), (197, 8), (37, 8), (165, 8), (101, 8), (229, 8),
    (21, 8), (149, 8), (85, 8), (213, 8), (53, 8), (181, 8), (117, 8), (245, 8), (13, 8), (141, 8),
    (77, 8), (205, 8), (45, 8), (173, 8), (109, 8), (237, 8), (29, 8), (157, 8), (93, 8), (221, 8),
    (61, 8), (189, 8), (125, 8), (253, 8), (19, 9), (275, 9), (147, 9), (403, 9), (83, 9), (339, 9),
    (211, 9), (467, 9), (51, 9), (307, 9), (179, 9), (435, 9), (115, 9), (371, 9), (243, 9), (499, 9),
    (11, 9), (267, 9), (139, 9), (395, 9), (75, 9), (331, 9), (203, 9), (459, 9), (43, 9), (299, 9),
    (171, 9), (427, 9), (107, 9), (363, 9), (235, 9), (491, 9), (27, 9), (283, 9), (155, 9), (411, 9),
    (91, 9), (347, 9), (219, 9), (475, 9), (59, 9), (315, 9), (187, 9), (443, 9), (123, 9), (379, 9),
    (251, 9), (507, 9), (7, 9), (263, 9), (135, 9), (391, 9), (71, 9), (327, 9), (199, 9), (455, 9),
    (39, 9), (295, 9), (167, 9), (423, 9), (103, 9), (359, 9), (231, 9), (487, 9), (23, 9), (279, 9),
    (151, 9), (407, 9), (87, 9), (343, 9), (215, 9), (471, 9), (55, 9), (311, 9), (183, 9), (439, 9),
    (119, 9), (375, 9), (247, 9), (503, 9), (15, 9), (271, 9), (143, 9), (399, 9), (79, 9), (335, 9),
    (207, 9), (463, 9), (47, 9), (303, 9), (175, 9), (431, 9), (111, 9), (367, 9), (239, 9), (495, 9),
    (31, 9), (287, 9), (159, 9), (415, 9), (95, 9), (351, 9), (223, 9), (479, 9), (63, 9), (319, 9),
    (191, 9), (447, 9), (127, 9), (383, 9), (255, 9), (511, 9), (0, 7), (64, 7), (32, 7), (96, 7),
    (16, 7), (80, 7), (48, 7), (112, 7), (8, 7), (72, 7), (40, 7), (104, 7), (24, 7), (88, 7),
    (56, 7), (120, 7), (4, 7), (68, 7), (36, 7), (100, 7), (20, 7), (84, 7), (52, 7), (116, 7),
    (3, 8), (131, 8), (67, 8), (195, 8), (35, 8), (163, 8), (99, 8), (227, 8)]"

definition static_dtree :: "ct_data list" where
  "static_dtree = map (\<lambda>(c, l). \<lparr> fc = c, dl = l \<rparr>) [
    (0, 5), (16, 5), (8, 5), (24, 5), (4, 5), (20, 5), (12, 5), (28, 5), (2, 5), (18, 5),
    (10, 5), (26, 5), (6, 5), (22, 5), (14, 5), (30, 5), (1, 5), (17, 5), (9, 5), (25, 5),
    (5, 5), (21, 5), (13, 5), (29, 5), (3, 5), (19, 5), (11, 5), (27, 5), (7, 5), (23, 5)]"

definition dist_code :: "nat list" where
  "dist_code = [
    0, 1, 2, 3, 4, 4, 5, 5, 6, 6, 6, 6, 7, 7, 7, 7, 8, 8, 8, 8, 8, 8, 8, 8, 9, 9,
    9, 9, 9, 9, 9, 9, 10, 10, 10, 10, 10, 10, 10, 10, 10, 10, 10, 10, 10, 10, 10, 10, 11, 11, 11, 11,
    11, 11, 11, 11, 11, 11, 11, 11, 11, 11, 11, 11, 12, 12, 12, 12, 12, 12, 12, 12, 12, 12, 12, 12, 12, 12,
    12, 12, 12, 12, 12, 12, 12, 12, 12, 12, 12, 12, 12, 12, 12, 12, 12, 12, 13, 13, 13, 13, 13, 13, 13, 13,
    13, 13, 13, 13, 13, 13, 13, 13, 13, 13, 13, 13, 13, 13, 13, 13, 13, 13, 13, 13, 13, 13, 13, 13, 14, 14,
    14, 14, 14, 14, 14, 14, 14, 14, 14, 14, 14, 14, 14, 14, 14, 14, 14, 14, 14, 14, 14, 14, 14, 14, 14, 14,
    14, 14, 14, 14, 14, 14, 14, 14, 14, 14, 14, 14, 14, 14, 14, 14, 14, 14, 14, 14, 14, 14, 14, 14, 14, 14,
    14, 14, 14, 14, 14, 14, 14, 14, 14, 14, 15, 15, 15, 15, 15, 15, 15, 15, 15, 15, 15, 15, 15, 15, 15, 15,
    15, 15, 15, 15, 15, 15, 15, 15, 15, 15, 15, 15, 15, 15, 15, 15, 15, 15, 15, 15, 15, 15, 15, 15, 15, 15,
    15, 15, 15, 15, 15, 15, 15, 15, 15, 15, 15, 15, 15, 15, 15, 15, 15, 15, 15, 15, 15, 15, 0, 0, 16, 17,
    18, 18, 19, 19, 20, 20, 20, 20, 21, 21, 21, 21, 22, 22, 22, 22, 22, 22, 22, 22, 23, 23, 23, 23, 23, 23,
    23, 23, 24, 24, 24, 24, 24, 24, 24, 24, 24, 24, 24, 24, 24, 24, 24, 24, 25, 25, 25, 25, 25, 25, 25, 25,
    25, 25, 25, 25, 25, 25, 25, 25, 26, 26, 26, 26, 26, 26, 26, 26, 26, 26, 26, 26, 26, 26, 26, 26, 26, 26,
    26, 26, 26, 26, 26, 26, 26, 26, 26, 26, 26, 26, 26, 26, 27, 27, 27, 27, 27, 27, 27, 27, 27, 27, 27, 27,
    27, 27, 27, 27, 27, 27, 27, 27, 27, 27, 27, 27, 27, 27, 27, 27, 27, 27, 27, 27, 28, 28, 28, 28, 28, 28,
    28, 28, 28, 28, 28, 28, 28, 28, 28, 28, 28, 28, 28, 28, 28, 28, 28, 28, 28, 28, 28, 28, 28, 28, 28, 28,
    28, 28, 28, 28, 28, 28, 28, 28, 28, 28, 28, 28, 28, 28, 28, 28, 28, 28, 28, 28, 28, 28, 28, 28, 28, 28,
    28, 28, 28, 28, 28, 28, 29, 29, 29, 29, 29, 29, 29, 29, 29, 29, 29, 29, 29, 29, 29, 29, 29, 29, 29, 29,
    29, 29, 29, 29, 29, 29, 29, 29, 29, 29, 29, 29, 29, 29, 29, 29, 29, 29, 29, 29, 29, 29, 29, 29, 29, 29,
    29, 29, 29, 29, 29, 29, 29, 29, 29, 29, 29, 29, 29, 29, 29, 29, 29, 29]"

definition length_code :: "nat list" where
  "length_code = [
    0, 1, 2, 3, 4, 5, 6, 7, 8, 8, 9, 9, 10, 10, 11, 11, 12, 12, 12, 12, 13, 13, 13, 13, 14, 14,
    14, 14, 15, 15, 15, 15, 16, 16, 16, 16, 16, 16, 16, 16, 17, 17, 17, 17, 17, 17, 17, 17, 18, 18, 18, 18,
    18, 18, 18, 18, 19, 19, 19, 19, 19, 19, 19, 19, 20, 20, 20, 20, 20, 20, 20, 20, 20, 20, 20, 20, 20, 20,
    20, 20, 21, 21, 21, 21, 21, 21, 21, 21, 21, 21, 21, 21, 21, 21, 21, 21, 22, 22, 22, 22, 22, 22, 22, 22,
    22, 22, 22, 22, 22, 22, 22, 22, 23, 23, 23, 23, 23, 23, 23, 23, 23, 23, 23, 23, 23, 23, 23, 23, 24, 24,
    24, 24, 24, 24, 24, 24, 24, 24, 24, 24, 24, 24, 24, 24, 24, 24, 24, 24, 24, 24, 24, 24, 24, 24, 24, 24,
    24, 24, 24, 24, 25, 25, 25, 25, 25, 25, 25, 25, 25, 25, 25, 25, 25, 25, 25, 25, 25, 25, 25, 25, 25, 25,
    25, 25, 25, 25, 25, 25, 25, 25, 25, 25, 26, 26, 26, 26, 26, 26, 26, 26, 26, 26, 26, 26, 26, 26, 26, 26,
    26, 26, 26, 26, 26, 26, 26, 26, 26, 26, 26, 26, 26, 26, 26, 26, 27, 27, 27, 27, 27, 27, 27, 27, 27, 27,
    27, 27, 27, 27, 27, 27, 27, 27, 27, 27, 27, 27, 27, 27, 27, 27, 27, 27, 27, 27, 27, 28]"

definition base_length :: "nat list" where
  "base_length = [
    0, 1, 2, 3, 4, 5, 6, 7, 8, 10, 12, 14, 16, 20, 24,
    28, 32, 40, 48, 56, 64, 80, 96, 112, 128, 160, 192, 224, 0]"

definition base_dist :: "nat list" where
  "base_dist = [
    0, 1, 2, 3, 4, 6, 8, 12, 16, 24, 32, 48, 64, 96, 128,
    192, 256, 384, 512, 768, 1024, 1536, 2048, 3072, 4096, 6144, 8192, 12288, 16384, 24576]"

text \<open>\<open>d_code(dist)\<close> for a distance less one.\<close>

definition d_code :: "nat \<Rightarrow> nat option" where
  "d_code dist = (if dist < 256 then peek dist_code dist else peek dist_code (256 + dist div 2 ^ 7))"

section \<open>Building the tables\<close>

text \<open>The globals that \<open>tr_static_init\<close> fills when \<open>trees.h\<close> is not included.\<close>

record statics =
  init_done :: bool
  ltree_of :: "ct_data list"
  dtree_of :: "ct_data list"
  dist_code_of :: "nat list"
  length_code_of :: "nat list"
  base_length_of :: "nat list"
  base_dist_of :: "nat list"

text \<open>\<open>for (n = 0; n < count; n++) table[pos++] = x;\<close>\<close>

fun fill :: "'a list \<Rightarrow> nat \<Rightarrow> nat \<Rightarrow> 'a \<Rightarrow> 'a list option" where
  "fill table pos 0 x = Some table"
| "fill table pos (Suc n) x = do { table \<leftarrow> poke table pos x; fill table (pos + 1) n x }"

text \<open>
  The three loops over the codes share their shape: \<open>base\<close> is what is stored as base value, \<open>at\<close>
  where the codes go and \<open>count\<close> how many, for \<open>k\<close> codes from \<open>code\<close> on. The result holds the
  advanced position.
\<close>

fun code_loop :: "(nat \<Rightarrow> nat) \<Rightarrow> nat \<Rightarrow> (nat \<Rightarrow> nat option) \<Rightarrow> nat \<Rightarrow> nat \<Rightarrow> nat \<Rightarrow> nat list \<Rightarrow> nat list
    \<Rightarrow> (nat \<times> nat list \<times> nat list) option" where
  "code_loop base off count code 0 pos bases codes = Some (pos, bases, codes)"
| "code_loop base off count code (Suc k) pos bases codes = do {
    bases \<leftarrow> poke bases code (base pos);
    n \<leftarrow> count code;
    codes \<leftarrow> fill codes (off + pos) n code;
    code_loop base off count (code + 1) k (pos + n) bases codes }"

text \<open>\<open>while (n <= last) static_ltree[n++].Len = len, bl_count[len]++;\<close> for \<open>k\<close> nodes from \<open>n\<close> on.\<close>

fun set_lens :: "nat \<Rightarrow> nat \<Rightarrow> ushort \<Rightarrow> ct_data list \<Rightarrow> ushort list \<Rightarrow> (ct_data list \<times> ushort list) option" where
  "set_lens n 0 len tree bl_count = Some (tree, bl_count)"
| "set_lens n (Suc k) len tree bl_count = do {
    t \<leftarrow> peek tree n;
    tree \<leftarrow> poke tree n (t \<lparr> dl := len \<rparr>);
    c \<leftarrow> peek bl_count (unat len);
    bl_count \<leftarrow> poke bl_count (unat len) (c + 1);
    set_lens (n + 1) k len tree bl_count }"

fun set_dtree :: "nat \<Rightarrow> nat \<Rightarrow> ct_data list \<Rightarrow> ct_data list option" where
  "set_dtree n 0 tree = Some tree"
| "set_dtree n (Suc k) tree = do {
    t \<leftarrow> peek tree n;
    tree \<leftarrow> poke tree n (t \<lparr> dl := 5, fc := ucast (bi_reverse (of_nat n) 5) \<rparr>);
    set_dtree (n + 1) k tree }"

definition tr_static_init :: "statics \<Rightarrow> statics option" where
  "tr_static_init g =
    (if init_done g then Some g
     else do {
       (length, bl, lc) \<leftarrow> code_loop id 0 (\<lambda>code. map_option (\<lambda>e. 2 ^ e) (peek extra_lbits code))
         0 (LENGTH_CODES - 1) 0 (base_length_of g) (length_code_of g);
       lc \<leftarrow> poke lc (length - 1) (LENGTH_CODES - 1);
       (dist, bd, dc) \<leftarrow> code_loop id 0 (\<lambda>code. map_option (\<lambda>e. 2 ^ e) (peek extra_dbits code))
         0 16 0 (base_dist_of g) (dist_code_of g);
       (dist, bd, dc) \<leftarrow> code_loop (\<lambda>dist. push_bit 7 dist) 256
         (\<lambda>code. map_option (\<lambda>e. 2 ^ (e - 7)) (peek extra_dbits code)) 16 (D_CODES - 16) (drop_bit 7 dist) bd dc;
       (lt, bl_count) \<leftarrow> set_lens 0 144 8 (ltree_of g) (replicate (MAX_BITS + 1) 0);
       (lt, bl_count) \<leftarrow> set_lens 144 112 9 lt bl_count;
       (lt, bl_count) \<leftarrow> set_lens 256 24 7 lt bl_count;
       (lt, bl_count) \<leftarrow> set_lens 280 8 8 lt bl_count;
       lt \<leftarrow> gen_codes lt (L_CODES + 1) bl_count;
       dt \<leftarrow> set_dtree 0 D_CODES (dtree_of g);
       Some \<lparr> init_done = True, ltree_of = lt, dtree_of = dt, dist_code_of = dc, length_code_of = lc,
         base_length_of = bl, base_dist_of = bd \<rparr> })"

lemma fill_value:
  "n \<le> length rest \<Longrightarrow> fill (pre @ rest) (length pre) n x = Some (pre @ replicate n x @ drop n rest)"
proof (induction n arbitrary: pre rest)
  case (Suc n)
  then obtain y ys where "rest = y # ys" by (cases rest) auto
  then show ?case using Suc.IH [of ys "pre @ [x]"] Suc.prems by simp
qed simp

text \<open>One code of \<open>code_loop\<close>, between the parts filled and the parts not yet filled.\<close>

lemma code_loop_step:
  assumes "count code = Some n" "length bpre = code" "length cpre = off + pos" "n \<le> length crest"
  shows "code_loop base off count code (Suc k) pos (bpre @ b # brest) (cpre @ crest) =
    code_loop base off count (code + 1) k (pos + n) ((bpre @ [base pos]) @ brest)
      ((cpre @ replicate n code) @ drop n crest)"
  using fill_value [OF assms(4), of cpre code] assms by (simp add: list_update_append)

text \<open>The first index of the codes and the codes themselves, for given group sizes.\<close>

fun group_bases :: "nat \<Rightarrow> nat list \<Rightarrow> nat list" where
  "group_bases pos [] = []"
| "group_bases pos (n # ns) = pos # group_bases (pos + n) ns"

fun group_codes :: "nat \<Rightarrow> nat list \<Rightarrow> nat list" where
  "group_codes code [] = []"
| "group_codes code (n # ns) = replicate n code @ group_codes (code + 1) ns"

lemma code_loop_value:
  assumes "\<And>i. i < length ns \<Longrightarrow> count (code + i) = Some (ns ! i)"
    and "length bpre = code" "length cpre = off + pos" "length ns \<le> length brest" "sum_list ns \<le> length crest"
  shows "code_loop base off count code (length ns) pos (bpre @ brest) (cpre @ crest) =
    Some (pos + sum_list ns, bpre @ map base (group_bases pos ns) @ drop (length ns) brest,
      cpre @ group_codes code ns @ drop (sum_list ns) crest)"
  using assms
proof (induction ns arbitrary: code pos bpre brest cpre crest)
  case (Cons n ns)
  then obtain b brest' where b: "brest = b # brest'" by (cases brest) auto
  have "code_loop base off count code (length (n # ns)) pos (bpre @ brest) (cpre @ crest) =
    code_loop base off count (code + 1) (length ns) (pos + n) ((bpre @ [base pos]) @ brest')
      ((cpre @ replicate n code) @ drop n crest)"
    unfolding b list.size add_0_right using Cons.prems(1) [of 0] Cons.prems by (simp add: code_loop_step del: code_loop.simps append_assoc)
  also have "\<dots> = Some (pos + n + sum_list ns,
      (bpre @ [base pos]) @ map base (group_bases (pos + n) ns) @ drop (length ns) brest',
      (cpre @ replicate n code) @ group_codes (code + 1) ns @ drop (sum_list ns) (drop n crest))"
    by (rule Cons.IH) (use Cons.prems b Cons.prems(1) [of "Suc i" for i] in auto)
  finally show ?case using b by (simp add: add.commute)
qed simp


definition lbits_sizes :: "nat list" where "lbits_sizes = map (\<lambda>e. 2 ^ e) (take 28 extra_lbits)"
definition dbits_low :: "nat list" where "dbits_low = map (\<lambda>e. 2 ^ e) (take 16 extra_dbits)"
definition dbits_high :: "nat list" where "dbits_high = map (\<lambda>e. 2 ^ (e - 7)) (drop 16 extra_dbits)"

lemmas group_sizes = lbits_sizes_def dbits_low_def dbits_high_def extra_lbits_def extra_dbits_def

lemma numeral_replicate: "replicate (numeral v) x = x # replicate (pred_numeral v) x" "replicate 1 x = [x]"
  by (simp_all add: numeral_eq_Suc)

lemma numeral_list_update: "(x # xs)[numeral v := y] = x # xs[pred_numeral v := y]"
  "(x # xs)[1 := y] = x # xs[0 := y]" "(x # xs)[0 := y] = y # xs"
  by (simp_all add: numeral_eq_Suc)

lemma length_tables:
  "base_length = group_bases 0 lbits_sizes @ [0]"
  "length_code = (group_codes 0 lbits_sizes)[255 := 28]"
  by (simp_all add: group_sizes base_length_def length_code_def numeral_replicate numeral_list_update del: One_nat_def list_update.simps(2))

lemma dist_tables:
  "base_dist = group_bases 0 dbits_low @ map (push_bit 7) (group_bases 2 dbits_high)"
  "dist_code = group_codes 0 dbits_low @ [0, 0] @ group_codes 16 dbits_high"
  by (simp_all add: group_sizes base_dist_def dist_code_def push_bit_eq_mult numeral_replicate del: One_nat_def)


lemma sum_sizes: "sum_list lbits_sizes = 256" "sum_list dbits_low = 256" "sum_list dbits_high = 254"
  "length lbits_sizes = 28" "length dbits_low = 16" "length dbits_high = 14"
  by (simp_all add: group_sizes)

lemma length_groups [simp]: "length (group_bases pos ns) = length ns" "length (group_codes code ns) = sum_list ns"
  by (induction ns arbitrary: pos code) simp_all

lemma sizes_at:
  "i < 28 \<Longrightarrow> map_option (\<lambda>e. 2 ^ e) (peek extra_lbits i) = Some (lbits_sizes ! i)"
  "i < 16 \<Longrightarrow> map_option (\<lambda>e. 2 ^ e) (peek extra_dbits i) = Some (dbits_low ! i)"
  "i < 14 \<Longrightarrow> map_option (\<lambda>e. 2 ^ (e - 7)) (peek extra_dbits (16 + i)) = Some (dbits_high ! i)"
  by (simp_all add: lbits_sizes_def dbits_low_def dbits_high_def extra_lbits_def extra_dbits_def
      del: nth_Cons_numeral take_Suc_Cons drop_Suc_Cons take_Cons_numeral drop_Cons_numeral)

text \<open>The three loops, from tables of the right lengths with any contents.\<close>

lemma length_loop:
  assumes "length bl = 29" "length lc = 256"
  shows "code_loop id 0 (\<lambda>code. map_option (\<lambda>e. 2 ^ e) (peek extra_lbits code)) 0 28 0 bl lc =
    Some (256, group_bases 0 lbits_sizes @ drop 28 bl, group_codes 0 lbits_sizes)"
  using code_loop_value [of lbits_sizes "\<lambda>code. map_option (\<lambda>e. 2 ^ e) (peek extra_lbits code)" 0 "[]" "[]" 0 0 bl lc id]
    assms by (simp add: sum_sizes sizes_at del: One_nat_def)

lemma dist_loops:
  assumes "length bd = 30" "length dc = 512"
  shows "code_loop id 0 (\<lambda>code. map_option (\<lambda>e. 2 ^ e) (peek extra_dbits code)) 0 16 0 bd dc =
      Some (256, group_bases 0 dbits_low @ drop 16 bd, group_codes 0 dbits_low @ drop 256 dc)"
    and "code_loop (\<lambda>dist. push_bit 7 dist) 256 (\<lambda>code. map_option (\<lambda>e. 2 ^ (e - 7)) (peek extra_dbits code)) 16 14 2
        (group_bases 0 dbits_low @ drop 16 bd) (group_codes 0 dbits_low @ drop 256 dc) =
      Some (256, base_dist, (group_codes 0 dbits_low @ take 2 (drop 256 dc)) @ group_codes 16 dbits_high)"
proof -
  show "code_loop id 0 (\<lambda>code. map_option (\<lambda>e. 2 ^ e) (peek extra_dbits code)) 0 16 0 bd dc =
      Some (256, group_bases 0 dbits_low @ drop 16 bd, group_codes 0 dbits_low @ drop 256 dc)"
    using code_loop_value [of dbits_low "\<lambda>code. map_option (\<lambda>e. 2 ^ e) (peek extra_dbits code)" 0 "[]" "[]" 0 0 bd dc id]
      assms by (simp add: sum_sizes sizes_at)
  let ?pre = "group_codes 0 dbits_low @ take 2 (drop 256 dc)"
  have split: "group_codes 0 dbits_low @ drop 256 dc = ?pre @ drop 258 dc"
    using append_take_drop_id [of 2 "drop 256 dc"] by simp
  have "code_loop (\<lambda>dist. push_bit 7 dist) 256 (\<lambda>code. map_option (\<lambda>e. 2 ^ (e - 7)) (peek extra_dbits code)) 16
        (length dbits_high) 2 (group_bases 0 dbits_low @ drop 16 bd) (?pre @ drop 258 dc) =
      Some (2 + sum_list dbits_high, group_bases 0 dbits_low @ map (push_bit 7) (group_bases 2 dbits_high) @
        drop (length dbits_high) (drop 16 bd), ?pre @ group_codes 16 dbits_high @ drop (sum_list dbits_high) (drop 258 dc))"
    by (rule code_loop_value) (use assms in \<open>simp_all add: sum_sizes sizes_at\<close>)
  then show "code_loop (\<lambda>dist. push_bit 7 dist) 256 (\<lambda>code. map_option (\<lambda>e. 2 ^ (e - 7)) (peek extra_dbits code)) 16 14 2
        (group_bases 0 dbits_low @ drop 16 bd) (group_codes 0 dbits_low @ drop 256 dc) =
      Some (256, base_dist, ?pre @ group_codes 16 dbits_high)"
    unfolding split using assms by (simp add: sum_sizes dist_tables)
qed

section \<open>The codes of the literal tree\<close>

fun rev_nat :: "nat \<Rightarrow> nat \<Rightarrow> nat" where
  "rev_nat 0 c = 0"
| "rev_nat (Suc l) c = (c mod 2) * 2 ^ l + rev_nat l (c div 2)"

lemma rev_nat_numeral:
  "rev_nat (numeral v) c = (c mod 2) * 2 ^ pred_numeral v + rev_nat (pred_numeral v) (c div 2)"
  "rev_nat 1 c = c mod 2"
  by (simp_all add: numeral_eq_Suc)

lemma rev_nat_less: "rev_nat l c < 2 ^ l"
proof (induction l arbitrary: c)
  case (Suc l)
  then show ?case using Suc [of "c div 2"] 
    by (cases "even c") (simp_all add: mod_2_eq_odd less_le_trans [OF Suc])
qed simp

lemma bit_rev_nat: "bit (rev_nat l c) i \<longleftrightarrow> i < l \<and> bit c (l - 1 - i)"
proof (induction l arbitrary: c i)
  case (Suc l)
  have "rev_nat (Suc l) c = push_bit l (c mod 2) OR rev_nat l (c div 2)"
    by (subst disjunctive_add_eq_or [symmetric])
      (auto simp: Suc push_bit_eq_mult mult.commute bit_simps mod_2_eq_odd simp flip: push_bit_eq_mult intro!: bit_eqI)
  moreover have "bit (c div 2) (l - 1 - i) = bit c (l - i)" if "i < l"
    using that by (simp flip: bit_Suc add: Suc_diff_Suc)
  ultimately show ?case by (cases "i = l") (auto simp: bit_simps Suc bit_0 mod_2_eq_odd not_less)
qed simp

lemma bi_reverse_of_nat:
  assumes "0 < l" "l \<le> 16" "c < 2 ^ l"
  shows "ucast (bi_reverse (of_nat c) (int l)) = (of_nat (rev_nat l c) :: ushort)"
  using assms(1,2) by (intro bit_word_eqI) (auto simp: bit_ucast_iff bit_bi_reverse bit_of_nat_iff bit_rev_nat)

lemma code_word_rev:
  assumes "kraft lens" "n < length lens" "lens ! n \<noteq> 0" "lens ! n \<le> 15"
  shows "code_word lens n = of_nat (rev_nat (lens ! n) (canonical lens n))"
proof -
  have small: "canonical lens n < 2 ^ (lens ! n)" by (rule canonical_bound [OF assms])
  then have "canonical lens n < 2 ^ 16"
    by (rule less_le_trans) (rule power_increasing, use assms(4) in auto)
  then have "ucast (of_nat (canonical lens n) :: ushort) = (of_nat (canonical lens n) :: uint)"
    by (simp add: unsigned_of_nat take_bit_nat_eq_self)
  then show ?thesis using bi_reverse_of_nat [OF _ _ small] assms(3,4) by (simp add: code_word_def)
qed

definition literal_lens :: "nat list" where
  "literal_lens = replicate 144 8 @ replicate 112 9 @ replicate 24 7 @ replicate 8 8"

lemma count_list_replicate: "count_list (replicate n x) y = (if x = y then n else 0)"
  by (induction n) auto

lemma cnt_literal: "cnt literal_lens b = (if b = 7 then 24 else if b = 8 then 152 else if b = 9 then 112 else 0)"
  by (simp add: cnt_def literal_lens_def count_list_append count_list_replicate)

lemma first_code_literal:
  "first_code literal_lens 7 = 0" "first_code literal_lens 8 = 48" "first_code literal_lens 9 = 400"
  by (simp_all add: eval_nat_numeral cnt_literal)

lemma kraft_literal: "kraft literal_lens"
proof -
  have "{1..15} = {1, 2, 3, 4, 5, 6, 7, 8, 9, 10, 11, 12, 13, 14, 15 :: nat}" by auto presburger
  then show ?thesis by (simp add: kraft_def cnt_literal)
qed

lemma literal_nth:
  "i < 288 \<Longrightarrow> literal_lens ! i = (if i < 144 then 8 else if i < 256 then 9 else if i < 280 then 7 else 8)"
  by (auto simp: literal_lens_def nth_append)

lemma count_take_literal:
  "i < 144 \<Longrightarrow> count_list (take i literal_lens) 8 = i"
  "144 \<le> i \<Longrightarrow> i < 256 \<Longrightarrow> count_list (take i literal_lens) 9 = i - 144"
  "256 \<le> i \<Longrightarrow> i < 280 \<Longrightarrow> count_list (take i literal_lens) 7 = i - 256"
  "280 \<le> i \<Longrightarrow> i < 288 \<Longrightarrow> count_list (take i literal_lens) 8 = i - 136"
  by (simp_all add: literal_lens_def count_list_append count_list_replicate min_def)

lemma canonical_literal:
  "i < 288 \<Longrightarrow> canonical literal_lens i =
    (if i < 144 then 48 + i else if i < 256 then 400 + (i - 144) else if i < 280 then i - 256 else 192 + (i - 280))"
  by (simp add: canonical_def literal_nth first_code_literal count_take_literal)

lemma upt_0_numeral: "2 \<le> (numeral v :: nat) \<Longrightarrow> [0..<numeral v] = 0 # 1 # [2..<numeral v]"
  using upt_conv_Cons [of 0 "numeral v"] upt_conv_Cons [of 1 "numeral v"] by (simp add: numeral_2_eq_2)

lemma static_ltree_rev: "static_ltree =
   map (\<lambda>i. \<lparr>fc = of_nat (rev_nat 8 (48 + i)), dl = 8\<rparr>) [0..<144] @
   map (\<lambda>i. \<lparr>fc = of_nat (rev_nat 9 (400 + i)), dl = 9\<rparr>) [0..<112] @
   map (\<lambda>i. \<lparr>fc = of_nat (rev_nat 7 i), dl = 7\<rparr>) [0..<24] @
   map (\<lambda>i. \<lparr>fc = of_nat (rev_nat 8 (192 + i)), dl = 8\<rparr>) [0..<8]"
  by (simp add: static_ltree_def upt_0_numeral upt_rec_numeral del: One_nat_def)
    (simp add: rev_nat_numeral del: One_nat_def)

lemma static_dtree_rev: "static_dtree = map (\<lambda>i. \<lparr>fc = of_nat (rev_nat 5 i), dl = 5\<rparr>) [0..<30]"
  by (simp add: static_dtree_def upt_0_numeral upt_rec_numeral del: One_nat_def)
    (simp add: rev_nat_numeral del: One_nat_def)

lemma static_ltree_nth:
  assumes "i < 288"
  shows "static_ltree ! i = \<lparr>fc = of_nat (rev_nat (literal_lens ! i) (canonical literal_lens i)), dl = of_nat (literal_lens ! i)\<rparr>"
  using assms unfolding static_ltree_rev by (auto simp: nth_append literal_nth canonical_literal algebra_simps)

lemma length_static_ltree [simp]: "length static_ltree = 288"
  by (simp add: static_ltree_rev)

lemma set_lens_value:
  "k \<le> length rest \<Longrightarrow> unat len < length bl \<Longrightarrow>
   set_lens (length pre) k len (pre @ rest) bl =
     Some (pre @ map (\<lambda>t. t \<lparr> dl := len \<rparr>) (take k rest) @ drop k rest, bl[unat len := bl ! unat len + of_nat k])"
proof (induction k arbitrary: pre rest bl)
  case (Suc k)
  then obtain t ts where r: "rest = t # ts" by (cases rest) auto
  then show ?case using Suc.IH [of ts "bl[unat len := bl ! unat len + 1]" "pre @ [t \<lparr> dl := len \<rparr>]"] Suc.prems
    by (simp add: add.assoc)
qed simp

lemma set_dtree_value:
  "k \<le> length rest \<Longrightarrow> length pre + k \<le> 32 \<Longrightarrow>
   set_dtree (length pre) k (pre @ rest) =
     Some (pre @ map (\<lambda>n. \<lparr> fc = of_nat (rev_nat 5 n), dl = 5 \<rparr>) [length pre..<length pre + k] @ drop k rest)"
proof (induction k arbitrary: pre rest)
  case (Suc k)
  then obtain t ts where r: "rest = t # ts" by (cases rest) auto
  have "ucast (bi_reverse (of_nat (length pre)) 5) = (of_nat (rev_nat 5 (length pre)) :: ushort)"
    using bi_reverse_of_nat [of 5 "length pre"] Suc.prems by simp
  then show ?case using r Suc.IH [of ts "pre @ [t \<lparr> dl := 5, fc := of_nat (rev_nat 5 (length pre)) \<rparr>]"] Suc.prems
    by (cases t) (simp add: upt_conv_Cons del: upt_Suc)
qed simp

definition zero_node :: ct_data where "zero_node = \<lparr> fc = 0, dl = 0 \<rparr>"

definition zero_statics :: statics where
  "zero_statics = \<lparr> init_done = False, ltree_of = replicate (L_CODES + 2) zero_node, dtree_of = replicate D_CODES zero_node,
    dist_code_of = replicate DIST_CODE_LEN 0, length_code_of = replicate 256 0,
    base_length_of = replicate LENGTH_CODES 0, base_dist_of = replicate D_CODES 0 \<rparr>"

definition len_tree :: "ct_data list" where
  "len_tree = map (\<lambda>l. \<lparr> fc = 0, dl = of_nat l \<rparr>) literal_lens"

definition literal_bl_count :: "ushort list" where
  "literal_bl_count = [0, 0, 0, 0, 0, 0, 0, 24, 152, 112, 0, 0, 0, 0, 0, 0]"

lemma set_literal_lens:
  "do { (lt, bl_count) \<leftarrow> set_lens 0 144 8 (replicate 288 zero_node) (replicate 16 0);
       (lt, bl_count) \<leftarrow> set_lens 144 112 9 lt bl_count;
       (lt, bl_count) \<leftarrow> set_lens 256 24 7 lt bl_count;
       set_lens 280 8 8 lt bl_count } = Some (len_tree, literal_bl_count)"
proof -
  let ?n = "\<lambda>l. \<lparr> fc = 0, dl = l \<rparr> :: ct_data"
  let ?a = "replicate 144 (?n 8)" and ?b = "replicate 112 (?n 9)" and ?c = "replicate 24 (?n 7)"
  have a: "set_lens 0 144 8 (replicate 288 zero_node) (replicate 16 0) =
      Some (?a @ replicate 144 zero_node, (replicate 16 0)[8 := 144])"
    using set_lens_value [of 144 "replicate 288 zero_node" 8 "replicate 16 0" "[]"] by (simp add: zero_node_def del: replicate.simps)
  have b: "set_lens 144 112 9 (?a @ replicate 144 zero_node) bl =
      Some (?a @ ?b @ replicate 32 zero_node, bl[9 := bl ! 9 + 112])" if "length bl = 16" for bl
    using set_lens_value [of 112 "replicate 144 zero_node" 9 bl ?a] that by (simp add: zero_node_def del: replicate.simps)
  have c: "set_lens 256 24 7 (?a @ ?b @ replicate 32 zero_node) bl =
      Some (?a @ ?b @ ?c @ replicate 8 zero_node, bl[7 := bl ! 7 + 24])" if "length bl = 16" for bl
    using set_lens_value [of 24 "replicate 32 zero_node" 7 bl "?a @ ?b"] that by (simp add: zero_node_def del: replicate.simps)
  have d: "set_lens 280 8 8 (?a @ ?b @ ?c @ replicate 8 zero_node) bl =
      Some (len_tree, bl[8 := bl ! 8 + 8])" if "length bl = 16" for bl
    using set_lens_value [of 8 "replicate 8 zero_node" 8 bl "?a @ ?b @ ?c"] that
    by (simp add: zero_node_def len_tree_def literal_lens_def del: replicate.simps)
  have e: "(((replicate 16 (0 :: ushort))[8 := 144])[9 := 112])[7 := 24, 8 := 152] = literal_bl_count"
    by (simp add: literal_bl_count_def numeral_replicate numeral_list_update del: One_nat_def list_update.simps(2))
  show ?thesis using e by (simp add: a b c d)
qed

lemma gen_literal_codes: "gen_codes len_tree 287 literal_bl_count = Some static_ltree"
proof -
  have tl: "literal_lens = tree_lens len_tree (287 + 1)"
    by (rule nth_equalityI) (auto simp: tree_lens_def len_tree_def literal_lens_def nth_append)
  have max: "l \<le> 15" if "l \<in> set literal_lens" for l using that by (auto simp: literal_lens_def split: if_splits)
  have cnts: "literal_bl_count ! b = of_nat (cnt literal_lens b)" if "1 \<le> b" "b \<le> 15" for b
  proof -
    have "b \<in> {1, 2, 3, 4, 5, 6, 7, 8, 9, 10, 11, 12, 13, 14, 15}" using that by simp presburger
    then show ?thesis by (auto simp: literal_bl_count_def cnt_literal)
  qed
  have len: "length len_tree = 288" "length literal_lens = 288" by (simp_all add: len_tree_def literal_lens_def)
  obtain t where t: "gen_codes len_tree 287 literal_bl_count = Some t" "length t = length len_tree"
      "\<forall>i < length len_tree. Len (t ! i) = Len (len_tree ! i)"
      "\<forall>i \<le> 287. literal_lens ! i \<noteq> 0 \<longrightarrow> Code (t ! i) = code_word literal_lens i"
    using gen_codes_value [OF _ tl max _ _ cnts] len by (auto simp: literal_bl_count_def)
  have "t ! i = static_ltree ! i" if "i < 288" for i
  proof -
    have nz: "literal_lens ! i \<noteq> 0" "literal_lens ! i \<le> 15" using that by (simp_all add: literal_nth)
    have "Len (t ! i) = of_nat (literal_lens ! i)" using t(3) that len by (simp add: len_tree_def)
    moreover have "Code (t ! i) = of_nat (rev_nat (literal_lens ! i) (canonical literal_lens i))"
      using t(4) that nz code_word_rev [OF kraft_literal, of i] len by simp
    ultimately show ?thesis using static_ltree_nth [OF that] by (cases "t ! i") simp
  qed
  then have "t = static_ltree" using t(2) len by (intro nth_equalityI) simp_all
  then show ?thesis using t(1) by simp
qed


lemma code_word_shape: "set_dtree 0 30 (replicate 30 zero_node) = Some static_dtree"
  using set_dtree_value [of 30 "replicate 30 zero_node" "[]"] by (simp add: static_dtree_rev del: upt_Suc)

section \<open>Properties\<close>

text \<open>
  C33. The tables of the generated header \<open>trees.h\<close> are those that \<open>tr_static_init\<close> builds from
  zeroed globals where the header cannot be used, and a second call leaves them as they are.
\<close>

theorem static_tables_generated:
  "let g = \<lparr> init_done = True, ltree_of = static_ltree, dtree_of = static_dtree, dist_code_of = dist_code,
             length_code_of = length_code, base_length_of = base_length, base_dist_of = base_dist \<rparr>
   in tr_static_init zero_statics = Some g \<and> tr_static_init g = Some g"
proof -
  let ?z = "replicate 29 0 :: nat list"
  have bl: "group_bases 0 lbits_sizes @ drop 28 ?z = base_length"
    by (simp add: length_tables numeral_replicate del: One_nat_def)
  have dc: "(group_codes 0 dbits_low @ take 2 (drop 256 (replicate 512 0))) @ group_codes 16 dbits_high = dist_code"
    by (simp add: dist_tables numeral_replicate del: One_nat_def)
  have d2: "code_loop (push_bit 7) 256 (\<lambda>code. map_option (\<lambda>e. 2 ^ (e - 7)) (peek extra_dbits code)) 16 14 2
      (group_bases 0 dbits_low @ replicate 14 0) (group_codes 0 dbits_low @ replicate 256 0) = Some (256, base_dist, dist_code)"
    using dist_loops(2) [of "replicate 30 0" "replicate 512 0"] dc by simp
  have lens: "set_lens 0 144 8 (replicate 288 zero_node) (replicate 16 0) \<bind> (\<lambda>(lt, bl). set_lens 144 112 9 lt bl \<bind>
      (\<lambda>(lt, bl). set_lens 256 24 7 lt bl \<bind> (\<lambda>(lt, bl). set_lens 280 8 8 lt bl \<bind> k))) = k (len_tree, literal_bl_count)"
    for k :: "ct_data list \<times> ushort list \<Rightarrow> statics option"
    using arg_cong [OF set_literal_lens, of "\<lambda>m. m \<bind> k"] by (simp add: split_def)
  have "tr_static_init zero_statics = Some \<lparr> init_done = True, ltree_of = static_ltree, dtree_of = static_dtree, dist_code_of = dist_code,
             length_code_of = length_code, base_length_of = base_length, base_dist_of = base_dist \<rparr>"
    unfolding tr_static_init_def zero_statics_def
    by (simp add: LENGTH_CODES_def L_CODES_def LITERALS_def D_CODES_def DIST_CODE_LEN_def MAX_BITS_def sum_sizes
        length_loop dist_loops(1) d2 bl lens gen_literal_codes code_word_shape) (simp add: length_tables)
  then show ?thesis by (simp add: Let_def tr_static_init_def)
qed

text \<open>The tables entry by entry: which values have a code \<open>c\<close>.\<close>

lemma length_code_entries:
  "list_all2 (\<lambda>i c. if i = 255 then c = 28 else c < 28 \<and> base_length ! c \<le> i \<and> i < base_length ! c + 2 ^ (extra_lbits ! c)) [0..<256] length_code"
  by (simp add: length_code_def base_length_def extra_lbits_def upt_0_numeral upt_rec_numeral del: One_nat_def)

lemma dist_code_low:
  "list_all2 (\<lambda>i c. c < 30 \<and> base_dist ! c \<le> i \<and> i < base_dist ! c + 2 ^ (extra_dbits ! c)) [0..<256] (take 256 dist_code)"
  by (simp add: dist_code_def base_dist_def extra_dbits_def upt_0_numeral upt_rec_numeral del: One_nat_def)

lemma dist_code_high:
  "list_all2 (\<lambda>j c. c < 30 \<and> base_dist ! c \<le> 128 * j \<and> 128 * j + 127 < base_dist ! c + 2 ^ (extra_dbits ! c))
    [2..<256] (drop 258 dist_code)"
  by (simp add: dist_code_def base_dist_def extra_dbits_def upt_0_numeral upt_rec_numeral del: One_nat_def)


lemma length_code_value:
  assumes "lc < 255"
  shows "length_code ! lc < 28 \<and> base_length ! (length_code ! lc) \<le> lc \<and>
    lc < base_length ! (length_code ! lc) + 2 ^ (extra_lbits ! (length_code ! lc))"
  using list_all2_nthD [OF length_code_entries, of lc] assms by simp

lemma length_code_last: "length_code ! 255 = 28"
  using list_all2_nthD [OF length_code_entries, of 255] by simp

lemma length_tables_len [simp]:
  "length length_code = 256" "length dist_code = 512" "length base_length = 29" "length base_dist = 30"
  "length extra_lbits = 29" "length extra_dbits = 30"
  by (simp_all add: length_tables dist_tables sum_sizes) (simp_all add: extra_lbits_def extra_dbits_def)

lemma d_code_value:
  assumes "dist < 2 ^ 15"
  shows "\<exists>c < 30. d_code dist = Some c \<and> base_dist ! c \<le> dist \<and> dist < base_dist ! c + 2 ^ (extra_dbits ! c)"
proof (cases "dist < 256")
  case True
  then show ?thesis using list_all2_nthD [OF dist_code_low, of dist] by (simp add: d_code_def)
next
  case False
  let ?j = "dist div 128"
  have j: "2 \<le> ?j" "?j < 256" using assms False by auto
  have e: "dist_code ! (256 + ?j) = drop 258 dist_code ! (?j - 2)" using j by simp
  have u: "[2..<256] ! (?j - 2) = ?j" by (subst nth_upt) (use j in linarith)+
  have c: "dist_code ! (256 + ?j) < 30 \<and> base_dist ! (dist_code ! (256 + ?j)) \<le> 128 * ?j \<and>
      128 * ?j + 127 < base_dist ! (dist_code ! (256 + ?j)) + 2 ^ (extra_dbits ! (dist_code ! (256 + ?j)))"
    using list_all2_nthD [OF dist_code_high, of "?j - 2"] j unfolding e u by simp
  moreover have "128 * ?j \<le> dist" "dist \<le> 128 * ?j + 127" using mult_div_mod_eq [of 128 dist] mod_less_divisor [of 128 dist] by linarith+
  ultimately have "base_dist ! (dist_code ! (256 + ?j)) \<le> dist"
      "dist < base_dist ! (dist_code ! (256 + ?j)) + 2 ^ (extra_dbits ! (dist_code ! (256 + ?j)))"
    by linarith+
  then show ?thesis using False c j by (auto simp: d_code_def)
qed

text \<open>
  The tables lose nothing: a length code with its base value determines the match length up to
  its extra bits, and \<open>d_code\<close> is defined for every distance of the 32K window and determines the
  distance up to its extra bits. The largest length has a code of its own.
\<close>

theorem length_and_distance_codes:
  assumes "lc < 256" "dist < 2 ^ 15"
  shows "(let c = length_code ! lc in
      if lc = 255 then c = 28 \<and> extra_lbits ! c = 0
      else c < 28 \<and> (\<exists>extra < 2 ^ (extra_lbits ! c). lc = base_length ! c + extra)) \<and>
    (\<exists>c < D_CODES. d_code dist = Some c \<and> (\<exists>extra < 2 ^ (extra_dbits ! c). dist = base_dist ! c + extra))"
proof
  show "\<exists>c < D_CODES. d_code dist = Some c \<and> (\<exists>extra < 2 ^ (extra_dbits ! c). dist = base_dist ! c + extra)"
  proof -
    obtain c where "c < 30" "d_code dist = Some c" "base_dist ! c \<le> dist" "dist < base_dist ! c + 2 ^ (extra_dbits ! c)"
      using d_code_value [OF assms(2)] by blast
    then show ?thesis by (intro exI [of _ c] conjI exI [of _ "dist - base_dist ! c"]) (simp_all add: D_CODES_def)
  qed
  show "let c = length_code ! lc in
      if lc = 255 then c = 28 \<and> extra_lbits ! c = 0
      else c < 28 \<and> (\<exists>extra < 2 ^ (extra_lbits ! c). lc = base_length ! c + extra)"
  proof (cases "lc = 255")
    case True
    then show ?thesis by (simp add: length_code_last Let_def extra_lbits_def)
  next
    case False
    then show ?thesis using length_code_value [of lc] assms(1)
      by (auto simp: Let_def intro: exI [of _ "lc - base_length ! (length_code ! lc)"])
  qed
qed

lemma length_and_distance_codes_witness:
  "length_code ! 100 = 22 \<and> base_length ! 22 = 96 \<and> (\<exists>extra < 2 ^ (extra_lbits ! 22). 100 = base_length ! 22 + extra) \<and>
   d_code 5000 = Some 24 \<and> (\<exists>extra < 2 ^ (extra_dbits ! 24). 5000 = base_dist ! 24 + extra)"
proof -
  have v: "length_code ! 100 = 22" "base_length ! 22 = 96" "d_code 5000 = Some 24"
    by (simp_all add: length_code_def base_length_def d_code_def dist_code_def)
  then show ?thesis using length_and_distance_codes [of 100 5000] by simp
qed

end
