(* ===== verification/Tree_Coding.thy ===== *)
theory Tree_Coding
  imports Static_Trees
begin

text \<open>
  The run-length coding of the code lengths, \<^verbatim>\<open>src/AOS/aos/zlib/trees.c\<close>: \<open>scan_tree\<close>,
  \<open>send_tree\<close> and the macro \<open>send_code\<close>. Both functions walk over the lengths in the same way; the
  symbols one counts are the symbols the other sends, and they expand to the lengths again.
\<close>

section \<open>The code\<close>

text \<open>\<open>max_count\<close> and \<open>min_count\<close> for the next run.\<close>

definition run_limits :: "int \<Rightarrow> int \<Rightarrow> nat \<times> nat" where
  "run_limits curlen nextlen =
    (if nextlen = 0 then (138, 3) else if curlen = nextlen then (6, 3) else (7, 4))"

text \<open>\<open>tree[i].Freq += x\<close>\<close>

definition add_freq :: "nat \<Rightarrow> ushort \<Rightarrow> ct_data list \<Rightarrow> ct_data list option" where
  "add_freq i x tree = do { t \<leftarrow> peek tree i; poke tree i (t \<lparr> fc := Freq t + x \<rparr>) }"

definition count_run :: "int \<Rightarrow> int \<Rightarrow> nat \<Rightarrow> nat \<Rightarrow> ct_data list \<Rightarrow> ct_data list option" where
  "count_run prevlen curlen count min_count bl_tree =
    (if count < min_count then add_freq (nat curlen) (of_nat count) bl_tree
     else if curlen \<noteq> 0 then do {
       bl_tree \<leftarrow> (if curlen \<noteq> prevlen then add_freq (nat curlen) 1 bl_tree else Some bl_tree);
       add_freq REP_3_6 1 bl_tree }
     else if count \<le> 10 then add_freq REPZ_3_10 1 bl_tree
     else add_freq REPZ_11_138 1 bl_tree)"

definition len_at :: "ct_data list \<Rightarrow> nat \<Rightarrow> int option" where
  "len_at tree n = map_option (\<lambda>t. int (unat (Len t))) (peek tree n)"

text \<open>The loop of \<open>scan_tree\<close> for \<open>k\<close> values from \<open>n\<close> on.\<close>

fun scan_loop :: "ct_data list \<Rightarrow> nat \<Rightarrow> nat \<Rightarrow> int \<Rightarrow> int \<Rightarrow> nat \<Rightarrow> nat \<Rightarrow> nat \<Rightarrow> ct_data list \<Rightarrow> ct_data list option" where
  "scan_loop tree n 0 prevlen nextlen count max_count min_count bl_tree = Some bl_tree"
| "scan_loop tree n (Suc k) prevlen nextlen count max_count min_count bl_tree = do {
    let curlen = nextlen;
    nextlen \<leftarrow> len_at tree (n + 1);
    let count = count + 1;
    if count < max_count \<and> curlen = nextlen
    then scan_loop tree (n + 1) k prevlen nextlen count max_count min_count bl_tree
    else do {
      bl_tree \<leftarrow> count_run prevlen curlen count min_count bl_tree;
      let (max_count, min_count) = run_limits curlen nextlen;
      scan_loop tree (n + 1) k curlen nextlen 0 max_count min_count bl_tree } }"

text \<open>The result is the tree with its guard set and the bit length tree.\<close>

definition scan_tree :: "ct_data list \<Rightarrow> nat \<Rightarrow> ct_data list \<Rightarrow> (ct_data list \<times> ct_data list) option" where
  "scan_tree tree max_code bl_tree = do {
    nextlen \<leftarrow> len_at tree 0;
    let (max_count, min_count) = (if nextlen = 0 then (138, 3) else (7, 4));
    t \<leftarrow> peek tree (max_code + 1);
    tree \<leftarrow> poke tree (max_code + 1) (t \<lparr> dl := 0xffff \<rparr>);
    bl_tree \<leftarrow> scan_loop tree 0 (max_code + 1) (-1) nextlen 0 max_count min_count bl_tree;
    Some (tree, bl_tree) }"

text \<open>\<open>send_code(s, c, tree)\<close>\<close>

definition send_code :: "nat \<Rightarrow> ct_data list \<Rightarrow> 'a bit_out_scheme \<Rightarrow> 'a bit_out_scheme option" where
  "send_code c tree s = do { t \<leftarrow> peek tree c; Some (send_bits (ucast (Code t)) (unat (Len t)) s) }"

text \<open>\<open>do { send_code(s, curlen, s->bl_tree); } while (--count != 0);\<close> with \<open>count\<close> at least 1.\<close>

fun send_copies :: "nat \<Rightarrow> nat \<Rightarrow> ct_data list \<Rightarrow> 'a bit_out_scheme \<Rightarrow> 'a bit_out_scheme option" where
  "send_copies curlen 0 bl_tree s = None"
| "send_copies curlen (Suc count) bl_tree s = do {
    s \<leftarrow> send_code curlen bl_tree s;
    if count \<noteq> 0 then send_copies curlen count bl_tree s else Some s }"

definition send_run :: "int \<Rightarrow> int \<Rightarrow> nat \<Rightarrow> nat \<Rightarrow> ct_data list \<Rightarrow> 'a bit_out_scheme \<Rightarrow> 'a bit_out_scheme option" where
  "send_run prevlen curlen count min_count bl_tree s =
    (if count < min_count then send_copies (nat curlen) count bl_tree s
     else if curlen \<noteq> 0 then do {
       (s, count) \<leftarrow> (if curlen \<noteq> prevlen
         then do { s \<leftarrow> send_code (nat curlen) bl_tree s; Some (s, count - 1) } else Some (s, count));
       s \<leftarrow> send_code REP_3_6 bl_tree s;
       Some (send_bits (of_nat (count - 3)) 2 s) }
     else if count \<le> 10 then do {
       s \<leftarrow> send_code REPZ_3_10 bl_tree s; Some (send_bits (of_nat (count - 3)) 3 s) }
     else do {
       s \<leftarrow> send_code REPZ_11_138 bl_tree s; Some (send_bits (of_nat (count - 11)) 7 s) })"

fun send_loop :: "ct_data list \<Rightarrow> nat \<Rightarrow> nat \<Rightarrow> int \<Rightarrow> int \<Rightarrow> nat \<Rightarrow> nat \<Rightarrow> nat \<Rightarrow> ct_data list
    \<Rightarrow> 'a bit_out_scheme \<Rightarrow> 'a bit_out_scheme option" where
  "send_loop tree n 0 prevlen nextlen count max_count min_count bl_tree s = Some s"
| "send_loop tree n (Suc k) prevlen nextlen count max_count min_count bl_tree s = do {
    let curlen = nextlen;
    nextlen \<leftarrow> len_at tree (n + 1);
    let count = count + 1;
    if count < max_count \<and> curlen = nextlen
    then send_loop tree (n + 1) k prevlen nextlen count max_count min_count bl_tree s
    else do {
      s \<leftarrow> send_run prevlen curlen count min_count bl_tree s;
      let (max_count, min_count) = run_limits curlen nextlen;
      send_loop tree (n + 1) k curlen nextlen 0 max_count min_count bl_tree s } }"

definition send_tree :: "ct_data list \<Rightarrow> nat \<Rightarrow> ct_data list \<Rightarrow> 'a bit_out_scheme \<Rightarrow> 'a bit_out_scheme option" where
  "send_tree tree max_code bl_tree s = do {
    nextlen \<leftarrow> len_at tree 0;
    let (max_count, min_count) = (if nextlen = 0 then (138, 3) else (7, 4));
    send_loop tree 0 (max_code + 1) (-1) nextlen 0 max_count min_count bl_tree s }"

section \<open>The symbols of a run\<close>

text \<open>A length, a repetition of the length before, or a run of zeros of one of two sizes.\<close>

datatype len_sym = Lens nat | Rep nat | Zeros nat | Many_Zeros nat

definition run_syms :: "int \<Rightarrow> nat \<Rightarrow> nat \<Rightarrow> nat \<Rightarrow> len_sym list" where
  "run_syms prevlen curlen count min_count =
    (if count < min_count then replicate count (Lens curlen)
     else if curlen \<noteq> 0 then (if int curlen \<noteq> prevlen then [Lens curlen, Rep (count - 1)] else [Rep count])
     else if count \<le> 10 then [Zeros count] else [Many_Zeros count])"

text \<open>The symbols for the lengths \<open>c # rest\<close> up to the guard, of which \<open>count\<close> have been seen.\<close>

fun tree_syms :: "int \<Rightarrow> nat \<Rightarrow> nat list \<Rightarrow> len_sym list" where
  "tree_syms prevlen count (c # d # rest) =
    (let (max_count, min_count) = run_limits prevlen (int c);
         count = count + 1
     in if count < max_count \<and> c = d then tree_syms prevlen count (d # rest)
        else run_syms prevlen c count min_count @ tree_syms (int c) 0 (d # rest))"
| "tree_syms prevlen count _ = []"

text \<open>What a symbol adds to the lengths so far, as \<open>inflate\<close> reads it.\<close>

fun expand_sym :: "nat list \<Rightarrow> len_sym \<Rightarrow> nat list" where
  "expand_sym lens (Lens l) = lens @ [l]"
| "expand_sym lens (Rep n) = lens @ replicate n (last lens)"
| "expand_sym lens (Zeros n) = lens @ replicate n 0"
| "expand_sym lens (Many_Zeros n) = lens @ replicate n 0"

fun sym_ok :: "len_sym \<Rightarrow> bool" where
  "sym_ok (Lens l) \<longleftrightarrow> l \<le> 15"
| "sym_ok (Rep n) \<longleftrightarrow> 3 \<le> n \<and> n \<le> 6"
| "sym_ok (Zeros n) \<longleftrightarrow> 3 \<le> n \<and> n \<le> 10"
| "sym_ok (Many_Zeros n) \<longleftrightarrow> 11 \<le> n \<and> n \<le> 138"

fun sym_code :: "len_sym \<Rightarrow> nat" where
  "sym_code (Lens l) = l"
| "sym_code (Rep n) = REP_3_6"
| "sym_code (Zeros n) = REPZ_3_10"
| "sym_code (Many_Zeros n) = REPZ_11_138"

text \<open>The extra bits after the code: how many, and their value.\<close>

fun sym_extra :: "len_sym \<Rightarrow> nat \<times> nat" where
  "sym_extra (Lens l) = (0, 0)"
| "sym_extra (Rep n) = (2, n - 3)"
| "sym_extra (Zeros n) = (3, n - 3)"
| "sym_extra (Many_Zeros n) = (7, n - 11)"

lemma fold_expand_Lens: "foldl expand_sym acc (replicate n (Lens l)) = acc @ replicate n l"
  by (induction n arbitrary: acc) simp_all

text \<open>The run that ends here expands to its length.\<close>

lemma expand_run:
  assumes "(mx, mn) = run_limits prevlen (int c)" "0 < count" "int c = prevlen \<Longrightarrow> acc \<noteq> [] \<and> last acc = c"
  shows "foldl expand_sym acc (run_syms prevlen c count mn) = acc @ replicate count c"
proof -
  have "count = Suc (count - 1)" using assms(2) by simp
  then have s: "[c] @ replicate (count - 1) c = replicate count c" by (metis append_Cons append_Nil replicate_Suc)
  show ?thesis using assms s by (auto simp: run_syms_def fold_expand_Lens split: if_splits)
qed

lemma run_syms_ok:
  assumes "(mx, mn) = run_limits prevlen (int c)" "0 < count" "count \<le> mx" "c \<le> 15"
  shows "\<forall>x \<in> set (run_syms prevlen c count mn). sym_ok x"
  using assms by (auto simp: run_syms_def run_limits_def split: if_splits)

lemma expand_tree_syms:
  assumes "guard \<notin> set lens"
  shows "count < fst (run_limits prevlen (int (hd lens))) \<Longrightarrow> lens \<noteq> [] \<Longrightarrow>
    (int (hd lens) = prevlen \<Longrightarrow> acc \<noteq> [] \<and> last acc = hd lens) \<Longrightarrow>
    foldl expand_sym acc (tree_syms prevlen count (lens @ [guard])) = acc @ replicate count (hd lens) @ lens"
  using assms
proof (induction lens arbitrary: prevlen count acc)
  case (Cons c lens)
  obtain mx mn where lim: "run_limits prevlen (int c) = (mx, mn)" by fastforce
  let ?d = "hd (lens @ [guard])"
  obtain d r where split: "lens @ [guard] = d # r" by (cases lens) auto
  have step: "tree_syms prevlen count (c # lens @ [guard]) =
      (if count + 1 < mx \<and> c = ?d then tree_syms prevlen (count + 1) (lens @ [guard])
       else run_syms prevlen c (count + 1) mn @ tree_syms (int c) 0 (lens @ [guard]))"
    unfolding split by (simp add: lim)
  show ?case
  proof (cases "count + 1 < mx \<and> c = ?d")
    case True
    then have "lens \<noteq> []" "hd lens = c" using Cons.prems(4) by (auto simp: hd_append split: if_splits)
    then have "foldl expand_sym acc (tree_syms prevlen (count + 1) (lens @ [guard])) =
        acc @ replicate (count + 1) c @ lens"
      using Cons.IH [of "count + 1" prevlen acc] True Cons.prems lim by simp
    then show ?thesis using step True by (simp add: replicate_append_same [symmetric])
  next
    case False
    have run: "foldl expand_sym acc (run_syms prevlen c (count + 1) mn) = acc @ replicate (count + 1) c"
      using expand_run [OF lim [symmetric]] Cons.prems(3) by simp
    have "foldl expand_sym (acc @ replicate (count + 1) c) (tree_syms (int c) 0 (lens @ [guard])) =
        acc @ replicate (count + 1) c @ lens"
    proof (cases "lens = []")
      case False
      then show ?thesis using Cons.IH [of 0 "int c" "acc @ replicate (count + 1) c"] Cons.prems(4)
        by (simp add: run_limits_def)
    qed simp
    moreover have "tree_syms prevlen count ((c # lens) @ [guard]) =
        run_syms prevlen c (count + 1) mn @ tree_syms (int c) 0 (lens @ [guard])"
      by (simp only: append_Cons step if_not_P [OF False])
    ultimately show ?thesis using run by (simp add: replicate_append_same [symmetric])
  qed
qed simp


lemma tree_syms_ok:
  "count < fst (run_limits prevlen (int (hd lens))) \<Longrightarrow> \<forall>l \<in> set lens. l \<le> 15 \<Longrightarrow>
    \<forall>x \<in> set (tree_syms prevlen count (lens @ [guard])). sym_ok x"
proof (induction lens arbitrary: prevlen count)
  case (Cons c lens)
  obtain mx mn where lim: "run_limits prevlen (int c) = (mx, mn)" by fastforce
  obtain d r where split: "lens @ [guard] = d # r" by (cases lens) auto
  have step: "tree_syms prevlen count (c # lens @ [guard]) =
      (if count + 1 < mx \<and> c = d then tree_syms prevlen (count + 1) (lens @ [guard])
       else run_syms prevlen c (count + 1) mn @ tree_syms (int c) 0 (lens @ [guard]))"
    unfolding split by (simp add: lim)
  show ?case
  proof (cases "lens = []")
    case True
    then show ?thesis using run_syms_ok [OF lim [symmetric], of "count + 1"] Cons.prems lim by (simp add: Let_def)
  next
    case False
    then have d: "d = hd lens" using split by (cases lens) auto
    have "\<forall>x \<in> set (run_syms prevlen c (count + 1) mn). sym_ok x"
      by (rule run_syms_ok [OF lim [symmetric]]) (use Cons.prems lim in auto)
    moreover have "\<forall>x \<in> set (tree_syms (int c) 0 (lens @ [guard])). sym_ok x"
      by (rule Cons.IH) (use Cons.prems in \<open>auto simp: run_limits_def\<close>)
    moreover have "\<forall>x \<in> set (tree_syms prevlen (count + 1) (lens @ [guard])). sym_ok x"
      if "count + 1 < mx" "c = d"
      by (rule Cons.IH) (use Cons.prems lim d that in auto)
    ultimately show ?thesis using step by auto
  qed
qed simp

section \<open>Counting and sending\<close>

definition sym_count :: "nat \<Rightarrow> len_sym list \<Rightarrow> nat" where
  "sym_count i xs = count_list (map sym_code xs) i"

text \<open>The tree after the frequencies of the symbols have been added.\<close>

definition add_syms :: "len_sym list \<Rightarrow> ct_data list \<Rightarrow> ct_data list" where
  "add_syms xs tree = map (\<lambda>i. (tree ! i) \<lparr> fc := Freq (tree ! i) + of_nat (sym_count i xs) \<rparr>) [0..<length tree]"

lemma length_add_syms [simp]: "length (add_syms xs tree) = length tree"
  by (simp add: add_syms_def)

lemma add_syms_Nil [simp]: "add_syms [] tree = tree"
  by (rule nth_equalityI) (simp_all add: add_syms_def sym_count_def)

lemma add_syms_append: "add_syms ys (add_syms xs tree) = add_syms (xs @ ys) tree"
  by (rule nth_equalityI) (simp_all add: add_syms_def sym_count_def count_list_append add.assoc)

lemma add_freq_syms:
  assumes "i < length tree" "\<forall>x \<in> set xs. sym_code x = i"
  shows "add_freq i (of_nat (length xs)) tree = Some (add_syms xs tree)"
proof -
  have "sym_count j xs = (if j = i then length xs else 0)" for j
    using assms(2) unfolding sym_count_def by (induction xs) auto
  then have "tree[i := (tree ! i) \<lparr> fc := Freq (tree ! i) + of_nat (length xs) \<rparr>] = add_syms xs tree"
    using assms(1) by (intro nth_equalityI) (auto simp: add_syms_def nth_list_update)
  then show ?thesis using assms(1) by (simp add: add_freq_def)
qed

lemma add_freq_sym: "sym_code x < length tree \<Longrightarrow> add_freq (sym_code x) 1 tree = Some (add_syms [x] tree)"
  by (drule add_freq_syms [where xs = "[x]"]) simp_all

lemma count_run_syms:
  assumes "19 \<le> length bl" "c \<le> 15"
  shows "count_run prevlen (int c) count mn bl = Some (add_syms (run_syms prevlen c count mn) bl)"
proof -
  have "add_freq c (of_nat count) bl = Some (add_syms (replicate count (Lens c)) bl)"
    using add_freq_syms [of c bl "replicate count (Lens c)"] assms by simp
  then show ?thesis
    using assms add_freq_sym [of "Lens c" bl] add_freq_sym [of "Rep count" bl] add_freq_sym [of "Zeros count" bl]
      add_freq_sym [of "Rep (count - 1)" "add_syms [Lens c] bl"] add_freq_sym [of "Many_Zeros count" bl]
    by (simp add: count_run_def run_syms_def add_syms_append REP_3_6_def REPZ_3_10_def REPZ_11_138_def)
qed

text \<open>The loops over a tree whose lengths from \<open>n\<close> on are \<open>ls\<close>, the guard included.\<close>

lemma scan_loop_syms:
  "length ls = k + 1 \<Longrightarrow> (\<forall>i \<le> k. len_at tree (n + i) = Some (int (ls ! i))) \<Longrightarrow> (\<forall>i < k. ls ! i \<le> 15) \<Longrightarrow>
    19 \<le> length bl \<Longrightarrow> run_limits prevlen (int (hd ls)) = (mx, mn) \<Longrightarrow>
    scan_loop tree n k prevlen (int (hd ls)) count mx mn bl = Some (add_syms (tree_syms prevlen count ls) bl)"
proof (induction k arbitrary: ls n prevlen count mx mn bl)
  case 0
  then show ?case by (cases ls) simp_all
next
  case (Suc k)
  then obtain c d rest where ls: "ls = c # d # rest" by (cases ls; cases "tl ls") auto
  have at: "len_at tree (n + 1) = Some (int d)" using Suc.prems(2) ls by (auto dest: spec [of _ 1])
  have c: "c \<le> 15" using Suc.prems(3) ls by auto
  have tl: "length (d # rest) = k + 1" "\<forall>i \<le> k. len_at tree (n + 1 + i) = Some (int ((d # rest) ! i))"
      "\<forall>i < k. (d # rest) ! i \<le> 15"
    using Suc.prems(1-3) ls by (auto dest: spec [of _ "Suc i" for i])
  show ?case
  proof (cases "count + 1 < mx \<and> c = d")
    case True
    then show ?thesis using Suc.IH [OF tl, of bl prevlen mx mn "count + 1"] Suc.prems(4,5) at ls by (simp add: Let_def)
  next
    case False
    obtain mx' mn' where lim: "run_limits (int c) (int d) = (mx', mn')" by fastforce
    then show ?thesis
      using Suc.IH [OF tl, of "add_syms (run_syms prevlen c (count + 1) mn) bl" "int c" mx' mn' 0]
        count_run_syms [OF Suc.prems(4) c, of prevlen "count + 1" mn] Suc.prems(4,5) at ls False
      by (auto simp: Let_def add_syms_append)
  qed
qed


text \<open>A node that \<open>send_code\<close> can send, and the bits of a code and of a symbol.\<close>

definition code_ok :: "ct_data \<Rightarrow> bool" where
  "code_ok t \<longleftrightarrow> unat (Len t) \<le> MAX_BITS \<and> unat (Code t) < 2 ^ unat (Len t)"

definition code_bits :: "ct_data list \<Rightarrow> nat \<Rightarrow> bool list" where
  "code_bits tree c = bits (unat (Len (tree ! c))) (Code (tree ! c))"

definition sym_bits :: "ct_data list \<Rightarrow> len_sym \<Rightarrow> bool list" where
  "sym_bits bl x = code_bits bl (sym_code x) @ (case sym_extra x of (n, v) \<Rightarrow> bits n v)"

definition syms_bits :: "ct_data list \<Rightarrow> len_sym list \<Rightarrow> bool list" where
  "syms_bits bl xs = concat (map (sym_bits bl) xs)"

lemma syms_bits_simps [simp]:
  "syms_bits bl [] = []" "syms_bits bl (x # xs) = sym_bits bl x @ syms_bits bl xs"
  "syms_bits bl (xs @ ys) = syms_bits bl xs @ syms_bits bl ys"
  by (simp_all add: syms_bits_def)

lemma send_code_sent:
  assumes "c < length tree" "code_ok (tree ! c)" "out_ok s"
  shows "\<exists>s'. send_code c tree s = Some s' \<and> sent (code_bits tree c) s s'"
proof -
  let ?t = "tree ! c"
  have u: "unat (ucast (Code ?t) :: uint) = unat (Code ?t)" by (simp add: unsigned_ucast_eq take_bit_nat_eq_self less_le_trans [OF unsigned_less])
  have "bits (unat (Len ?t)) (ucast (Code ?t) :: uint) = bits (unat (Len ?t)) (Code ?t)"
    using assms(2) by (intro bits_cong) (simp add: bit_ucast_iff code_ok_def MAX_BITS_def)
  then show ?thesis
    using sent_send_bits [OF assms(3), of "unat (Len ?t)" "ucast (Code ?t)"] assms u
    by (simp add: send_code_def code_ok_def code_bits_def MAX_BITS_def)
qed

lemma send_extra:
  assumes "out_ok s" "n \<le> 16" "v < 2 ^ n"
  shows "sent (bits n v) s (send_bits (of_nat v) n s)"
proof -
  have "v < 2 ^ 16" by (rule less_le_trans [OF assms(3) power_increasing]) (use assms(2) in auto)
  then have u: "unat (of_nat v :: uint) = v" by (simp add: unsigned_of_nat take_bit_nat_eq_self)
  have "bits n (of_nat v :: uint) = bits n v" using assms(2) by (intro bits_cong) (simp add: bit_of_nat_iff)
  then show ?thesis using sent_send_bits [OF assms(1,2), of "of_nat v"] assms(3) u by simp
qed

lemma send_copies_sent:
  assumes "c < length bl" "code_ok (bl ! c)"
  shows "0 < count \<Longrightarrow> out_ok s \<Longrightarrow>
    \<exists>s'. send_copies c count bl s = Some s' \<and> sent (syms_bits bl (replicate count (Lens c))) s s'"
proof (induction count arbitrary: s)
  case (Suc count)
  obtain t where t: "send_code c bl s = Some t" "sent (code_bits bl c) s t"
    using send_code_sent [OF assms Suc.prems(2)] by blast
  show ?case
  proof (cases "count = 0")
    case True
    then show ?thesis using t by (auto simp: sym_bits_def)
  next
    case False
    then obtain u where "send_copies c count bl t = Some u" "sent (syms_bits bl (replicate count (Lens c))) t u"
      using Suc.IH [of t] sent_ok [OF t(2)] by auto
    then show ?thesis using t False sent_trans [OF t(2)] by (auto simp: sym_bits_def)
  qed
qed simp

text \<open>A code with its extra bits.\<close>

lemma send_sym_sent:
  assumes "sym_code x < length bl" "code_ok (bl ! sym_code x)" "out_ok s" "sym_ok x" "sym_extra x = (n, v)"
  shows "\<exists>t. send_code (sym_code x) bl s = Some t \<and> sent (sym_bits bl x) s (send_bits (of_nat v) n t)"
proof -
  obtain t where t: "send_code (sym_code x) bl s = Some t" "sent (code_bits bl (sym_code x)) s t"
    using send_code_sent [OF assms(1-3)] by blast
  have "n \<le> 16 \<and> v < 2 ^ n" using assms(4,5) by (cases x) auto
  then have "sent (bits n v) t (send_bits (of_nat v) n t)" using send_extra sent_ok [OF t(2)] by blast
  then show ?thesis using t sent_trans [OF t(2)] assms(5) by (auto simp: sym_bits_def)
qed

definition bl_ok :: "ct_data list \<Rightarrow> bool" where
  "bl_ok bl \<longleftrightarrow> 19 \<le> length bl \<and> (\<forall>i < 19. code_ok (bl ! i))"

lemma sym_code_less: "sym_ok x \<Longrightarrow> sym_code x < 19"
  by (cases x) (simp_all add: REP_3_6_def REPZ_3_10_def REPZ_11_138_def)

lemma send_run_sent:
  assumes "bl_ok bl" "0 < count" "out_ok s" "\<forall>x \<in> set (run_syms prevlen c count mn). sym_ok x"
  shows "\<exists>s'. send_run prevlen (int c) count mn bl s = Some s' \<and> sent (syms_bits bl (run_syms prevlen c count mn)) s s'"
proof -
  have bl: "sym_code x < length bl \<and> code_ok (bl ! sym_code x)" if "sym_ok x" for x
    using sym_code_less [OF that] assms(1) by (simp add: bl_ok_def)
  consider "count < mn" | "\<not> count < mn" "c \<noteq> 0" "int c \<noteq> prevlen" | "\<not> count < mn" "c \<noteq> 0" "int c = prevlen"
    | "\<not> count < mn" "c = 0" "count \<le> 10" | "\<not> count < mn" "c = 0" "\<not> count \<le> 10" by blast
  then show ?thesis
  proof cases
    case 1
    then have "sym_ok (Lens c)" using assms(2,4) by (simp add: run_syms_def)
    then show ?thesis using 1 send_copies_sent [OF _ _ assms(2,3), of c bl] bl [of "Lens c"]
      by (simp add: send_run_def run_syms_def)
  next
    case 2
    then have ok: "sym_ok (Lens c)" "sym_ok (Rep (count - 1))" using assms(4) by (simp_all add: run_syms_def)
    obtain t where t: "send_code c bl s = Some t" "sent (code_bits bl c) s t"
      using send_code_sent [OF _ _ assms(3), of c bl] bl [OF ok(1)] by auto
    then show ?thesis
      using 2 send_sym_sent [OF _ _ sent_ok [OF t(2)] ok(2), of bl 2 "count - 1 - 3"] bl [OF ok(2)] sent_trans [OF t(2)]
      by (fastforce simp: send_run_def run_syms_def sym_bits_def)
  next
    case 3
    then show ?thesis using assms(4) send_sym_sent [OF _ _ assms(3), of "Rep count" bl] bl [of "Rep count"]
      by (fastforce simp: send_run_def run_syms_def)
  next
    case 4
    then show ?thesis using assms(4) send_sym_sent [OF _ _ assms(3), of "Zeros count" bl] bl [of "Zeros count"]
      by (fastforce simp: send_run_def run_syms_def)
  next
    case 5
    then show ?thesis using assms(4) send_sym_sent [OF _ _ assms(3), of "Many_Zeros count" bl] bl [of "Many_Zeros count"]
      by (fastforce simp: send_run_def run_syms_def)
  qed
qed


lemma send_loop_syms:
  assumes "bl_ok bl"
  shows "length ls = k + 1 \<Longrightarrow> (\<forall>i \<le> k. len_at tree (n + i) = Some (int (ls ! i))) \<Longrightarrow>
    \<forall>x \<in> set (tree_syms prevlen count ls). sym_ok x \<Longrightarrow> out_ok s \<Longrightarrow> run_limits prevlen (int (hd ls)) = (mx, mn) \<Longrightarrow>
    \<exists>s'. send_loop tree n k prevlen (int (hd ls)) count mx mn bl s = Some s' \<and>
      sent (syms_bits bl (tree_syms prevlen count ls)) s s'"
proof (induction k arbitrary: ls n prevlen count mx mn s)
  case 0
  then show ?case by (cases ls) (simp_all add: sent_refl)
next
  case (Suc k)
  then obtain c d rest where ls: "ls = c # d # rest" by (cases ls; cases "tl ls") auto
  have at: "len_at tree (n + 1) = Some (int d)" using Suc.prems(2) ls by (auto dest: spec [of _ 1])
  have tl: "length (d # rest) = k + 1" "\<forall>i \<le> k. len_at tree (n + 1 + i) = Some (int ((d # rest) ! i))"
    using Suc.prems(1,2) ls by (auto dest: spec [of _ "Suc i" for i])
  show ?case
  proof (cases "count + 1 < mx \<and> c = d")
    case True
    then show ?thesis using Suc.IH [OF tl, of prevlen "count + 1" s mx mn] Suc.prems(3-5) at ls by (simp add: Let_def)
  next
    case False
    obtain mx' mn' where lim: "run_limits (int c) (int d) = (mx', mn')" by fastforce
    have syms: "tree_syms prevlen count ls = run_syms prevlen c (count + 1) mn @ tree_syms (int c) 0 (d # rest)"
      using False Suc.prems(5) ls by auto
    have ok: "\<forall>x \<in> set (run_syms prevlen c (count + 1) mn). sym_ok x" "\<forall>x \<in> set (tree_syms (int c) 0 (d # rest)). sym_ok x"
      using Suc.prems(3) unfolding syms by auto
    obtain t where t: "send_run prevlen (int c) (count + 1) mn bl s = Some t"
        "sent (syms_bits bl (run_syms prevlen c (count + 1) mn)) s t"
      using send_run_sent [OF assms _ Suc.prems(4) ok(1)] by auto
    obtain u where u: "send_loop tree (n + 1) k (int c) (int d) 0 mx' mn' bl t = Some u"
        "sent (syms_bits bl (tree_syms (int c) 0 (d # rest))) t u"
      using Suc.IH [OF tl ok(2) sent_ok [OF t(2)], of mx' mn'] lim by auto
    have "send_loop tree n (Suc k) prevlen (int (hd ls)) count mx mn bl s = Some u"
      using t(1) u(1) lim at ls False by (auto simp: Let_def)
    then show ?thesis unfolding syms using sent_trans [OF t(2) u(2)] by simp
  qed
qed

section \<open>Decoding\<close>

text \<open>
  A reader of bits: the code among the first \<open>k\<close> of the tree that the bits begin with, then for a
  symbol its extra bits, until \<open>m\<close> lengths have been read.
\<close>

definition read_code :: "ct_data list \<Rightarrow> nat \<Rightarrow> bool list \<Rightarrow> (nat \<times> bool list) option" where
  "read_code tree k bs =
    (case List.find (\<lambda>c. Len (tree ! c) \<noteq> 0 \<and> prefix (code_bits tree c) bs) [0..<k] of
      None \<Rightarrow> None | Some c \<Rightarrow> Some (c, drop (length (code_bits tree c)) bs))"

definition code_sym :: "nat \<Rightarrow> nat \<Rightarrow> len_sym" where
  "code_sym c v = (if c = 16 then Rep (v + 3) else if c = 17 then Zeros (v + 3) else if c = 18 then Many_Zeros (v + 11) else Lens c)"

definition code_extra :: "nat \<Rightarrow> nat" where
  "code_extra c = (if c = 16 then 2 else if c = 17 then 3 else if c = 18 then 7 else 0)"

function read_lens :: "ct_data list \<Rightarrow> nat \<Rightarrow> nat list \<Rightarrow> bool list \<Rightarrow> (nat list \<times> bool list) option" where
  "read_lens bl m lens bs =
    (if m \<le> length lens then Some (lens, bs)
     else case read_code bl 19 bs of
       None \<Rightarrow> None
     | Some (c, bs) \<Rightarrow>
         let n = code_extra c; lens' = expand_sym lens (code_sym c (bits_value (take n bs)))
         in if length lens' \<le> length lens then None else read_lens bl m lens' (drop n bs))"
  by pat_completeness auto
termination by (relation "measure (\<lambda>(bl, m, lens, bs). m - length lens)") auto

declare read_lens.simps [simp del]

text \<open>Codes of which none begins another.\<close>

definition prefix_free :: "ct_data list \<Rightarrow> nat \<Rightarrow> bool" where
  "prefix_free tree k \<longleftrightarrow> (\<forall>c < k. \<forall>d < k. c \<noteq> d \<longrightarrow> Len (tree ! c) \<noteq> 0 \<longrightarrow> Len (tree ! d) \<noteq> 0 \<longrightarrow>
    \<not> prefix (code_bits tree c) (code_bits tree d))"

lemma read_code_bits:
  assumes "prefix_free tree k" "c < k" "Len (tree ! c) \<noteq> 0"
  shows "read_code tree k (code_bits tree c @ bs) = Some (c, bs)"
proof -
  have uniq: "d = c" if "d < k" "Len (tree ! d) \<noteq> 0" "prefix (code_bits tree d) (code_bits tree c @ bs)" for d
  proof (rule ccontr)
    assume "d \<noteq> c"
    moreover have "prefix (code_bits tree d) (code_bits tree c) \<or> prefix (code_bits tree c) (code_bits tree d)"
      by (rule prefix_same_cases [OF that(3)]) simp
    ultimately show False using assms that(1,2) by (auto simp: prefix_free_def)
  qed
  have "List.find (\<lambda>d. Len (tree ! d) \<noteq> 0 \<and> prefix (code_bits tree d) (code_bits tree c @ bs)) [0..<k] = Some c"
    unfolding find_Some_iff
  proof (intro exI [of _ c] conjI allI impI)
    show "\<not> (Len (tree ! ([0..<k] ! j)) \<noteq> 0 \<and> prefix (code_bits tree ([0..<k] ! j)) (code_bits tree c @ bs))" if "j < c" for j
      using uniq [of j] that assms(2) by auto
  qed (use assms(2,3) in auto)
  then show ?thesis by (simp add: read_code_def)
qed

lemma read_sym:
  assumes "prefix_free bl 19" "sym_ok x" "Len (bl ! sym_code x) \<noteq> 0" "length lens < m" "length lens < length (expand_sym lens x)"
  shows "read_lens bl m lens (sym_bits bl x @ bs) = read_lens bl m (expand_sym lens x) bs"
proof -
  obtain n v where e: "sym_extra x = (n, v)" by fastforce
  have b: "sym_bits bl x @ bs = code_bits bl (sym_code x) @ bits n v @ bs" by (simp add: sym_bits_def e)
  have "v < 2 ^ n \<and> code_extra (sym_code x) = n \<and> code_sym (sym_code x) v = x"
    using e assms(2) by (cases x) (auto simp: code_extra_def code_sym_def REP_3_6_def REPZ_3_10_def REPZ_11_138_def)
  then show ?thesis
    using assms(4,5) unfolding b
    by (subst read_lens.simps) (simp add: read_code_bits [OF assms(1) sym_code_less [OF assms(2)] assms(3)] Let_def bits_value_bits not_le)
qed

lemma length_expand_sym: "sym_ok x \<Longrightarrow> length lens < length (expand_sym lens x)"
  by (cases x) auto

lemma length_expand_syms: "\<forall>x \<in> set xs. sym_ok x \<Longrightarrow> length lens + length xs \<le> length (foldl expand_sym lens xs)"
proof (induction xs arbitrary: lens)
  case (Cons x xs)
  have "length lens < length (expand_sym lens x)" using length_expand_sym Cons.prems by simp
  moreover have "length (expand_sym lens x) + length xs \<le> length (foldl expand_sym (expand_sym lens x) xs)"
    using Cons.prems by (intro Cons.IH) simp
  ultimately show ?case by simp
qed simp

lemma read_syms:
  assumes "prefix_free bl 19"
  shows "\<forall>x \<in> set xs. sym_ok x \<and> Len (bl ! sym_code x) \<noteq> 0 \<Longrightarrow>
    read_lens bl (length (foldl expand_sym lens xs)) lens (syms_bits bl xs @ rest) = Some (foldl expand_sym lens xs, rest)"
proof (induction xs arbitrary: lens)
  case Nil
  then show ?case by (simp add: read_lens.simps)
next
  case (Cons x xs)
  have "length lens < length (foldl expand_sym lens (x # xs))"
    using length_expand_syms [of "x # xs" lens] Cons.prems by simp
  then show ?case
    using read_sym [OF assms, of x lens "length (foldl expand_sym lens (x # xs))" "syms_bits bl xs @ rest"]
      length_expand_sym [of x lens] Cons by simp
qed

text \<open>The symbols of a tree with its guard.\<close>

definition tree_symbols :: "ct_data list \<Rightarrow> nat \<Rightarrow> len_sym list" where
  "tree_symbols tree max_code = tree_syms (-1) 0 (tree_lens tree (max_code + 1) @ [0xffff])"

definition with_guard :: "ct_data list \<Rightarrow> nat \<Rightarrow> ct_data list" where
  "with_guard tree max_code = tree[max_code + 1 := (tree ! (max_code + 1)) \<lparr> dl := 0xffff \<rparr>]"

lemma tree_lens_facts:
  assumes "max_code + 1 < length tree" "\<forall>i \<le> max_code. unat (Len (tree ! i)) \<le> MAX_BITS"
  shows "length (tree_lens tree (max_code + 1)) = max_code + 1" "tree_lens tree (max_code + 1) \<noteq> []"
    "\<forall>i < max_code + 1. tree_lens tree (max_code + 1) ! i = unat (Len (tree ! i))"
    "\<forall>l \<in> set (tree_lens tree (max_code + 1)). l \<le> 15" "0xffff \<notin> set (tree_lens tree (max_code + 1))"
    "hd (tree_lens tree (max_code + 1)) = unat (Len (tree ! 0))"
proof -
  show len: "length (tree_lens tree (max_code + 1)) = max_code + 1" using assms(1) by (simp add: tree_lens_def)
  show nth: "\<forall>i < max_code + 1. tree_lens tree (max_code + 1) ! i = unat (Len (tree ! i))"
    using assms(1) by (auto simp: tree_lens_def)
  show le: "\<forall>l \<in> set (tree_lens tree (max_code + 1)). l \<le> 15"
    using assms(2) nth len by (auto simp: in_set_conv_nth MAX_BITS_def)
  then show "0xffff \<notin> set (tree_lens tree (max_code + 1))" by auto
  show ne: "tree_lens tree (max_code + 1) \<noteq> []" using len by auto
  show "hd (tree_lens tree (max_code + 1)) = unat (Len (tree ! 0))" using nth ne len by (simp add: hd_conv_nth)
qed

lemma tree_symbols_facts:
  assumes "max_code + 1 < length tree" "\<forall>i \<le> max_code. unat (Len (tree ! i)) \<le> MAX_BITS"
  shows "foldl expand_sym [] (tree_symbols tree max_code) = tree_lens tree (max_code + 1)"
    and "\<forall>x \<in> set (tree_symbols tree max_code). sym_ok x"
proof -
  note f = tree_lens_facts [OF assms]
  have l: "0 < fst (run_limits (-1) (int (hd (tree_lens tree (max_code + 1)))))" by (simp add: run_limits_def)
  show "foldl expand_sym [] (tree_symbols tree max_code) = tree_lens tree (max_code + 1)"
    using expand_tree_syms [OF f(5) l f(2), of "[]"] by (simp add: tree_symbols_def)
  show "\<forall>x \<in> set (tree_symbols tree max_code). sym_ok x"
    unfolding tree_symbols_def by (rule tree_syms_ok [OF l f(4)])
qed

lemma len_at_0: "m < length tree \<Longrightarrow> len_at tree 0 = Some (int (unat (Len (tree ! 0))))"
  by (cases tree) (simp_all add: len_at_def)

lemma guarded_lens_at:
  assumes "max_code + 1 < length tree" "\<forall>i \<le> max_code. unat (Len (tree ! i)) \<le> MAX_BITS" "Len (tree ! (max_code + 1)) = 0xffff"
  shows "\<forall>i \<le> max_code + 1. len_at tree (0 + i) = Some (int ((tree_lens tree (max_code + 1) @ [0xffff]) ! i))"
proof (intro allI impI)
  fix i assume "i \<le> max_code + 1"
  then show "len_at tree (0 + i) = Some (int ((tree_lens tree (max_code + 1) @ [0xffff]) ! i))"
    using tree_lens_facts [OF assms(1,2)] assms(1,3) by (cases "i = max_code + 1") (auto simp: len_at_def nth_append)
qed

lemma with_guard_facts:
  assumes "max_code + 1 < length tree"
  shows "length (with_guard tree max_code) = length tree" "Len (with_guard tree max_code ! (max_code + 1)) = 0xffff"
    "i \<le> max_code \<Longrightarrow> with_guard tree max_code ! i = tree ! i"
    "tree_lens (with_guard tree max_code) (max_code + 1) = tree_lens tree (max_code + 1)"
  using assms by (auto simp: with_guard_def tree_lens_def)

lemma scan_tree_symbols:
  assumes "max_code + 1 < length tree" "\<forall>i \<le> max_code. unat (Len (tree ! i)) \<le> MAX_BITS" "19 \<le> length bl"
  shows "scan_tree tree max_code bl = Some (with_guard tree max_code, add_syms (tree_symbols tree max_code) bl)"
proof -
  let ?g = "with_guard tree max_code" and ?ls = "tree_lens tree (max_code + 1) @ [0xffff]"
  note g = with_guard_facts [OF assms(1)]
  have g2: "max_code + 1 < length ?g" "\<forall>i \<le> max_code. unat (Len (?g ! i)) \<le> MAX_BITS" using assms g by auto
  have hd: "len_at tree 0 = Some (int (hd ?ls))"
    using tree_lens_facts [OF assms(1,2)] len_at_0 [OF assms(1)] by simp
  obtain mx mn where lim: "run_limits (-1) (int (hd ?ls)) = (mx, mn)" by fastforce
  then have first: "(if int (hd ?ls) = 0 then (138, 3) else (7, 4)) = (mx, mn)" by (simp add: run_limits_def split: if_splits)
  have "scan_loop ?g 0 (max_code + 1) (-1) (int (hd ?ls)) 0 mx mn bl = Some (add_syms (tree_syms (-1) 0 ?ls) bl)"
    by (rule scan_loop_syms [OF _ guarded_lens_at [OF g2 g(2), unfolded g(4)]])
      (use tree_lens_facts [OF assms(1,2)] assms(2,3) lim in \<open>simp_all add: nth_append MAX_BITS_def less_Suc_eq_le\<close>)
  then show ?thesis using assms(1) first
    by (cases "hd ?ls = 0") (simp_all add: scan_tree_def hd tree_symbols_def with_guard_def Let_def del: scan_loop.simps)
qed

lemma send_tree_symbols:
  assumes "max_code + 1 < length tree" "\<forall>i \<le> max_code. unat (Len (tree ! i)) \<le> MAX_BITS"
    and "Len (tree ! (max_code + 1)) = 0xffff" "bl_ok bl" "out_ok s"
  shows "\<exists>s'. send_tree tree max_code bl s = Some s' \<and> sent (syms_bits bl (tree_symbols tree max_code)) s s'"
proof -
  let ?ls = "tree_lens tree (max_code + 1) @ [0xffff]"
  have hd: "len_at tree 0 = Some (int (hd ?ls))"
    using tree_lens_facts [OF assms(1,2)] len_at_0 [OF assms(1)] by simp
  obtain mx mn where lim: "run_limits (-1) (int (hd ?ls)) = (mx, mn)" by fastforce
  then have first: "(if int (hd ?ls) = 0 then (138, 3) else (7, 4)) = (mx, mn)" by (simp add: run_limits_def split: if_splits)
  have "\<exists>s'. send_loop tree 0 (max_code + 1) (-1) (int (hd ?ls)) 0 mx mn bl s = Some s' \<and> sent (syms_bits bl (tree_symbols tree max_code)) s s'"
    unfolding tree_symbols_def
    by (rule send_loop_syms [OF assms(4) _ guarded_lens_at [OF assms(1-3)]])
      (use tree_symbols_facts [OF assms(1,2)] tree_lens_facts [OF assms(1,2)] lim assms(5) in \<open>simp_all add: tree_symbols_def\<close>)
  then show ?thesis using first
    by (cases "hd ?ls = 0") (simp_all add: send_tree_def hd Let_def del: send_loop.simps)
qed


section \<open>Properties\<close>

text \<open>
  C31. \<open>scan_tree\<close> returns, sets the guard and adds to the frequencies in the bit length tree
  how often each of a list of symbols occurs; the symbols expand to the code lengths of the tree, and
  they are the symbols that \<open>send_tree\<close> then sends, code and extra bits, through any valid bit length tree.
\<close>

theorem scan_tree_counts_sent:
  assumes "max_code + 1 < length tree" "\<forall>i \<le> max_code. unat (Len (tree ! i)) \<le> MAX_BITS" "BL_CODES \<le> length bl_tree"
  shows "\<exists>tree' bl_tree' xs. scan_tree tree max_code bl_tree = Some (tree', bl_tree') \<and>
    (\<forall>i < length bl_tree. bl_tree' ! i = (bl_tree ! i) \<lparr> fc := Freq (bl_tree ! i) + of_nat (sym_count i xs) \<rparr>) \<and>
    foldl expand_sym [] xs = tree_lens tree (max_code + 1) \<and> tree_lens tree' (max_code + 1) = tree_lens tree (max_code + 1) \<and>
    (\<forall>bl s. bl_ok bl \<longrightarrow> out_ok (s :: 'a bit_out_scheme) \<longrightarrow>
      (\<exists>s'. send_tree tree' max_code bl s = Some s' \<and> sent (syms_bits bl xs) s s'))"
proof -
  let ?g = "with_guard tree max_code" and ?xs = "tree_symbols tree max_code"
  note g = with_guard_facts [OF assms(1)]
  have g2: "max_code + 1 < length ?g" "\<forall>i \<le> max_code. unat (Len (?g ! i)) \<le> MAX_BITS" using assms g by auto
  have "tree_symbols ?g max_code = ?xs" using g(4) by (simp add: tree_symbols_def)
  then have "\<forall>bl s. bl_ok bl \<longrightarrow> out_ok (s :: 'a bit_out_scheme) \<longrightarrow>
      (\<exists>s'. send_tree ?g max_code bl s = Some s' \<and> sent (syms_bits bl ?xs) s s')"
    using send_tree_symbols [OF g2 g(2)] by metis
  moreover have "\<forall>i < length bl_tree. add_syms ?xs bl_tree ! i =
      (bl_tree ! i) \<lparr> fc := Freq (bl_tree ! i) + of_nat (sym_count i ?xs) \<rparr>" by (simp add: add_syms_def)
  ultimately show ?thesis
    using scan_tree_symbols [OF assms(1,2), of bl_tree] assms(3) tree_symbols_facts(1) [OF assms(1,2)] g(4)
    by (intro exI [of _ ?g] exI [of _ "add_syms ?xs bl_tree"] exI [of _ ?xs]) (simp add: BL_CODES_def)
qed

lemma scan_tree_counts_sent_witness:
  "\<exists>tree' bl_tree' xs. scan_tree [\<lparr>fc = 1, dl = 3\<rparr>, \<lparr>fc = 1, dl = 3\<rparr>, \<lparr>fc = 0, dl = 0\<rparr>] 1 (replicate 39 zero_node) = Some (tree', bl_tree') \<and>
    foldl expand_sym [] xs = [3, 3] \<and> Freq (bl_tree' ! 3) = of_nat (sym_count 3 xs)"
proof -
  let ?t = "[\<lparr>fc = 1, dl = 3\<rparr>, \<lparr>fc = 1, dl = 3\<rparr>, \<lparr>fc = 0, dl = 0\<rparr>] :: ct_data list"
  have h: "1 + 1 < length ?t" "\<forall>i \<le> 1. unat (Len (?t ! i)) \<le> MAX_BITS" "BL_CODES \<le> length (replicate 39 zero_node)"
    by (auto simp: MAX_BITS_def BL_CODES_def less_Suc_eq_le [symmetric] nth_Cons' simp del: One_nat_def)
  have l: "tree_lens ?t (1 + 1) = [3, 3]" by (simp add: tree_lens_def)
  obtain tree' bl_tree' xs where p: "scan_tree ?t 1 (replicate 39 zero_node) = Some (tree', bl_tree')"
    "\<forall>i < length (replicate 39 zero_node). bl_tree' ! i =
      (replicate 39 zero_node ! i) \<lparr> fc := Freq (replicate 39 zero_node ! i) + of_nat (sym_count i xs) \<rparr>"
    "foldl expand_sym [] xs = tree_lens ?t (1 + 1)"
    using scan_tree_counts_sent [OF h] by (elim exE conjE)
  have "Freq (bl_tree' ! 3) = of_nat (sym_count 3 xs)" using p(2) by (auto simp: zero_node_def)
  then show ?thesis using p(1,3) l by auto
qed

text \<open>
  C11. The code lengths survive: if the codes of the bit length tree are prefix free and every
  symbol of the tree has one, then the bits that \<open>send_tree\<close> sends, followed by anything, read back
  as exactly the code lengths of the tree and leave what followed.
\<close>

theorem send_tree_roundtrip:
  assumes "max_code + 1 < length tree" "\<forall>i \<le> max_code. unat (Len (tree ! i)) \<le> MAX_BITS"
    and "Len (tree ! (max_code + 1)) = 0xffff" "bl_ok bl" "out_ok s"
    and "prefix_free bl 19" "\<forall>x \<in> set (tree_symbols tree max_code). Len (bl ! sym_code x) \<noteq> 0"
  shows "\<exists>s' bs. send_tree tree max_code bl s = Some s' \<and> sent bs s s' \<and>
    (\<forall>rest. read_lens bl (max_code + 1) [] (bs @ rest) = Some (tree_lens tree (max_code + 1), rest))"
proof -
  note f = tree_symbols_facts [OF assms(1,2)]
  have "read_lens bl (max_code + 1) [] (syms_bits bl (tree_symbols tree max_code) @ rest) =
      Some (tree_lens tree (max_code + 1), rest)" for rest
    using read_syms [OF assms(6), of "tree_symbols tree max_code" "[]" rest] assms(7) f tree_lens_facts(1) [OF assms(1,2)] by simp
  then show ?thesis using send_tree_symbols [OF assms(1-5)] by blast
qed

lemma send_tree_roundtrip_witness:
  "\<exists>s' bs. send_tree [\<lparr>fc = 1, dl = 3\<rparr>, \<lparr>fc = 1, dl = 3\<rparr>, \<lparr>fc = 0, dl = 0xffff\<rparr>] 1
      (\<lparr>fc = 1, dl = 1\<rparr> # zero_node # zero_node # \<lparr>fc = 0, dl = 1\<rparr> # replicate 35 zero_node)
      \<lparr>pending = [], bi_buf = 0, bi_valid = 0\<rparr> = Some s' \<and>
    sent bs \<lparr>pending = [], bi_buf = 0, bi_valid = 0\<rparr> s'"
proof -
  let ?t = "[\<lparr>fc = 1, dl = 3\<rparr>, \<lparr>fc = 1, dl = 3\<rparr>, \<lparr>fc = 0, dl = 0xffff\<rparr>] :: ct_data list"
  let ?bl = "\<lparr>fc = 1, dl = 1\<rparr> # zero_node # zero_node # \<lparr>fc = 0, dl = 1\<rparr> # replicate 35 zero_node :: ct_data list"
  let ?s = "\<lparr>pending = [], bi_buf = 0, bi_valid = 0\<rparr> :: bit_out"
  have nth: "?bl ! i = (if i = 0 then \<lparr>fc = 1, dl = 1\<rparr> else if i = 3 then \<lparr>fc = 0, dl = 1\<rparr> else zero_node)" if "i < 19" for i
    using that by (auto simp: nth_Cons' nth_append)
  have c: "code_bits ?bl 0 = [True]" "code_bits ?bl 3 = [False]"
    by (simp_all add: code_bits_def bits_Suc numeral_3_eq_3)
  have h: "1 + 1 < length ?t" "\<forall>i \<le> 1. unat (Len (?t ! i)) \<le> MAX_BITS" "Len (?t ! (1 + 1)) = 0xffff" "out_ok ?s"
    by (auto simp: MAX_BITS_def out_ok_def less_Suc_eq_le [symmetric] nth_Cons' simp del: One_nat_def)
  have b: "bl_ok ?bl" using nth by (auto simp: bl_ok_def code_ok_def MAX_BITS_def zero_node_def)
  have p: "prefix_free ?bl 19"
    using nth c by (auto simp: prefix_free_def zero_node_def)
  have l: "tree_lens ?t (1 + 1) = [3, 3]" by (simp add: tree_lens_def)
  have "tree_symbols ?t 1 = [Lens 3, Lens 3]"
    unfolding tree_symbols_def l by (simp add: run_limits_def run_syms_def numeral_replicate)
  then have x: "\<forall>x \<in> set (tree_symbols ?t 1). Len (?bl ! sym_code x) \<noteq> 0" using nth [of 3] by simp
  show ?thesis using send_tree_roundtrip [OF h(1-3) b h(4) p x] by blast
qed

end
