(* ===== verification/Tree_Build.thy ===== *)
theory Tree_Build
  imports Static_Trees "HOL-Library.Multiset"
begin

text \<open>
  Building a Huffman tree, \<^verbatim>\<open>src/AOS/aos/zlib/trees.c\<close>: the heap (\<open>smaller\<close>, \<open>pqdownheap\<close>,
  \<open>pqremove\<close>), \<open>gen_bitlen\<close> and \<open>build_tree\<close>. The arrays are lists with the sizes of the
  \<open>deflate_state\<close>; an index outside of them is \<open>None\<close>.
\<close>

section \<open>State\<close>

text \<open>The descriptor of a static tree: \<open>static_l_desc\<close>, \<open>static_d_desc\<close> and \<open>static_bl_desc\<close>.\<close>

record static_tree_desc =
  static_tree :: "ct_data list option"
  extra_bits :: "nat list"
  extra_base :: nat
  elems :: nat
  max_length :: nat

definition static_l_desc :: static_tree_desc where
  "static_l_desc = \<lparr> static_tree = Some static_ltree, extra_bits = extra_lbits, extra_base = LITERALS + 1,
    elems = L_CODES, max_length = MAX_BITS \<rparr>"

definition static_d_desc :: static_tree_desc where
  "static_d_desc = \<lparr> static_tree = Some static_dtree, extra_bits = extra_dbits, extra_base = 0,
    elems = D_CODES, max_length = MAX_BITS \<rparr>"

definition static_bl_desc :: static_tree_desc where
  "static_bl_desc = \<lparr> static_tree = None, extra_bits = extra_blbits, extra_base = 0,
    elems = BL_CODES, max_length = MAX_BL_BITS \<rparr>"

text \<open>
  What the construction keeps in the \<open>deflate_state\<close>, with the tree under construction. The two
  lengths are \<open>ulg\<close> and wrap.
\<close>

record build_state =
  tree :: "ct_data list"
  heap :: "nat list"
  heap_len :: nat
  heap_max :: nat
  depth :: "byte list"
  bl_count :: "ushort list"
  opt_len :: ulong
  static_len :: ulong

section \<open>The heap\<close>

definition SMALLEST :: nat where "SMALLEST = 1"

definition smaller :: "ct_data list \<Rightarrow> nat \<Rightarrow> nat \<Rightarrow> byte list \<Rightarrow> bool option" where
  "smaller nodes n m dep = do {
    a \<leftarrow> peek nodes n;
    b \<leftarrow> peek nodes m;
    if Freq a < Freq b then Some True
    else if Freq a = Freq b then do { dn \<leftarrow> peek dep n; dm \<leftarrow> peek dep m; Some (dn \<le> dm) }
    else Some False }"

partial_function (option) down_loop :: "ct_data list \<Rightarrow> byte list \<Rightarrow> nat \<Rightarrow> nat \<Rightarrow> nat list \<Rightarrow> nat \<Rightarrow> nat \<Rightarrow> nat list option" where
  "down_loop nodes dep len v hp k j =
    (if j \<le> len then do {
       j \<leftarrow> (if j < len then do {
           a \<leftarrow> peek hp (j + 1); b \<leftarrow> peek hp j;
           less \<leftarrow> smaller nodes a b dep;
           Some (if less then j + 1 else j) }
         else Some j);
       c \<leftarrow> peek hp j;
       stop \<leftarrow> smaller nodes v c dep;
       if stop then poke hp k v
       else do {
         hp \<leftarrow> poke hp k c;
         down_loop nodes dep len v hp j (push_bit 1 j) } }
     else poke hp k v)"

definition pqdownheap :: "build_state \<Rightarrow> nat \<Rightarrow> build_state option" where
  "pqdownheap s k = do {
    v \<leftarrow> peek (heap s) k;
    hp \<leftarrow> down_loop (tree s) (depth s) (heap_len s) v (heap s) k (push_bit 1 k);
    Some (s \<lparr> heap := hp \<rparr>) }"

text \<open>The result holds the element removed.\<close>

definition pqremove :: "build_state \<Rightarrow> (nat \<times> build_state) option" where
  "pqremove s = do {
    top \<leftarrow> peek (heap s) SMALLEST;
    last \<leftarrow> peek (heap s) (heap_len s);
    hp \<leftarrow> poke (heap s) SMALLEST last;
    s \<leftarrow> pqdownheap (s \<lparr> heap := hp, heap_len := heap_len s - 1 \<rparr>) SMALLEST;
    Some (top, s) }"

section \<open>Bit lengths\<close>

text \<open>\<open>for (h = s->heap_max+1; h < HEAP_SIZE; h++)\<close> for \<open>k\<close> values from \<open>h\<close> on.\<close>

fun bitlen_loop :: "static_tree_desc \<Rightarrow> nat \<Rightarrow> nat \<Rightarrow> nat \<Rightarrow> int \<Rightarrow> build_state \<Rightarrow> (int \<times> build_state) option" where
  "bitlen_loop desc max_code h 0 overflow s = Some (overflow, s)"
| "bitlen_loop desc max_code h (Suc k) overflow s = do {
    n \<leftarrow> peek (heap s) h;
    t \<leftarrow> peek (tree s) n;
    p \<leftarrow> peek (tree s) (unat (Dad t));
    let blen = unat (Len p) + 1;
    let (blen, overflow) = (if blen > max_length desc then (max_length desc, overflow + 1) else (blen, overflow));
    tree' \<leftarrow> poke (tree s) n (t \<lparr> dl := of_nat blen \<rparr>);
    let s = s \<lparr> tree := tree' \<rparr>;
    if n > max_code then bitlen_loop desc max_code (h + 1) k overflow s
    else do {
      c \<leftarrow> peek (bl_count s) blen;
      counts \<leftarrow> poke (bl_count s) blen (c + 1);
      xbits \<leftarrow> (if n \<ge> extra_base desc then peek (extra_bits desc) (n - extra_base desc) else Some 0);
      let f = Freq t;
      let s = s \<lparr> bl_count := counts, opt_len := opt_len s + ucast f * of_nat (blen + xbits) \<rparr>;
      s \<leftarrow> (case static_tree desc of
          None \<Rightarrow> Some s
        | Some stree \<Rightarrow> do {
            st \<leftarrow> peek stree n;
            Some (s \<lparr> static_len := static_len s + ucast f * of_nat (unat (Len st) + xbits) \<rparr>) });
      bitlen_loop desc max_code (h + 1) k overflow s } }"

text \<open>\<open>while (s->bl_count[bits] == 0) bits--;\<close> The index never becomes negative: that is \<open>None\<close>.\<close>

fun find_bits :: "ushort list \<Rightarrow> nat \<Rightarrow> nat option" where
  "find_bits counts blen = do {
    c \<leftarrow> peek counts blen;
    if c = 0 then (case blen of 0 \<Rightarrow> None | Suc b \<Rightarrow> find_bits counts b) else Some blen }"

text \<open>\<open>do { ... } while (overflow > 0);\<close>\<close>

function overflow_loop :: "nat \<Rightarrow> int \<Rightarrow> ushort list \<Rightarrow> ushort list option" where
  "overflow_loop max_len overflow counts =
    (case find_bits counts (max_len - 1) of None \<Rightarrow> None | Some blen \<Rightarrow> do {
       a \<leftarrow> peek counts blen;
       counts \<leftarrow> poke counts blen (a - 1);
       b \<leftarrow> peek counts (blen + 1);
       counts \<leftarrow> poke counts (blen + 1) (b + 2);
       c \<leftarrow> peek counts max_len;
       counts \<leftarrow> poke counts max_len (c - 1);
       if overflow - 2 > 0 then overflow_loop max_len (overflow - 2) counts else Some counts })"
  by pat_completeness auto
termination by (relation "measure (\<lambda>(m, overflow, c). nat overflow)") auto

text \<open>
  \<open>while (n != 0)\<close> of the second pass, going down from \<open>h\<close>; \<open>n\<close> is the number of codes still
  to get the length \<open>bits\<close>.
\<close>

function assign_loop :: "nat \<Rightarrow> nat \<Rightarrow> nat \<Rightarrow> nat \<Rightarrow> build_state \<Rightarrow> (nat \<times> build_state) option" where
  "assign_loop max_code blen n h s =
    (if n = 0 then Some (h, s)
     else if h = 0 then None
     else do {
       m \<leftarrow> peek (heap s) (h - 1);
       if m > max_code then assign_loop max_code blen n (h - 1) s
       else do {
         t \<leftarrow> peek (tree s) m;
         if unat (Len t) \<noteq> blen then do {
           tree' \<leftarrow> poke (tree s) m (t \<lparr> dl := of_nat blen \<rparr>);
           assign_loop max_code blen (n - 1) (h - 1)
             (s \<lparr> opt_len := opt_len s + of_int ((int blen - int (unat (Len t))) * int (unat (Freq t))), tree := tree' \<rparr>) }
         else assign_loop max_code blen (n - 1) (h - 1) s } })"
  by pat_completeness auto
termination by (relation "measure (\<lambda>(m, b, n, h, s). h)") auto

text \<open>\<open>for (bits = max_length; bits != 0; bits--)\<close>\<close>

fun reassign_loop :: "nat \<Rightarrow> nat \<Rightarrow> nat \<Rightarrow> build_state \<Rightarrow> build_state option" where
  "reassign_loop max_code 0 h s = Some s"
| "reassign_loop max_code (Suc b) h s = do {
    n \<leftarrow> peek (bl_count s) (Suc b);
    (h, s) \<leftarrow> assign_loop max_code (Suc b) (unat n) h s;
    reassign_loop max_code b h s }"

definition gen_bitlen :: "static_tree_desc \<Rightarrow> nat \<Rightarrow> build_state \<Rightarrow> build_state option" where
  "gen_bitlen desc max_code s = do {
    let s = s \<lparr> bl_count := replicate (MAX_BITS + 1) 0 \<rparr>;
    root \<leftarrow> peek (heap s) (heap_max s);
    t \<leftarrow> peek (tree s) root;
    tree' \<leftarrow> poke (tree s) root (t \<lparr> dl := 0 \<rparr>);
    (overflow, s) \<leftarrow> bitlen_loop desc max_code (heap_max s + 1) (HEAP_SIZE - (heap_max s + 1)) 0 (s \<lparr> tree := tree' \<rparr>);
    if overflow = 0 then Some s
    else do {
      counts \<leftarrow> overflow_loop (max_length desc) overflow (bl_count s);
      reassign_loop max_code (max_length desc) HEAP_SIZE (s \<lparr> bl_count := counts \<rparr>) } }"

section \<open>The construction\<close>

text \<open>\<open>for (n = 0; n < elems; n++)\<close> for \<open>k\<close> values from \<open>n\<close> on; \<open>max_code\<close> starts at -1.\<close>

fun init_loop :: "nat \<Rightarrow> nat \<Rightarrow> int \<Rightarrow> build_state \<Rightarrow> (int \<times> build_state) option" where
  "init_loop n 0 max_code s = Some (max_code, s)"
| "init_loop n (Suc k) max_code s = do {
    t \<leftarrow> peek (tree s) n;
    if Freq t \<noteq> 0 then do {
      hp \<leftarrow> poke (heap s) (heap_len s + 1) n;
      dep \<leftarrow> poke (depth s) n 0;
      init_loop (n + 1) k (int n) (s \<lparr> heap := hp, heap_len := heap_len s + 1, depth := dep \<rparr>) }
    else do {
      nodes \<leftarrow> poke (tree s) n (t \<lparr> dl := 0 \<rparr>);
      init_loop (n + 1) k max_code (s \<lparr> tree := nodes \<rparr>) } }"

text \<open>\<open>while (s->heap_len < 2)\<close>\<close>

partial_function (option) force_loop :: "static_tree_desc \<Rightarrow> int \<Rightarrow> build_state \<Rightarrow> (int \<times> build_state) option" where
  "force_loop desc max_code s =
    (if heap_len s < 2 then do {
       let (node, max_code) = (if max_code < 2 then (nat (max_code + 1), max_code + 1) else (0, max_code));
       hp \<leftarrow> poke (heap s) (heap_len s + 1) node;
       t \<leftarrow> peek (tree s) node;
       nodes \<leftarrow> poke (tree s) node (t \<lparr> fc := 1 \<rparr>);
       dep \<leftarrow> poke (depth s) node 0;
       let s = s \<lparr> heap := hp, heap_len := heap_len s + 1, tree := nodes, depth := dep, opt_len := opt_len s - 1 \<rparr>;
       s \<leftarrow> (case static_tree desc of
           None \<Rightarrow> Some s
         | Some stree \<Rightarrow> do {
             st \<leftarrow> peek stree node; Some (s \<lparr> static_len := static_len s - ucast (Len st) \<rparr>) });
       force_loop desc max_code s }
     else Some (max_code, s))"

text \<open>\<open>for (n = s->heap_len/2; n >= 1; n--) pqdownheap(s, tree, n);\<close>\<close>

fun heapify :: "nat \<Rightarrow> build_state \<Rightarrow> build_state option" where
  "heapify 0 s = Some s"
| "heapify (Suc n) s = do { s \<leftarrow> pqdownheap s (Suc n); heapify n s }"

text \<open>\<open>s->heap[--(s->heap_max)] = n;\<close>\<close>

definition push_sorted :: "nat \<Rightarrow> build_state \<Rightarrow> build_state option" where
  "push_sorted n s =
    (if heap_max s = 0 then None
     else do { hp \<leftarrow> poke (heap s) (heap_max s - 1) n; Some (s \<lparr> heap := hp, heap_max := heap_max s - 1 \<rparr>) })"

text \<open>One round: the two least frequent nodes become the sons of \<open>node\<close>.\<close>

definition combine :: "nat \<Rightarrow> build_state \<Rightarrow> build_state option" where
  "combine node s = do {
    (n, s) \<leftarrow> pqremove s;
    m \<leftarrow> peek (heap s) SMALLEST;
    s \<leftarrow> push_sorted n s;
    s \<leftarrow> push_sorted m s;
    a \<leftarrow> peek (tree s) n;
    b \<leftarrow> peek (tree s) m;
    t \<leftarrow> peek (tree s) node;
    nodes \<leftarrow> poke (tree s) node (t \<lparr> fc := Freq a + Freq b \<rparr>);
    dn \<leftarrow> peek (depth s) n;
    dm \<leftarrow> peek (depth s) m;
    dep \<leftarrow> poke (depth s) node ((if dn \<ge> dm then dn else dm) + 1);
    b \<leftarrow> peek nodes m;
    nodes \<leftarrow> poke nodes m (b \<lparr> dl := of_nat node \<rparr>);
    a \<leftarrow> peek nodes n;
    nodes \<leftarrow> poke nodes n (a \<lparr> dl := of_nat node \<rparr>);
    hp \<leftarrow> poke (heap s) SMALLEST node;
    pqdownheap (s \<lparr> heap := hp, tree := nodes, depth := dep \<rparr>) SMALLEST }"

text \<open>\<open>do { ... } while (s->heap_len >= 2);\<close>\<close>

partial_function (option) combine_loop :: "nat \<Rightarrow> build_state \<Rightarrow> build_state option" where
  "combine_loop node s = do {
    s \<leftarrow> combine node s;
    if heap_len s \<ge> 2 then combine_loop (node + 1) s else Some s }"

text \<open>The result holds \<open>desc->max_code\<close>.\<close>

definition build_tree :: "static_tree_desc \<Rightarrow> build_state \<Rightarrow> (nat \<times> build_state) option" where
  "build_tree desc s = do {
    (max_code, s) \<leftarrow> init_loop 0 (elems desc) (-1) (s \<lparr> heap_len := 0, heap_max := HEAP_SIZE \<rparr>);
    (max_code, s) \<leftarrow> force_loop desc max_code s;
    s \<leftarrow> heapify (heap_len s div 2) s;
    s \<leftarrow> combine_loop (elems desc) s;
    root \<leftarrow> peek (heap s) SMALLEST;
    s \<leftarrow> push_sorted root s;
    s \<leftarrow> gen_bitlen desc (nat max_code) s;
    nodes \<leftarrow> gen_codes (tree s) (nat max_code) (bl_count s);
    Some (nat max_code, s \<lparr> tree := nodes \<rparr>) }"

section \<open>The heap property\<close>

text \<open>The order of the nodes by frequency and depth, and the heap property below \<open>k\<close>.\<close>

definition node_le :: "ct_data list \<Rightarrow> byte list \<Rightarrow> nat \<Rightarrow> nat \<Rightarrow> bool" where
  "node_le nodes dep n m \<longleftrightarrow> Freq (nodes ! n) < Freq (nodes ! m) \<or> Freq (nodes ! n) = Freq (nodes ! m) \<and> dep ! n \<le> dep ! m"

definition node_ok :: "ct_data list \<Rightarrow> byte list \<Rightarrow> nat \<Rightarrow> bool" where
  "node_ok nodes dep n \<longleftrightarrow> n < length nodes \<and> n < length dep"

definition heap_from :: "ct_data list \<Rightarrow> byte list \<Rightarrow> nat \<Rightarrow> nat list \<Rightarrow> nat \<Rightarrow> bool" where
  "heap_from nodes dep len hp k \<longleftrightarrow> (\<forall>i \<le> len. k \<le> i div 2 \<longrightarrow> node_le nodes dep (hp ! (i div 2)) (hp ! i))"

lemma smaller_le:
  "node_ok nodes dep n \<Longrightarrow> node_ok nodes dep m \<Longrightarrow> smaller nodes n m dep = Some (node_le nodes dep n m)"
  by (auto simp: smaller_def node_ok_def node_le_def)

lemma node_le_refl: "node_le nodes dep n n"
  by (simp add: node_le_def)

lemma node_le_trans: "node_le nodes dep a b \<Longrightarrow> node_le nodes dep b c \<Longrightarrow> node_le nodes dep a c"
  by (auto simp: node_le_def intro: less_trans order_trans)

lemma node_le_total: "\<not> node_le nodes dep a b \<Longrightarrow> node_le nodes dep b a"
  by (auto simp: node_le_def not_less not_le)

text \<open>
  The loop invariant: all pairs of father and son from \<open>k0\<close> on are in order but those with the hole
  \<open>k\<close> as father, where \<open>v\<close> will go, and the sons of the hole are not before its father.
\<close>

definition down_inv :: "ct_data list \<Rightarrow> byte list \<Rightarrow> nat \<Rightarrow> nat \<Rightarrow> nat \<Rightarrow> nat list \<Rightarrow> nat \<Rightarrow> bool" where
  "down_inv nodes dep len k0 v hp k \<longleftrightarrow>
    (\<forall>i \<le> len. k0 \<le> i div 2 \<and> i div 2 \<noteq> k \<and> i \<noteq> k \<longrightarrow> node_le nodes dep (hp ! (i div 2)) (hp ! i)) \<and>
    (k0 \<le> k div 2 \<longrightarrow> node_le nodes dep (hp ! (k div 2)) v \<and>
      (\<forall>i \<le> len. i div 2 = k \<longrightarrow> node_le nodes dep (hp ! (k div 2)) (hp ! i)))"

lemma half_iff: "(i :: nat) div 2 = k \<longleftrightarrow> i = 2 * k \<or> i = 2 * k + 1"
  by auto

lemma half_neq: "0 < (k :: nat) \<Longrightarrow> k div 2 \<noteq> k"
  by auto

text \<open>The smallest son, and the placement of \<open>v\<close> where it belongs.\<close>

lemma smallest_son:
  assumes "2 * k \<le> len" "len < length hp" "\<forall>i. 1 \<le> i \<and> i \<le> len \<longrightarrow> node_ok nodes dep (hp ! i)" "1 \<le> k"
  shows "\<exists>j. (if 2 * k < len then do {
           a \<leftarrow> peek hp (2 * k + 1); b \<leftarrow> peek hp (2 * k);
           less \<leftarrow> smaller nodes a b dep;
           Some (if less then 2 * k + 1 else 2 * k) }
         else Some (2 * k)) = Some j \<and> j div 2 = k \<and> j \<le> len \<and>
       (\<forall>i \<le> len. i div 2 = k \<longrightarrow> node_le nodes dep (hp ! j) (hp ! i))"
proof (cases "2 * k < len")
  case True
  then have ok: "node_ok nodes dep (hp ! (2 * k + 1))" "node_ok nodes dep (hp ! (2 * k))" using assms(3,4) by auto
  show ?thesis using True ok assms(2) node_le_refl node_le_total
    by (auto simp: smaller_le half_iff all_conj_distrib)
next
  case False
  then have "len = 2 * k" using assms(1) by simp
  then show ?thesis using node_le_refl by (auto simp: half_iff)
qed

lemma place_hole:
  assumes "down_inv nodes dep len k0 v hp k" "1 \<le> k0" "k0 \<le> k" "len < length hp" "k \<le> len"
    and "\<forall>i \<le> len. i div 2 = k \<longrightarrow> node_le nodes dep v (hp ! i)"
  shows "heap_from nodes dep len (hp[k := v]) k0"
  unfolding heap_from_def
proof (intro allI impI)
  fix i assume i: "i \<le> len" "k0 \<le> i div 2"
  have "i div 2 \<noteq> i" using half_neq [of i] i assms(2) by (cases i) auto
  then show "node_le nodes dep (hp[k := v] ! (i div 2)) (hp[k := v] ! i)"
    using assms i by (auto simp: down_inv_def nth_list_update)
qed

lemma move_hole:
  assumes inv: "down_inv nodes dep len k0 v hp k" and k: "1 \<le> k0" "k0 \<le> k" "len < length hp"
    and j: "j div 2 = k" "j \<le> len" "\<forall>i \<le> len. i div 2 = k \<longrightarrow> node_le nodes dep (hp ! j) (hp ! i)"
    and v: "\<not> node_le nodes dep v (hp ! j)"
  shows "down_inv nodes dep len k0 v (hp[k := hp ! j]) j"
proof -
  have kj: "k < j" "k \<le> len" using j k by auto
  have ne: "i \<noteq> k" if "i div 2 = k \<or> i div 2 = j" for i using that kj k by auto
  have "node_le nodes dep (hp[k := hp ! j] ! (i div 2)) (hp[k := hp ! j] ! i)"
    if i: "i \<le> len" "k0 \<le> i div 2" "i div 2 \<noteq> j" "i \<noteq> j" for i
  proof -
    consider "i div 2 = k" | "i = k" "i div 2 \<noteq> k" | "i \<noteq> k" "i div 2 \<noteq> k" by blast
    then show ?thesis
    proof cases
      case 1
      then show ?thesis using j(3) i(1) ne [of i] kj k(3) by simp
    next
      case 2
      then show ?thesis using inv i kj k(3) j(1,2) by (auto simp: down_inv_def)
    next
      case 3
      then show ?thesis using inv i by (simp add: down_inv_def)
    qed
  qed
  moreover have "node_le nodes dep (hp ! j) (hp ! i)" if "i \<le> len" "i div 2 = j" for i
    using inv that ne [of i] kj k unfolding down_inv_def by (metis less_imp_le nat_neq_iff order_trans)
  then have "node_le nodes dep (hp[k := hp ! j] ! (j div 2)) (hp[k := hp ! j] ! i)" if "i \<le> len" "i div 2 = j" for i
    using that ne [of i] j(1) k(3) kj by simp
  moreover have "node_le nodes dep (hp[k := hp ! j] ! (j div 2)) v" using node_le_total [OF v] j(1) k(3) kj by simp
  ultimately show ?thesis unfolding down_inv_def by blast
qed

lemma down_loop_heap:
  assumes "len < length hp" "1 \<le> k0"
  shows "k0 \<le> k \<Longrightarrow> k \<le> len \<Longrightarrow> length hp = n \<Longrightarrow> node_ok nodes dep v \<Longrightarrow>
    \<forall>i. 1 \<le> i \<and> i \<le> len \<longrightarrow> node_ok nodes dep (hp ! i) \<Longrightarrow> down_inv nodes dep len k0 v hp k \<Longrightarrow>
    \<exists>hp'. down_loop nodes dep len v hp k (push_bit 1 k) = Some hp' \<and> heap_from nodes dep len hp' k0 \<and>
      mset hp' = mset (hp[k := v]) \<and> (\<forall>i. i < k0 \<or> len < i \<longrightarrow> hp' ! i = hp ! i)"
  using assms(1)
proof (induction "len - k" arbitrary: hp k rule: less_induct)
  case less
  have pb: "push_bit 1 k = 2 * k" by (simp add: push_bit_eq_mult)
  note unfold = down_loop.simps [of nodes dep len v hp k "push_bit 1 k", unfolded pb]
  show ?case
  proof (cases "2 * k \<le> len")
    case False
    then have "heap_from nodes dep len (hp[k := v]) k0"
      using place_hole [OF less.prems(6) assms(2) less.prems(1,7,2)] by (auto simp: half_iff)
    then show ?thesis using False less.prems unfolding pb unfold by auto
  next
    case True
    obtain j where son: "(if 2 * k < len then do {
           a \<leftarrow> peek hp (2 * k + 1); b \<leftarrow> peek hp (2 * k);
           less \<leftarrow> smaller nodes a b dep;
           Some (if less then 2 * k + 1 else 2 * k) }
         else Some (2 * k)) = Some j"
      and j: "j div 2 = k" "j \<le> len" "\<forall>i \<le> len. i div 2 = k \<longrightarrow> node_le nodes dep (hp ! j) (hp ! i)"
      using smallest_son [OF True less.prems(7,5)] less.prems(1) assms(2) by auto
    have jk: "k < j" using j(1) less.prems(1) assms(2) by auto
    have ok: "node_ok nodes dep (hp ! j)" using less.prems(5) j(2) jk by auto
    have step: "down_loop nodes dep len v hp k (push_bit 1 k) =
        (if node_le nodes dep v (hp ! j) then Some (hp[k := v])
         else down_loop nodes dep len v (hp[k := hp ! j]) j (push_bit 1 j))"
      unfolding pb unfold using True son smaller_le [OF less.prems(4) ok] j(2) less.prems(2,7) by simp
    show ?thesis
    proof (cases "node_le nodes dep v (hp ! j)")
      case True
      then have "heap_from nodes dep len (hp[k := v]) k0"
        using place_hole [OF less.prems(6) assms(2) less.prems(1,7,2)] j(3) node_le_trans by blast
      then show ?thesis using True step less.prems(1,2) by simp
    next
      case False
      let ?hp = "hp[k := hp ! j]"
      have "\<exists>hp'. down_loop nodes dep len v ?hp j (push_bit 1 j) = Some hp' \<and> heap_from nodes dep len hp' k0 \<and>
          mset hp' = mset (?hp[j := v]) \<and> (\<forall>i. i < k0 \<or> len < i \<longrightarrow> hp' ! i = ?hp ! i)"
      proof (rule less.hyps)
        show "down_inv nodes dep len k0 v ?hp j"
          by (rule move_hole [OF less.prems(6) assms(2) less.prems(1,7) j False])
        show "\<forall>i. 1 \<le> i \<and> i \<le> len \<longrightarrow> node_ok nodes dep (?hp ! i)"
          using less.prems(2,5,7) ok j(2) by (auto simp: nth_list_update)
      qed (use less.prems jk j(2) in auto)
      moreover have "mset (?hp[j := v]) = mset (hp[k := v])"
        using mset_swap [of k "hp[k := v]" j] jk j(2) less.prems(2,7) by (simp add: list_update_swap)
      moreover have "\<forall>i. i < k0 \<or> len < i \<longrightarrow> ?hp ! i = hp ! i" using less.prems(1,2) by (auto simp: nth_list_update)
      ultimately show ?thesis using False step by auto
    qed
  qed
qed


text \<open>The nodes in the heap.\<close>

definition entries :: "nat list \<Rightarrow> nat \<Rightarrow> nat multiset" where
  "entries hp len = mset (map ((!) hp) [1..<len + 1])"

lemma entries_take: "len < length hp \<Longrightarrow> entries hp len = mset (take len (drop 1 hp))"
  unfolding entries_def by (rule arg_cong [where f = mset], rule nth_equalityI) (auto simp del: upt_Suc)

lemma set_entries: "set_mset (entries hp len) = {hp ! i | i. 1 \<le> i \<and> i \<le> len}"
  by (auto simp: entries_def simp del: upt_Suc)

lemma entries_eq:
  assumes "mset hp' = mset hp" "len < length hp" "hp' ! 0 = hp ! 0" "\<forall>i. len < i \<longrightarrow> hp' ! i = hp ! i"
  shows "entries hp' len = entries hp len"
proof -
  have len: "length hp' = length hp" using assms(1) by (rule mset_eq_length)
  have split: "mset hs = {# hs ! 0 #} + entries hs len + mset (drop (len + 1) hs)" if "len < length hs" for hs :: "nat list"
    using that by (cases hs) (simp_all add: entries_take flip: mset_append)
  have "drop (len + 1) hp' = drop (len + 1) hp" using assms(4) len by (intro nth_equalityI) simp_all
  then show ?thesis using split [OF assms(2)] split [of hp'] assms(1-3) len by simp
qed

lemma heap_root:
  assumes "heap_from nodes dep len hp 1"
  shows "1 \<le> i \<Longrightarrow> i \<le> len \<Longrightarrow> node_le nodes dep (hp ! 1) (hp ! i)"
proof (induction i rule: less_induct)
  case (less i)
  show ?case
  proof (cases "i = 1")
    case False
    then have "node_le nodes dep (hp ! 1) (hp ! (i div 2))" using less.IH [of "i div 2"] less.prems by simp
    moreover have "node_le nodes dep (hp ! (i div 2)) (hp ! i)" using assms False less.prems by (simp add: heap_from_def)
    ultimately show ?thesis by (rule node_le_trans)
  qed (simp add: node_le_refl)
qed

definition heap_ok :: "build_state \<Rightarrow> bool" where
  "heap_ok s \<longleftrightarrow> heap_len s < length (heap s) \<and>
    (\<forall>i. 1 \<le> i \<and> i \<le> heap_len s \<longrightarrow> node_ok (tree s) (depth s) (heap s ! i))"

lemma pqdownheap_heap:
  assumes "heap_ok s" "1 \<le> k" "k \<le> heap_len s" "heap_from (tree s) (depth s) (heap_len s) (heap s) (k + 1)"
  shows "\<exists>hp'. pqdownheap s k = Some (s \<lparr> heap := hp' \<rparr>) \<and> heap_from (tree s) (depth s) (heap_len s) hp' k \<and>
    mset hp' = mset (heap s) \<and> (\<forall>i. i < k \<or> heap_len s < i \<longrightarrow> hp' ! i = heap s ! i)"
proof -
  have k: "k < length (heap s)" "\<not> k \<le> k div 2" using assms(1-3) by (auto simp: heap_ok_def)
  have "down_inv (tree s) (depth s) (heap_len s) k (heap s ! k) (heap s) k"
    using assms(4) k(2) by (auto simp: down_inv_def heap_from_def)
  moreover have "node_ok (tree s) (depth s) (heap s ! k)" "heap_len s < length (heap s)"
      "\<forall>i. 1 \<le> i \<and> i \<le> heap_len s \<longrightarrow> node_ok (tree s) (depth s) (heap s ! i)"
    using assms(1-3) by (simp_all add: heap_ok_def)
  ultimately obtain hp' where "down_loop (tree s) (depth s) (heap_len s) (heap s ! k) (heap s) k (push_bit 1 k) = Some hp'"
      "heap_from (tree s) (depth s) (heap_len s) hp' k" "mset hp' = mset ((heap s)[k := heap s ! k])"
      "\<forall>i. i < k \<or> heap_len s < i \<longrightarrow> hp' ! i = heap s ! i"
    using down_loop_heap [OF _ assms(2) order_refl assms(3) refl] by blast
  then show ?thesis using k(1) by (intro exI [of _ hp'] conjI) (simp_all add: pqdownheap_def)
qed

lemma heap_ok_entries:
  "heap_ok s \<longleftrightarrow> heap_len s < length (heap s) \<and>
    (\<forall>n \<in># entries (heap s) (heap_len s). node_ok (tree s) (depth s) n)"
  by (auto simp: heap_ok_def set_entries)

lemma entries_ends: "2 \<le> len \<Longrightarrow> entries hp len = {# hp ! 1 #} + mset (map ((!) hp) [2..<len]) + {# hp ! len #}"
proof -
  assume len: "2 \<le> len"
  then have "[1..<len + 1] = 1 # [2..<len] @ [len]" by (subst upt_conv_Cons) (simp_all add: numeral_2_eq_2)
  then show ?thesis by (simp add: entries_def)
qed

lemma entries_last: "2 \<le> len \<Longrightarrow> len < length hp \<Longrightarrow>
  entries hp len = add_mset (hp ! 1) (entries (hp[1 := hp ! len]) (len - 1))"
proof -
  assume len: "2 \<le> len" "len < length hp"
  have "[1..<len - 1 + 1] = 1 # [2..<len]" using len(1) by (subst upt_conv_Cons) (simp_all add: numeral_2_eq_2)
  moreover have "map ((!) (hp[1 := hp ! len])) [2..<len] = map ((!) hp) [2..<len]" by (rule map_cong [OF refl]) simp
  ultimately have "entries (hp[1 := hp ! len]) (len - 1) = add_mset (hp ! len) (mset (map ((!) hp) [2..<len]))"
    using len unfolding entries_def by (simp only: list.map mset.simps) simp
  then show ?thesis using entries_ends [OF len(1), of hp] by simp
qed

section \<open>Properties\<close>

text \<open>
  C12. \<open>pqdownheap\<close> restores the heap: where the sons of node \<open>k\<close> are the roots of heaps, it returns
  with the heap property from \<open>k\<close> on, a permutation of the nodes it was given, and nothing changed
  outside of the subtree range; all of its accesses are inside the arrays.
\<close>

theorem pqdownheap_restores:
  assumes "heap_ok s" "1 \<le> k" "k \<le> heap_len s" "heap_from (tree s) (depth s) (heap_len s) (heap s) (k + 1)"
  shows "\<exists>s'. pqdownheap s k = Some s' \<and> heap_from (tree s) (depth s) (heap_len s) (heap s') k \<and>
    entries (heap s') (heap_len s) = entries (heap s) (heap_len s) \<and> heap_ok s' \<and>
    (\<forall>i. i < k \<or> heap_len s < i \<longrightarrow> heap s' ! i = heap s ! i) \<and> s' \<lparr> heap := heap s \<rparr> = s"
proof -
  obtain hp' where hp: "pqdownheap s k = Some (s \<lparr> heap := hp' \<rparr>)" "heap_from (tree s) (depth s) (heap_len s) hp' k"
      "mset hp' = mset (heap s)" "\<forall>i. i < k \<or> heap_len s < i \<longrightarrow> hp' ! i = heap s ! i"
    using pqdownheap_heap [OF assms] by blast
  have e: "entries hp' (heap_len s) = entries (heap s) (heap_len s)"
    using entries_eq [OF hp(3)] assms(1,2) hp(4) by (simp add: heap_ok_def)
  then have "heap_ok (s \<lparr> heap := hp' \<rparr>)"
    using assms(1) mset_eq_length [OF hp(3)] by (simp add: heap_ok_entries)
  then show ?thesis using hp e by (intro exI [of _ "s \<lparr> heap := hp' \<rparr>"]) simp
qed

definition sample_heap :: build_state where
  "sample_heap = \<lparr> tree = map (\<lambda>f. \<lparr> fc = f, dl = 0 \<rparr>) [9, 2, 5, 2], heap = [7, 0, 1, 2, 3], heap_len = 4, heap_max = 573,
    depth = [0, 1, 0, 0], bl_count = replicate 16 0, opt_len = 0, static_len = 0 \<rparr>"

lemma sample_heap_ok:
  "heap_ok sample_heap" "heap_from (tree sample_heap) (depth sample_heap) 4 (heap sample_heap) 3"
proof -
  have "i \<in> {1, 2, 3, 4}" if "1 \<le> i" "i \<le> 4" for i :: nat using that by auto
  then show "heap_ok sample_heap" by (fastforce simp: heap_ok_def node_ok_def sample_heap_def)
  show "heap_from (tree sample_heap) (depth sample_heap) 4 (heap sample_heap) 3" by (auto simp: heap_from_def)
qed

lemma pqdownheap_restores_witness:
  "\<exists>s'. pqdownheap sample_heap 2 = Some s' \<and> heap_from (tree sample_heap) (depth sample_heap) 4 (heap s') 2 \<and> heap s' ! 1 = 0"
proof -
  have "heap_len sample_heap = 4" "heap sample_heap ! 1 = 0" by (simp_all add: sample_heap_def)
  then show ?thesis using pqdownheap_restores [of sample_heap 2] sample_heap_ok by fastforce
qed

text \<open>
  C34. \<open>pqremove\<close> takes a node that is least by frequency, and by depth among those of the same
  frequency, out of the heap, and leaves a heap of the other nodes.
\<close>

theorem pqremove_takes_smallest:
  assumes "heap_ok s" "2 \<le> heap_len s" "heap_from (tree s) (depth s) (heap_len s) (heap s) 1"
  shows "\<exists>top s'. pqremove s = Some (top, s') \<and> heap_ok s' \<and> heap_len s' = heap_len s - 1 \<and>
    entries (heap s) (heap_len s) = add_mset top (entries (heap s') (heap_len s')) \<and>
    (\<forall>n \<in># entries (heap s) (heap_len s). node_le (tree s) (depth s) top n) \<and>
    heap_from (tree s') (depth s') (heap_len s') (heap s') 1 \<and> tree s' = tree s \<and> depth s' = depth s \<and>
    heap_max s' = heap_max s \<and> (\<forall>i \<ge> heap_len s. heap s' ! i = heap s ! i)"
proof -
  let ?n = "heap_len s" and ?hp = "(heap s)[1 := heap s ! heap_len s]"
  let ?s1 = "s \<lparr> heap := ?hp, heap_len := heap_len s - 1 \<rparr>"
  have len: "?n < length (heap s)" using assms(1) by (simp add: heap_ok_def)
  have e: "entries (heap s) ?n = add_mset (heap s ! 1) (entries ?hp (?n - 1))" by (rule entries_last [OF assms(2) len])
  have ok1: "heap_ok ?s1" using assms(1) e by (auto simp: heap_ok_entries)
  have pos: "1 \<le> heap_len ?s1" using assms(2) by simp
  have "heap_from (tree ?s1) (depth ?s1) (heap_len ?s1) (heap ?s1) (1 + 1)"
    using assms(3) len by (auto simp: heap_from_def nth_list_update)
  then obtain hp' where hp': "pqdownheap ?s1 1 = Some (?s1 \<lparr> heap := hp' \<rparr>)"
      "heap_from (tree ?s1) (depth ?s1) (heap_len ?s1) hp' 1" "mset hp' = mset (heap ?s1)"
      "\<forall>i. i < 1 \<or> heap_len ?s1 < i \<longrightarrow> hp' ! i = heap ?s1 ! i"
    using pqdownheap_heap [OF ok1 order_refl pos] by blast
  have e': "entries hp' (?n - 1) = entries ?hp (?n - 1)"
    using entries_eq [OF hp'(3), of "?n - 1"] hp'(4) len by simp
  have "heap_ok (?s1 \<lparr> heap := hp' \<rparr>)" using ok1 e' mset_eq_length [OF hp'(3)] by (simp add: heap_ok_entries)
  moreover have "pqremove s = Some (heap s ! 1, ?s1 \<lparr> heap := hp' \<rparr>)"
    using hp'(1) len assms(2) by (simp add: pqremove_def SMALLEST_def)
  moreover have "node_le (tree s) (depth s) (heap s ! 1) n" if "n \<in># entries (heap s) ?n" for n
    using heap_root [OF assms(3)] that by (auto simp: set_entries)
  moreover have "\<forall>i \<ge> ?n. hp' ! i = heap s ! i" using hp'(4) assms(2) by (auto simp: nth_list_update)
  ultimately show ?thesis using hp'(2) e e'
    by (intro exI [of _ "heap s ! 1"] exI [of _ "?s1 \<lparr> heap := hp' \<rparr>"]) simp
qed

definition sample_sorted :: build_state where
  "sample_sorted = sample_heap \<lparr> heap := [7, 3, 1, 2, 0] \<rparr>"

lemma pqremove_takes_smallest_witness:
  "\<exists>top s'. pqremove sample_sorted = Some (top, s') \<and> entries (heap sample_sorted) 4 = add_mset top (entries (heap s') 3)"
proof -
  have four: "i \<in> {1, 2, 3, 4}" if "1 \<le> i" "i \<le> 4" for i :: nat using that by auto
  have s: "heap_len sample_sorted = 4" by (simp add: sample_sorted_def sample_heap_def)
  have ok: "heap_ok sample_sorted"
    using four by (fastforce simp: heap_ok_def node_ok_def sample_sorted_def sample_heap_def)
  have "i \<in> {2, 3, 4}" if "i \<le> 4" "1 \<le> i div 2" for i :: nat using that by auto
  then have "heap_from (tree sample_sorted) (depth sample_sorted) 4 (heap sample_sorted) 1"
    by (fastforce simp: heap_from_def node_le_def sample_sorted_def sample_heap_def)
  then obtain top s' where "pqremove sample_sorted = Some (top, s')" "heap_len s' = heap_len sample_sorted - 1"
      "entries (heap sample_sorted) (heap_len sample_sorted) = add_mset top (entries (heap s') (heap_len s'))"
    using pqremove_takes_smallest [of sample_sorted] ok s by auto
  then show ?thesis using s by auto
qed

end
