(* ===== verification/Tree_Blocks.thy ===== *)
theory Tree_Blocks
  imports Tree_Coding Tree_Build
begin

text \<open>
  The blocks of the compressed stream, \<^verbatim>\<open>src/AOS/aos/zlib/trees.c\<close>: \<open>_tr_init\<close>, \<open>_tr_tally\<close>, \<open>compress_block\<close>,
  \<open>_tr_stored_block\<close>, \<open>_tr_align\<close>, the headers of dynamic blocks and \<open>_tr_flush_block\<close>. Names that
  begin with an underscore in C begin with \<open>tr\<close> here.
\<close>

section \<open>State\<close>

datatype data_type = Z_BINARY | Z_TEXT | Z_UNKNOWN

definition Z_FIXED :: int where "Z_FIXED = 4"
definition STORED_BLOCK :: uint where "STORED_BLOCK = 0"
definition STATIC_TREES :: uint where "STATIC_TREES = 1"
definition DYN_TREES :: uint where "DYN_TREES = 2"

text \<open>
  The part of the \<open>deflate_state\<close> that \<open>trees.c\<close> uses. The field \<open>work\<close> holds the heap, the counts
  and the lengths; \<open>data_type_of\<close> is \<open>s->strm->data_type\<close>.
\<close>

record trees_state = bit_out +
  dyn_ltree :: "ct_data list"
  dyn_dtree :: "ct_data list"
  bl_tree :: "ct_data list"
  l_max_code :: nat
  d_max_code :: nat
  bl_max_code :: nat
  work :: build_state
  l_buf :: "byte list"
  d_buf :: "ushort list"
  lit_bufsize :: uint
  last_lit :: uint
  matches :: uint
  last_eob_len :: int
  level :: int
  strategy :: int
  data_type_of :: data_type

section \<open>Starting a block\<close>

fun clear_freqs :: "nat \<Rightarrow> nat \<Rightarrow> ct_data list \<Rightarrow> ct_data list option" where
  "clear_freqs n 0 nodes = Some nodes"
| "clear_freqs n (Suc k) nodes = do {
    t \<leftarrow> peek nodes n; nodes \<leftarrow> poke nodes n (t \<lparr> fc := 0 \<rparr>); clear_freqs (n + 1) k nodes }"

definition init_block :: "trees_state \<Rightarrow> trees_state option" where
  "init_block s = do {
    lt \<leftarrow> clear_freqs 0 L_CODES (dyn_ltree s);
    dt \<leftarrow> clear_freqs 0 D_CODES (dyn_dtree s);
    bl \<leftarrow> clear_freqs 0 BL_CODES (bl_tree s);
    t \<leftarrow> peek lt END_BLOCK;
    lt \<leftarrow> poke lt END_BLOCK (t \<lparr> fc := 1 \<rparr>);
    Some (s \<lparr> dyn_ltree := lt, dyn_dtree := dt, bl_tree := bl,
      work := (work s) \<lparr> opt_len := 0, static_len := 0 \<rparr>, last_lit := 0, matches := 0 \<rparr>) }"

text \<open>The static tables are those of \<open>trees.h\<close>, and \<open>tr_static_init\<close> does nothing.\<close>

definition tr_init :: "trees_state \<Rightarrow> trees_state option" where
  "tr_init s = init_block (s \<lparr> bi_buf := 0, bi_valid := 0, last_eob_len := 8 \<rparr>)"

section \<open>Tallying\<close>

text \<open>The result says whether the block must be flushed.\<close>

definition tr_tally :: "uint \<Rightarrow> uint \<Rightarrow> trees_state \<Rightarrow> (bool \<times> trees_state) option" where
  "tr_tally dist lc s = do {
    db \<leftarrow> poke (d_buf s) (unat (last_lit s)) (ucast dist);
    lb \<leftarrow> poke (l_buf s) (unat (last_lit s)) (ucast lc);
    let s = s \<lparr> d_buf := db, l_buf := lb, last_lit := last_lit s + 1 \<rparr>;
    s \<leftarrow> (if dist = 0 then do {
        lt \<leftarrow> add_freq (unat lc) 1 (dyn_ltree s); Some (s \<lparr> dyn_ltree := lt \<rparr>) }
      else do {
        let s = s \<lparr> matches := matches s + 1 \<rparr>;
        let dist = dist - 1;
        c \<leftarrow> peek length_code (unat lc);
        lt \<leftarrow> add_freq (c + LITERALS + 1) 1 (dyn_ltree s);
        d \<leftarrow> d_code (unat dist);
        dt \<leftarrow> add_freq d 1 (dyn_dtree s);
        Some (s \<lparr> dyn_ltree := lt, dyn_dtree := dt \<rparr>) });
    Some (last_lit s = lit_bufsize s - 1, s) }"

text \<open>The macros of \<^verbatim>\<open>deflate.h\<close> that replace it in a build without \<open>DEBUG\<close>.\<close>

definition tr_tally_lit :: "byte \<Rightarrow> trees_state \<Rightarrow> (bool \<times> trees_state) option" where
  "tr_tally_lit cc s = do {
    db \<leftarrow> poke (d_buf s) (unat (last_lit s)) 0;
    lb \<leftarrow> poke (l_buf s) (unat (last_lit s)) cc;
    let s = s \<lparr> d_buf := db, l_buf := lb, last_lit := last_lit s + 1 \<rparr>;
    lt \<leftarrow> add_freq (unat cc) 1 (dyn_ltree s);
    let s = s \<lparr> dyn_ltree := lt \<rparr>;
    Some (last_lit s = lit_bufsize s - 1, s) }"

definition tr_tally_dist :: "ushort \<Rightarrow> byte \<Rightarrow> trees_state \<Rightarrow> (bool \<times> trees_state) option" where
  "tr_tally_dist dist len s = do {
    db \<leftarrow> poke (d_buf s) (unat (last_lit s)) dist;
    lb \<leftarrow> poke (l_buf s) (unat (last_lit s)) len;
    let s = s \<lparr> d_buf := db, l_buf := lb, last_lit := last_lit s + 1 \<rparr>;
    let dist = dist - 1;
    c \<leftarrow> peek length_code (unat len);
    lt \<leftarrow> add_freq (c + LITERALS + 1) 1 (dyn_ltree s);
    d \<leftarrow> d_code (unat dist);
    dt \<leftarrow> add_freq d 1 (dyn_dtree s);
    let s = s \<lparr> dyn_ltree := lt, dyn_dtree := dt \<rparr>;
    Some (last_lit s = lit_bufsize s - 1, s) }"

section \<open>Compressed blocks\<close>

text \<open>One round of the loop of \<open>compress_block\<close>: a literal, or a length and a distance.\<close>

definition send_item :: "ct_data list \<Rightarrow> ct_data list \<Rightarrow> ushort \<Rightarrow> byte \<Rightarrow> 'a bit_out_scheme \<Rightarrow> 'a bit_out_scheme option" where
  "send_item ltree dtree dist lc s =
    (if dist = 0 then send_code (unat lc) ltree s
     else do {
       code \<leftarrow> peek length_code (unat lc);
       s \<leftarrow> send_code (code + LITERALS + 1) ltree s;
       extra \<leftarrow> peek extra_lbits code;
       base \<leftarrow> peek base_length code;
       let s = (if extra \<noteq> 0 then send_bits (ucast lc - of_nat base) extra s else s);
       let dist = unat dist - 1;
       code \<leftarrow> d_code dist;
       s \<leftarrow> send_code code dtree s;
       extra \<leftarrow> peek extra_dbits code;
       base \<leftarrow> peek base_dist code;
       Some (if extra \<noteq> 0 then send_bits (of_nat dist - of_nat base) extra s else s) })"

fun compress_loop :: "ct_data list \<Rightarrow> ct_data list \<Rightarrow> nat \<Rightarrow> nat \<Rightarrow> trees_state \<Rightarrow> trees_state option" where
  "compress_loop ltree dtree lx 0 s = Some s"
| "compress_loop ltree dtree lx (Suc k) s = do {
    dist \<leftarrow> peek (d_buf s) lx;
    lc \<leftarrow> peek (l_buf s) lx;
    s \<leftarrow> send_item ltree dtree dist lc s;
    compress_loop ltree dtree (lx + 1) k s }"

definition compress_block :: "ct_data list \<Rightarrow> ct_data list \<Rightarrow> trees_state \<Rightarrow> trees_state option" where
  "compress_block ltree dtree s = do {
    s \<leftarrow> compress_loop ltree dtree 0 (unat (last_lit s)) s;
    s \<leftarrow> send_code END_BLOCK ltree s;
    t \<leftarrow> peek ltree END_BLOCK;
    Some (s \<lparr> last_eob_len := int (unat (Len t)) \<rparr>) }"

text \<open>\<open>copy_block\<close> also sets \<open>last_eob_len\<close>.\<close>

definition tr_stored_block :: "byte list \<Rightarrow> ulong \<Rightarrow> bool \<Rightarrow> trees_state \<Rightarrow> trees_state option" where
  "tr_stored_block buf stored_len eof s = do {
    let s = send_bits (push_bit 1 STORED_BLOCK + of_bool eof) 3 s;
    s \<leftarrow> copy_block buf stored_len True s;
    Some (s \<lparr> last_eob_len := 8 \<rparr>) }"

definition empty_static_block :: "trees_state \<Rightarrow> trees_state option" where
  "empty_static_block s = do {
    s \<leftarrow> send_code END_BLOCK static_ltree (send_bits (push_bit 1 STATIC_TREES) 3 s);
    Some (bi_flush s) }"

definition tr_align :: "trees_state \<Rightarrow> trees_state option" where
  "tr_align s = do {
    s \<leftarrow> empty_static_block s;
    s \<leftarrow> (if 1 + last_eob_len s + 10 - int (bi_valid s) < 9 then empty_static_block s else Some s);
    Some (s \<lparr> last_eob_len := 7 \<rparr>) }"

section \<open>Dynamic blocks\<close>

definition build_ltree :: "trees_state \<Rightarrow> trees_state option" where
  "build_ltree s = do {
    (max_code, w) \<leftarrow> build_tree static_l_desc ((work s) \<lparr> tree := dyn_ltree s \<rparr>);
    Some (s \<lparr> work := w, dyn_ltree := tree w, l_max_code := max_code \<rparr>) }"

definition build_dtree :: "trees_state \<Rightarrow> trees_state option" where
  "build_dtree s = do {
    (max_code, w) \<leftarrow> build_tree static_d_desc ((work s) \<lparr> tree := dyn_dtree s \<rparr>);
    Some (s \<lparr> work := w, dyn_dtree := tree w, d_max_code := max_code \<rparr>) }"

text \<open>\<open>for (max_blindex = BL_CODES-1; max_blindex >= 3; max_blindex--)\<close>\<close>

fun last_blindex :: "ct_data list \<Rightarrow> nat \<Rightarrow> nat option" where
  "last_blindex bl max_blindex =
    (if max_blindex \<ge> 3 then do {
       i \<leftarrow> peek bl_order max_blindex;
       t \<leftarrow> peek bl i;
       if Len t \<noteq> 0 then Some max_blindex else last_blindex bl (max_blindex - 1) }
     else Some max_blindex)"

definition build_bl_tree :: "trees_state \<Rightarrow> (nat \<times> trees_state) option" where
  "build_bl_tree s = do {
    (lt, bl) \<leftarrow> scan_tree (dyn_ltree s) (l_max_code s) (bl_tree s);
    (dt, bl) \<leftarrow> scan_tree (dyn_dtree s) (d_max_code s) bl;
    (max_code, w) \<leftarrow> build_tree static_bl_desc ((work s) \<lparr> tree := bl \<rparr>);
    max_blindex \<leftarrow> last_blindex (tree w) (BL_CODES - 1);
    let w = w \<lparr> opt_len := opt_len w + (3 * (of_nat max_blindex + 1) + 5 + 5 + 4) \<rparr>;
    Some (max_blindex, s \<lparr> dyn_ltree := lt, dyn_dtree := dt, bl_tree := tree w, bl_max_code := max_code, work := w \<rparr>) }"

text \<open>\<open>for (rank = 0; rank < blcodes; rank++)\<close>\<close>

fun send_bl_lens :: "ct_data list \<Rightarrow> nat \<Rightarrow> nat \<Rightarrow> 'a bit_out_scheme \<Rightarrow> 'a bit_out_scheme option" where
  "send_bl_lens bl rank 0 s = Some s"
| "send_bl_lens bl rank (Suc k) s = do {
    i \<leftarrow> peek bl_order rank;
    t \<leftarrow> peek bl i;
    send_bl_lens bl (rank + 1) k (send_bits (ucast (Len t)) 3 s) }"

definition send_all_trees :: "nat \<Rightarrow> nat \<Rightarrow> nat \<Rightarrow> trees_state \<Rightarrow> trees_state option" where
  "send_all_trees lcodes dcodes blcodes s = do {
    let s = send_bits (of_nat lcodes - 257) 5 s;
    let s = send_bits (of_nat dcodes - 1) 5 s;
    let s = send_bits (of_nat blcodes - 4) 4 s;
    s \<leftarrow> send_bl_lens (bl_tree s) 0 blcodes s;
    s \<leftarrow> send_tree (dyn_ltree s) (lcodes - 1) (bl_tree s) s;
    send_tree (dyn_dtree s) (dcodes - 1) (bl_tree s) s }"

text \<open>The loops of \<open>set_data_type\<close>: the first used literal from \<open>n\<close> on, or the end.\<close>

fun first_used :: "ct_data list \<Rightarrow> nat \<Rightarrow> nat \<Rightarrow> nat option" where
  "first_used lt n 0 = Some n"
| "first_used lt n (Suc k) = do { t \<leftarrow> peek lt n; if Freq t \<noteq> 0 then Some n else first_used lt (n + 1) k }"

definition set_data_type :: "trees_state \<Rightarrow> trees_state option" where
  "set_data_type s = do {
    n \<leftarrow> first_used (dyn_ltree s) 0 9;
    n \<leftarrow> (if n = 9 then first_used (dyn_ltree s) 14 18 else Some n);
    Some (s \<lparr> data_type_of := (if n = 32 then Z_TEXT else Z_BINARY) \<rparr>) }"

text \<open>\<open>buf\<close> is \<open>None\<close> when the block is too old to be stored.\<close>

definition tr_flush_block :: "byte list option \<Rightarrow> ulong \<Rightarrow> bool \<Rightarrow> trees_state \<Rightarrow> trees_state option" where
  "tr_flush_block buf stored_len eof s = do {
    (opt_lenb, static_lenb, max_blindex, s) \<leftarrow>
      (if level s > 0 then do {
         s \<leftarrow> (if stored_len > 0 \<and> data_type_of s = Z_UNKNOWN then set_data_type s else Some s);
         s \<leftarrow> build_ltree s;
         s \<leftarrow> build_dtree s;
         (max_blindex, s) \<leftarrow> build_bl_tree s;
         let opt_lenb = drop_bit 3 (opt_len (work s) + 3 + 7);
         let static_lenb = drop_bit 3 (static_len (work s) + 3 + 7);
         Some (if static_lenb \<le> opt_lenb then static_lenb else opt_lenb, static_lenb, max_blindex, s) }
       else Some (stored_len + 5, stored_len + 5, 0, s));
    s \<leftarrow> (if stored_len + 4 \<le> opt_lenb \<and> buf \<noteq> None then tr_stored_block (the buf) stored_len eof s
       else if strategy s = Z_FIXED \<or> static_lenb = opt_lenb then
         compress_block static_ltree static_dtree (send_bits (push_bit 1 STATIC_TREES + of_bool eof) 3 s)
       else do {
         s \<leftarrow> send_all_trees (l_max_code s + 1) (d_max_code s + 1) (max_blindex + 1)
           (send_bits (push_bit 1 DYN_TREES + of_bool eof) 3 s);
         compress_block (dyn_ltree s) (dyn_dtree s) s });
    s \<leftarrow> init_block s;
    Some (if eof then bi_windup s else s) }"

section \<open>Reading a block\<close>

text \<open>
  A reader for the bits of a compressed block: pairs of distance (0 for a literal) and literal or
  match length less 3, up to the end of block code.
\<close>

definition read_match :: "ct_data list \<Rightarrow> nat \<Rightarrow> bool list \<Rightarrow> ((nat \<times> nat) \<times> bool list) option" where
  "read_match dtree code bs =
    (let n = extra_lbits ! code;
         lc = (if code = 28 then 255 else base_length ! code + bits_value (take n bs))
     in case read_code dtree D_CODES (drop n bs) of
       None \<Rightarrow> None
     | Some (d, bs) \<Rightarrow>
         let n = extra_dbits ! d
         in Some ((base_dist ! d + bits_value (take n bs) + 1, lc), drop n bs))"

function read_block :: "ct_data list \<Rightarrow> ct_data list \<Rightarrow> bool list \<Rightarrow> ((nat \<times> nat) list \<times> bool list) option" where
  "read_block ltree dtree bs =
    (case read_code ltree L_CODES bs of
      None \<Rightarrow> None
    | Some (c, bs1) \<Rightarrow>
        if length bs \<le> length bs1 then None
        else if c = END_BLOCK then Some ([], bs1)
        else case (if c < END_BLOCK then Some ((0, c), bs1) else read_match dtree (c - (LITERALS + 1)) bs1) of
          None \<Rightarrow> None
        | Some (x, bs2) \<Rightarrow>
            if length bs \<le> length bs2 then None
            else map_option (\<lambda>(xs, rest). (x # xs, rest)) (read_block ltree dtree bs2))"
  by pat_completeness auto
termination by (relation "measure (\<lambda>(l, d, bs). length bs)") auto

declare read_block.simps [simp del]

text \<open>A tree whose first \<open>k\<close> codes can be sent and told apart.\<close>

definition tree_ok :: "ct_data list \<Rightarrow> nat \<Rightarrow> bool" where
  "tree_ok nodes k \<longleftrightarrow> k \<le> length nodes \<and> (\<forall>c < k. code_ok (nodes ! c)) \<and> prefix_free nodes k"

definition dist_code_of_item :: "ushort \<Rightarrow> nat" where
  "dist_code_of_item dist = the (d_code (unat dist - 1))"

definition item_ok :: "ct_data list \<Rightarrow> ct_data list \<Rightarrow> ushort \<times> byte \<Rightarrow> bool" where
  "item_ok ltree dtree = (\<lambda>(dist, lc).
    if dist = 0 then Len (ltree ! unat lc) \<noteq> 0
    else unat dist \<le> 2 ^ 15 \<and> Len (ltree ! (length_code ! unat lc + LITERALS + 1)) \<noteq> 0 \<and>
      Len (dtree ! dist_code_of_item dist) \<noteq> 0)"

definition item_bits :: "ct_data list \<Rightarrow> ct_data list \<Rightarrow> ushort \<times> byte \<Rightarrow> bool list" where
  "item_bits ltree dtree = (\<lambda>(dist, lc).
    if dist = 0 then code_bits ltree (unat lc)
    else let c = length_code ! unat lc; d = dist_code_of_item dist in
      code_bits ltree (c + LITERALS + 1) @ bits (extra_lbits ! c) (unat lc - base_length ! c) @
      code_bits dtree d @ bits (extra_dbits ! d) (unat dist - 1 - base_dist ! d))"

lemma dist_code_item:
  assumes "dist \<noteq> 0" "unat dist \<le> 2 ^ 15"
  shows "d_code (unat dist - 1) = Some (dist_code_of_item dist)" "dist_code_of_item dist < 30"
    "base_dist ! dist_code_of_item dist \<le> unat dist - 1"
    "unat dist - 1 - base_dist ! dist_code_of_item dist < 2 ^ (extra_dbits ! dist_code_of_item dist)"
proof -
  have "0 < unat dist" using assms(1) by (simp add: unat_gt_0)
  then have "unat dist - 1 < 2 ^ 15" using assms(2) by simp
  then obtain c where "c < 30" "d_code (unat dist - 1) = Some c" "base_dist ! c \<le> unat dist - 1"
      "unat dist - 1 < base_dist ! c + 2 ^ (extra_dbits ! c)"
    using d_code_value by blast
  then show "d_code (unat dist - 1) = Some (dist_code_of_item dist)" "dist_code_of_item dist < 30"
    "base_dist ! dist_code_of_item dist \<le> unat dist - 1"
    "unat dist - 1 - base_dist ! dist_code_of_item dist < 2 ^ (extra_dbits ! dist_code_of_item dist)"
    by (simp_all add: dist_code_of_item_def less_diff_conv2)
qed

lemma length_code_item:
  "length_code ! unat (lc :: byte) \<le> 28"
  "length_code ! unat lc \<noteq> 28 \<Longrightarrow> base_length ! (length_code ! unat lc) \<le> unat lc \<and>
     unat lc - base_length ! (length_code ! unat lc) < 2 ^ (extra_lbits ! (length_code ! unat lc))"
  "length_code ! unat lc = 28 \<Longrightarrow> unat lc = 255"
proof -
  consider "unat lc < 255" | "unat lc = 255" using unat_byte_le [of lc] by linarith
  then show "length_code ! unat lc \<le> 28"
    "length_code ! unat lc \<noteq> 28 \<Longrightarrow> base_length ! (length_code ! unat lc) \<le> unat lc \<and>
     unat lc - base_length ! (length_code ! unat lc) < 2 ^ (extra_lbits ! (length_code ! unat lc))"
    "length_code ! unat lc = 28 \<Longrightarrow> unat lc = 255"
    using length_code_value [of "unat lc"] length_code_last by (cases; auto)+
qed

lemma extra_bits_small: "c < 29 \<Longrightarrow> extra_lbits ! c \<le> 16" "d < 30 \<Longrightarrow> extra_dbits ! d \<le> 16"
proof -
  have "list_all (\<lambda>e. e \<le> 16) extra_lbits" "list_all (\<lambda>e. e \<le> 16) extra_dbits"
    by (simp_all add: extra_lbits_def extra_dbits_def)
  then show "c < 29 \<Longrightarrow> extra_lbits ! c \<le> 16" "d < 30 \<Longrightarrow> extra_dbits ! d \<le> 16"
    by (simp_all add: list_all_length)
qed

lemma extra_lbits_28: "extra_lbits ! 28 = 0"
  by (simp add: extra_lbits_def)

lemma send_opt_extra:
  assumes "out_ok s" "e \<le> 16" "v < 2 ^ e" "e \<noteq> 0 \<Longrightarrow> w = of_nat v"
  shows "sent (bits e v) s (if e \<noteq> 0 then send_bits w e s else s)"
  using send_extra [OF assms(1-3)] assms(4) sent_refl [OF assms(1)] by (cases "e = 0") auto

lemma send_item_sent:
  assumes "tree_ok ltree 286" "tree_ok dtree 30" "item_ok ltree dtree (dist, lc)" "out_ok s"
  shows "\<exists>s'. send_item ltree dtree dist lc s = Some s' \<and> sent (item_bits ltree dtree (dist, lc)) s s'"
proof (cases "dist = 0")
  case True
  have "unat lc < 286" using unat_byte_less [of lc] by linarith
  then show ?thesis using True send_code_sent [OF _ _ assms(4), of "unat lc" ltree] assms(1)
    by (auto simp: send_item_def item_bits_def tree_ok_def)
next
  case False
  let ?c = "length_code ! unat lc" and ?d = "dist_code_of_item dist"
  have dist: "unat dist \<le> 2 ^ 15" using assms(3) False by (simp add: item_ok_def)
  note d = dist_code_item [OF False dist]
  have c: "?c \<le> 28" "unat lc < 256" "?c < 29" using length_code_item(1) [of lc] unat_byte_less [of lc] by linarith+
  obtain t where t: "send_code (?c + LITERALS + 1) ltree s = Some t" "sent (code_bits ltree (?c + LITERALS + 1)) s t"
    using send_code_sent [OF _ _ assms(4), of "?c + LITERALS + 1" ltree] assms(1) c(1) by (auto simp: tree_ok_def LITERALS_def)
  let ?t = "if extra_lbits ! ?c \<noteq> 0 then send_bits (ucast lc - of_nat (base_length ! ?c)) (extra_lbits ! ?c) t else t"
  have t': "sent (bits (extra_lbits ! ?c) (unat lc - base_length ! ?c)) t ?t"
  proof (cases "?c = 28")
    case True
    then show ?thesis using sent_refl [OF sent_ok [OF t(2)]] by (simp add: extra_lbits_28)
  next
    case False
    have "ucast lc - of_nat (base_length ! ?c) = (of_nat (unat lc - base_length ! ?c) :: uint)"
      using length_code_item(2) [OF False] by (simp add: of_nat_diff)
    then show ?thesis using send_opt_extra [OF sent_ok [OF t(2)] extra_bits_small(1)] length_code_item(2) [OF False] c(1) by simp
  qed
  obtain u where u: "send_code ?d dtree ?t = Some u" "sent (code_bits dtree ?d) ?t u"
    using send_code_sent [OF _ _ sent_ok [OF t'], of ?d dtree] assms(2) d(2) by (auto simp: tree_ok_def)
  let ?u = "if extra_dbits ! ?d \<noteq> 0 then send_bits (of_nat (unat dist - 1) - of_nat (base_dist ! ?d)) (extra_dbits ! ?d) u else u"
  have w: "of_nat (unat dist - 1) - of_nat (base_dist ! ?d) = (of_nat (unat dist - 1 - base_dist ! ?d) :: uint)"
    using d(3) by (simp only: of_nat_diff)
  have u': "sent (bits (extra_dbits ! ?d) (unat dist - 1 - base_dist ! ?d)) u ?u"
    by (rule send_opt_extra [OF sent_ok [OF u(2)] extra_bits_small(2)])
      (use d w in simp_all)
  have "send_item ltree dtree dist lc s = Some ?u"
    unfolding send_item_def if_not_P [OF False] using t(1) u(1) d(1,2) c by (simp add: Let_def)
  moreover have "sent (item_bits ltree dtree (dist, lc)) s ?u"
    using sent_trans [OF t(2) sent_trans [OF t' sent_trans [OF u(2) u']]] False by (simp add: item_bits_def Let_def)
  ultimately show ?thesis by blast
qed


definition item_value :: "ushort \<times> byte \<Rightarrow> nat \<times> nat" where
  "item_value = (\<lambda>(dist, lc). (unat dist, unat lc))"

lemma code_bits_pos: "Len (nodes ! c) \<noteq> 0 \<Longrightarrow> 0 < length (code_bits nodes c)"
  by (simp add: code_bits_def unat_gt_0)

lemma read_item:
  assumes "tree_ok ltree 286" "tree_ok dtree 30" "item_ok ltree dtree x"
  shows "read_block ltree dtree (item_bits ltree dtree x @ bs) =
    map_option (\<lambda>(xs, rest). (item_value x # xs, rest)) (read_block ltree dtree bs)"
proof -
  obtain dist lc where x: "x = (dist, lc)" by fastforce
  have free: "prefix_free ltree L_CODES" "prefix_free dtree D_CODES"
    using assms(1,2) by (simp_all add: tree_ok_def L_CODES_def LITERALS_def LENGTH_CODES_def D_CODES_def)
  have lc: "unat lc < 256" using unat_byte_less .
  show ?thesis
  proof (cases "dist = 0")
    case True
    then have "Len (ltree ! unat lc) \<noteq> 0" using assms(3) by (simp add: x item_ok_def)
    then show ?thesis
      using True lc read_code_bits [OF free(1), of "unat lc" bs] code_bits_pos [of ltree "unat lc"]
      by (subst read_block.simps)
        (simp add: x item_bits_def item_value_def L_CODES_def LITERALS_def LENGTH_CODES_def END_BLOCK_def)
  next
    case False
    let ?c = "length_code ! unat lc" and ?d = "dist_code_of_item dist"
    have ok: "unat dist \<le> 2 ^ 15" "Len (ltree ! (?c + LITERALS + 1)) \<noteq> 0" "Len (dtree ! ?d) \<noteq> 0"
      using assms(3) False by (simp_all add: x item_ok_def)
    note d = dist_code_item [OF False ok(1)] and c = length_code_item [of lc]
    let ?lb = "bits (extra_lbits ! ?c) (unat lc - base_length ! ?c)"
    let ?db = "bits (extra_dbits ! ?d) (unat dist - 1 - base_dist ! ?d)"
    have pos: "0 < unat dist" using False by (simp add: unat_gt_0)
    have bits: "item_bits ltree dtree x @ bs = code_bits ltree (?c + LITERALS + 1) @ ?lb @ code_bits dtree ?d @ ?db @ bs"
      using False by (simp add: x item_bits_def Let_def)
    have l: "?c \<noteq> 28 \<Longrightarrow> base_length ! ?c + bits_value ?lb = unat lc"
      using c bits_value_bits [of "unat lc - base_length ! ?c" "extra_lbits ! ?c"] by auto
    have m: "read_match dtree ?c (?lb @ code_bits dtree ?d @ ?db @ bs) = Some ((unat dist, unat lc), bs)"
      using l c(3) d(3) pos read_code_bits [OF free(2), of ?d "?db @ bs"] d(2) ok(3) bits_value_bits [OF d(4)]
      by (simp add: read_match_def D_CODES_def Let_def)
    have cl: "?c + LITERALS + 1 < L_CODES" "\<not> ?c + LITERALS + 1 < END_BLOCK" "?c + LITERALS + 1 \<noteq> END_BLOCK"
      "?c + LITERALS + 1 - (LITERALS + 1) = ?c"
      using c(1) by (simp_all add: L_CODES_def LITERALS_def LENGTH_CODES_def END_BLOCK_def)
    have r: "read_code ltree L_CODES (code_bits ltree (?c + LITERALS + 1) @ ?lb @ code_bits dtree ?d @ ?db @ bs) =
        Some (?c + LITERALS + 1, ?lb @ code_bits dtree ?d @ ?db @ bs)"
      by (rule read_code_bits [OF free(1) cl(1) ok(2)])
    show ?thesis
      unfolding bits
      by (subst read_block.simps, unfold r)
        (use m cl code_bits_pos [OF ok(2)] code_bits_pos [OF ok(3)] in \<open>simp add: x item_value_def\<close>)
  qed
qed

definition items_bits :: "ct_data list \<Rightarrow> ct_data list \<Rightarrow> (ushort \<times> byte) list \<Rightarrow> bool list" where
  "items_bits ltree dtree xs = concat (map (item_bits ltree dtree) xs)"

lemma read_items:
  assumes "tree_ok ltree 286" "tree_ok dtree 30" "Len (ltree ! END_BLOCK) \<noteq> 0"
  shows "\<forall>x \<in> set xs. item_ok ltree dtree x \<Longrightarrow>
    read_block ltree dtree (items_bits ltree dtree xs @ code_bits ltree END_BLOCK @ bs) = Some (map item_value xs, bs)"
proof (induction xs)
  case Nil
  have "prefix_free ltree L_CODES" "END_BLOCK < L_CODES"
    using assms(1) by (simp_all add: tree_ok_def L_CODES_def LITERALS_def LENGTH_CODES_def END_BLOCK_def)
  then show ?case using read_code_bits [of ltree L_CODES END_BLOCK bs] assms(3) code_bits_pos [OF assms(3)]
    by (subst read_block.simps) (simp add: items_bits_def)
next
  case (Cons x xs)
  then show ?case using read_item [OF assms(1,2), of x] by (simp add: items_bits_def)
qed

text \<open>The loop of \<open>compress_block\<close> sends the items and changes nothing but the bit output.\<close>

lemma compress_loop_sent:
  assumes "tree_ok ltree 286" "tree_ok dtree 30"
  shows "lx + k \<le> length (d_buf s) \<Longrightarrow> lx + k \<le> length (l_buf s) \<Longrightarrow> out_ok s \<Longrightarrow>
    \<forall>x \<in> set (take k (drop lx (zip (d_buf s) (l_buf s)))). item_ok ltree dtree x \<Longrightarrow>
    \<exists>s'. compress_loop ltree dtree lx k s = Some s' \<and>
      sent (items_bits ltree dtree (take k (drop lx (zip (d_buf s) (l_buf s))))) s s'"
proof (induction k arbitrary: lx s)
  case 0
  then show ?case by (simp add: items_bits_def sent_refl)
next
  case (Suc k)
  let ?z = "zip (d_buf s) (l_buf s)"
  have z: "take (Suc k) (drop lx ?z) = (d_buf s ! lx, l_buf s ! lx) # take k (drop (lx + 1) ?z)"
    using Suc.prems(1,2) by (simp add: Cons_nth_drop_Suc [symmetric])
  have ok: "item_ok ltree dtree (d_buf s ! lx, l_buf s ! lx)" "\<forall>x \<in> set (take k (drop (lx + 1) ?z)). item_ok ltree dtree x"
    using Suc.prems(4) unfolding z by simp_all
  obtain t where t: "send_item ltree dtree (d_buf s ! lx) (l_buf s ! lx) s = Some t"
      "sent (item_bits ltree dtree (d_buf s ! lx, l_buf s ! lx)) s t"
    using send_item_sent [OF assms ok(1) Suc.prems(3)] by blast
  have same: "d_buf t = d_buf s" "l_buf t = l_buf s"
    using t(2) by (cases s; cases t; simp add: sent_def)+
  have "\<exists>s'. compress_loop ltree dtree (lx + 1) k t = Some s' \<and>
      sent (items_bits ltree dtree (take k (drop (lx + 1) (zip (d_buf t) (l_buf t))))) t s'"
    by (rule Suc.IH) (use Suc.prems(1,2) ok(2) same sent_ok [OF t(2)] in auto)
  then obtain u where u: "compress_loop ltree dtree (lx + 1) k t = Some u"
      "sent (items_bits ltree dtree (take k (drop (lx + 1) ?z))) t u" using same by auto
  have "compress_loop ltree dtree lx (Suc k) s = Some u" using t(1) u(1) Suc.prems(1,2) by simp
  then show ?case unfolding z using sent_trans [OF t(2) u(2)] by (simp add: items_bits_def)
qed

section \<open>The static trees\<close>

lemma unat_of_nat_rev: "l \<le> 15 \<Longrightarrow> unat (of_nat (rev_nat l c) :: ushort) = rev_nat l c"
proof -
  assume "l \<le> 15"
  then have "(2::nat) ^ l \<le> 2 ^ 15" by (rule power_increasing) simp
  then have "rev_nat l c < 2 ^ 16" using rev_nat_less [of l c] by simp
  then show ?thesis by (simp add: unsigned_of_nat take_bit_nat_eq_self)
qed

lemma static_ltree_ok: "tree_ok static_ltree 286"
proof -
  have lens: "literal_lens ! c \<le> 15" "literal_lens ! c \<noteq> 0" if "c < 288" for c using that by (simp_all add: literal_nth)
  have len: "unat (Len (static_ltree ! c)) = literal_lens ! c" if "c < 288" for c
    using lens [OF that] that by (simp add: static_ltree_nth unsigned_of_nat take_bit_nat_eq_self)
  have ll: "length literal_lens = 288" by (simp add: literal_lens_def)
  have all: "l \<le> 15" if "l \<in> set literal_lens" for l using that by (auto simp: literal_lens_def split: if_splits)
  from ll have bits: "code_bits static_ltree c = bits (literal_lens ! c) (code_word literal_lens c)" if "c < 288" for c
    using code_word_rev [OF kraft_literal, of c] lens [OF that] that len [OF that]
    by (simp add: code_bits_def static_ltree_nth)
  have "code_ok (static_ltree ! c)" if "c < 288" for c
    using lens [OF that] len [OF that] rev_nat_less [of "literal_lens ! c" "canonical literal_lens c"] that
    by (simp add: code_ok_def MAX_BITS_def static_ltree_nth unat_of_nat_rev)
  moreover have "\<not> prefix (code_bits static_ltree c) (code_bits static_ltree d)" if "c < 286" "d < 286" "c \<noteq> d" for c d
    using code_words_prefix_free [OF kraft_literal, of c d] that bits lens ll all by simp
  ultimately show ?thesis by (simp add: tree_ok_def prefix_free_def)
qed

lemma static_dtree_ok: "tree_ok static_dtree 30"
proof -
  have nth: "static_dtree ! i = \<lparr>fc = of_nat (rev_nat 5 i), dl = 5\<rparr>" "length static_dtree = 30" if "i < 30" for i
    using that by (simp_all add: static_dtree_rev)
  have ok: "code_ok (static_dtree ! i)" if "i < 30" for i
    using that rev_nat_less [of 5 i] by (simp add: nth code_ok_def MAX_BITS_def unat_of_nat_rev)
  have "i = j" if "i < 30" "j < 30" "prefix (code_bits static_dtree i) (code_bits static_dtree j)" for i j
  proof -
    from that(3) obtain zs where zs: "code_bits static_dtree j = code_bits static_dtree i @ zs" by (rule prefixE)
    have "length (code_bits static_dtree j) = length (code_bits static_dtree i)" by (simp add: code_bits_def nth that(1,2))
    then have "code_bits static_dtree i = code_bits static_dtree j" using zs by simp
    then have e: "bits 5 (of_nat (rev_nat 5 i) :: ushort) ! (4 - k) = bits 5 (of_nat (rev_nat 5 j) :: ushort) ! (4 - k)" for k
      by (simp add: code_bits_def nth that(1,2))
    have "bit i k = bit j k" if "k < 5" for k
    proof -
      have "4 - (4 - k) = k" "4 - k < 16" "4 - k < 5" using that by linarith+
      then show ?thesis using e [of k] that by (simp add: bit_of_nat_iff bit_rev_nat)
    qed
    moreover have "i < 2 ^ 5" "j < 2 ^ 5" using that by simp_all
    ultimately show ?thesis
      by (metis (no_types, lifting) bit_eqI bit_take_bit_iff take_bit_nat_eq_self)
  qed
  then show ?thesis using ok nth nth(2) [of 0] by (auto simp: tree_ok_def prefix_free_def)
qed

lemma static_lens_nonzero: "c < 286 \<Longrightarrow> Len (static_ltree ! c) \<noteq> 0" "d < 30 \<Longrightarrow> Len (static_dtree ! d) \<noteq> 0"
  by (simp_all add: static_ltree_nth literal_nth static_dtree_rev)

lemma static_item_ok: "unat dist \<le> 2 ^ 15 \<Longrightarrow> item_ok static_ltree static_dtree (dist, lc)"
  using static_lens_nonzero(1) [of "unat lc"] static_lens_nonzero(1) [of "length_code ! unat lc + LITERALS + 1"]
    static_lens_nonzero(2) [of "dist_code_of_item dist"] dist_code_item(2) [of dist] unat_byte_less [of lc] length_code_item(1) [of lc]
  by (auto simp: item_ok_def LITERALS_def)

section \<open>Properties\<close>

lemma compress_block_sent:
  assumes "tree_ok ltree 286" "tree_ok dtree 30" "Len (ltree ! END_BLOCK) \<noteq> 0" "out_ok s"
    and "n = unat (last_lit s)" "n \<le> length (d_buf s)" "n \<le> length (l_buf s)"
    and "\<forall>x \<in> set (take n (zip (d_buf s) (l_buf s))). item_ok ltree dtree x"
  shows "\<exists>s'. compress_block ltree dtree s = Some s' \<and> out_ok s' \<and>
    stream s' = stream s @ items_bits ltree dtree (take n (zip (d_buf s) (l_buf s))) @ code_bits ltree END_BLOCK"
proof -
  obtain t where t: "compress_loop ltree dtree 0 n s = Some t" "sent (items_bits ltree dtree (take n (zip (d_buf s) (l_buf s)))) s t"
    using compress_loop_sent [OF assms(1,2), of 0 n s] assms(4,6-8) by auto
  have e: "END_BLOCK < length ltree" "code_ok (ltree ! END_BLOCK)" using assms(1) by (simp_all add: tree_ok_def END_BLOCK_def)
  obtain u where u: "send_code END_BLOCK ltree t = Some u" "sent (code_bits ltree END_BLOCK) t u"
    using send_code_sent [OF e sent_ok [OF t(2)]] by blast
  have "compress_block ltree dtree s = Some (u \<lparr> last_eob_len := int (unat (Len (ltree ! END_BLOCK))) \<rparr>)"
    using t(1) u(1) e(1) assms(5) by (simp add: compress_block_def)
  then show ?thesis using sent_trans [OF t(2) u(2)] by (auto simp: sent_def out_ok_def stream_def)
qed


definition sample_block :: trees_state where
  "sample_block = \<lparr> pending = [0x78], bi_buf = 1, bi_valid = 1, dyn_ltree = [], dyn_dtree = [], bl_tree = [], l_max_code = 0,
    d_max_code = 0, bl_max_code = 0, work = sample_heap, l_buf = [97, 255, 0], d_buf = [0, 32768, 0], lit_bufsize = 4,
    last_lit = 2, matches = 1, last_eob_len = 8, level = 0, strategy = 4, data_type_of = Z_TEXT \<rparr>"


text \<open>
  A stored block is the block type, zero bits to the byte boundary, the length and its complement
  in 16 bits each, and the bytes themselves; nothing is read beyond the given length.
\<close>

theorem stored_block_bits:
  assumes "out_ok s" "unat stored_len \<le> length buf"
  shows "\<exists>s'. tr_stored_block buf stored_len eof s = Some s' \<and> out_ok s' \<and> bi_valid s' = 0 \<and> last_eob_len s' = 8 \<and>
    stream s' = (let sent = stream s @ [eof, False, False]
      in sent @ padding sent @ bits 16 (ucast stored_len :: ushort) @ bits 16 (NOT (ucast stored_len :: ushort)) @
         byte_bits (take (unat stored_len) buf))"
proof -
  let ?v = "push_bit 1 STORED_BLOCK + of_bool eof :: uint"
  have v: "bits 3 ?v = [eof, False, False]" "unat ?v < 2 ^ 3"
    by (cases eof; simp add: STORED_BLOCK_def numeral_3_eq_3 bits_Suc)+
  have t: "stream (send_bits ?v 3 s) = stream s @ [eof, False, False]" "out_ok (send_bits ?v 3 s)"
    using send_bits_stream [OF assms(1) _ v(2)] v(1) by simp_all
  obtain u where u: "copy_block buf stored_len True (send_bits ?v 3 s) = Some u" "out_ok u" "bi_valid u = 0"
      "stream u = stream (send_bits ?v 3 s) @ padding (stream (send_bits ?v 3 s)) @
        bits 16 (ucast stored_len :: ushort) @ bits 16 (ucast (NOT stored_len) :: ushort) @ byte_bits (take (unat stored_len) buf)"
    using copy_block_stream [OF t(2) assms(2), of True] by auto
  have "bits 16 (ucast (NOT stored_len) :: ushort) = bits 16 (NOT (ucast stored_len :: ushort))"
    by (rule bits_cong) (simp add: bit_simps)
  then have st: "stream u = (let sent = stream s @ [eof, False, False]
      in sent @ padding sent @ bits 16 (ucast stored_len :: ushort) @ bits 16 (NOT (ucast stored_len :: ushort)) @
         byte_bits (take (unat stored_len) buf))" using u(4) t(1) by (simp add: Let_def)
  have "tr_stored_block buf stored_len eof s = Some (u \<lparr> last_eob_len := 8 \<rparr>)" using u(1) by (simp add: tr_stored_block_def)
  moreover have "stream (u \<lparr> last_eob_len := 8 \<rparr>) = stream u" "out_ok (u \<lparr> last_eob_len := 8 \<rparr>)"
    using u(2) by (simp_all add: stream_def out_ok_def)
  ultimately show ?thesis using st u(3) by (intro exI [of _ "u \<lparr> last_eob_len := 8 \<rparr>"]) simp
qed

lemma stored_block_bits_witness:
  "\<exists>s'. tr_stored_block [1, 2, 3] 2 True sample_block = Some s' \<and>
    stream s' = bits 8 (0x78 :: byte) @ [True] @ [True, False, False] @ replicate 4 False @
      bits 16 (2 :: ushort) @ bits 16 (NOT 2 :: ushort) @ bits 8 (1 :: byte) @ bits 8 (2 :: byte)"
proof -
  have s: "out_ok sample_block" "stream sample_block = bits 8 (0x78 :: byte) @ [True]"
    by (auto simp: out_ok_def sample_block_def bit_1_iff stream_def bits_Suc)
  have "padding (stream sample_block @ [True, False, False]) = replicate 4 False" by (simp add: padding_def s(2))
  moreover have "unat (2 :: ulong) \<le> length [1, 2, 3 :: byte]" by simp
  ultimately show ?thesis
    using stored_block_bits [OF s(1), of 2 "[1, 2, 3]" True] by (fastforce simp: Let_def s(2))
qed

text \<open>
  C35. In a build without \<open>DEBUG\<close> the macros that replace \<open>_tr_tally\<close> do what it does, but for the
  number of matches, which they leave alone.
\<close>

theorem tally_macros:
  "tr_tally 0 (ucast cc) s = tr_tally_lit cc s \<and>
   (dist \<noteq> 0 \<longrightarrow> tr_tally (ucast dist) (ucast len) s =
     map_option (\<lambda>(flush, t). (flush, t \<lparr> matches := matches s + 1 \<rparr>)) (tr_tally_dist dist len s))"
proof (intro conjI impI)
  show "tr_tally 0 (ucast cc) s = tr_tally_lit cc s"
    by (simp add: tr_tally_def tr_tally_lit_def Let_def unsigned_ucast_eq take_bit_nat_eq_self take_bit_word_eq_self)
  assume d: "dist \<noteq> 0"
  have pos: "0 < unat dist" using d by (simp add: unat_gt_0)
  have v: "unat (ucast dist :: uint) = unat dist"
    by (simp add: unsigned_ucast_eq take_bit_nat_eq_self less_le_trans [OF unsigned_less])
  then have "(ucast dist :: uint) \<noteq> 0" using pos by (metis unat_0 less_irrefl)
  note u = v this
  have c: "ucast (ucast dist :: uint) = dist" "ucast (ucast len :: uint) = len"
    by (auto intro!: bit_word_eqI simp: bit_ucast_iff)
  have map_bind: "map_option f (m \<bind> g) = (m \<bind> (\<lambda>x. map_option f (g x)))"
    for f :: "'b \<Rightarrow> 'c" and m :: "'d option" and g by (cases m) simp_all
  have m: "unat (ucast dist - 1 :: uint) = unat (dist - 1)"
    using pos u by (simp add: unat_sub word_le_nat_alt)
  show "tr_tally (ucast dist) (ucast len) s =
     map_option (\<lambda>(flush, t). (flush, t \<lparr> matches := matches s + 1 \<rparr>)) (tr_tally_dist dist len s)"
    using u m c by (cases s) (simp add: tr_tally_def tr_tally_dist_def Let_def map_bind)
qed

lemma tally_macros_witness:
  "let s = sample_block \<lparr> dyn_ltree := static_ltree, dyn_dtree := static_dtree \<rparr>
   in tr_tally 5 3 s = map_option (\<lambda>(flush, t). (flush, t \<lparr> matches := 2 \<rparr>)) (tr_tally_dist 5 3 s) \<and> tr_tally 0 97 s = tr_tally_lit 97 s"
proof -
  let ?s = "sample_block \<lparr> dyn_ltree := static_ltree, dyn_dtree := static_dtree \<rparr>"
  have "matches ?s = 1" by (simp add: sample_block_def)
  then show ?thesis
    using tally_macros [of 97 ?s 5 3] by (simp add: Let_def)
qed

lemma first_used_value:
  "n + k \<le> length lt \<Longrightarrow> \<exists>m. first_used lt n k = Some m \<and> n \<le> m \<and> m \<le> n + k \<and>
    (m = n + k \<longleftrightarrow> (\<forall>i. n \<le> i \<and> i < n + k \<longrightarrow> Freq (lt ! i) = 0))"
proof (induction k arbitrary: n)
  case (Suc k)
  show ?case
  proof (cases "Freq (lt ! n) = 0")
    case True
    obtain m where m: "first_used lt (n + 1) k = Some m" "n + 1 \<le> m" "m \<le> n + 1 + k"
      "m = n + 1 + k \<longleftrightarrow> (\<forall>i. n + 1 \<le> i \<and> i < n + 1 + k \<longrightarrow> Freq (lt ! i) = 0)"
      using Suc.IH [of "n + 1"] Suc.prems by auto
    moreover have "(\<forall>i. n + 1 \<le> i \<and> i < n + 1 + k \<longrightarrow> Freq (lt ! i) = 0) \<longleftrightarrow> (\<forall>i. n \<le> i \<and> i < n + Suc k \<longrightarrow> Freq (lt ! i) = 0)"
      using True by (metis Suc_eq_plus1 Suc_leI add_Suc_right add_Suc_shift le_eq_less_or_eq less_or_eq_imp_le order_trans le_add1)
    ultimately show ?thesis using True Suc.prems by auto
  next
    case False
    then show ?thesis using Suc.prems by (auto intro!: exI [of _ n])
  qed
qed auto

text \<open>
  \<open>set_data_type\<close> calls the data text exactly when no tallied literal is a control character
  other than 9 to 13; no length, distance or later character plays a part.
\<close>

lemma set_data_type_iff:
  assumes "32 \<le> length (dyn_ltree s)"
  shows "set_data_type s = Some (s \<lparr> data_type_of :=
    (if \<forall>n < 32. n < 9 \<or> 14 \<le> n \<longrightarrow> Freq (dyn_ltree s ! n) = 0 then Z_TEXT else Z_BINARY) \<rparr>)"
proof -
  obtain m where m: "first_used (dyn_ltree s) 0 9 = Some m" "m \<le> 9" "m = 9 \<longleftrightarrow> (\<forall>i < 9. Freq (dyn_ltree s ! i) = 0)"
    using first_used_value [of 0 9 "dyn_ltree s"] assms by auto
  obtain k where k: "first_used (dyn_ltree s) 14 18 = Some k" "k = 32 \<longleftrightarrow> (\<forall>i. 14 \<le> i \<and> i < 32 \<longrightarrow> Freq (dyn_ltree s ! i) = 0)"
    using first_used_value [of 14 18 "dyn_ltree s"] assms by auto
  have "(\<forall>n < 32. n < 9 \<or> 14 \<le> n \<longrightarrow> Freq (dyn_ltree s ! n) = 0) \<longleftrightarrow> m = 9 \<and> k = 32"
    unfolding m(3) k(2) by auto
  then show ?thesis using m(1,2) k(1) by (cases "m = 9") (auto simp: set_data_type_def)
qed

end
