(* ===== verification/Deflate_State.thy ===== *)
theory Deflate_State
  imports Z_Stream Tree_Blocks
begin

text \<open>
  The state of the compressor, \<^verbatim>\<open>src/AOS/aos/zlib/deflate.h\<close>, and the routines of \<^verbatim>\<open>deflate.c\<close> under the
  strategies: input and output, the hash chains, and the sliding of the window.
\<close>

section \<open>Constants\<close>

definition MIN_MATCH :: nat where "MIN_MATCH = 3"
definition MAX_MATCH :: nat where "MAX_MATCH = 258"
definition MIN_LOOKAHEAD :: nat where "MIN_LOOKAHEAD = MAX_MATCH + MIN_MATCH + 1"
definition TOO_FAR :: nat where "TOO_FAR = 4096"

definition Z_FILTERED :: int where "Z_FILTERED = 1"
definition Z_HUFFMAN_ONLY :: int where "Z_HUFFMAN_ONLY = 2"
definition Z_RLE :: int where "Z_RLE = 3"

datatype block_state = need_more | block_done | finish_started | finish_done

datatype compress_func = Deflate_Stored | Deflate_Fast | Deflate_Slow

record config =
  good_length :: nat
  max_lazy :: nat
  nice_length :: nat
  max_chain :: nat
  func :: compress_func

definition mk_config :: "nat \<Rightarrow> nat \<Rightarrow> nat \<Rightarrow> nat \<Rightarrow> compress_func \<Rightarrow> config" where
  "mk_config g l n c f = \<lparr> good_length = g, max_lazy = l, nice_length = n, max_chain = c, func = f \<rparr>"

definition configuration_table :: "config list" where
  "configuration_table = [
    mk_config 0 0 0 0 Deflate_Stored,
    mk_config 4 4 8 4 Deflate_Fast,
    mk_config 4 5 16 8 Deflate_Fast,
    mk_config 4 6 32 32 Deflate_Fast,
    mk_config 4 4 16 16 Deflate_Slow,
    mk_config 8 16 32 32 Deflate_Slow,
    mk_config 8 16 128 128 Deflate_Slow,
    mk_config 8 32 128 256 Deflate_Slow,
    mk_config 32 128 258 1024 Deflate_Slow,
    mk_config 32 258 258 4096 Deflate_Slow]"

text \<open>A difference of two values of 32 bits, as \<open>unsigned int\<close> arithmetic has it.\<close>

definition minus_u32 :: "nat \<Rightarrow> nat \<Rightarrow> nat" where
  "minus_u32 a b = (a + 2 ^ 32 - b) mod 2 ^ 32"

lemma minus_u32_le [simp]: "b \<le> a \<Longrightarrow> a < 2 ^ 32 \<Longrightarrow> minus_u32 a b = a - b"
proof -
  assume a: "b \<le> a" "a < 2 ^ 32"
  have "a + 2 ^ 32 - b = (a - b) + 2 ^ 32" by (rule Nat.diff_add_assoc2) (rule a(1))
  then have "minus_u32 a b = (a - b) mod 2 ^ 32" by (simp only: minus_u32_def mod_add_self2)
  also have "\<dots> = a - b" by (rule mod_less) (use a(2) in linarith)
  finally show ?thesis .
qed

section \<open>State\<close>

datatype deflate_status = INIT_STATE | EXTRA_STATE | NAME_STATE | COMMENT_STATE | HCRC_STATE | BUSY_STATE | FINISH_STATE

text \<open>
  \<open>strm\<close> is the stream that the state belongs to, and \<open>written\<close> what the call has written at its \<open>next_out\<close>. The list
  \<open>pending\<close> of the fields for \<^verbatim>\<open>trees.c\<close> is what \<open>pending_buf\<close> holds below the index \<open>pending\<close>; \<open>stale\<close> is
  what the whole buffer held when bytes were last flushed, so that from the index on it still holds the rest of
  that. \<open>pending_out\<close> is an index of the buffer. \<open>prev_of\<close> and \<open>head_of\<close> are the tables \<open>prev\<close> and \<open>head\<close>, \<open>buf_window\<close> is
  \<open>window\<close>, \<open>wrap_of\<close> is \<open>wrap\<close>.
  Fields of type \<open>uInt\<close> are numbers below \<open>2 ^ 32\<close>; where a difference can wrap around it is written with \<open>minus_u32\<close>.
\<close>

record deflate_state = trees_state +
  strm :: z_stream
  written :: "byte list"
  status :: deflate_status
  stale :: "byte list"
  pending_out :: nat
  pending_buf_size :: nat
  wrap_of :: int
  gzhead :: "gz_header option"
  gzindex :: nat
  last_flush :: int
  w_size :: nat
  w_bits :: nat
  w_mask :: nat
  buf_window :: "byte list"
  window_size :: nat
  prev_of :: "ushort list"
  head_of :: "ushort list"
  ins_h :: uint
  hash_size :: nat
  hash_bits :: nat
  hash_mask :: uint
  hash_shift :: nat
  block_start :: int
  match_length :: nat
  prev_match :: nat
  match_available :: bool
  strstart :: nat
  match_start :: nat
  lookahead :: nat
  prev_length :: nat
  max_chain_length :: uint
  max_lazy_match :: nat
  good_match :: nat
  nice_match :: int

text \<open>A routine of \<^verbatim>\<open>trees.c\<close> on the whole state.\<close>

definition on_trees :: "(trees_state \<Rightarrow> trees_state option) \<Rightarrow> deflate_state \<Rightarrow> deflate_state option" where
  "on_trees f s = map_option (\<lambda>t. trees_state.extend t (trees_state.more s)) (f (trees_state.truncate s))"

definition tallying :: "(trees_state \<Rightarrow> (bool \<times> trees_state) option) \<Rightarrow> deflate_state \<Rightarrow> (bool \<times> deflate_state) option" where
  "tallying f s = map_option (\<lambda>(b, t). (b, trees_state.extend t (trees_state.more s))) (f (trees_state.truncate s))"

definition MAX_DIST :: "deflate_state \<Rightarrow> nat" where
  "MAX_DIST s = minus_u32 (w_size s) MIN_LOOKAHEAD"

text \<open>\<open>zmemcpy\<close> of all of \<open>bs\<close> to the index \<open>i\<close>.\<close>

definition store_bytes :: "byte list \<Rightarrow> nat \<Rightarrow> byte list \<Rightarrow> byte list option" where
  "store_bytes buf i bs =
    (if i + length bs \<le> length buf then Some (take i buf @ bs @ drop (i + length bs) buf) else None)"

section \<open>Output and input\<close>

text \<open>What the whole of \<open>pending_buf\<close> holds.\<close>

definition pending_buf :: "deflate_state \<Rightarrow> byte list" where
  "pending_buf s = pending s @ drop (length (pending s)) (stale s)"

definition flush_pending :: "deflate_state \<Rightarrow> deflate_state" where
  "flush_pending s = (let n = min (length (pending s)) (avail_out (strm s)) in
    if n = 0 then s
    else let
      buf = pending_buf s;
      left = length (pending s) - n
    in s \<lparr> written := written s @ take n (drop (pending_out s) buf),
      strm := (strm s) \<lparr> total_out := total_out (strm s) + of_nat n, avail_out := avail_out (strm s) - n \<rparr>,
      stale := buf, pending := take left buf, pending_out := (if left = 0 then 0 else pending_out s + n) \<rparr>)"

definition putShortMSB :: "uint \<Rightarrow> 'a bit_out_scheme \<Rightarrow> 'a bit_out_scheme" where
  "putShortMSB b s = put_byte (ucast (b AND 0xff)) (put_byte (ucast (drop_bit 8 b)) s)"

text \<open>\<open>read_buf(strm, window + i, size)\<close>\<close>

definition input_check :: "deflate_state \<Rightarrow> byte list \<Rightarrow> ulong option" where
  "input_check s inp =
    (if wrap_of s = 1 then adler32_update (adler (strm s)) inp
     else if wrap_of s = 2 then crc_of (adler (strm s)) inp
     else Some (adler (strm s)))"

definition read_buf :: "nat \<Rightarrow> nat \<Rightarrow> deflate_state \<Rightarrow> (nat \<times> deflate_state) option" where
  "read_buf i sz s = (let n = min (avail_in (strm s)) sz; inp = take n (next_in (strm s)) in
    if n = 0 then Some (0, s)
    else do {
      c \<leftarrow> input_check s inp;
      w \<leftarrow> store_bytes (buf_window s) i inp;
      Some (n, s \<lparr> buf_window := w,
        strm := (strm s) \<lparr> next_in := drop n (next_in (strm s)), adler := c, total_in := total_in (strm s) + of_nat n \<rparr> \<rparr>) })"

section \<open>The hash chains\<close>

definition UPDATE_HASH :: "deflate_state \<Rightarrow> uint \<Rightarrow> byte \<Rightarrow> uint" where
  "UPDATE_HASH s h c = (push_bit (hash_shift s) h XOR ucast c) AND hash_mask s"

text \<open>The result is \<open>match_head\<close>.\<close>

definition INSERT_STRING :: "nat \<Rightarrow> deflate_state \<Rightarrow> (nat \<times> deflate_state) option" where
  "INSERT_STRING str s = do {
    c \<leftarrow> peek (buf_window s) (str + (MIN_MATCH - 1));
    let h = UPDATE_HASH s (ins_h s) c;
    m \<leftarrow> peek (head_of s) (unat h);
    pv \<leftarrow> poke (prev_of s) (str AND w_mask s) m;
    hd \<leftarrow> poke (head_of s) (unat h) (of_nat str);
    Some (unat m, s \<lparr> ins_h := h, prev_of := pv, head_of := hd \<rparr>) }"

definition CLEAR_HASH :: "deflate_state \<Rightarrow> deflate_state option" where
  "CLEAR_HASH s =
    (if 0 < hash_size s \<and> hash_size s \<le> length (head_of s)
     then Some (s \<lparr> head_of := replicate (hash_size s) 0 @ drop (hash_size s) (head_of s) \<rparr>) else None)"

definition set_config :: "nat \<Rightarrow> deflate_state \<Rightarrow> deflate_state option" where
  "set_config lv s = do {
    c \<leftarrow> peek configuration_table lv;
    Some (s \<lparr> max_lazy_match := max_lazy c, good_match := good_length c, nice_match := int (nice_length c),
      max_chain_length := of_nat (max_chain c) \<rparr>) }"

definition lm_init :: "deflate_state \<Rightarrow> deflate_state option" where
  "lm_init s = do {
    s \<leftarrow> CLEAR_HASH (s \<lparr> window_size := 2 * w_size s \<rparr>);
    s \<leftarrow> set_config (nat (level s)) s;
    Some (s \<lparr> strstart := 0, block_start := 0, lookahead := 0, match_length := MIN_MATCH - 1, prev_length := MIN_MATCH - 1,
      match_available := False, ins_h := 0 \<rparr>) }"

text \<open>The hash of the first two bytes of the string at \<open>strstart\<close>.\<close>

definition start_hash :: "deflate_state \<Rightarrow> deflate_state option" where
  "start_hash s = do {
    a \<leftarrow> peek (buf_window s) (strstart s);
    b \<leftarrow> peek (buf_window s) (strstart s + 1);
    Some (s \<lparr> ins_h := UPDATE_HASH s (ucast a) b \<rparr>) }"

section \<open>Filling the window\<close>

text \<open>\<open>*p = (Pos)(m >= wsize ? m-wsize : NIL)\<close> for the first \<open>n\<close> entries; with \<open>n = 0\<close> the loop would not stop there.\<close>

definition slide_pos :: "nat \<Rightarrow> ushort \<Rightarrow> ushort" where
  "slide_pos wsize m = (if unat m \<ge> wsize then of_nat (unat m - wsize) else 0)"

definition slide_table :: "nat \<Rightarrow> nat \<Rightarrow> ushort list \<Rightarrow> ushort list option" where
  "slide_table wsize n t =
    (if 0 < n \<and> n \<le> length t then Some (map (slide_pos wsize) (take n t) @ drop n t) else None)"

text \<open>The upper half of the window moves to the lower one; the result is the space that is gained.\<close>

definition slide_window :: "deflate_state \<Rightarrow> (nat \<times> deflate_state) option" where
  "slide_window s =
    (if strstart s \<ge> w_size s + MAX_DIST s then
       if length (buf_window s) < 2 * w_size s then None
       else do {
         w \<leftarrow> store_bytes (buf_window s) 0 (take (w_size s) (drop (w_size s) (buf_window s)));
         hd \<leftarrow> slide_table (w_size s) (hash_size s) (head_of s);
         pv \<leftarrow> slide_table (w_size s) (w_size s) (prev_of s);
         Some (w_size s, s \<lparr> buf_window := w, match_start := minus_u32 (match_start s) (w_size s), strstart := strstart s - w_size s,
           block_start := block_start s - int (w_size s), head_of := hd, prev_of := pv \<rparr>) }
     else Some (0, s))"

definition fill_round :: "deflate_state \<Rightarrow> deflate_state option" where
  "fill_round s = do {
    let more = minus_u32 (minus_u32 (window_size s) (lookahead s)) (strstart s);
    (gained, s) \<leftarrow> slide_window s;
    if next_in (strm s) = [] then Some s
    else do {
      (n, s) \<leftarrow> read_buf (strstart s + lookahead s) (more + gained) s;
      let s = s \<lparr> lookahead := lookahead s + n \<rparr>;
      if lookahead s \<ge> MIN_MATCH then start_hash s else Some s } }"

partial_function (option) fill_window :: "deflate_state \<Rightarrow> deflate_state option" where
  "fill_window s = do {
    s \<leftarrow> fill_round s;
    if lookahead s < MIN_LOOKAHEAD \<and> next_in (strm s) \<noteq> [] then fill_window s else Some s }"

section \<open>Flushing a block\<close>

definition FLUSH_BLOCK_ONLY :: "bool \<Rightarrow> deflate_state \<Rightarrow> deflate_state option" where
  "FLUSH_BLOCK_ONLY eof s = do {
    let buf = (if block_start s \<ge> 0 then Some (drop (nat (block_start s)) (buf_window s)) else None);
    s \<leftarrow> on_trees (tr_flush_block buf (of_int (int (strstart s) - block_start s)) eof) s;
    Some (flush_pending (s \<lparr> block_start := int (strstart s) \<rparr>)) }"

text \<open>What a round of a strategy's loop does: return, leave the loop, or go round.\<close>

datatype round = Return_With block_state deflate_state | Break_Loop deflate_state | Next_Round deflate_state

definition FLUSH_BLOCK :: "bool \<Rightarrow> deflate_state \<Rightarrow> round option" where
  "FLUSH_BLOCK eof s = do {
    s \<leftarrow> FLUSH_BLOCK_ONLY eof s;
    Some (if avail_out (strm s) = 0 then Return_With (if eof then finish_started else need_more) s else Next_Round s) }"

text \<open>The end of all strategies.\<close>

definition finish_block :: "int \<Rightarrow> deflate_state \<Rightarrow> (block_state \<times> deflate_state) option" where
  "finish_block flush s = do {
    r \<leftarrow> FLUSH_BLOCK (flush = Z_FINISH) s;
    Some (case r of
        Return_With b s \<Rightarrow> (b, s)
      | Break_Loop s \<Rightarrow> (if flush = Z_FINISH then finish_done else block_done, s)
      | Next_Round s \<Rightarrow> (if flush = Z_FINISH then finish_done else block_done, s)) }"

end
