(* ===== verification/Deflate_Match.thy ===== *)
theory Deflate_Match
  imports Deflate_State
begin

text \<open>
  The search for matches, \<open>longest_match\<close> and \<open>longest_match_fast\<close> of \<^verbatim>\<open>src/AOS/aos/zlib/deflate.c\<close>, in a build
  without \<open>ASMV\<close> and \<open>UNALIGNED_OK\<close>. A read outside of the window has no value.
\<close>

section \<open>Comparing two strings\<close>

text \<open>
  \<open>*++scan == *++match\<close>, up to \<open>n\<close> times, where both are \<open>k\<close> bytes past the beginning: how far they have got, and
  whether all were equal.
\<close>

fun compare_steps :: "byte list \<Rightarrow> nat \<Rightarrow> nat \<Rightarrow> nat \<Rightarrow> nat \<Rightarrow> (nat \<times> bool) option" where
  "compare_steps w scan mt 0 k = Some (k, True)"
| "compare_steps w scan mt (Suc n) k = do {
    a \<leftarrow> peek w (scan + k + 1);
    b \<leftarrow> peek w (mt + k + 1);
    if a = b then compare_steps w scan mt n (k + 1) else Some (k + 1, False) }"

lemma compare_steps_equal: "compare_steps w scan mt n k = Some (k', True) \<Longrightarrow> k' = k + n"
proof (induction n arbitrary: k)
  case (Suc n)
  then show ?case using Suc.IH [of "k + 1"] by (auto split: if_splits bind_splits)
qed simp

function compare_loop :: "byte list \<Rightarrow> nat \<Rightarrow> nat \<Rightarrow> nat \<Rightarrow> nat option" where
  "compare_loop w scan mt k = (case compare_steps w scan mt 8 k of
      None \<Rightarrow> None
    | Some (k', equal) \<Rightarrow> if equal \<and> k' < MAX_MATCH then compare_loop w scan mt k' else Some k')"
  by pat_completeness auto
termination
  by (relation "measure (\<lambda>(w, scan, mt, k). MAX_MATCH - k)") (auto dest: compare_steps_equal)

declare compare_loop.simps [simp del]

section \<open>The longest match\<close>

text \<open>\<open>p[-1]\<close> at the index \<open>i\<close> of the window.\<close>

definition peek_before :: "byte list \<Rightarrow> nat \<Rightarrow> byte option" where
  "peek_before w i = (if i = 0 then None else peek w (i - 1))"

text \<open>A candidate: the length of its match, or none when one of the four tests fails.\<close>

definition match_candidate :: "byte list \<Rightarrow> nat \<Rightarrow> nat \<Rightarrow> nat \<Rightarrow> byte \<Rightarrow> byte \<Rightarrow> nat option option" where
  "match_candidate w scan cur best end1 end0 = do {
    a \<leftarrow> peek w (cur + best);
    if a \<noteq> end0 then Some None else do {
    b \<leftarrow> peek_before w (cur + best);
    if b \<noteq> end1 then Some None else do {
    c \<leftarrow> peek w cur;
    d \<leftarrow> peek w scan;
    if c \<noteq> d then Some None else do {
    c \<leftarrow> peek w (cur + 1);
    d \<leftarrow> peek w (scan + 1);
    if c \<noteq> d then Some None else map_option Some (compare_loop w scan cur 2) } } } }"

text \<open>The best match so far: its length, its start, and the bytes \<open>scan_end1\<close> and \<open>scan_end\<close>.\<close>

record best_match =
  best_len :: nat
  best_start :: nat
  scan_end1 :: byte
  scan_end :: byte

text \<open>One round; the result says whether the match is good enough to stop.\<close>

definition match_round :: "byte list \<Rightarrow> nat \<Rightarrow> int \<Rightarrow> nat \<Rightarrow> best_match \<Rightarrow> (bool \<times> best_match) option" where
  "match_round w scan nice cur m = do {
    c \<leftarrow> match_candidate w scan cur (best_len m) (scan_end1 m) (scan_end m);
    case c of
      None \<Rightarrow> Some (False, m)
    | Some n \<Rightarrow>
        if n > best_len m then
          let m = m \<lparr> best_start := cur, best_len := n \<rparr> in
          if int n \<ge> nice then Some (True, m)
          else do {
            e1 \<leftarrow> peek_before w (scan + n);
            e \<leftarrow> peek w (scan + n);
            Some (False, m \<lparr> scan_end1 := e1, scan_end := e \<rparr>) }
        else Some (False, m) }"

lemma unat_minus_one_less: "x \<noteq> 1 \<Longrightarrow> unat (x - 2) < unat (x - 1 :: uint)"
  using measure_unat [of "x - 1"] by simp

function match_loop :: "deflate_state \<Rightarrow> nat \<Rightarrow> int \<Rightarrow> nat \<Rightarrow> uint \<Rightarrow> best_match \<Rightarrow> best_match option" where
  "match_loop s limit nice cur chain m = (case match_round (buf_window s) (strstart s) nice cur m of
      None \<Rightarrow> None
    | Some (stop, m') \<Rightarrow>
        if stop then Some m'
        else (case peek (prev_of s) (cur AND w_mask s) of
            None \<Rightarrow> None
          | Some p \<Rightarrow> if unat p > limit \<and> chain - 1 \<noteq> 0 then match_loop s limit nice (unat p) (chain - 1) m' else Some m'))"
  by pat_completeness auto

termination
  by (relation "measure (\<lambda>(s, limit, nice, cur, chain, m). unat (chain - 1))") (auto intro: unat_minus_one_less)

declare match_loop.simps [simp del]

definition match_limit :: "deflate_state \<Rightarrow> nat" where
  "match_limit s = (if strstart s > MAX_DIST s then strstart s - MAX_DIST s else 0)"

definition longest_match :: "nat \<Rightarrow> deflate_state \<Rightarrow> (nat \<times> deflate_state) option" where
  "longest_match cur s = do {
    let scan = strstart s;
    let best = prev_length s;
    e1 \<leftarrow> peek_before (buf_window s) (scan + best);
    e \<leftarrow> peek (buf_window s) (scan + best);
    let chain = (if prev_length s \<ge> good_match s then drop_bit 2 (max_chain_length s) else max_chain_length s);
    let nice = (if nat (nice_match s mod 2 ^ 32) > lookahead s then int (lookahead s) else nice_match s);
    m \<leftarrow> match_loop s (match_limit s) nice cur chain
      \<lparr> best_len = best, best_start = match_start s, scan_end1 = e1, scan_end = e \<rparr>;
    Some (if best_len m \<le> lookahead s then best_len m else lookahead s, s \<lparr> match_start := best_start m \<rparr>) }"

text \<open>The version for \<open>Z_RLE\<close>.\<close>

definition longest_match_fast :: "nat \<Rightarrow> deflate_state \<Rightarrow> (nat \<times> deflate_state) option" where
  "longest_match_fast cur s = do {
    let w = buf_window s;
    let scan = strstart s;
    a \<leftarrow> peek w cur;
    b \<leftarrow> peek w scan;
    if a \<noteq> b then Some (MIN_MATCH - 1, s) else do {
    a \<leftarrow> peek w (cur + 1);
    b \<leftarrow> peek w (scan + 1);
    if a \<noteq> b then Some (MIN_MATCH - 1, s) else do {
    n \<leftarrow> compare_loop w scan cur 2;
    if n < MIN_MATCH then Some (MIN_MATCH - 1, s)
    else Some (if n \<le> lookahead s then n else lookahead s, s \<lparr> match_start := cur \<rparr>) } } }"

end
