(* ===== verification/Deflate_Blocks.thy ===== *)
theory Deflate_Blocks
  imports Deflate_Match
begin

text \<open>
  The three strategies of \<^verbatim>\<open>src/AOS/aos/zlib/deflate.c\<close>: \<open>deflate_stored\<close>, \<open>deflate_fast\<close> and \<open>deflate_slow\<close>. A loop that
  would not end has no value; neither has an access outside of an object.
\<close>

section \<open>\<open>deflate_stored\<close>\<close>

definition stored_fill :: "int \<Rightarrow> deflate_state \<Rightarrow> round option" where
  "stored_fill flush s =
    (if lookahead s \<le> 1 then do {
       s \<leftarrow> fill_window s;
       Some (if lookahead s = 0 \<and> flush = Z_NO_FLUSH then Return_With need_more s
         else if lookahead s = 0 then Break_Loop s
         else Next_Round s) }
     else Some (Next_Round s))"

text \<open>Emit a block when the pending buffer will be full. \<open>max_start\<close> is computed in \<open>unsigned long\<close>.\<close>

definition stored_emit :: "nat \<Rightarrow> deflate_state \<Rightarrow> round option" where
  "stored_emit max_block_size s = (let max_start = nat ((block_start s + int max_block_size) mod 2 ^ 32) in
    if strstart s = 0 \<or> strstart s \<ge> max_start
    then FLUSH_BLOCK False (s \<lparr> lookahead := minus_u32 (strstart s) max_start, strstart := max_start \<rparr>)
    else Some (Next_Round s))"

text \<open>Emit a block when the window may have to slide.\<close>

definition stored_slide :: "deflate_state \<Rightarrow> round option" where
  "stored_slide s =
    (if minus_u32 (strstart s) (nat (block_start s mod 2 ^ 32)) \<ge> MAX_DIST s then FLUSH_BLOCK False s
     else Some (Next_Round s))"

definition and_then :: "round option \<Rightarrow> (deflate_state \<Rightarrow> round option) \<Rightarrow> round option" where
  "and_then r f = Option.bind r (\<lambda>r. case r of Next_Round s \<Rightarrow> f s | _ \<Rightarrow> Some r)"

definition stored_round :: "int \<Rightarrow> nat \<Rightarrow> deflate_state \<Rightarrow> round option" where
  "stored_round flush max_block_size s =
    and_then (stored_fill flush s) (\<lambda>s.
    and_then (stored_emit max_block_size (s \<lparr> strstart := strstart s + lookahead s, lookahead := 0 \<rparr>))
    stored_slide)"

partial_function (option) stored_loop :: "int \<Rightarrow> nat \<Rightarrow> deflate_state \<Rightarrow> (block_state \<times> deflate_state) option" where
  "stored_loop flush max_block_size s = do {
    r \<leftarrow> stored_round flush max_block_size s;
    case r of
      Return_With b s \<Rightarrow> Some (b, s)
    | Break_Loop s \<Rightarrow> finish_block flush s
    | Next_Round s \<Rightarrow> stored_loop flush max_block_size s }"

definition deflate_stored :: "int \<Rightarrow> deflate_state \<Rightarrow> (block_state \<times> deflate_state) option" where
  "deflate_stored flush s = (let limit = minus_u32 (pending_buf_size s) 5 in
    stored_loop flush (if 0xffff > limit then limit else 0xffff) s)"

section \<open>What the other two share\<close>

definition fill_lookahead :: "int \<Rightarrow> deflate_state \<Rightarrow> round option" where
  "fill_lookahead flush s =
    (if lookahead s < MIN_LOOKAHEAD then do {
       s \<leftarrow> fill_window s;
       Some (if lookahead s < MIN_LOOKAHEAD \<and> flush = Z_NO_FLUSH then Return_With need_more s
         else if lookahead s = 0 then Break_Loop s
         else Next_Round s) }
     else Some (Next_Round s))"

text \<open>The local \<open>hash_head\<close> keeps its value when there is nothing to insert.\<close>

definition insert_start :: "nat \<Rightarrow> deflate_state \<Rightarrow> (nat \<times> deflate_state) option" where
  "insert_start hash_head s =
    (if lookahead s \<ge> MIN_MATCH then INSERT_STRING (strstart s) s else Some (hash_head, s))"

definition find_match :: "nat \<Rightarrow> deflate_state \<Rightarrow> deflate_state option" where
  "find_match hash_head s =
    (if strategy s \<noteq> Z_HUFFMAN_ONLY \<and> strategy s \<noteq> Z_RLE then do {
       (n, s) \<leftarrow> longest_match hash_head s;
       Some (s \<lparr> match_length := n \<rparr>) }
     else if strategy s = Z_RLE \<and> minus_u32 (strstart s) hash_head = 1 then do {
       (n, s) \<leftarrow> longest_match_fast hash_head s;
       Some (s \<lparr> match_length := n \<rparr>) }
     else Some s)"

definition tally_literal :: "nat \<Rightarrow> deflate_state \<Rightarrow> (bool \<times> deflate_state) option" where
  "tally_literal i s = do { c \<leftarrow> peek (buf_window s) i; tallying (tr_tally_lit c) s }"

definition tally_match :: "nat \<Rightarrow> nat \<Rightarrow> deflate_state \<Rightarrow> (bool \<times> deflate_state) option" where
  "tally_match dist len = tallying (tr_tally_dist (of_nat dist) (of_nat len))"

definition FLUSH_IF :: "bool \<Rightarrow> deflate_state \<Rightarrow> round option" where
  "FLUSH_IF bflush s = (if bflush then FLUSH_BLOCK False s else Some (Next_Round s))"

section \<open>\<open>deflate_fast\<close>\<close>

text \<open>\<open>do { strstart++; INSERT_STRING } while (--match_length != 0)\<close>; from 0 the count would wrap around.\<close>

fun insert_strings :: "nat \<Rightarrow> nat \<Rightarrow> deflate_state \<Rightarrow> (nat \<times> deflate_state) option" where
  "insert_strings 0 hash_head s = None"
| "insert_strings (Suc n) hash_head s = do {
    let s = s \<lparr> strstart := strstart s + 1 \<rparr>;
    (hash_head, s) \<leftarrow> INSERT_STRING (strstart s) s;
    let s = s \<lparr> match_length := n \<rparr>;
    if n = 0 then Some (hash_head, s) else insert_strings n hash_head s }"

definition fast_take_match :: "nat \<Rightarrow> deflate_state \<Rightarrow> (bool \<times> nat \<times> deflate_state) option" where
  "fast_take_match hash_head s = do {
    (bflush, s) \<leftarrow> tally_match (minus_u32 (strstart s) (match_start s)) (match_length s - MIN_MATCH) s;
    let s = s \<lparr> lookahead := minus_u32 (lookahead s) (match_length s) \<rparr>;
    if match_length s \<le> max_lazy_match s \<and> lookahead s \<ge> MIN_MATCH then do {
      (hash_head, s) \<leftarrow> insert_strings (match_length s - 1) hash_head s;
      Some (bflush, hash_head, s \<lparr> strstart := strstart s + 1 \<rparr>) }
    else do {
      s \<leftarrow> start_hash (s \<lparr> strstart := strstart s + match_length s, match_length := 0 \<rparr>);
      Some (bflush, hash_head, s) } }"

definition fast_take_literal :: "deflate_state \<Rightarrow> (bool \<times> deflate_state) option" where
  "fast_take_literal s = do {
    (bflush, s) \<leftarrow> tally_literal (strstart s) s;
    Some (bflush, s \<lparr> lookahead := lookahead s - 1, strstart := strstart s + 1 \<rparr>) }"

definition fast_item :: "nat \<Rightarrow> deflate_state \<Rightarrow> (bool \<times> nat \<times> deflate_state) option" where
  "fast_item hash_head s = do {
    (hash_head, s) \<leftarrow> insert_start hash_head s;
    s \<leftarrow> (if hash_head \<noteq> 0 \<and> minus_u32 (strstart s) hash_head \<le> MAX_DIST s then find_match hash_head s else Some s);
    if match_length s \<ge> MIN_MATCH then fast_take_match hash_head s
    else do { (bflush, s) \<leftarrow> fast_take_literal s; Some (bflush, hash_head, s) } }"

partial_function (option) fast_rounds :: "int \<Rightarrow> nat \<Rightarrow> deflate_state \<Rightarrow> (block_state \<times> deflate_state) option" where
  "fast_rounds flush hash_head s = do {
    r \<leftarrow> fill_lookahead flush s;
    case r of
      Return_With b s \<Rightarrow> Some (b, s)
    | Break_Loop s \<Rightarrow> finish_block flush s
    | Next_Round s \<Rightarrow> do {
        (bflush, hash_head, s) \<leftarrow> fast_item hash_head s;
        r \<leftarrow> FLUSH_IF bflush s;
        case r of
          Return_With b s \<Rightarrow> Some (b, s)
        | Break_Loop s \<Rightarrow> finish_block flush s
        | Next_Round s \<Rightarrow> fast_rounds flush hash_head s } }"

definition deflate_fast :: "int \<Rightarrow> deflate_state \<Rightarrow> (block_state \<times> deflate_state) option" where
  "deflate_fast flush s = fast_rounds flush 0 s"

section \<open>\<open>deflate_slow\<close>\<close>

text \<open>The search, and the matches that it discards.\<close>

definition slow_search :: "nat \<Rightarrow> deflate_state \<Rightarrow> deflate_state option" where
  "slow_search hash_head s = (let
      s = s \<lparr> prev_length := match_length s, prev_match := match_start s, match_length := MIN_MATCH - 1 \<rparr>
    in
      if hash_head \<noteq> 0 \<and> prev_length s < max_lazy_match s \<and> minus_u32 (strstart s) hash_head \<le> MAX_DIST s then do {
        s \<leftarrow> find_match hash_head s;
        Some (if match_length s \<le> 5 \<and> (strategy s = Z_FILTERED \<or>
            match_length s = MIN_MATCH \<and> minus_u32 (strstart s) (match_start s) > TOO_FAR)
          then s \<lparr> match_length := MIN_MATCH - 1 \<rparr> else s) }
      else Some s)"

text \<open>\<open>do { if (++strstart <= max_insert) INSERT_STRING } while (--prev_length != 0)\<close>\<close>

fun slow_inserts :: "nat \<Rightarrow> nat \<Rightarrow> nat \<Rightarrow> deflate_state \<Rightarrow> (nat \<times> deflate_state) option" where
  "slow_inserts max_insert 0 hash_head s = None"
| "slow_inserts max_insert (Suc n) hash_head s = do {
    let s = s \<lparr> strstart := strstart s + 1 \<rparr>;
    (hash_head, s) \<leftarrow> (if strstart s \<le> max_insert then INSERT_STRING (strstart s) s else Some (hash_head, s));
    let s = s \<lparr> prev_length := n \<rparr>;
    if n = 0 then Some (hash_head, s) else slow_inserts max_insert n hash_head s }"

definition slow_take_match :: "nat \<Rightarrow> deflate_state \<Rightarrow> (nat \<times> round) option" where
  "slow_take_match hash_head s = do {
    let max_insert = minus_u32 (strstart s + lookahead s) MIN_MATCH;
    (bflush, s) \<leftarrow> tally_match (minus_u32 (minus_u32 (strstart s) 1) (prev_match s)) (prev_length s - MIN_MATCH) s;
    let s = s \<lparr> lookahead := minus_u32 (lookahead s) (prev_length s - 1), prev_length := prev_length s - 2 \<rparr>;
    (hash_head, s) \<leftarrow> slow_inserts max_insert (prev_length s) hash_head s;
    let s = s \<lparr> match_available := False, match_length := MIN_MATCH - 1, strstart := strstart s + 1 \<rparr>;
    r \<leftarrow> FLUSH_IF bflush s;
    Some (hash_head, r) }"

definition slow_take_literal :: "deflate_state \<Rightarrow> round option" where
  "slow_take_literal s = do {
    i \<leftarrow> (if strstart s = 0 then None else Some (strstart s - 1));
    (bflush, s) \<leftarrow> tally_literal i s;
    s \<leftarrow> (if bflush then FLUSH_BLOCK_ONLY False s else Some s);
    let s = s \<lparr> strstart := strstart s + 1, lookahead := lookahead s - 1 \<rparr>;
    Some (if avail_out (strm s) = 0 then Return_With need_more s else Next_Round s) }"

definition slow_item :: "nat \<Rightarrow> deflate_state \<Rightarrow> (nat \<times> round) option" where
  "slow_item hash_head s = do {
    (hash_head, s) \<leftarrow> insert_start hash_head s;
    s \<leftarrow> slow_search hash_head s;
    if prev_length s \<ge> MIN_MATCH \<and> match_length s \<le> prev_length s then slow_take_match hash_head s
    else if match_available s then map_option (Pair hash_head) (slow_take_literal s)
    else Some (hash_head, Next_Round (s \<lparr> match_available := True, strstart := strstart s + 1, lookahead := lookahead s - 1 \<rparr>)) }"

definition slow_finish :: "int \<Rightarrow> deflate_state \<Rightarrow> (block_state \<times> deflate_state) option" where
  "slow_finish flush s = do {
    s \<leftarrow> (if match_available s then do {
        i \<leftarrow> (if strstart s = 0 then None else Some (strstart s - 1));
        (bflush, s) \<leftarrow> tally_literal i s;
        Some (s \<lparr> match_available := False \<rparr>) }
      else Some s);
    finish_block flush s }"

partial_function (option) slow_rounds :: "int \<Rightarrow> nat \<Rightarrow> deflate_state \<Rightarrow> (block_state \<times> deflate_state) option" where
  "slow_rounds flush hash_head s = do {
    r \<leftarrow> fill_lookahead flush s;
    case r of
      Return_With b s \<Rightarrow> Some (b, s)
    | Break_Loop s \<Rightarrow> slow_finish flush s
    | Next_Round s \<Rightarrow> do {
        (hash_head, r) \<leftarrow> slow_item hash_head s;
        case r of
          Return_With b s \<Rightarrow> Some (b, s)
        | Break_Loop s \<Rightarrow> slow_finish flush s
        | Next_Round s \<Rightarrow> slow_rounds flush hash_head s } }"

definition deflate_slow :: "int \<Rightarrow> deflate_state \<Rightarrow> (block_state \<times> deflate_state) option" where
  "deflate_slow flush s = slow_rounds flush 0 s"

end
