(* ===== verification/Deflate.thy ===== *)
theory Deflate
  imports Deflate_Blocks
begin

text \<open>
  The functions on the stream of \<^verbatim>\<open>src/AOS/aos/zlib/deflate.c\<close>: \<open>deflate\<close> with its headers and trailers, and the functions
  that set up, reset, tune, copy and end a state; and \<^verbatim>\<open>compress.c\<close>.
\<close>

section \<open>Messages\<close>

definition z_errmsg :: "string list" where
  "z_errmsg = [''need dictionary'', ''stream end'', '''', ''file error'', ''stream error'', ''data error'', ''insufficient memory'',
    ''buffer error'', ''incompatible version'', '''']"

definition ERR_MSG :: "int \<Rightarrow> string" where
  "ERR_MSG err = z_errmsg ! nat (Z_NEED_DICT - err)"

definition set_msg :: "int \<Rightarrow> deflate_state \<Rightarrow> deflate_state" where
  "set_msg err s = s \<lparr> strm := (strm s) \<lparr> msg := Some (ERR_MSG err) \<rparr> \<rparr>"

definition set_adler :: "ulong \<Rightarrow> deflate_state \<Rightarrow> deflate_state" where
  "set_adler c s = s \<lparr> strm := (strm s) \<lparr> adler := c \<rparr> \<rparr>"

section \<open>Headers\<close>

text \<open>\<open>OS_CODE\<close> is that of Unix.\<close>

definition OS_CODE :: byte where "OS_CODE = 3"
definition PRESET_DICT :: uint where "PRESET_DICT = 0x20"

fun put_all :: "byte list \<Rightarrow> 'a bit_out_scheme \<Rightarrow> 'a bit_out_scheme" where
  "put_all [] s = s"
| "put_all (b # bs) s = put_all bs (put_byte b s)"

text \<open>The four bytes of a word, least significant first.\<close>

definition bytes_of :: "ulong \<Rightarrow> byte list" where
  "bytes_of w = [ucast w, ucast (drop_bit 8 w), ucast (drop_bit 16 w), ucast (drop_bit 24 w)]"

definition gzip_xflags :: "deflate_state \<Rightarrow> byte" where
  "gzip_xflags s = (if level s = 9 then 2 else if strategy s \<ge> Z_HUFFMAN_ONLY \<or> level s < 2 then 4 else 0)"

definition gzip_header :: "deflate_state \<Rightarrow> deflate_state option" where
  "gzip_header s = (let s = put_all [31, 139, 8] (set_adler crc_init s) in
    case gzhead s of
      None \<Rightarrow> Some (put_all ([0, 0, 0, 0, 0] @ [gzip_xflags s, OS_CODE]) s \<lparr> status := BUSY_STATE \<rparr>)
    | Some h \<Rightarrow> do {
        let fl = (of_bool (text_flag h) + 2 * of_bool (hcrc_flag h) + 4 * of_bool (extra h \<noteq> None) + 8 * of_bool (name h \<noteq> None) +
          16 * of_bool (comment h \<noteq> None) :: byte);
        let s = put_all ([fl] @ bytes_of (time h) @ [gzip_xflags s, ucast (os_code h)]) s;
        let s = (if extra h \<noteq> None then put_all [ucast (extra_len h), ucast (drop_bit 8 (extra_len h))] s else s);
        c \<leftarrow> (if hcrc_flag h then crc_of (adler (strm s)) (pending s) else Some (adler (strm s)));
        Some (set_adler c s \<lparr> gzindex := 0, status := EXTRA_STATE \<rparr>) })"

definition level_flags :: "deflate_state \<Rightarrow> uint" where
  "level_flags s = (if strategy s \<ge> Z_HUFFMAN_ONLY \<or> level s < 2 then 0 else if level s < 6 then 1 else if level s = 6 then 2 else 3)"

definition zlib_header_word :: "deflate_state \<Rightarrow> uint" where
  "zlib_header_word s = (let
      header = push_bit 8 (Z_DEFLATED + push_bit 4 (of_nat (w_bits s) - 8));
      header = header OR push_bit 6 (level_flags s);
      header = (if strstart s \<noteq> 0 then header OR PRESET_DICT else header)
    in header + (31 - header mod 31))"

definition zlib_header :: "deflate_state \<Rightarrow> deflate_state" where
  "zlib_header s = (let
      s = putShortMSB (zlib_header_word s) (s \<lparr> status := BUSY_STATE \<rparr>);
      s = (if strstart s \<noteq> 0 then putShortMSB (adler (strm s) AND 0xffff) (putShortMSB (drop_bit 16 (adler (strm s))) s) else s)
    in set_adler adler_init s)"

definition start_header :: "deflate_state \<Rightarrow> deflate_state option" where
  "start_header s =
    (if status s = INIT_STATE then (if wrap_of s = 2 then gzip_header s else Some (zlib_header s)) else Some s)"

section \<open>The fields of a gzip header\<close>

text \<open>The check value of what has been put since \<open>beg\<close>.\<close>

definition header_check :: "gz_header \<Rightarrow> nat \<Rightarrow> deflate_state \<Rightarrow> deflate_state option" where
  "header_check h beg s =
    (if hcrc_flag h \<and> length (pending s) > beg then do {
       c \<leftarrow> crc_of (adler (strm s)) (drop beg (pending s));
       Some (set_adler c s) }
     else Some s)"

text \<open>When the buffer is full, flush; the result says whether it still is, and where the next bytes begin.\<close>

definition make_room :: "gz_header \<Rightarrow> nat \<Rightarrow> deflate_state \<Rightarrow> (bool \<times> nat \<times> deflate_state) option" where
  "make_room h beg s =
    (if length (pending s) = pending_buf_size s then do {
       s \<leftarrow> header_check h beg s;
       let s = flush_pending s;
       Some (length (pending s) = pending_buf_size s, length (pending s), s) }
     else Some (False, beg, s))"

lemma make_room_gzindex: "make_room h beg s = Some (full, beg', t) \<Longrightarrow> gzindex t = gzindex s"
  by (auto simp: make_room_def header_check_def flush_pending_def set_adler_def Let_def split: if_splits bind_splits)

function extra_loop :: "gz_header \<Rightarrow> byte list \<Rightarrow> nat \<Rightarrow> deflate_state \<Rightarrow> (nat \<times> deflate_state) option" where
  "extra_loop h field beg s =
    (if gzindex s < unat (extra_len h AND 0xffff) then
       (case make_room h beg s of
         None \<Rightarrow> None
       | Some (full, beg', t) \<Rightarrow>
           if full then Some (beg', t)
           else (case peek field (gzindex t) of
               None \<Rightarrow> None
             | Some c \<Rightarrow> extra_loop h field beg' (put_byte c t \<lparr> gzindex := gzindex t + 1 \<rparr>)))
     else Some (beg, s))"
  by pat_completeness auto
termination
  by (relation "measure (\<lambda>(h, field, beg, s). unat (extra_len h AND 0xffff) - gzindex s)")
    (auto dest: make_room_gzindex simp: put_byte_def)

declare extra_loop.simps [simp del]

definition do_extra_field :: "deflate_state \<Rightarrow> deflate_state option" where
  "do_extra_field s =
    (if status s = EXTRA_STATE then do {
       h \<leftarrow> gzhead s;
       case extra h of
         None \<Rightarrow> Some (s \<lparr> status := NAME_STATE \<rparr>)
       | Some field \<Rightarrow> do {
           (beg, s) \<leftarrow> extra_loop h field (length (pending s)) s;
           s \<leftarrow> header_check h beg s;
           Some (if gzindex s = unat (extra_len h) then s \<lparr> gzindex := 0, status := NAME_STATE \<rparr> else s) } }
     else Some s)"

text \<open>A string with its zero; the result says whether the zero has been put.\<close>

function string_loop :: "gz_header \<Rightarrow> byte list \<Rightarrow> nat \<Rightarrow> deflate_state \<Rightarrow> (bool \<times> nat \<times> deflate_state) option" where
  "string_loop h str beg s =
    (case make_room h beg s of
      None \<Rightarrow> None
    | Some (full, beg', t) \<Rightarrow>
        if full then Some (False, beg', t)
        else (case peek str (gzindex t) of
            None \<Rightarrow> None
          | Some c \<Rightarrow>
              let u = put_byte c t \<lparr> gzindex := gzindex t + 1 \<rparr> in
              if c \<noteq> 0 then string_loop h str beg' u else Some (True, beg', u)))"
  by pat_completeness auto
termination
  by (relation "measure (\<lambda>(h, str, beg, s). length str - gzindex s)")
    (auto dest: make_room_gzindex simp: put_byte_def peek_Some_iff)

declare string_loop.simps [simp del]

definition do_string_field :: "(gz_header \<Rightarrow> byte list option) \<Rightarrow> deflate_status \<Rightarrow> deflate_status \<Rightarrow> bool \<Rightarrow> deflate_state \<Rightarrow> deflate_state option" where
  "do_string_field field here after clear s =
    (if status s = here then do {
       h \<leftarrow> gzhead s;
       case field h of
         None \<Rightarrow> Some (s \<lparr> status := after \<rparr>)
       | Some str \<Rightarrow> do {
           (ended, beg, s) \<leftarrow> string_loop h str (length (pending s)) s;
           s \<leftarrow> header_check h beg s;
           Some (if ended then (if clear then s \<lparr> gzindex := 0, status := after \<rparr> else s \<lparr> status := after \<rparr>) else s) } }
     else Some s)"

definition do_hcrc_field :: "deflate_state \<Rightarrow> deflate_state option" where
  "do_hcrc_field s =
    (if status s = HCRC_STATE then do {
       h \<leftarrow> gzhead s;
       Some (if hcrc_flag h then
           let s = (if length (pending s) + 2 > pending_buf_size s then flush_pending s else s) in
           if length (pending s) + 2 \<le> pending_buf_size s then
             set_adler crc_init (put_all [ucast (adler (strm s)), ucast (drop_bit 8 (adler (strm s)))] s) \<lparr> status := BUSY_STATE \<rparr>
           else s
         else s \<lparr> status := BUSY_STATE \<rparr>) }
     else Some s)"

definition write_headers :: "deflate_state \<Rightarrow> deflate_state option" where
  "write_headers s = do {
    s \<leftarrow> start_header s;
    s \<leftarrow> do_extra_field s;
    s \<leftarrow> do_string_field name NAME_STATE COMMENT_STATE True s;
    s \<leftarrow> do_string_field comment COMMENT_STATE HCRC_STATE False s;
    do_hcrc_field s }"

section \<open>\<open>deflate\<close>\<close>

text \<open>The function returns a code, or goes on.\<close>

datatype progress = Return_Code int deflate_state | Go_On deflate_state

definition going_on :: "progress \<Rightarrow> (deflate_state \<Rightarrow> progress option) \<Rightarrow> progress option" where
  "going_on p f = (case p of Go_On s \<Rightarrow> f s | _ \<Rightarrow> Some p)"

definition ERR_RETURN :: "int \<Rightarrow> deflate_state \<Rightarrow> progress" where
  "ERR_RETURN err s = Return_Code err (set_msg err s)"

definition flush_headers :: "int \<Rightarrow> int \<Rightarrow> deflate_state \<Rightarrow> progress" where
  "flush_headers flush old_flush s =
    (if pending s \<noteq> [] then let s = flush_pending s in
       if avail_out (strm s) = 0 then Return_Code Z_OK (s \<lparr> last_flush := -1 \<rparr>) else Go_On s
     else if avail_in (strm s) = 0 \<and> flush \<le> old_flush \<and> flush \<noteq> Z_FINISH then ERR_RETURN Z_BUF_ERROR s
     else Go_On s)"

definition run_strategy :: "int \<Rightarrow> deflate_state \<Rightarrow> (block_state \<times> deflate_state) option" where
  "run_strategy flush s = do {
    c \<leftarrow> peek configuration_table (nat (level s));
    case func c of
      Deflate_Stored \<Rightarrow> deflate_stored flush s
    | Deflate_Fast \<Rightarrow> deflate_fast flush s
    | Deflate_Slow \<Rightarrow> deflate_slow flush s }"

definition end_of_flush :: "int \<Rightarrow> deflate_state \<Rightarrow> progress option" where
  "end_of_flush flush s = do {
    s \<leftarrow> (if flush = Z_PARTIAL_FLUSH then on_trees tr_align s
      else do {
        s \<leftarrow> on_trees (tr_stored_block [] 0 False) s;
        if flush = Z_FULL_FLUSH then CLEAR_HASH s else Some s });
    let s = flush_pending s;
    Some (if avail_out (strm s) = 0 then Return_Code Z_OK (s \<lparr> last_flush := -1 \<rparr>) else Go_On s) }"

definition compress_input :: "int \<Rightarrow> deflate_state \<Rightarrow> progress option" where
  "compress_input flush s =
    (if avail_in (strm s) \<noteq> 0 \<or> lookahead s \<noteq> 0 \<or> flush \<noteq> Z_NO_FLUSH \<and> status s \<noteq> FINISH_STATE then do {
       (b, s) \<leftarrow> run_strategy flush s;
       let s = (if b = finish_started \<or> b = finish_done then s \<lparr> status := FINISH_STATE \<rparr> else s);
       if b = need_more \<or> b = finish_started then
         Some (Return_Code Z_OK (if avail_out (strm s) = 0 then s \<lparr> last_flush := -1 \<rparr> else s))
       else if b = block_done then end_of_flush flush s
       else Some (Go_On s) }
     else Some (Go_On s))"

definition write_trailer :: "int \<Rightarrow> deflate_state \<Rightarrow> progress option" where
  "write_trailer flush s =
    (if flush \<noteq> Z_FINISH then Some (Return_Code Z_OK s)
     else if wrap_of s \<le> 0 then Some (Return_Code Z_STREAM_END s)
     else let
       s = (if wrap_of s = 2 then put_all (bytes_of (adler (strm s)) @ bytes_of (total_in (strm s))) s
         else putShortMSB (adler (strm s) AND 0xffff) (putShortMSB (drop_bit 16 (adler (strm s))) s));
       s = flush_pending s;
       s = s \<lparr> wrap_of := - wrap_of s \<rparr>
     in Some (Return_Code (if pending s \<noteq> [] then Z_OK else Z_STREAM_END) s))"

definition deflate_run :: "int \<Rightarrow> deflate_state \<Rightarrow> progress option" where
  "deflate_run flush s =
    (if \<not> next_out_set (strm s) \<or> \<not> next_in_set (strm s) \<and> avail_in (strm s) \<noteq> 0 \<or> status s = FINISH_STATE \<and> flush \<noteq> Z_FINISH
     then Some (ERR_RETURN Z_STREAM_ERROR s)
     else if avail_out (strm s) = 0 then Some (ERR_RETURN Z_BUF_ERROR s)
     else do {
       let old_flush = last_flush s;
       s \<leftarrow> write_headers (s \<lparr> last_flush := flush \<rparr>);
       going_on (flush_headers flush old_flush s) (\<lambda>s.
         if status s = FINISH_STATE \<and> avail_in (strm s) \<noteq> 0 then Some (ERR_RETURN Z_BUF_ERROR s)
         else do {
           p \<leftarrow> compress_input flush s;
           going_on p (write_trailer flush) }) })"

text \<open>The argument \<open>strm\<close>: it can be \<open>Z_NULL\<close>, and its \<open>state\<close> can. The result has what the call has written.\<close>

datatype deflate_arg = No_Stream | No_State z_stream | With_State deflate_state

definition deflate :: "int \<Rightarrow> deflate_arg \<Rightarrow> (int \<times> byte list \<times> deflate_arg) option" where
  "deflate flush arg = (case arg of
      With_State s \<Rightarrow>
        if flush > Z_FINISH \<or> flush < 0 then Some (Z_STREAM_ERROR, [], arg)
        else do {
          p \<leftarrow> deflate_run flush (s \<lparr> written := [] \<rparr>);
          case p of Return_Code r t \<Rightarrow> Some (r, written t, With_State t) | Go_On t \<Rightarrow> None }
    | _ \<Rightarrow> Some (Z_STREAM_ERROR, [], arg))"

section \<open>Setting up and resetting\<close>

definition stream_of :: "deflate_arg \<Rightarrow> z_stream option" where
  "stream_of arg = (case arg of No_Stream \<Rightarrow> None | No_State z \<Rightarrow> Some z | With_State s \<Rightarrow> Some (strm s))"

definition set_stream :: "z_stream \<Rightarrow> deflate_arg \<Rightarrow> deflate_arg" where
  "set_stream z arg = (case arg of With_State s \<Rightarrow> With_State (s \<lparr> strm := z \<rparr>) | _ \<Rightarrow> No_State z)"

definition reset_deflate :: "deflate_state \<Rightarrow> deflate_state option" where
  "reset_deflate s = do {
    let wr = abs (wrap_of s);
    let s = s \<lparr> strm := (strm s) \<lparr> total_in := 0, total_out := 0, msg := None,
          adler := (if wr = 2 then crc_init else adler_init) \<rparr>,
        data_type_of := Z_UNKNOWN, stale := pending_buf s, pending := [], pending_out := 0, wrap_of := wr,
        status := (if wr \<noteq> 0 then INIT_STATE else BUSY_STATE), last_flush := Z_NO_FLUSH \<rparr>;
    s \<leftarrow> on_trees tr_init s;
    lm_init s }"

definition deflateReset :: "deflate_arg \<Rightarrow> (int \<times> deflate_arg) option" where
  "deflateReset arg = (case arg of
      With_State s \<Rightarrow> map_option (\<lambda>s. (Z_OK, With_State s)) (reset_deflate s)
    | _ \<Rightarrow> Some (Z_STREAM_ERROR, arg))"

text \<open>An object of \<open>n\<close> bytes as an array of \<open>ush\<close>, in the byte order of the machine (which does not matter here).\<close>

fun shorts_of :: "byte list \<Rightarrow> ushort list" where
  "shorts_of (a # b # bs) = (ucast a + push_bit 8 (ucast b)) # shorts_of bs"
| "shorts_of _ = []"

definition init_wrap :: "int \<Rightarrow> int \<times> int" where
  "init_wrap windowBits =
    (if windowBits < 0 then (0, - windowBits) else if windowBits > 15 then (2, windowBits - 16) else (1, windowBits))"

definition level_of :: "int \<Rightarrow> int" where
  "level_of lv = (if lv = -1 then 6 else lv)"

definition MAX_MEM_LEVEL :: int where "MAX_MEM_LEVEL = 9"

text \<open>The fields that depend on the parameters; the objects are those that \<open>ZALLOC\<close> has given.\<close>

definition set_sizes :: "int \<Rightarrow> int \<Rightarrow> deflate_state \<Rightarrow> deflate_state" where
  "set_sizes windowBits memLevel s = (let wb = nat windowBits; hb = nat memLevel + 7 in
    s \<lparr> w_bits := wb, w_size := 2 ^ wb, w_mask := 2 ^ wb - 1,
      hash_bits := hb, hash_size := 2 ^ hb, hash_mask := push_bit hb 1 - 1, hash_shift := (hb + MIN_MATCH - 1) div MIN_MATCH,
      lit_bufsize := push_bit (nat memLevel + 6) 1, pending_buf_size := 2 ^ (nat memLevel + 6) * 4 \<rparr>)"

definition allocate :: "deflate_state \<Rightarrow> deflate_state option" where
  "allocate s = do {
    let alloc = zalloc (strm s);
    let n = unat (lit_bufsize s);
    w \<leftarrow> alloc (w_size s * 2);
    pv \<leftarrow> alloc (w_size s * 2);
    hd \<leftarrow> alloc (hash_size s * 2);
    overlay \<leftarrow> alloc (n * 4);
    Some (s \<lparr> buf_window := w, prev_of := shorts_of pv, head_of := shorts_of hd, stale := overlay, pending := [],
      d_buf := shorts_of (take (2 * n) (drop n overlay)), l_buf := drop (3 * n) overlay \<rparr>) }"

definition deflateInit2 :: "deflate_arg \<Rightarrow> int \<Rightarrow> uint \<Rightarrow> int \<Rightarrow> int \<Rightarrow> int \<Rightarrow> string option \<Rightarrow> bool \<Rightarrow> deflate_state option \<Rightarrow>
    (int \<times> deflate_arg) option" where
  "deflateInit2 arg lv method windowBits memLevel strat version size_ok fresh =
    (if version_bad version \<or> \<not> size_ok then Some (Z_VERSION_ERROR, arg)
     else case stream_of arg of
       None \<Rightarrow> Some (Z_STREAM_ERROR, arg)
     | Some z \<Rightarrow> let
         z = z \<lparr> msg := None \<rparr>;
         lv = level_of lv;
         (wr, windowBits) = init_wrap windowBits
       in
         if memLevel < 1 \<or> memLevel > MAX_MEM_LEVEL \<or> method \<noteq> Z_DEFLATED \<or> windowBits < 8 \<or> windowBits > 15 \<or>
             lv < 0 \<or> lv > 9 \<or> strat < 0 \<or> strat > Z_FIXED then Some (Z_STREAM_ERROR, set_stream z arg)
         else let windowBits = (if windowBits = 8 then 9 else windowBits) in
           case fresh of
             None \<Rightarrow> Some (Z_MEM_ERROR, set_stream z arg)
           | Some f \<Rightarrow>
               (case allocate (set_sizes windowBits memLevel (f \<lparr> strm := z, wrap_of := wr, gzhead := None \<rparr>)) of
                 None \<Rightarrow> Some (Z_MEM_ERROR, No_State (z \<lparr> msg := Some (ERR_MSG Z_MEM_ERROR) \<rparr>))
               | Some s \<Rightarrow> deflateReset (With_State (s \<lparr> level := lv, strategy := strat \<rparr>))))"

definition MAX_WBITS :: int where "MAX_WBITS = 15"
definition DEF_MEM_LEVEL :: int where "DEF_MEM_LEVEL = 8"
definition Z_DEFAULT_STRATEGY :: int where "Z_DEFAULT_STRATEGY = 0"
definition Z_DEFAULT_COMPRESSION :: int where "Z_DEFAULT_COMPRESSION = -1"

definition deflateInit :: "deflate_arg \<Rightarrow> int \<Rightarrow> string option \<Rightarrow> bool \<Rightarrow> deflate_state option \<Rightarrow> (int \<times> deflate_arg) option" where
  "deflateInit arg lv = deflateInit2 arg lv Z_DEFLATED MAX_WBITS DEF_MEM_LEVEL Z_DEFAULT_STRATEGY"

section \<open>The other functions on the stream\<close>

text \<open>The strings of a dictionary from the index \<open>i\<close> on, \<open>k\<close> of them.\<close>

fun insert_dictionary :: "nat \<Rightarrow> nat \<Rightarrow> deflate_state \<Rightarrow> deflate_state option" where
  "insert_dictionary i 0 s = Some s"
| "insert_dictionary i (Suc k) s = do { (m, s) \<leftarrow> INSERT_STRING i s; insert_dictionary (i + 1) k s }"

definition set_dictionary :: "byte list \<Rightarrow> deflate_state \<Rightarrow> deflate_state option" where
  "set_dictionary dict s =
    (if length dict < MIN_MATCH then Some s
     else do {
       let n = min (length dict) (MAX_DIST s);
       w \<leftarrow> store_bytes (buf_window s) 0 (drop (length dict - n) dict);
       let s = s \<lparr> buf_window := w, strstart := n, block_start := int n \<rparr>;
       a \<leftarrow> peek w 0;
       b \<leftarrow> peek w 1;
       insert_dictionary 0 (n - MIN_MATCH + 1) (s \<lparr> ins_h := UPDATE_HASH s (ucast a) b \<rparr>) })"

definition deflateSetDictionary :: "deflate_arg \<Rightarrow> byte list option \<Rightarrow> (int \<times> deflate_arg) option" where
  "deflateSetDictionary arg dictionary = (case (arg, dictionary) of
      (With_State s, Some dict) \<Rightarrow>
        if wrap_of s = 2 \<or> wrap_of s = 1 \<and> status s \<noteq> INIT_STATE then Some (Z_STREAM_ERROR, arg)
        else do {
          c \<leftarrow> (if wrap_of s \<noteq> 0 then adler32_update (adler (strm s)) dict else Some (adler (strm s)));
          s \<leftarrow> set_dictionary dict (set_adler c s);
          Some (Z_OK, With_State s) }
    | _ \<Rightarrow> Some (Z_STREAM_ERROR, arg))"

definition deflateSetHeader :: "deflate_arg \<Rightarrow> gz_header \<Rightarrow> int \<times> deflate_arg" where
  "deflateSetHeader arg h = (case arg of
      With_State s \<Rightarrow> if wrap_of s \<noteq> 2 then (Z_STREAM_ERROR, arg) else (Z_OK, With_State (s \<lparr> gzhead := Some h \<rparr>))
    | _ \<Rightarrow> (Z_STREAM_ERROR, arg))"

definition deflatePrime :: "deflate_arg \<Rightarrow> nat \<Rightarrow> uint \<Rightarrow> int \<times> deflate_arg" where
  "deflatePrime arg n v = (case arg of
      With_State s \<Rightarrow> (Z_OK, With_State (s \<lparr> bi_valid := n, bi_buf := ucast (v AND (push_bit n 1 - 1)) \<rparr>))
    | _ \<Rightarrow> (Z_STREAM_ERROR, arg))"

definition change_params :: "int \<Rightarrow> int \<Rightarrow> deflate_state \<Rightarrow> deflate_state option" where
  "change_params lv strat s = do {
    s \<leftarrow> (if level s \<noteq> lv then set_config (nat lv) (s \<lparr> level := lv \<rparr>) else Some s);
    Some (s \<lparr> strategy := strat \<rparr>) }"

definition deflateParams :: "deflate_arg \<Rightarrow> int \<Rightarrow> int \<Rightarrow> (int \<times> byte list \<times> deflate_arg) option" where
  "deflateParams arg lv strat = (case arg of
      With_State s \<Rightarrow> let lv = level_of lv in
        if lv < 0 \<or> lv > 9 \<or> strat < 0 \<or> strat > Z_FIXED then Some (Z_STREAM_ERROR, [], arg)
        else do {
          old \<leftarrow> peek configuration_table (nat (level s));
          new \<leftarrow> peek configuration_table (nat lv);
          (err, out, arg) \<leftarrow> (if func old \<noteq> func new \<and> total_in (strm s) \<noteq> 0 then deflate Z_PARTIAL_FLUSH arg
            else Some (Z_OK, [], arg));
          case arg of
            With_State s \<Rightarrow> map_option (\<lambda>s. (err, out, With_State s)) (change_params lv strat s)
          | _ \<Rightarrow> None }
    | _ \<Rightarrow> Some (Z_STREAM_ERROR, [], arg))"

definition deflateTune :: "deflate_arg \<Rightarrow> uint \<Rightarrow> uint \<Rightarrow> int \<Rightarrow> uint \<Rightarrow> int \<times> deflate_arg" where
  "deflateTune arg good lazy nice chain = (case arg of
      With_State s \<Rightarrow> (Z_OK, With_State (s \<lparr> good_match := unat good, max_lazy_match := unat lazy, nice_match := nice,
        max_chain_length := chain \<rparr>))
    | _ \<Rightarrow> (Z_STREAM_ERROR, arg))"

definition compressBound :: "ulong \<Rightarrow> ulong" where
  "compressBound n = n + drop_bit 12 n + drop_bit 14 n + 11"

definition deflateBound :: "deflate_arg \<Rightarrow> ulong \<Rightarrow> ulong" where
  "deflateBound arg n = (let destLen = n + drop_bit 3 (n + 7) + drop_bit 6 (n + 63) + 11 in
    case arg of
      With_State s \<Rightarrow> if w_bits s \<noteq> 15 \<or> hash_bits s \<noteq> 8 + 7 then destLen else compressBound n
    | _ \<Rightarrow> destLen)"

definition deflateEnd :: "deflate_arg \<Rightarrow> int \<times> deflate_arg" where
  "deflateEnd arg = (case arg of
      With_State s \<Rightarrow> (if status s = BUSY_STATE then Z_DATA_ERROR else Z_OK, No_State (strm s))
    | _ \<Rightarrow> (Z_STREAM_ERROR, arg))"

text \<open>The copy of a state: every object of its own, with the same contents.\<close>

definition copy_objects :: "deflate_state \<Rightarrow> deflate_state option" where
  "copy_objects s = do {
    let alloc = zalloc (strm s);
    w \<leftarrow> alloc (w_size s * 2);
    pv \<leftarrow> alloc (w_size s * 2);
    hd \<leftarrow> alloc (hash_size s * 2);
    overlay \<leftarrow> alloc (unat (lit_bufsize s) * 4);
    Some s }"

definition deflateCopy :: "deflate_arg \<Rightarrow> deflate_arg \<Rightarrow> bool \<Rightarrow> int \<times> deflate_arg" where
  "deflateCopy dest source got = (case (dest, source) of
      (No_Stream, _) \<Rightarrow> (Z_STREAM_ERROR, dest)
    | (_, With_State s) \<Rightarrow>
        if \<not> got then (Z_MEM_ERROR, source)
        else (case copy_objects s of
          None \<Rightarrow> (Z_MEM_ERROR, No_State (strm s))
        | Some t \<Rightarrow> (Z_OK, With_State t))
    | _ \<Rightarrow> (Z_STREAM_ERROR, dest))"

section \<open>Compressing in one call\<close>

text \<open>The locals of \<open>compress2\<close>: \<open>alloc\<close> is \<open>zcalloc\<close>, \<open>fresh\<close> the object for the state, and \<open>z\<close> the uninitialised stream.\<close>

definition compress2 :: "z_stream \<Rightarrow> (nat \<Rightarrow> byte list option) \<Rightarrow> deflate_state option \<Rightarrow> nat \<Rightarrow> byte list \<Rightarrow> int \<Rightarrow>
    (int \<times> (byte list \<times> ulong) option) option" where
  "compress2 z alloc fresh destLen source lv = do {
    let z = z \<lparr> next_in := source, next_in_set := True, next_out_set := True, avail_out := destLen, zalloc := alloc \<rparr>;
    (err, arg) \<leftarrow> deflateInit (No_State z) lv (Some ZLIB_VERSION) True fresh;
    if err \<noteq> Z_OK then Some (err, None)
    else do {
      (err, out, arg) \<leftarrow> deflate Z_FINISH arg;
      z \<leftarrow> stream_of arg;
      if err \<noteq> Z_STREAM_END then Some (if err = Z_OK then Z_BUF_ERROR else err, None)
      else Some (fst (deflateEnd arg), Some (out, total_out z)) } }"

definition compress :: "z_stream \<Rightarrow> (nat \<Rightarrow> byte list option) \<Rightarrow> deflate_state option \<Rightarrow> nat \<Rightarrow> byte list \<Rightarrow>
    (int \<times> (byte list \<times> ulong) option) option" where
  "compress z alloc fresh destLen source = compress2 z alloc fresh destLen source Z_DEFAULT_COMPRESSION"

end
