(* ===== verification/Deflate_Search.thy ===== *)
theory Deflate_Search
  imports Deflate_Match
begin

text \<open>
  What the search for matches finds. The hash of three bytes determines the third when the first two are equal; the
  chains hold only strings of the same hash; so what \<open>longest_match\<close> returns is a match, though it never compares the
  third byte.
\<close>

section \<open>Matches\<close>

definition same_bytes :: "byte list \<Rightarrow> nat \<Rightarrow> nat \<Rightarrow> nat \<Rightarrow> bool" where
  "same_bytes w i j n \<longleftrightarrow> (\<forall>k<n. w ! (i + k) = w ! (j + k))"

lemma same_bytes_less: "same_bytes w i j n \<Longrightarrow> m \<le> n \<Longrightarrow> same_bytes w i j m"
  by (simp add: same_bytes_def)

lemma same_bytes_nth: "same_bytes w i j n \<Longrightarrow> k < n \<Longrightarrow> w ! (i + k) = w ! (j + k)"
  by (simp add: same_bytes_def)

text \<open>The comparison goes up to the first difference behind the third byte, or to \<open>MAX_MATCH\<close>.\<close>

lemma compare_steps_inv:
  assumes "compare_steps w scan mt n k = Some (k', equal)"
  shows "k \<le> k' \<and> k' \<le> k + n \<and> (equal \<longrightarrow> k' = k + n) \<and> (\<not> equal \<longrightarrow> k < k' \<and> w ! (scan + k') \<noteq> w ! (mt + k')) \<and>
    (\<forall>i. k < i \<and> i < k' \<or> i = k' \<and> equal \<and> k < k' \<longrightarrow> w ! (scan + i) = w ! (mt + i))"
  using assms
proof (induction n arbitrary: k)
  case (Suc n)
  then obtain ab: "scan + k + 1 < length w" "mt + k + 1 < length w" by (auto simp: peek_Some_iff split: bind_splits)
  show ?case
  proof (cases "w ! (scan + k + 1) = w ! (mt + k + 1)")
    case True
    then have "compare_steps w scan mt n (k + 1) = Some (k', equal)" using Suc.prems ab by simp
    note IH = Suc.IH [OF this]
    have "w ! (scan + i) = w ! (mt + i)" if "k < i \<and> i < k' \<or> i = k' \<and> equal \<and> k < k'" for i
    proof (cases "i = k + 1")
      case False
      then have "k + 1 < i \<and> i < k' \<or> i = k' \<and> equal \<and> k + 1 < k'" using that by auto
      then show ?thesis using IH by blast
    qed (use True in \<open>simp add: add.assoc\<close>)
    then show ?thesis using IH by auto
  next
    case False
    then have "k' = k + 1 \<and> \<not> equal" using Suc.prems ab by (simp split: if_splits)
    then show ?thesis using False by (auto simp: add.assoc)
  qed
qed auto

lemma compare_steps_total:
  "scan + k + n < length w \<Longrightarrow> mt + k + n < length w \<Longrightarrow> \<exists>r. compare_steps w scan mt n k = Some r"
  by (induction n arbitrary: k) auto

lemma compare_loop_inv:
  assumes "compare_loop w scan mt k = Some n" "k \<le> MAX_MATCH" "8 dvd MAX_MATCH - k" "k < MAX_MATCH"
  shows "k < n \<and> n \<le> MAX_MATCH \<and> (\<forall>i. k < i \<and> i < n \<longrightarrow> w ! (scan + i) = w ! (mt + i)) \<and>
    (n < MAX_MATCH \<longrightarrow> w ! (scan + n) \<noteq> w ! (mt + n))"
  using assms
proof (induction w scan mt k rule: compare_loop.induct)
  case (1 w scan mt k)
  obtain k' equal where st: "compare_steps w scan mt 8 k = Some (k', equal)"
    using "1.prems"(1) by (subst (asm) compare_loop.simps) (auto split: option.splits)
  note inv = compare_steps_inv [OF st]
  have le: "k + 8 \<le> MAX_MATCH" using "1.prems"(3,4) dvd_imp_le [of 8 "MAX_MATCH - k"] by linarith
  show ?case
  proof (cases "equal \<and> k' < MAX_MATCH")
    case True
    then have k': "k' = k + 8" using inv by simp
    have n: "compare_loop w scan mt k' = Some n"
      using "1.prems"(1) st True by (subst (asm) compare_loop.simps) simp
    have "8 dvd MAX_MATCH - k'" using "1.prems"(3) unfolding k' by (simp flip: diff_diff_left add: dvd_diff_nat)
    from "1.IH" [OF st refl True n _ this] True have
      IH: "k' < n \<and> n \<le> MAX_MATCH \<and> (\<forall>i. k' < i \<and> i < n \<longrightarrow> w ! (scan + i) = w ! (mt + i)) \<and>
        (n < MAX_MATCH \<longrightarrow> w ! (scan + n) \<noteq> w ! (mt + n))" by simp
    have "w ! (scan + i) = w ! (mt + i)" if "k < i" "i < n" for i
      using that IH inv True k' by (cases "k' < i"; cases "i = k'") auto
    then show ?thesis using IH k' by auto
  next
    case False
    then have "n = k'" using "1.prems"(1) st by (subst (asm) compare_loop.simps) auto
    then show ?thesis using inv False le by auto
  qed
qed

lemma compare_loop_total:
  assumes "scan + MAX_MATCH < length w" "mt + MAX_MATCH < length w" "8 dvd MAX_MATCH - k" "k < MAX_MATCH"
  shows "\<exists>n. compare_loop w scan mt k = Some n"
  using assms
proof (induction w scan mt k rule: compare_loop.induct)
  case (1 w scan mt k)
  have le: "k + 8 \<le> MAX_MATCH" using "1.prems"(3,4) dvd_imp_le [of 8 "MAX_MATCH - k"] by linarith
  obtain k' equal where st: "compare_steps w scan mt 8 k = Some (k', equal)"
    using compare_steps_total [of scan k 8 w mt] "1.prems"(1,2) le by auto
  show ?case
  proof (cases "equal \<and> k' < MAX_MATCH")
    case True
    then have k': "k' = k + 8" using compare_steps_inv [OF st] by simp
    have "8 dvd MAX_MATCH - k'" using "1.prems"(3) unfolding k' by (simp flip: diff_diff_left add: dvd_diff_nat)
    from "1.IH" [OF st refl True "1.prems"(1,2) this] True show ?thesis
      using st by (subst compare_loop.simps) simp
  qed (use st in \<open>subst compare_loop.simps, auto\<close>)
qed

lemma compare_from_2:
  assumes "compare_loop w scan mt 2 = Some n"
  shows "2 < n" "n \<le> MAX_MATCH" "\<And>i. 2 < i \<Longrightarrow> i < n \<Longrightarrow> w ! (scan + i) = w ! (mt + i)"
    "n < MAX_MATCH \<Longrightarrow> w ! (scan + n) \<noteq> w ! (mt + n)"
  using compare_loop_inv [OF assms] by (simp_all add: MAX_MATCH_def)

section \<open>The hash\<close>

text \<open>The fields that stay as \<open>deflateInit2\<close> sets them.\<close>

definition sizes_ok :: "deflate_state \<Rightarrow> bool" where
  "sizes_ok s \<longleftrightarrow> 9 \<le> w_bits s \<and> w_bits s \<le> 15 \<and> w_size s = 2 ^ w_bits s \<and> w_mask s = 2 ^ w_bits s - 1 \<and>
    window_size s = 2 * w_size s \<and> length (buf_window s) = 2 * w_size s \<and> length (prev_of s) = w_size s \<and>
    8 \<le> hash_bits s \<and> hash_bits s \<le> 16 \<and> hash_size s = 2 ^ hash_bits s \<and> hash_mask s = mask (hash_bits s) \<and>
    hash_bits s \<le> 3 * hash_shift s \<and> length (head_of s) = hash_size s"

definition hash3 :: "deflate_state \<Rightarrow> nat \<Rightarrow> uint" where
  "hash3 s i = UPDATE_HASH s (UPDATE_HASH s (ucast (buf_window s ! i)) (buf_window s ! (i + 1))) (buf_window s ! (i + 2))"

lemma bit_UPDATE_HASH:
  "sizes_ok s \<Longrightarrow> bit (UPDATE_HASH s h c) n \<longleftrightarrow>
    n < hash_bits s \<and> ((hash_shift s \<le> n \<and> bit h (n - hash_shift s)) \<noteq> bit c n)"
  by (auto simp: UPDATE_HASH_def sizes_ok_def bit_simps)

lemma UPDATE_HASH_less:
  assumes "sizes_ok s" shows "unat (UPDATE_HASH s h c) < hash_size s"
proof -
  have "UPDATE_HASH s h c = take_bit (hash_bits s) (push_bit (hash_shift s) h XOR ucast c)"
    using assms by (simp only: UPDATE_HASH_def sizes_ok_def take_bit_eq_mask)
  then show ?thesis using assms by (simp only: unat_take_bit_less sizes_ok_def)
qed

text \<open>The oldest byte has left the hash after three steps.\<close>

lemma hash3_rolls:
  "sizes_ok s \<Longrightarrow> UPDATE_HASH s (hash3 s i) (buf_window s ! (i + 3)) = hash3 s (i + 1)"
  unfolding hash3_def
  by (rule bit_word_eqI) (auto simp: bit_UPDATE_HASH bit_simps numeral_eq_Suc sizes_ok_def)

lemma hash3_third:
  assumes "sizes_ok s" "hash3 s i = hash3 s j" "buf_window s ! i = buf_window s ! j" "buf_window s ! (i + 1) = buf_window s ! (j + 1)"
  shows "buf_window s ! (i + 2) = buf_window s ! (j + 2)"
proof (rule bit_word_eqI)
  fix n assume "n < LENGTH(8)"
  then have "n < hash_bits s" using assms(1) by (simp add: sizes_ok_def)
  moreover have "bit (hash3 s i) n = bit (hash3 s j) n" using assms(2) by simp
  ultimately show "bit (buf_window s ! (i + 2)) n = bit (buf_window s ! (j + 2)) n"
    using assms(1,3,4) unfolding hash3_def by (auto simp: bit_UPDATE_HASH)
qed

lemma hash3_cong:
  "hash_shift s = hash_shift t \<Longrightarrow> hash_mask s = hash_mask t \<Longrightarrow> buf_window s ! i = buf_window t ! j \<Longrightarrow>
    buf_window s ! (i + 1) = buf_window t ! (j + 1) \<Longrightarrow> buf_window s ! (i + 2) = buf_window t ! (j + 2) \<Longrightarrow> hash3 s i = hash3 t j"
  by (simp add: hash3_def UPDATE_HASH_def)

section \<open>The chains\<close>

text \<open>
  \<open>chains I n e s\<close>: the strings of the set \<open>I\<close>, all before \<open>n\<close> and inside of what has been read up to \<open>e\<close>, are in the chains. A head or a link
  that is not zero is a string of \<open>I\<close> with the hash of its chain; links are only looked at less than a window's size behind \<open>n\<close>.
\<close>

definition read_end :: "deflate_state \<Rightarrow> nat" where
  "read_end s = strstart s + lookahead s"

definition chains :: "nat set \<Rightarrow> nat \<Rightarrow> nat \<Rightarrow> deflate_state \<Rightarrow> bool" where
  "chains I n e s \<longleftrightarrow>
    (\<forall>p\<in>I. p < n \<and> p + MIN_MATCH \<le> e) \<and>
    (\<forall>h < hash_size s. let p = unat (head_of s ! h) in p \<noteq> 0 \<longrightarrow> p \<in> I \<and> unat (hash3 s p) = h) \<and>
    (\<forall>p\<in>I. n \<le> p + w_size s \<longrightarrow>
      (let q = unat (prev_of s ! (p mod w_size s)) in q \<noteq> 0 \<longrightarrow> q \<in> I \<and> q < p \<and> hash3 s q = hash3 s p))"

lemma chainsD:
  assumes "chains I n e s"
  shows "p \<in> I \<Longrightarrow> p < n" "p \<in> I \<Longrightarrow> p + MIN_MATCH \<le> e"
    "h < hash_size s \<Longrightarrow> unat (head_of s ! h) \<noteq> 0 \<Longrightarrow> unat (head_of s ! h) \<in> I \<and> unat (hash3 s (unat (head_of s ! h))) = h"
    "p \<in> I \<Longrightarrow> n \<le> p + w_size s \<Longrightarrow> unat (prev_of s ! (p mod w_size s)) \<noteq> 0 \<Longrightarrow>
      unat (prev_of s ! (p mod w_size s)) \<in> I \<and> unat (prev_of s ! (p mod w_size s)) < p \<and>
      hash3 s (unat (prev_of s ! (p mod w_size s))) = hash3 s p"
  using assms unfolding chains_def Let_def by blast+

lemma chains_later: "chains I n e s \<Longrightarrow> n \<le> m \<Longrightarrow> chains I m e s"
  unfolding chains_def Let_def by (meson le_trans less_le_trans)

lemma w_mask_mod: "sizes_ok s \<Longrightarrow> i AND w_mask s = i mod w_size s"
  by (simp only: sizes_ok_def mask_eq_exp_minus_1 [symmetric] take_bit_eq_mask [symmetric] take_bit_eq_mod)

lemma MAX_DIST_value: "sizes_ok s \<Longrightarrow> MAX_DIST s = w_size s - 262 \<and> 512 \<le> w_size s \<and> w_size s \<le> 32768"
proof -
  assume ok: "sizes_ok s"
  have "(2::nat) ^ 9 \<le> 2 ^ w_bits s" "(2::nat) ^ w_bits s \<le> 2 ^ 15"
    using ok by (intro power_increasing; simp add: sizes_ok_def)+
  then have "512 \<le> w_size s" "w_size s \<le> 32768" using ok by (simp_all add: sizes_ok_def)
  then show ?thesis by (simp add: MAX_DIST_def MIN_LOOKAHEAD_def MIN_MATCH_def MAX_MATCH_def)
qed

section \<open>The search\<close>

text \<open>The best match so far, from a start with the length \<open>l\<close>.\<close>

definition good_best :: "nat set \<Rightarrow> deflate_state \<Rightarrow> nat \<Rightarrow> nat \<Rightarrow> best_match \<Rightarrow> bool" where
  "good_best I s l start m \<longleftrightarrow>
    (if best_len m = l then best_start m = start
     else l < best_len m \<and> best_len m \<le> MAX_MATCH \<and> best_start m \<in> I \<and> best_start m < strstart s \<and>
       strstart s \<le> best_start m + MAX_DIST s \<and> best_start m \<noteq> 0 \<and> same_bytes (buf_window s) (strstart s) (best_start m) (best_len m))"

lemma candidate_matches:
  assumes "match_candidate (buf_window s) (strstart s) cur best e1 e0 = Some (Some n)"
    "sizes_ok s" "hash3 s cur = hash3 s (strstart s)"
  shows "2 < n" "n \<le> MAX_MATCH" "same_bytes (buf_window s) (strstart s) cur n"
proof -
  let ?w = "buf_window s"
  have eq: "?w ! cur = ?w ! strstart s" "?w ! (cur + 1) = ?w ! (strstart s + 1)"
    and l: "compare_loop ?w (strstart s) cur 2 = Some n"
    using assms(1) by (auto simp: match_candidate_def peek_Some_iff split: bind_splits if_splits)
  note c = compare_from_2 [OF l]
  have third: "?w ! (cur + 2) = ?w ! (strstart s + 2)" by (rule hash3_third [OF assms(2,3) eq])
  show "2 < n" "n \<le> MAX_MATCH" by (rule c(1), rule c(2))
  have "?w ! (strstart s + k) = ?w ! (cur + k)" if "k < n" for k
  proof -
    consider "k = 0" | "k = 1" | "k = 2" | "2 < k" by linarith
    then show ?thesis using eq third c(3) [of k] that by cases simp_all
  qed
  then show "same_bytes ?w (strstart s) cur n" by (simp add: same_bytes_def)
qed

lemma match_round_good:
  assumes "match_round (buf_window s) (strstart s) nice cur m = Some (stop, m')" "good_best I s l start m"
    "sizes_ok s" "hash3 s cur = hash3 s (strstart s)" "cur \<in> I" "cur < strstart s" "strstart s \<le> cur + MAX_DIST s" "cur \<noteq> 0"
  shows "good_best I s l start m'"
proof -
  obtain c where c: "match_candidate (buf_window s) (strstart s) cur (best_len m) (scan_end1 m) (scan_end m) = Some c"
    using assms(1) by (auto simp: match_round_def split: bind_splits)
  show ?thesis
  proof (cases "\<exists>n. c = Some n \<and> best_len m < n")
    case True
    then obtain n where n: "c = Some n" "best_len m < n" by blast
    note cm = candidate_matches [OF c [unfolded n(1)] assms(3,4)]
    have m': "best_len m' = n \<and> best_start m' = cur"
      using assms(1) c n by (auto simp: match_round_def Let_def split: bind_splits if_splits)
    have "l < n" using assms(2) n(2) by (auto simp: good_best_def split: if_splits)
    then show ?thesis using m' cm assms(5-8) by (simp add: good_best_def)
  next
    case False
    then have "m' = m" using assms(1) c by (auto simp: match_round_def split: option.splits)
    then show ?thesis using assms(2) by simp
  qed
qed

lemma match_loop_good:
  assumes "match_loop s (match_limit s) nice cur chain m = Some r" "good_best I s l start m"
    "sizes_ok s" "chains I (strstart s + 1) e s" "cur \<in> I" "cur < strstart s" "cur \<noteq> 0" "strstart s \<le> cur + MAX_DIST s" "hash3 s cur = hash3 s (strstart s)"
  shows "good_best I s l start r"
  using assms
proof (induction s "match_limit s" nice cur chain m rule: match_loop.induct)
  case (1 s nice cur chain m)
  obtain stop m' where r: "match_round (buf_window s) (strstart s) nice cur m = Some (stop, m')"
    using "1.prems"(1) by (subst (asm) match_loop.simps) (auto split: option.splits)
  note good = match_round_good [OF r "1.prems"(2,3,9,5,6,8,7)]
  show ?case
  proof (cases "stop")
    case True
    then show ?thesis using "1.prems"(1) r good by (subst (asm) match_loop.simps) simp
  next
    case False
    obtain p where p: "peek (prev_of s) (cur AND w_mask s) = Some p"
      using "1.prems"(1) r False by (subst (asm) match_loop.simps) (auto split: option.splits)
    show ?thesis
    proof (cases "unat p > match_limit s \<and> chain - 1 \<noteq> 0")
      case True
      note md = MAX_DIST_value [OF "1.prems"(3)]
      have lim: "strstart s + 1 \<le> cur + w_size s" using "1.prems"(8) md by linarith
      have q: "p = prev_of s ! (cur mod w_size s)" using p by (simp add: peek_Some_iff w_mask_mod [OF "1.prems"(3)])
      have "unat p \<noteq> 0" using True by linarith
      from chainsD(4) [OF "1.prems"(4,5) lim] this
      have link: "unat p \<in> I" "unat p < cur" "hash3 s (unat p) = hash3 s cur" unfolding q by auto
      have far: "strstart s \<le> unat p + MAX_DIST s" using True by (auto simp: match_limit_def split: if_splits)
      have "match_loop s (match_limit s) nice (unat p) (chain - 1) m' = Some r"
        using "1.prems"(1) r False p True by (subst (asm) match_loop.simps) simp
      from "1.hyps" [OF r refl False p True this good "1.prems"(3,4) link(1) _ _ far] link(2,3) True "1.prems"(6,9)
      show ?thesis by simp
    next
      case stop: False
      then have "r = m'" using "1.prems"(1) r False p by (subst (asm) match_loop.simps) (auto split: if_splits)
      then show ?thesis using good by simp
    qed
  qed
qed

text \<open>
  The result of \<open>longest_match\<close> is at most the lookahead. When it is more than \<open>prev_length\<close>, \<open>match_start\<close> is the
  start of a match of that length, in reach.
\<close>

definition found_match :: "nat \<Rightarrow> nat \<Rightarrow> deflate_state \<Rightarrow> bool" where
  "found_match start n s \<longleftrightarrow> n \<le> MAX_MATCH \<and> n \<le> lookahead s \<and> 0 < start \<and> start < strstart s \<and> strstart s \<le> start + MAX_DIST s \<and>
    same_bytes (buf_window s) (strstart s) start n"

lemma longest_match_found:
  assumes "longest_match cur s = Some (n, t)" "sizes_ok s" "chains I (strstart s + 1) e s" "cur \<in> I" "cur < strstart s" "cur \<noteq> 0"
    "strstart s \<le> cur + MAX_DIST s" "hash3 s cur = hash3 s (strstart s)"
  shows "\<exists>start. t = s \<lparr> match_start := start \<rparr> \<and> n \<le> lookahead s \<and> (prev_length s < n \<longrightarrow> found_match start n s)"
proof -
  obtain e1 e nice chain m where
    m: "match_loop s (match_limit s) nice cur chain
      \<lparr> best_len = prev_length s, best_start = match_start s, scan_end1 = e1, scan_end = e \<rparr> = Some m" and
    n: "n = (if best_len m \<le> lookahead s then best_len m else lookahead s)" and t: "t = s \<lparr> match_start := best_start m \<rparr>"
    using assms(1) by (auto simp: longest_match_def Let_def split: bind_splits if_splits)
  have "good_best I s (prev_length s) (match_start s) m"
    by (rule match_loop_good [OF m _ assms(2-5,6,7,8)]) (simp add: good_best_def)
  then have "found_match (best_start m) n s" if "prev_length s < n"
    using that n unfolding good_best_def found_match_def by (auto split: if_splits intro: same_bytes_less)
  then show ?thesis using n t by auto
qed

lemma longest_match_fast_found:
  assumes "longest_match_fast cur s = Some (n, t)" "sizes_ok s" "cur < strstart s" "cur \<noteq> 0"
    "strstart s \<le> cur + MAX_DIST s" "hash3 s cur = hash3 s (strstart s)"
  shows "\<exists>start. t = s \<lparr> match_start := start \<rparr> \<and> (2 < n \<longrightarrow> found_match start n s)"
proof -
  let ?w = "buf_window s"
  show ?thesis
  proof (cases "2 < n")
    case True
    have eq: "?w ! cur = ?w ! strstart s" "?w ! (cur + 1) = ?w ! (strstart s + 1)"
      and "\<exists>k. compare_loop ?w (strstart s) cur 2 = Some k \<and> n = (if k \<le> lookahead s then k else lookahead s) \<and> t = s \<lparr> match_start := cur \<rparr>"
      using assms(1) True by (auto simp: longest_match_fast_def Let_def peek_Some_iff MIN_MATCH_def split: bind_splits if_splits)
    then obtain k where l: "compare_loop ?w (strstart s) cur 2 = Some k" and n: "n = (if k \<le> lookahead s then k else lookahead s)"
      and t: "t = s \<lparr> match_start := cur \<rparr>" by blast
    have "match_candidate ?w (strstart s) cur 0 1 0 = match_candidate ?w (strstart s) cur 0 1 0" ..
    note c = compare_from_2 [OF l]
    have third: "?w ! (cur + 2) = ?w ! (strstart s + 2)" by (rule hash3_third [OF assms(2,6) eq])
    have "?w ! (strstart s + i) = ?w ! (cur + i)" if "i < n" for i
    proof -
      consider "i = 0" | "i = 1" | "i = 2" | "2 < i" by linarith
      then show ?thesis using eq third c(3) [of i] that n by cases (simp_all split: if_splits)
    qed
    then show ?thesis using assms(3-5) c(2) n t by (auto simp: found_match_def same_bytes_def)
  next
    case False
    then show ?thesis using assms(1)
      by (auto simp: longest_match_fast_def Let_def split: bind_splits if_splits intro: exI [of _ "match_start s"])
  qed
qed

section \<open>Inserting a string\<close>

lemma hash3_update [simp]:
  "hash3 (s \<lparr> ins_h := a, prev_of := b, head_of := c \<rparr>) i = hash3 s i"
  by (simp add: hash3_def UPDATE_HASH_def)

lemma INSERT_STRING_result:
  assumes "INSERT_STRING str s = Some (m, t)" "sizes_ok s" "UPDATE_HASH s (ins_h s) (buf_window s ! (str + 2)) = hash3 s str"
  shows "m = unat (head_of s ! unat (hash3 s str)) \<and>
    t = s \<lparr> ins_h := hash3 s str, prev_of := (prev_of s)[str mod w_size s := head_of s ! unat (hash3 s str)],
      head_of := (head_of s)[unat (hash3 s str) := of_nat str] \<rparr>"
  using assms(1,3) w_mask_mod [OF assms(2), of str]
  by (auto simp: INSERT_STRING_def Let_def peek_Some_iff poke_def MIN_MATCH_def split: bind_splits if_splits)

lemma INSERT_STRING_chains:
  assumes "INSERT_STRING str s = Some (m, t)" "sizes_ok s" "UPDATE_HASH s (ins_h s) (buf_window s ! (str + 2)) = hash3 s str"
    "chains I str e s" "str + MIN_MATCH \<le> e" "str < 2 * w_size s"
  shows "chains (insert str I) (str + 1) e t" "m \<noteq> 0 \<Longrightarrow> m \<in> I \<and> m < str \<and> hash3 s m = hash3 s str"
proof -
  let ?h = "unat (hash3 s str)"
  note r = INSERT_STRING_result [OF assms(1-3)]
  have h: "?h < hash_size s" unfolding hash3_def by (rule UPDATE_HASH_less [OF assms(2)])
  have lens: "length (head_of s) = hash_size s" "length (prev_of s) = w_size s" "0 < w_size s"
    using assms(2) by (simp_all add: sizes_ok_def)
  have "2 * w_size s \<le> 65536" using MAX_DIST_value [OF assms(2)] by linarith
  then have str: "unat (of_nat str :: ushort) = str" using assms(6) by (simp add: unat_of_nat)
  show m: "m \<in> I \<and> m < str \<and> hash3 s m = hash3 s str" if "m \<noteq> 0"
  proof -
    have "unat (head_of s ! ?h) \<noteq> 0" using that r by simp
    from chainsD(3) [OF assms(4) h this] r have "m \<in> I" "unat (hash3 s m) = ?h" by auto
    then show ?thesis using chainsD(1) [OF assms(4)] by (simp add: word_unat_eq_iff)
  qed
  have t: "hash_size t = hash_size s" "w_size t = w_size s" "\<And>i. hash3 t i = hash3 s i"
    "head_of t = (head_of s)[?h := of_nat str]" "prev_of t = (prev_of s)[str mod w_size s := head_of s ! ?h]"
    using r by simp_all
  show "chains (insert str I) (str + 1) e t"
    unfolding chains_def t Let_def
  proof (intro conjI ballI allI impI)
    fix p assume "p \<in> insert str I"
    then show "p < str + 1" "p + MIN_MATCH \<le> e"
      using chainsD(1,2) [OF assms(4), of p] assms(5) by auto
  next
    fix i assume i: "i < hash_size s" "unat ((head_of s)[?h := of_nat str] ! i) \<noteq> 0"
    show "unat ((head_of s)[?h := of_nat str] ! i) \<in> insert str I" "unat (hash3 s (unat ((head_of s)[?h := of_nat str] ! i))) = i"
      using i chainsD(3) [OF assms(4), of i] str lens(1) by (cases "i = ?h"; simp)+
  next
    fix p assume p: "p \<in> insert str I" "str + 1 \<le> p + w_size s"
      "unat ((prev_of s)[str mod w_size s := head_of s ! ?h] ! (p mod w_size s)) \<noteq> 0"
    let ?q = "unat ((prev_of s)[str mod w_size s := head_of s ! ?h] ! (p mod w_size s))"
    have "?q \<in> insert str I \<and> ?q < p \<and> hash3 s ?q = hash3 s p"
    proof (cases "p = str")
      case True
      then have "?q = m" using r lens by simp
      then show ?thesis using m p(3) True by auto
    next
      case False
      then have "p \<in> I" "p < str" using p(1) chainsD(1) [OF assms(4)] by auto
      have "p mod w_size s \<noteq> str mod w_size s"
      proof
        assume "p mod w_size s = str mod w_size s"
        then have "w_size s dvd str - p" using \<open>p < str\<close> by (metis mod_eq_dvd_iff_nat less_imp_le)
        then have "w_size s \<le> str - p" using \<open>p < str\<close> by (simp add: dvd_imp_le)
        then show False using p(2) \<open>p < str\<close> by linarith
      qed
      then have "?q = unat (prev_of s ! (p mod w_size s))" by simp
      then show ?thesis using chainsD(4) [OF assms(4) \<open>p \<in> I\<close>] p(2,3) by simp
    qed
    then show "?q \<in> insert str I" "?q < p" "hash3 s ?q = hash3 s p" by blast+
  qed
qed

lemma INSERT_STRING_total:
  assumes "sizes_ok s" "str + 2 < 2 * w_size s"
  shows "\<exists>r. INSERT_STRING str s = Some r"
proof -
  have "0 < w_size s" "length (buf_window s) = 2 * w_size s" "length (prev_of s) = w_size s" "length (head_of s) = hash_size s"
    using assms(1) by (simp_all add: sizes_ok_def)
  then show ?thesis using assms UPDATE_HASH_less [OF assms(1)]
    by (simp add: INSERT_STRING_def Let_def w_mask_mod MIN_MATCH_def)
qed

end
