(* ===== verification/Deflate_Window.thy ===== *)
theory Deflate_Window
  imports Deflate_Search
begin

text \<open>
  The sliding window of the compressor: \<open>fill_window\<close> of \<^verbatim>\<open>src/AOS/aos/zlib/deflate.c\<close> keeps the window a suffix of all that
  the stream has had, takes the input in order, updates the check value by it, keeps the chains, and ends.
\<close>

section \<open>What the window holds\<close>

text \<open>\<open>H\<close> is everything that the stream has had before \<open>strstart\<close>.\<close>

definition ahead :: "deflate_state \<Rightarrow> byte list" where
  "ahead s = take (lookahead s) (drop (strstart s) (buf_window s))"

definition window_holds :: "byte list \<Rightarrow> deflate_state \<Rightarrow> bool" where
  "window_holds H s \<longleftrightarrow> sizes_ok s \<and> read_end s \<le> 2 * w_size s \<and> strstart s \<le> length H \<and>
    take (strstart s) (buf_window s) = drop (length H - strstart s) H \<and>
    block_start s \<le> int (strstart s) \<and> 0 \<le> int (length H) - int (strstart s) + block_start s \<and> match_start s < 2 ^ 32"

text \<open>The hash of the string at \<open>strstart\<close> wants only its third byte.\<close>

definition primed :: "deflate_state \<Rightarrow> bool" where
  "primed s \<longleftrightarrow> (MIN_MATCH \<le> lookahead s \<longrightarrow> UPDATE_HASH s (ins_h s) (buf_window s ! (strstart s + 2)) = hash3 s (strstart s))"

definition check_valid :: "deflate_state \<Rightarrow> bool" where
  "check_valid s \<longleftrightarrow> (wrap_of s = 1 \<longrightarrow> Adler32.canonical (adler (strm s)))"

text \<open>The distance from the string before \<open>strstart\<close> to \<open>match_start\<close>, as the code computes it.\<close>

definition back_distance :: "deflate_state \<Rightarrow> nat" where
  "back_distance s = minus_u32 (minus_u32 (strstart s) 1) (match_start s)"

text \<open>All fields but those that the window's routines change.\<close>

definition window_frame :: "deflate_state \<Rightarrow> deflate_state" where
  "window_frame s = s \<lparr> strm := (strm s) \<lparr> next_in := [], adler := 0, total_in := 0 \<rparr>, buf_window := [], match_start := 0,
    strstart := 0, block_start := 0, head_of := [], prev_of := [], lookahead := 0, ins_h := 0 \<rparr>"

lemma window_frame_fields:
  assumes "window_frame t = window_frame s"
  shows "w_size t = w_size s" "w_bits t = w_bits s" "w_mask t = w_mask s" "window_size t = window_size s" "hash_bits t = hash_bits s"
    "hash_size t = hash_size s" "hash_mask t = hash_mask s" "hash_shift t = hash_shift s" "wrap_of t = wrap_of s"
    "MAX_DIST t = MAX_DIST s" "prev_length t = prev_length s" "match_length t = match_length s" "match_available t = match_available s"
    "prev_match t = prev_match s" "last_lit t = last_lit s" "d_buf t = d_buf s" "l_buf t = l_buf s" "strategy t = strategy s"
    "lit_bufsize t = lit_bufsize s" "avail_out (strm t) = avail_out (strm s)" "written t = written s" "pending t = pending s"
    "max_lazy_match t = max_lazy_match s" "trees_state.truncate t = trees_state.truncate s"
  using arg_cong [OF assms, of w_size] arg_cong [OF assms, of w_bits] arg_cong [OF assms, of w_mask] arg_cong [OF assms, of window_size]
    arg_cong [OF assms, of hash_bits] arg_cong [OF assms, of hash_size] arg_cong [OF assms, of hash_mask] arg_cong [OF assms, of hash_shift]
    arg_cong [OF assms, of wrap_of] arg_cong [OF assms, of MAX_DIST] arg_cong [OF assms, of prev_length] arg_cong [OF assms, of match_length]
    arg_cong [OF assms, of match_available] arg_cong [OF assms, of prev_match] arg_cong [OF assms, of last_lit] arg_cong [OF assms, of d_buf]
    arg_cong [OF assms, of l_buf] arg_cong [OF assms, of strategy] arg_cong [OF assms, of lit_bufsize]
    arg_cong [OF assms, of "\<lambda>s. avail_out (strm s)"] arg_cong [OF assms, of written] arg_cong [OF assms, of pending]
    arg_cong [OF assms, of max_lazy_match] arg_cong [OF assms, of trees_state.truncate]
  by (simp_all add: window_frame_def MAX_DIST_def trees_state.defs)

lemma sizes_ok_frame:
  "sizes_ok s \<Longrightarrow> window_frame t = window_frame s \<Longrightarrow> length (buf_window t) = length (buf_window s) \<Longrightarrow>
    length (head_of t) = length (head_of s) \<Longrightarrow> length (prev_of t) = length (prev_of s) \<Longrightarrow> sizes_ok t"
  using window_frame_fields [of t s] by (simp add: sizes_ok_def)

lemma hash3_frame:
  assumes "window_frame t = window_frame s" "buf_window t ! i = buf_window s ! j" "buf_window t ! (i + 1) = buf_window s ! (j + 1)"
    "buf_window t ! (i + 2) = buf_window s ! (j + 2)"
  shows "hash3 t i = hash3 s j"
  by (rule hash3_cong [OF window_frame_fields(8) [OF assms(1)] window_frame_fields(7) [OF assms(1)] assms(2-4)])

lemma UPDATE_HASH_frame:
  assumes "window_frame t = window_frame s" shows "UPDATE_HASH t h c = UPDATE_HASH s h c"
  by (simp only: UPDATE_HASH_def window_frame_fields(7,8) [OF assms])

section \<open>Differences of 32 bits\<close>

lemma int_minus_u32: "b \<le> 2 ^ 32 \<Longrightarrow> int (minus_u32 a b) = (int a - int b) mod 2 ^ 32"
proof -
  assume "b \<le> 2 ^ 32"
  then have "int (a + 2 ^ 32 - b) = int a - int b + 2 ^ 32" by (simp add: of_nat_diff)
  then show ?thesis unfolding minus_u32_def zmod_int by simp
qed

lemma minus_u32_less: "minus_u32 a b < 2 ^ 32"
  unfolding minus_u32_def by (rule mod_less_divisor) simp

lemma back_distance_slides:
  assumes "w \<le> a" "m < 2 ^ 32" "w < 2 ^ 32"
  shows "minus_u32 (minus_u32 (a - w) 1) (minus_u32 m w) = minus_u32 (minus_u32 a 1) m"
proof -
  have "int (minus_u32 (minus_u32 (a - w) 1) (minus_u32 m w)) = ((int a - int w - 1) - (int m - int w)) mod 2 ^ 32"
    using assms less_imp_le [OF minus_u32_less [of m w]]
    by (simp add: int_minus_u32 of_nat_diff mod_diff_eq mod_diff_left_eq mod_diff_right_eq)
  also have "(int a - int w - 1) - (int m - int w) = int a - 1 - int m" by simp
  also have "(int a - 1 - int m) mod 2 ^ 32 = int (minus_u32 (minus_u32 a 1) m)"
    using assms by (simp add: int_minus_u32 mod_diff_left_eq)
  finally show ?thesis by simp
qed

section \<open>Sliding\<close>

lemma unat_slide_pos: "unat (slide_pos w m) = unat m - w"
proof -
  have "unat m - w < 2 ^ 16" using unsigned_less [of m, where ?'a = nat] by (simp add: less_imp_diff_less)
  moreover have "unat (of_nat k :: ushort) = k" if "k < 2 ^ 16" for k using that by (simp add: unat_of_nat)
  ultimately have "unat (of_nat (unat m - w) :: ushort) = unat m - w" by blast
  then show ?thesis by (simp only: slide_pos_def split: if_split) simp
qed

definition slid :: "deflate_state \<Rightarrow> deflate_state" where
  "slid s = s \<lparr> buf_window := drop (w_size s) (buf_window s) @ drop (w_size s) (buf_window s),
    match_start := minus_u32 (match_start s) (w_size s), strstart := strstart s - w_size s,
    block_start := block_start s - int (w_size s), head_of := map (slide_pos (w_size s)) (head_of s), prev_of := map (slide_pos (w_size s)) (prev_of s) \<rparr>"

lemma slide_window_result:
  assumes "sizes_ok s"
  shows "slide_window s = Some (if strstart s \<ge> w_size s + MAX_DIST s then (w_size s, slid s) else (0, s))"
proof -
  have l: "length (buf_window s) = 2 * w_size s" "0 < w_size s" "0 < hash_size s" "length (prev_of s) = w_size s" "length (head_of s) = hash_size s"
    using assms by (simp_all add: sizes_ok_def)
  then have "take (w_size s) (drop (w_size s) (buf_window s)) = drop (w_size s) (buf_window s)" by simp
  then show ?thesis using l by (auto simp: slide_window_def store_bytes_def slide_table_def slid_def)
qed

lemma slid_frame [simp]: "window_frame (slid s) = window_frame s"
  by (simp add: window_frame_def slid_def)

lemma slid_fields [simp]:
  "strstart (slid s) = strstart s - w_size s" "lookahead (slid s) = lookahead s" "strm (slid s) = strm s" "ins_h (slid s) = ins_h s"
  "block_start (slid s) = block_start s - int (w_size s)" "wrap_of (slid s) = wrap_of s"
  by (simp_all add: slid_def)

lemma slid_nth:
  assumes "sizes_ok s" "i < w_size s"
  shows "buf_window (slid s) ! i = buf_window s ! (i + w_size s)"
  using assms by (simp add: slid_def sizes_ok_def nth_append add.commute)

lemma slid_holds:
  assumes "window_holds H s" "w_size s + MAX_DIST s \<le> strstart s"
  shows "window_holds H (slid s)" "ahead (slid s) = ahead s" "back_distance (slid s) = back_distance s"
proof -
  let ?w = "w_size s"
  have ok: "sizes_ok s" and e: "read_end s \<le> 2 * ?w" and h: "strstart s \<le> length H"
    "take (strstart s) (buf_window s) = drop (length H - strstart s) H" and lw: "length (buf_window s) = 2 * ?w"
    using assms(1) by (simp_all add: window_holds_def sizes_ok_def)
  have w: "?w \<le> strstart s" "?w < 2 ^ 32" using assms(2) MAX_DIST_value [OF ok] by auto
  have ok': "sizes_ok (slid s)"
    by (rule sizes_ok_frame [OF ok slid_frame]) (use lw in \<open>simp_all add: slid_def\<close>)
  have "take (strstart s - ?w) (buf_window (slid s)) = take (strstart s - ?w) (drop ?w (buf_window s))"
    using e lw by (simp add: slid_def read_end_def)
  also have "\<dots> = drop ?w (take (strstart s) (buf_window s))" by (simp add: drop_take)
  also have "\<dots> = drop (length H - (strstart s - ?w)) H" unfolding h(2) using w h(1) by (simp add: add.commute)
  finally show "window_holds H (slid s)"
    using assms(1) ok' w h(1) e minus_u32_less [of "match_start s" "w_size s"]
    by (auto simp: window_holds_def read_end_def slid_def of_nat_diff)
  have "take (lookahead s) (drop (strstart s - ?w) (drop ?w (buf_window s) @ drop ?w (buf_window s))) =
      take (lookahead s) (drop (strstart s - ?w) (drop ?w (buf_window s)))"
    using e lw w by (simp add: read_end_def)
  then show "ahead (slid s) = ahead s" using w by (simp add: ahead_def slid_def)
  show "back_distance (slid s) = back_distance s"
    using back_distance_slides [OF w(1) _ w(2), of "match_start s"] assms(1)
    by (simp add: back_distance_def slid_def window_holds_def)
qed

lemma slid_hash3:
  assumes "sizes_ok s" "i + 2 < w_size s"
  shows "hash3 (slid s) i = hash3 s (i + w_size s)"
  by (rule hash3_frame) (use assms slid_nth [OF assms(1)] in \<open>simp_all add: add.commute add.left_commute\<close>)

lemma slid_chains:
  assumes "chains I n (read_end s) s" "window_holds H s" "w_size s \<le> n"
  shows "chains {p. 0 < p \<and> p + w_size s \<in> I} (n - w_size s) (read_end (slid s)) (slid s)"
proof -
  let ?w = "w_size s" and ?J = "{p. 0 < p \<and> p + w_size s \<in> I}"
  have ok: "sizes_ok s" and e: "read_end s \<le> 2 * ?w" using assms(2) by (simp_all add: window_holds_def)
  have lens: "length (head_of s) = hash_size s" "length (prev_of s) = ?w" "0 < ?w" using ok by (simp_all add: sizes_ok_def)
  have J: "p + MIN_MATCH \<le> ?w" "hash3 (slid s) p = hash3 s (p + ?w)" if "p + ?w \<in> I" for p
  proof -
    show "p + MIN_MATCH \<le> ?w" using chainsD(2) [OF assms(1) that] e by linarith
    then show "hash3 (slid s) p = hash3 s (p + ?w)" by (intro slid_hash3 [OF ok]) (simp add: MIN_MATCH_def)
  qed
  have r: "w_size (slid s) = ?w" "hash_size (slid s) = hash_size s" "head_of (slid s) = map (slide_pos ?w) (head_of s)"
    "prev_of (slid s) = map (slide_pos ?w) (prev_of s)" by (simp_all add: slid_def)
  show ?thesis
    unfolding chains_def r Let_def
  proof (intro conjI ballI allI impI)
    fix p assume "p \<in> ?J"
    then have "p + ?w < n" "p + ?w + MIN_MATCH \<le> read_end s" using chainsD(1,2) [OF assms(1), of "p + ?w"] by auto
    then show "p < n - ?w" "p + MIN_MATCH \<le> read_end (slid s)" by (auto simp: read_end_def)
  next
    fix h assume h: "h < hash_size s" "unat (map (slide_pos ?w) (head_of s) ! h) \<noteq> 0"
    let ?p = "unat (map (slide_pos ?w) (head_of s) ! h)"
    have p: "?p + ?w = unat (head_of s ! h)" using h lens by (simp add: unat_slide_pos)
    then have "?p + ?w \<in> I \<and> unat (hash3 s (?p + ?w)) = h" using chainsD(3) [OF assms(1) h(1)] h(2) by simp
    then show "?p \<in> ?J" "unat (hash3 (slid s) ?p) = h" using J(2) h(2) by auto
  next
    fix p assume p: "p \<in> ?J" "n - ?w \<le> p + ?w" "unat (map (slide_pos ?w) (prev_of s) ! (p mod ?w)) \<noteq> 0"
    let ?q = "unat (map (slide_pos ?w) (prev_of s) ! (p mod ?w))"
    have q: "?q + ?w = unat (prev_of s ! ((p + ?w) mod ?w))" using p(3) lens by (simp add: unat_slide_pos)
    have "n \<le> (p + ?w) + ?w" using p(2) by linarith
    with chainsD(4) [OF assms(1), of "p + ?w"] p(1,3) q
    have "?q + ?w \<in> I" "?q + ?w < p + ?w" "hash3 s (?q + ?w) = hash3 s (p + ?w)" by auto
    then show "?q \<in> ?J" "?q < p" "hash3 (slid s) ?q = hash3 (slid s) p" using J(2) p(1,3) by auto
  qed
qed

section \<open>The check value\<close>

lemma input_check_total:
  assumes "check_valid s" "fits inp"
  shows "\<exists>c. input_check s inp = Some c \<and> (wrap_of s = 1 \<longrightarrow> Adler32.canonical c)"
proof (cases "wrap_of s = 1")
  case True
  then show ?thesis using adler.update_defined [OF _ assms(2)] assms(1) by (simp add: input_check_def check_valid_def)
next
  case False
  then show ?thesis using crc.update_defined [OF TrueI assms(2)] by (auto simp: input_check_def crc_of_def)
qed

lemma input_check_Nil: "check_valid s \<Longrightarrow> input_check s [] = Some (adler (strm s))"
  using adler.update_Nil by (simp add: input_check_def check_valid_def crc_of_def crc.update_Nil)

lemma input_check_append:
  assumes "check_valid s" "fits (xs @ ys)" "input_check s xs = Some (adler (strm t))" "wrap_of t = wrap_of s"
  shows "input_check s (xs @ ys) = input_check t ys"
proof (cases "wrap_of s = 1")
  case True
  then show ?thesis using assms adler.update_append [OF _ assms(2)] by (simp add: input_check_def check_valid_def)
next
  case False
  then show ?thesis using assms crc.update_append [OF TrueI assms(2)] by (auto simp: input_check_def crc_of_def)
qed

section \<open>Reading\<close>

text \<open>What it is to have taken \<open>inp\<close> from the input.\<close>

definition filled :: "byte list \<Rightarrow> byte list \<Rightarrow> deflate_state \<Rightarrow> deflate_state \<Rightarrow> bool" where
  "filled H inp s t \<longleftrightarrow> window_frame t = window_frame s \<and> back_distance t = back_distance s \<and> window_holds H t \<and> check_valid t \<and>
    int (strstart t) - block_start t = int (strstart s) - block_start s \<and> (strstart t = strstart s \<or> MAX_DIST t \<le> strstart t) \<and>
    (\<exists>I. chains I (strstart t) (read_end t) t) \<and> next_in (strm s) = inp @ next_in (strm t) \<and> ahead t = ahead s @ inp \<and>
    input_check s inp = Some (adler (strm t)) \<and> (inp \<noteq> [] \<or> primed s \<longrightarrow> primed t)"

text \<open>The state after \<open>n\<close> bytes have been read with the check value \<open>c\<close>.\<close>

definition read_in :: "nat \<Rightarrow> ulong \<Rightarrow> deflate_state \<Rightarrow> deflate_state" where
  "read_in n c s = s \<lparr> buf_window := take (read_end s) (buf_window s) @ take n (next_in (strm s)) @ drop (read_end s + n) (buf_window s),
    strm := (strm s) \<lparr> next_in := drop n (next_in (strm s)), adler := c, total_in := total_in (strm s) + of_nat n \<rparr>,
    lookahead := lookahead s + n \<rparr>"

lemma read_in_frame [simp]: "window_frame (read_in n c s) = window_frame s"
  by (simp add: window_frame_def read_in_def)

lemma read_in_fields [simp]:
  "strstart (read_in n c s) = strstart s" "lookahead (read_in n c s) = lookahead s + n" "adler (strm (read_in n c s)) = c"
  "next_in (strm (read_in n c s)) = drop n (next_in (strm s))" "match_start (read_in n c s) = match_start s"
  "read_end (read_in n c s) = read_end s + n" "wrap_of (read_in n c s) = wrap_of s" "block_start (read_in n c s) = block_start s"
  by (simp_all add: read_in_def read_end_def)

lemma read_in_result:
  assumes "sizes_ok s" "read_end s + space = 2 * w_size s" "0 < space" "next_in (strm s) \<noteq> []" "n = min (avail_in (strm s)) space"
    "input_check s (take n (next_in (strm s))) = Some c"
  shows "(do { (n, s) \<leftarrow> read_buf (strstart s + lookahead s) space s; Some (s \<lparr> lookahead := lookahead s + n \<rparr>) }) = Some (read_in n c s)"
    "0 < n" "n \<le> avail_in (strm s)"
proof -
  show n: "0 < n" "n \<le> avail_in (strm s)" using assms(3-5) by simp_all
  have "read_end s + n \<le> length (buf_window s)" using assms(1,2,5) by (simp add: sizes_ok_def)
  then show "(do { (n, s) \<leftarrow> read_buf (strstart s + lookahead s) space s; Some (s \<lparr> lookahead := lookahead s + n \<rparr>) }) = Some (read_in n c s)"
    using n assms(6) unfolding assms(5) [symmetric] read_buf_def by (simp add: assms(5) [symmetric] Let_def store_bytes_def read_end_def read_in_def)
qed

lemma read_in_nth:
  "sizes_ok s \<Longrightarrow> read_end s \<le> 2 * w_size s \<Longrightarrow> i < read_end s \<Longrightarrow> buf_window (read_in n c s) ! i = buf_window s ! i"
  by (simp add: read_in_def sizes_ok_def nth_append)

lemma read_in_holds:
  assumes "window_holds H s" "read_end s + n \<le> 2 * w_size s" "n \<le> avail_in (strm s)"
  shows "window_holds H (read_in n c s)" "ahead (read_in n c s) = ahead s @ take n (next_in (strm s))" "back_distance (read_in n c s) = back_distance s"
proof -
  have ok: "sizes_ok s" and lw: "length (buf_window s) = 2 * w_size s" and e: "read_end s \<le> 2 * w_size s"
    using assms(1) by (simp_all add: window_holds_def sizes_ok_def)
  have ok': "sizes_ok (read_in n c s)"
    by (rule sizes_ok_frame [OF ok read_in_frame]) (use assms(2,3) lw in \<open>simp_all add: read_in_def\<close>)
  have "take (strstart s) (buf_window (read_in n c s)) = take (strstart s) (buf_window s)"
    using lw e by (simp add: read_in_def read_end_def min_def)
  then show "window_holds H (read_in n c s)"
    using assms(1,2) ok' window_frame_fields(1) [OF read_in_frame [of n c s]] by (simp add: window_holds_def)
  show "ahead (read_in n c s) = ahead s @ take n (next_in (strm s))"
    using lw e assms(2,3) by (simp add: ahead_def read_in_def read_end_def drop_take)
  show "back_distance (read_in n c s) = back_distance s" by (simp add: back_distance_def)
qed

lemma read_in_chains:
  assumes "chains I m (read_end s) s" "window_holds H s"
  shows "chains I m (read_end (read_in n c s)) (read_in n c s)"
proof -
  have e: "sizes_ok s" "read_end s \<le> 2 * w_size s" using assms(2) by (simp_all add: window_holds_def)
  have h: "hash3 (read_in n c s) p = hash3 s p" if "p \<in> I" for p
    by (rule hash3_frame [OF read_in_frame])
      (use read_in_nth [OF e] chainsD(2) [OF assms(1) that] in \<open>simp_all add: MIN_MATCH_def\<close>)
  have r: "hash_size (read_in n c s) = hash_size s" "w_size (read_in n c s) = w_size s" "head_of (read_in n c s) = head_of s"
    "prev_of (read_in n c s) = prev_of s" by (simp_all add: read_in_def)
  show ?thesis
    unfolding chains_def r Let_def
    using assms(1) h by (simp add: chains_def Let_def trans_le_add1)
qed

lemma start_hash_primed:
  assumes "sizes_ok s" "read_end s \<le> 2 * w_size s" "MIN_MATCH \<le> lookahead s"
  shows "\<exists>h. start_hash s = Some (s \<lparr> ins_h := h \<rparr>) \<and> primed (s \<lparr> ins_h := h \<rparr>)"
proof -
  have "strstart s + 1 < length (buf_window s)" using assms by (simp add: sizes_ok_def read_end_def MIN_MATCH_def)
  then have "start_hash s = Some (s \<lparr> ins_h := UPDATE_HASH s (ucast (buf_window s ! strstart s)) (buf_window s ! (strstart s + 1)) \<rparr>)"
    by (simp add: start_hash_def)
  moreover have "UPDATE_HASH (s \<lparr> ins_h := h \<rparr>) = UPDATE_HASH s" for h by (simp add: UPDATE_HASH_def fun_eq_iff)
  ultimately show ?thesis
    by (intro exI [of _ "UPDATE_HASH s (ucast (buf_window s ! strstart s)) (buf_window s ! (strstart s + 1))"]) (simp add: primed_def hash3_def)
qed

text \<open>A change of \<open>ins_h\<close> alone.\<close>

lemma ins_h_fields:
  "window_frame (t \<lparr> ins_h := h \<rparr>) = window_frame t" "back_distance (t \<lparr> ins_h := h \<rparr>) = back_distance t"
  "window_holds H (t \<lparr> ins_h := h \<rparr>) = window_holds H t" "check_valid (t \<lparr> ins_h := h \<rparr>) = check_valid t"
  "chains I n e (t \<lparr> ins_h := h \<rparr>) = chains I n e t" "read_end (t \<lparr> ins_h := h \<rparr>) = read_end t" "ahead (t \<lparr> ins_h := h \<rparr>) = ahead t"
  by (simp_all add: window_frame_def back_distance_def window_holds_def sizes_ok_def check_valid_def chains_def hash3_def
      UPDATE_HASH_def ahead_def read_end_def Let_def)

section \<open>\<open>fill_window\<close>\<close>

lemma slide_if_needed:
  assumes "window_holds H s" "chains I (strstart s) (read_end s) s" "check_valid s"
  shows "\<exists>gained t. slide_window s = Some (gained, t) \<and> filled H [] s t \<and> strstart t < w_size s + MAX_DIST s \<and>
    lookahead t = lookahead s \<and> strm t = strm s \<and> read_end t + gained = read_end s \<and> (gained = 0 \<or> gained = w_size s \<and> MAX_DIST s \<le> strstart t)"
proof (cases "w_size s + MAX_DIST s \<le> strstart s")
  case True
  have ok: "sizes_ok s" and e: "read_end s \<le> 2 * w_size s" using assms(1) by (simp_all add: window_holds_def)
  note md = MAX_DIST_value [OF ok]
  have w: "w_size s \<le> strstart s" using True by linarith
  have "primed (slid s)" if "primed s"
    unfolding primed_def
  proof
    assume l: "MIN_MATCH \<le> lookahead (slid s)"
    then have i: "strstart s - w_size s + 2 < w_size s" using e w by (simp add: read_end_def MIN_MATCH_def)
    have "UPDATE_HASH s (ins_h s) (buf_window s ! (strstart s + 2)) = hash3 s (strstart s)"
      using that l by (simp add: primed_def)
    moreover have "strstart s - w_size s + 2 + w_size s = strstart s + 2" using w by simp
    ultimately show "UPDATE_HASH (slid s) (ins_h (slid s)) (buf_window (slid s) ! (strstart (slid s) + 2)) = hash3 (slid s) (strstart (slid s))"
      using slid_nth [OF ok i] slid_hash3 [OF ok i] w by (simp only: UPDATE_HASH_frame [OF slid_frame] slid_fields) simp
  qed
  moreover have "MAX_DIST (slid s) \<le> strstart (slid s)"
    using True unfolding window_frame_fields(10) [OF slid_frame] slid_fields by linarith
  ultimately have "filled H [] s (slid s)"
    using slid_holds [OF assms(1) True] slid_chains [OF assms(2,1) w] assms(3) input_check_Nil [OF assms(3)]
    by (auto simp: filled_def check_valid_def of_nat_diff [OF w])
  moreover have "strstart (slid s) < w_size s + MAX_DIST s"
  proof -
    have "strstart s \<le> 2 * w_size s" using e by (simp add: read_end_def)
    then show ?thesis unfolding slid_fields using md by linarith
  qed
  ultimately show ?thesis using True slide_window_result [OF ok] w md by (auto simp: read_end_def)
next
  case False
  have "filled H [] s s" using assms input_check_Nil by (auto simp: filled_def)
  then show ?thesis using False slide_window_result assms(1) by (auto simp: window_holds_def)
qed

lemma filled_trans:
  assumes "filled H xs s t" "filled H ys t u" "fits (xs @ ys)" "check_valid s"
  shows "filled H (xs @ ys) s u"
proof -
  have "window_frame t = window_frame s" using assms(1) by (simp add: filled_def)
  from window_frame_fields(9) [OF this] have "wrap_of t = wrap_of s" .
  then have "input_check s (xs @ ys) = input_check t ys"
    using assms(1) by (intro input_check_append [OF assms(4,3)]) (simp_all add: filled_def)
  moreover have "MAX_DIST u = MAX_DIST t" using assms(2) window_frame_fields(10) [of u t] by (simp add: filled_def)
  ultimately show ?thesis using assms(1,2) unfolding filled_def by auto
qed

lemma fill_round_filled:
  assumes "window_holds H s" "chains I (strstart s) (read_end s) s" "check_valid s" "lookahead s < MIN_LOOKAHEAD" "fits (next_in (strm s))"
  shows "\<exists>t inp. fill_round s = Some t \<and> filled H inp s t \<and> strstart t < w_size s + MAX_DIST s \<and>
    (next_in (strm s) \<noteq> [] \<longrightarrow> inp \<noteq> [])"
proof -
  have ok: "sizes_ok s" and e: "read_end s \<le> 2 * w_size s" using assms(1) by (simp_all add: window_holds_def)
  note md = MAX_DIST_value [OF ok]
  obtain gained t where sl: "slide_window s = Some (gained, t)" and f: "filled H [] s t" and lt: "strstart t < w_size s + MAX_DIST s"
    and same: "lookahead t = lookahead s" "strm t = strm s" and g: "read_end t + gained = read_end s" "gained = 0 \<or> gained = w_size s \<and> MAX_DIST s \<le> strstart t"
    using slide_if_needed [OF assms(1-3)] by auto
  have ft: "window_frame t = window_frame s" "window_holds H t" "check_valid t" using f by (auto simp: filled_def)
  obtain J where J: "chains J (strstart t) (read_end t) t" using f by (auto simp: filled_def)
  have okt: "sizes_ok t" using ft(2) by (simp add: window_holds_def)
  have wt: "w_size t = w_size s" by (rule window_frame_fields(1) [OF ft(1)])
  have m: "minus_u32 (minus_u32 (window_size s) (lookahead s)) (strstart s) = 2 * w_size s - read_end s"
  proof -
    have w: "window_size s = 2 * w_size s" using ok by (simp add: sizes_ok_def)
    have b: "strstart s + lookahead s \<le> 2 * w_size s" "2 * w_size s < 4294967296" using e md by (simp_all add: read_end_def)
    have "minus_u32 (window_size s) (lookahead s) = 2 * w_size s - lookahead s" unfolding w
      by (rule minus_u32_le) (use b in simp_all)
    moreover have "minus_u32 (2 * w_size s - lookahead s) (strstart s) = 2 * w_size s - lookahead s - strstart s"
      by (rule minus_u32_le) (use b in simp_all)
    ultimately show ?thesis by (simp add: read_end_def add.commute)
  qed
  show ?thesis
  proof (cases "next_in (strm s) = []")
    case True
    then have "fill_round s = Some t" using sl same by (simp add: fill_round_def)
    then show ?thesis using f lt True by blast
  next
    case False
    let ?space = "2 * w_size s - read_end s + gained"
    have space: "read_end t + ?space = 2 * w_size t" "0 < ?space"
      using g e wt lt same(1) assms(4) md by (auto simp: read_end_def MIN_LOOKAHEAD_def MIN_MATCH_def MAX_MATCH_def)
    let ?n = "min (avail_in (strm t)) ?space" let ?inp = "take ?n (next_in (strm t))"
    have "fits ?inp" using assms(5) same(2) by (simp add: fits_def min_less_iff_disj)
    then obtain c where c: "input_check t ?inp = Some c" "wrap_of t = 1 \<longrightarrow> Adler32.canonical c" using input_check_total [OF ft(3)] by blast
    let ?u = "read_in ?n c t"
    note rd = read_in_result [OF okt space _ refl c(1)]
    have rd: "(do { (n, s) \<leftarrow> read_buf (strstart t + lookahead t) ?space t; Some (s \<lparr> lookahead := lookahead s + n \<rparr>) }) = Some ?u"
      "0 < ?n" "?n \<le> avail_in (strm t)" using rd False same(2) by auto
    have fit: "read_end t + ?n \<le> 2 * w_size t" using space(1) by linarith
    note rh = read_in_holds [OF ft(2) fit rd(3)]
    have okn: "sizes_ok ?u" "read_end ?u \<le> 2 * w_size ?u" using rh(1) by (simp_all add: window_holds_def)
    have r: "fill_round s = (if lookahead ?u \<ge> MIN_MATCH then start_hash ?u else Some ?u)"
    proof -
      obtain k v where b: "read_buf (strstart t + lookahead t) ?space t = Some (k, v)" "v \<lparr> lookahead := lookahead v + k \<rparr> = ?u"
        using rd(1) by (auto split: bind_splits)
      have "fill_round s = (let s = v \<lparr> lookahead := lookahead v + k \<rparr> in if lookahead s \<ge> MIN_MATCH then start_hash s else Some s)"
        using False sl same(2) b(1) unfolding fill_round_def m by simp
      then show ?thesis unfolding b(2) Let_def .
    qed
    have ne: "?inp \<noteq> []" using rd(2) False same(2) by simp
    have u: "window_frame ?u = window_frame t \<and> back_distance ?u = back_distance t \<and> window_holds H ?u \<and> check_valid ?u \<and>
        int (strstart ?u) - block_start ?u = int (strstart t) - block_start t \<and> strstart ?u = strstart t \<and>
        chains J (strstart ?u) (read_end ?u) ?u \<and> next_in (strm t) = ?inp @ next_in (strm ?u) \<and> ahead ?u = ahead t @ ?inp \<and>
        input_check t ?inp = Some (adler (strm ?u))"
      using rh read_in_chains [OF J ft(2), of ?n c] c by (simp add: check_valid_def)
    have **: "\<exists>v. fill_round s = Some v \<and> filled H ?inp t v \<and> strstart v = strstart t"
    proof (cases "MIN_MATCH \<le> lookahead ?u")
      case True
      then obtain h where h: "start_hash ?u = Some (?u \<lparr> ins_h := h \<rparr>)" "primed (?u \<lparr> ins_h := h \<rparr>)"
        using start_hash_primed [OF okn] by blast
      have "filled H ?inp t (?u \<lparr> ins_h := h \<rparr>)"
        using u h(2) unfolding filled_def by (auto simp: ins_h_fields)
      then show ?thesis using r h True by simp
    next
      case False
      then have "primed ?u" by (simp add: primed_def)
      then have "filled H ?inp t ?u" using u unfolding filled_def by blast
      then show ?thesis using r False by simp
    qed
    then obtain v where v: "fill_round s = Some v" "filled H ?inp t v" "strstart v = strstart t" by blast
    have "filled H ([] @ ?inp) s v" by (rule filled_trans [OF f v(2) _ assms(3)]) (use \<open>fits ?inp\<close> in simp)
    then have "filled H ?inp s v" by (simp only: append_Nil)
    moreover have "strstart v < w_size s + MAX_DIST s" using v(3) lt by simp
    ultimately show ?thesis using v(1) ne by blast
  qed
qed

lemma fill_window_filled:
  assumes "window_holds H s" "chains I (strstart s) (read_end s) s" "check_valid s" "lookahead s < MIN_LOOKAHEAD" "fits (next_in (strm s))"
  shows "\<exists>t inp. fill_window s = Some t \<and> filled H inp s t \<and> strstart t < w_size s + MAX_DIST s \<and>
    (next_in (strm s) \<noteq> [] \<longrightarrow> inp \<noteq> []) \<and> (MIN_LOOKAHEAD \<le> lookahead t \<or> next_in (strm t) = [])"
  using assms
proof (induction "avail_in (strm s)" arbitrary: s I rule: less_induct)
  case less
  obtain t inp where t: "fill_round s = Some t" "filled H inp s t" "strstart t < w_size s + MAX_DIST s" "next_in (strm s) \<noteq> [] \<longrightarrow> inp \<noteq> []"
    using fill_round_filled [OF less.prems] by blast
  show ?case
  proof (cases "lookahead t < MIN_LOOKAHEAD \<and> next_in (strm t) \<noteq> []")
    case False
    then show ?thesis using t by (subst fill_window.simps) auto
  next
    case True
    have split: "next_in (strm s) = inp @ next_in (strm t)" using t(2) by (simp add: filled_def)
    have "inp \<noteq> []" using t(4) True split by auto
    then have "avail_in (strm t) < avail_in (strm s)" using split by simp
    moreover obtain J where "chains J (strstart t) (read_end t) t" using t(2) by (auto simp: filled_def)
    moreover have "fits (next_in (strm t))" using less.prems(5) split by (simp add: fits_def)
    moreover have "window_holds H t" "check_valid t" "window_frame t = window_frame s" using t(2) by (simp_all add: filled_def)
    ultimately obtain u inp2 where u: "fill_window t = Some u" "filled H inp2 t u" "strstart u < w_size t + MAX_DIST t"
      "MIN_LOOKAHEAD \<le> lookahead u \<or> next_in (strm u) = []"
      using less.hyps [of t] True by blast
    have "fits (inp @ inp2)" using less.prems(5) split u(2) by (simp add: filled_def fits_def)
    then have "filled H (inp @ inp2) s u" using filled_trans [OF t(2) u(2) _ less.prems(3)] by blast
    moreover have "w_size t = w_size s" "MAX_DIST t = MAX_DIST s"
      using window_frame_fields(1,10) [OF \<open>window_frame t = window_frame s\<close>] by simp_all
    ultimately show ?thesis using u t True \<open>inp \<noteq> []\<close> by (subst fill_window.simps) auto
  qed
qed

end
