(* ===== verification/Inf_Trees.thy ===== *)
theory Inf_Trees
  imports Gen_Codes
begin

text \<open>
  The decoding tables, \<^verbatim>\<open>src/AOS/aos/zlib/inftrees.c\<close>: \<open>inflate_table\<close>. A table is the list of the entries from
  the next free one to the end of the space; an index outside of it, or of the work area, is
  \<open>None\<close>.
\<close>

section \<open>Entries and constants\<close>

text \<open>The members \<open>op\<close>, \<open>bits\<close> and \<open>val\<close> of a \<open>code\<close>.\<close>

record code =
  op :: byte
  nbits :: byte
  val :: ushort

datatype codetype = CODES | LENS | DISTS

definition MAXBITS :: nat where "MAXBITS = 15"
definition ENOUGH :: uint where "ENOUGH = 2048"
definition MAXD :: uint where "MAXD = 592"

definition lbase :: "ushort list" where
  "lbase = [3, 4, 5, 6, 7, 8, 9, 10, 11, 13, 15, 17, 19, 23, 27, 31,
     35, 43, 51, 59, 67, 83, 99, 115, 131, 163, 195, 227, 258, 0, 0]"

definition lext :: "ushort list" where
  "lext = [16, 16, 16, 16, 16, 16, 16, 16, 17, 17, 17, 17, 18, 18, 18, 18,
     19, 19, 19, 19, 20, 20, 20, 20, 21, 21, 21, 21, 16, 201, 196]"

definition dbase :: "ushort list" where
  "dbase = [1, 2, 3, 4, 5, 7, 9, 13, 17, 25, 33, 49, 65, 97, 129, 193,
     257, 385, 513, 769, 1025, 1537, 2049, 3073, 4097, 6145,
     8193, 12289, 16385, 24577, 0, 0]"

definition dext :: "ushort list" where
  "dext = [16, 16, 16, 16, 17, 17, 18, 18, 19, 19, 20, 20, 21, 21, 22, 22,
     23, 23, 24, 24, 25, 25, 26, 26, 27, 27,
     28, 28, 29, 29, 64, 64]"

section \<open>Counting, checking and sorting the lengths\<close>

text \<open>\<open>for (sym = 0; sym < codes; sym++) count[lens[sym]]++;\<close>\<close>

fun count_loop :: "ushort list \<Rightarrow> nat \<Rightarrow> nat \<Rightarrow> ushort list \<Rightarrow> ushort list option" where
  "count_loop lens symb 0 counts = Some counts"
| "count_loop lens symb (Suc k) counts = do {
    l \<leftarrow> peek lens symb;
    c \<leftarrow> peek counts (unat l);
    counts \<leftarrow> poke counts (unat l) (c + 1);
    count_loop lens (symb + 1) k counts }"

text \<open>\<open>for (max = MAXBITS; max >= 1; max--) if (count[max] != 0) break;\<close>\<close>

fun find_max :: "ushort list \<Rightarrow> nat \<Rightarrow> nat option" where
  "find_max counts 0 = Some 0"
| "find_max counts (Suc m) = do {
    c \<leftarrow> peek counts (Suc m);
    if c \<noteq> 0 then Some (Suc m) else find_max counts m }"

text \<open>\<open>for (min = 1; min <= MAXBITS; min++) if (count[min] != 0) break;\<close> with \<open>k\<close> values to go.\<close>

fun find_min :: "ushort list \<Rightarrow> nat \<Rightarrow> nat \<Rightarrow> nat option" where
  "find_min counts m 0 = Some m"
| "find_min counts m (Suc k) = do {
    c \<leftarrow> peek counts m;
    if c \<noteq> 0 then Some m else find_min counts (m + 1) k }"

text \<open>The check for an over-subscribed set; a negative result is the early return.\<close>

fun left_loop :: "ushort list \<Rightarrow> nat \<Rightarrow> nat \<Rightarrow> int \<Rightarrow> int option" where
  "left_loop counts len 0 left = Some left"
| "left_loop counts len (Suc k) left = do {
    c \<leftarrow> peek counts len;
    let left = left * 2 - int (unat c);
    if left < 0 then Some left else left_loop counts (len + 1) k left }"

text \<open>\<open>for (len = 1; len < MAXBITS; len++) offs[len + 1] = offs[len] + count[len];\<close>\<close>

fun offs_loop :: "ushort list \<Rightarrow> nat \<Rightarrow> nat \<Rightarrow> ushort list \<Rightarrow> ushort list option" where
  "offs_loop counts len 0 offs = Some offs"
| "offs_loop counts len (Suc k) offs = do {
    a \<leftarrow> peek offs len;
    c \<leftarrow> peek counts len;
    offs \<leftarrow> poke offs (len + 1) (a + c);
    offs_loop counts (len + 1) k offs }"

text \<open>\<open>if (lens[sym] != 0) work[offs[lens[sym]]++] = (unsigned short)sym;\<close>\<close>

fun sort_loop :: "ushort list \<Rightarrow> nat \<Rightarrow> nat \<Rightarrow> ushort list \<Rightarrow> ushort list \<Rightarrow> ushort list option" where
  "sort_loop lens symb 0 offs work = Some work"
| "sort_loop lens symb (Suc k) offs work = do {
    l \<leftarrow> peek lens symb;
    if l = 0 then sort_loop lens (symb + 1) k offs work
    else do {
      a \<leftarrow> peek offs (unat l);
      offs \<leftarrow> poke offs (unat l) (a + 1);
      work \<leftarrow> poke work (unat a) (of_nat symb);
      sort_loop lens (symb + 1) k offs work } }"

section \<open>Filling the tables\<close>

text \<open>
  The state of the filling loop; \<open>next_at\<close> is the index of \<open>next\<close> in the table, \<open>drop_bits\<close> is
  \<open>drop\<close>.
\<close>

record fill_state =
  huff :: uint
  symb :: nat
  len :: nat
  next_at :: nat
  curr :: nat
  drop_bits :: nat
  low :: uint
  used :: uint
  counts :: "ushort list"
  entries_of :: "code list"

definition end_of :: "codetype \<Rightarrow> int" where
  "end_of ty = (case ty of CODES \<Rightarrow> 19 | LENS \<Rightarrow> 256 | DISTS \<Rightarrow> -1)"

text \<open>\<open>base[w]\<close> and \<open>extra[w]\<close>: for \<open>LENS\<close> both pointers are 257 below the arrays.\<close>

definition base_at :: "codetype \<Rightarrow> ushort list \<Rightarrow> nat \<Rightarrow> ushort option" where
  "base_at ty work w = (case ty of CODES \<Rightarrow> peek work w | LENS \<Rightarrow> peek lbase (w - 257) | DISTS \<Rightarrow> peek dbase w)"

definition extra_at :: "codetype \<Rightarrow> ushort list \<Rightarrow> nat \<Rightarrow> ushort option" where
  "extra_at ty work w = (case ty of CODES \<Rightarrow> peek work w | LENS \<Rightarrow> peek lext (w - 257) | DISTS \<Rightarrow> peek dext w)"

text \<open>\<open>create table entry\<close>\<close>

definition make_entry :: "codetype \<Rightarrow> ushort list \<Rightarrow> nat \<Rightarrow> nat \<Rightarrow> code option" where
  "make_entry ty work i nb = do {
    w \<leftarrow> peek work i;
    if int (unat w) < end_of ty then Some \<lparr> op = 0, nbits = of_nat nb, val = w \<rparr>
    else if int (unat w) > end_of ty then do {
      e \<leftarrow> extra_at ty work (unat w);
      b \<leftarrow> base_at ty work (unat w);
      Some \<lparr> op = ucast e, nbits = of_nat nb, val = b \<rparr> }
    else Some \<lparr> op = 32 + 64, nbits = of_nat nb, val = 0 \<rparr> }"

text \<open>\<open>do { fill -= incr; next[(huff >> drop) + fill] = this; } while (fill != 0);\<close>\<close>

partial_function (option) replicate_loop :: "nat \<Rightarrow> uint \<Rightarrow> uint \<Rightarrow> code \<Rightarrow> code list \<Rightarrow> code list option" where
  "replicate_loop at incr fill this table = do {
    let fill = fill - incr;
    table \<leftarrow> poke table (at + unat fill) this;
    if fill \<noteq> 0 then replicate_loop at incr fill this table else Some table }"

text \<open>\<open>while (huff & incr) incr >>= 1;\<close>\<close>

function clear_incr :: "uint \<Rightarrow> uint \<Rightarrow> uint" where
  "clear_incr hf incr = (if hf AND incr \<noteq> 0 then clear_incr hf (drop_bit 1 incr) else incr)"
  by pat_completeness auto
termination
proof (relation "measure (\<lambda>(h, i). unat i)")
  show "((h, drop_bit 1 i), (h, i)) \<in> measure (\<lambda>(h, i). unat i)" if "h AND i \<noteq> 0" for h i :: uint
  proof -
    have "0 < unat i" using that by (cases "i = 0") (auto simp: unat_gt_0)
    then show ?thesis by (simp add: unat_drop_bit_eq drop_bit_eq_div unat_div)
  qed
qed simp

text \<open>\<open>backwards increment the len-bit code huff\<close>\<close>

definition next_huff :: "uint \<Rightarrow> nat \<Rightarrow> uint" where
  "next_huff hf ln =
    (let incr = clear_incr hf (push_bit (ln - 1) 1)
     in if incr \<noteq> 0 then (hf AND (incr - 1)) + incr else 0)"

text \<open>\<open>determine length of next table\<close>\<close>

function table_width :: "ushort list \<Rightarrow> nat \<Rightarrow> nat \<Rightarrow> nat \<Rightarrow> int \<Rightarrow> nat option" where
  "table_width cs dropped mx cur left =
    (if cur + dropped < mx then
       case peek cs (cur + dropped) of
         None \<Rightarrow> None
       | Some c \<Rightarrow>
           let left = left - int (unat c)
           in if left \<le> 0 then Some cur else table_width cs dropped mx (cur + 1) (left * 2)
     else Some cur)"
  by pat_completeness auto
termination by (relation "measure (\<lambda>(c, d, m, k, l). m - (k + d))") auto

text \<open>One round of the loop \<open>for (;;)\<close>: it goes on, ends, or runs out of space.\<close>

datatype round = Go_On fill_state | Done fill_state | No_Space

definition fill_round :: "codetype \<Rightarrow> ushort list \<Rightarrow> ushort list \<Rightarrow> nat \<Rightarrow> nat \<Rightarrow> fill_state \<Rightarrow> round option" where
  "fill_round ty lens work root mx s = do {
    this \<leftarrow> make_entry ty work (symb s) (len s - drop_bits s);
    let incr = push_bit (len s - drop_bits s) 1;
    let fill = push_bit (curr s) 1;
    table \<leftarrow> replicate_loop (next_at s + unat (drop_bit (drop_bits s) (huff s))) incr fill this (entries_of s);
    let s = s \<lparr> entries_of := table, huff := next_huff (huff s) (len s), symb := symb s + 1 \<rparr>;
    c \<leftarrow> peek (counts s) (len s);
    cs \<leftarrow> poke (counts s) (len s) (c - 1);
    let s = s \<lparr> counts := cs \<rparr>;
    if c - 1 = 0 \<and> len s = mx then Some (Done s)
    else do {
      s \<leftarrow> (if c - 1 = 0 then do {
          w \<leftarrow> peek work (symb s); l \<leftarrow> peek lens (unat w); Some (s \<lparr> len := unat l \<rparr>) }
        else Some s);
      let mask = push_bit root 1 - 1;
      if len s > root \<and> (huff s AND mask) \<noteq> low s then do {
        let s = s \<lparr> drop_bits := (if drop_bits s = 0 then root else drop_bits s), next_at := next_at s + unat fill \<rparr>;
        let cur = len s - drop_bits s;
        cur \<leftarrow> table_width (counts s) (drop_bits s) mx cur (int (2 ^ cur));
        let usd = used s + push_bit cur 1;
        if ty = LENS \<and> usd \<ge> ENOUGH - MAXD then Some No_Space
        else do {
          let lw = huff s AND mask;
          table \<leftarrow> poke (entries_of s) (unat lw) \<lparr> op = of_nat cur, nbits = of_nat root, val = of_nat (next_at s) \<rparr>;
          Some (Go_On (s \<lparr> curr := cur, used := usd, low := lw, entries_of := table \<rparr>)) } }
      else Some (Go_On s) } }"

partial_function (option) fill_tables :: "codetype \<Rightarrow> ushort list \<Rightarrow> ushort list \<Rightarrow> nat \<Rightarrow> nat \<Rightarrow> fill_state \<Rightarrow> round option" where
  "fill_tables ty lens work root mx s = do {
    r \<leftarrow> fill_round ty lens work root mx s;
    case r of Go_On s \<Rightarrow> fill_tables ty lens work root mx s | _ \<Rightarrow> Some r }"

text \<open>\<open>Fill in rest of table for incomplete codes.\<close>\<close>

partial_function (option) fill_rest :: "nat \<Rightarrow> code \<Rightarrow> fill_state \<Rightarrow> fill_state option" where
  "fill_rest root this s =
    (if huff s \<noteq> 0 then do {
       let mask = push_bit root 1 - 1;
       let (this, s) = (if drop_bits s \<noteq> 0 \<and> (huff s AND mask) \<noteq> low s
         then (this \<lparr> nbits := of_nat root \<rparr>, s \<lparr> drop_bits := 0, len := root, next_at := 0 \<rparr>) else (this, s));
       table \<leftarrow> poke (entries_of s) (next_at s + unat (drop_bit (drop_bits s) (huff s))) this;
       fill_rest root this (s \<lparr> entries_of := table, huff := next_huff (huff s) (len s) \<rparr>) }
     else Some s)"

section \<open>The function\<close>

text \<open>
  The result: the return value, the table, how far \<open>*table\<close> has been advanced, \<open>*bits\<close> and the work
  area.
\<close>

record table_result =
  ret :: int
  table :: "code list"
  advance :: nat
  root_bits :: nat
  work_area :: "ushort list"

definition invalid_code :: code where
  "invalid_code = \<lparr> op = 64, nbits = 1, val = 0 \<rparr>"

definition inflate_table :: "codetype \<Rightarrow> ushort list \<Rightarrow> nat \<Rightarrow> code list \<Rightarrow> nat \<Rightarrow> ushort list \<Rightarrow> table_result option" where
  "inflate_table ty lens codes entries nb work = do {
    let failed = \<lparr> ret = -1, table = entries, advance = 0, root_bits = nb, work_area = work \<rparr>;
    cs \<leftarrow> count_loop lens 0 codes (replicate (MAXBITS + 1) 0);
    mx \<leftarrow> find_max cs MAXBITS;
    let root = (if nb > mx then mx else nb);
    if mx = 0 then do {
      entries \<leftarrow> poke entries 0 invalid_code;
      entries \<leftarrow> poke entries 1 invalid_code;
      Some \<lparr> ret = 0, table = entries, advance = 2, root_bits = 1, work_area = work \<rparr> }
    else do {
      mn \<leftarrow> find_min cs 1 MAXBITS;
      let root = (if root < mn then mn else root);
      left \<leftarrow> left_loop cs 1 MAXBITS 1;
      if left < 0 then Some failed
      else if left > 0 \<and> (ty = CODES \<or> mx \<noteq> 1) then Some failed
      else do {
        offs \<leftarrow> offs_loop cs 1 (MAXBITS - 1) (replicate (MAXBITS + 1) 0);
        work \<leftarrow> sort_loop lens 0 codes offs work;
        let usd = push_bit root 1;
        if ty = LENS \<and> usd \<ge> ENOUGH - MAXD then Some (failed \<lparr> ret := 1, work_area := work \<rparr>)
        else do {
          r \<leftarrow> fill_tables ty lens work root mx \<lparr> huff = 0, symb = 0, len = mn, next_at = 0, curr = root, drop_bits = 0,
            low = -1, used = usd, counts = cs, entries_of = entries \<rparr>;
          case r of
            Done s \<Rightarrow> do {
              s \<leftarrow> fill_rest root \<lparr> op = 64, nbits = of_nat (len s - drop_bits s), val = 0 \<rparr> s;
              Some \<lparr> ret = 0, table = entries_of s, advance = unat (used s), root_bits = root, work_area = work \<rparr> }
          | _ \<Rightarrow> Some (failed \<lparr> ret := 1, work_area := work \<rparr>) } } } }"

section \<open>What the checks decide\<close>

text \<open>The code lengths as numbers, and the counts the loops work with.\<close>

definition length_list :: "ushort list \<Rightarrow> nat \<Rightarrow> nat list" where
  "length_list lens codes = map unat (take codes lens)"

definition counts_of :: "nat list \<Rightarrow> ushort list \<Rightarrow> bool" where
  "counts_of ls cs \<longleftrightarrow> length cs = 16 \<and> (\<forall>b \<le> 15. unat (cs ! b) = count_list ls b)"

lemma count_loop_counts:
  assumes "codes \<le> length lens" "codes < 2 ^ 16" "\<forall>l \<in> set (length_list lens codes). l \<le> 15"
  shows "i + k = codes \<Longrightarrow> counts_of (take i (length_list lens codes)) cs \<Longrightarrow>
    \<exists>cs'. count_loop lens i k cs = Some cs' \<and> counts_of (length_list lens codes) cs'"
proof (induction k arbitrary: i cs)
  case 0
  then show ?case using assms(1) by (simp add: length_list_def)
next
  case (Suc k)
  let ?ls = "length_list lens codes" and ?l = "lens ! i"
  have i: "i < codes" "i < length lens" "i < length ?ls" using Suc.prems(1) assms(1) by (simp_all add: length_list_def)
  have l: "?ls ! i = unat ?l" using i by (simp add: length_list_def)
  have le: "unat ?l \<le> 15" using assms(3) i(3) l by (metis nth_mem)
  have cs: "length cs = 16" "\<forall>b \<le> 15. unat (cs ! b) = count_list (take i ?ls) b" using Suc.prems(2) by (simp_all add: counts_of_def)
  have "count_list (take i ?ls) (unat ?l) \<le> length (take i ?ls)" by (rule count_le_length)
  then have "unat (cs ! unat ?l) < 2 ^ 16 - 1" using cs(2) le i assms(2) by simp
  then have inc: "unat (cs ! unat ?l + 1) = unat (cs ! unat ?l) + 1"
    by (simp add: unat_add_no_wrap)
  have take: "take (i + 1) ?ls = take i ?ls @ [unat ?l]" using i(3) l by (simp add: take_Suc_conv_app_nth)
  have "\<exists>cs'. count_loop lens (i + 1) k (cs[unat ?l := cs ! unat ?l + 1]) = Some cs' \<and> counts_of ?ls cs'"
  proof (rule Suc.IH)
    show "counts_of (take (i + 1) ?ls) (cs[unat ?l := cs ! unat ?l + 1])"
      unfolding take counts_of_def using cs le inc by (auto simp: nth_list_update count_list_append)
  qed (use Suc.prems in simp)
  then show ?case using i(2) cs(1) le by simp
qed

lemma find_max_value:
  assumes "counts_of ls cs"
  shows "m \<le> 15 \<Longrightarrow> \<exists>x. find_max cs m = Some x \<and> x \<le> m \<and> (0 < x \<longrightarrow> count_list ls x \<noteq> 0) \<and>
    (\<forall>b. x < b \<and> b \<le> m \<longrightarrow> count_list ls b = 0)"
proof (induction m)
  case (Suc m)
  have c: "unat (cs ! Suc m) = count_list ls (Suc m)" "length cs = 16" using assms Suc.prems by (simp_all add: counts_of_def)
  show ?case
  proof (cases "cs ! Suc m = 0")
    case True
    then have "count_list ls (Suc m) = 0" using c by simp
    then show ?thesis using Suc True c by (auto simp: le_Suc_eq less_Suc_eq_le)
  next
    case False
    then have "count_list ls (Suc m) \<noteq> 0" using c by (metis unat_eq_0)
    then show ?thesis using False c Suc.prems by auto
  qed
qed simp

lemma find_min_value:
  assumes "counts_of ls cs"
  shows "1 \<le> m \<Longrightarrow> m + k = 16 \<Longrightarrow> \<exists>x. find_min cs m k = Some x \<and> m \<le> x \<and> x \<le> 16"
proof (induction k arbitrary: m)
  case (Suc k)
  have "\<exists>x. find_min cs (m + 1) k = Some x \<and> m + 1 \<le> x \<and> x \<le> 16" by (rule Suc.IH) (use Suc.prems in simp_all)
  then show ?case using assms Suc.prems by (fastforce simp: counts_of_def)
qed simp

text \<open>What is left after \<open>len - 1\<close> lengths is what the first code of that length says.\<close>

lemma left_loop_value:
  assumes "counts_of ls cs"
  shows "1 \<le> b \<Longrightarrow> b + k = 16 \<Longrightarrow> left = 2 ^ (b - 1) - int (first_code ls (b - 1) + cnt ls (b - 1)) \<Longrightarrow>
    \<exists>x. left_loop cs b k left = Some x \<and>
      (if \<forall>c. b \<le> c \<and> c \<le> 15 \<longrightarrow> first_code ls c + cnt ls c \<le> 2 ^ c
       then x = (if k = 0 then left else 2 ^ 15 - int (first_code ls 15 + cnt ls 15)) else x < 0)"
proof (induction k arbitrary: b left)
  case 0
  then show ?case by simp
next
  case (Suc k)
  have c: "unat (cs ! b) = count_list ls b" "length cs = 16" using assms Suc.prems by (simp_all add: counts_of_def)
  obtain b' where b: "b = Suc b'" using Suc.prems(1) by (cases b) auto
  let ?left = "left * 2 - int (unat (cs ! b))"
  have left: "?left = 2 ^ b - int (first_code ls b + cnt ls b)"
    using Suc.prems(3) b c(1) by (simp add: cnt_def)
  have le: "first_code ls b + cnt ls b \<le> 2 ^ b \<longleftrightarrow> 0 \<le> ?left"
    unfolding left using of_nat_le_iff [of "first_code ls b + cnt ls b" "2 ^ b", where 'a = int] by simp
  show ?case
  proof (cases "?left < 0")
    case True
    then have "\<not> (\<forall>c. b \<le> c \<and> c \<le> 15 \<longrightarrow> first_code ls c + cnt ls c \<le> 2 ^ c)"
      using le Suc.prems(2) by (intro notI) (drule spec [of _ b], simp)
    moreover have "left_loop cs b (Suc k) left = Some ?left" using True c(2) Suc.prems(2) by (simp add: Let_def)
    ultimately show ?thesis using True by auto
  next
    case False
    then have ok: "first_code ls b + cnt ls b \<le> 2 ^ b" using le by simp
    have all: "(\<forall>c. b \<le> c \<and> c \<le> 15 \<longrightarrow> first_code ls c + cnt ls c \<le> 2 ^ c) \<longleftrightarrow>
        (\<forall>c. b + 1 \<le> c \<and> c \<le> 15 \<longrightarrow> first_code ls c + cnt ls c \<le> 2 ^ c)"
      using ok by (metis Suc_eq_plus1 Suc_leD le_antisym not_less_eq_eq)
    have step: "left_loop cs b (Suc k) left = left_loop cs (b + 1) k ?left" using False c(2) Suc.prems(2) by (simp add: Let_def)
    have "k = 0 \<Longrightarrow> b = 15" using Suc.prems(2) by simp
    then show ?thesis
    proof (cases "k = 0")
      case True
      then show ?thesis using Suc.prems(2) left unfolding step all by simp
    next
      case False
      then show ?thesis using Suc.IH [of "b + 1" ?left] Suc.prems(2) left unfolding step all by (simp only: if_False add_diff_cancel_right' diff_Suc_1) auto
    qed
  qed
qed

lemma kraft_all: "kraft ls \<longleftrightarrow> (\<forall>c. 1 \<le> c \<and> c \<le> 15 \<longrightarrow> first_code ls c + cnt ls c \<le> 2 ^ c)"
proof
  show "kraft ls \<Longrightarrow> \<forall>c. 1 \<le> c \<and> c \<le> 15 \<longrightarrow> first_code ls c + cnt ls c \<le> 2 ^ c"
    using first_code_bound by blast
  assume all: "\<forall>c. 1 \<le> c \<and> c \<le> 15 \<longrightarrow> first_code ls c + cnt ls c \<le> 2 ^ c"
  have "first_code ls 15 + cnt ls 15 \<le> 2 ^ 15" by (rule all [rule_format]) simp
  then show "kraft ls" by (simp only: kraft_def first_code_sum)
qed

section \<open>Properties\<close>

text \<open>
  C36. \<open>inflate_table\<close> refuses exactly what it must: no lengths at all give the two invalid entries that
  force an error on first use; an over-subscribed set (the Kraft sum exceeds one) and an incomplete set,
  unless it is a single code of one bit for lengths or distances, give -1 with the table untouched.
\<close>

theorem inflate_table_checks:
  assumes "codes \<le> length lens" "codes < 2 ^ 16" "\<forall>l \<in> set (length_list lens codes). l \<le> MAXBITS"
  shows "((\<forall>l \<in> set (length_list lens codes). l = 0) \<and> 2 \<le> length entries \<longrightarrow>
      inflate_table ty lens codes entries rb work =
        Some \<lparr> ret = 0, table = entries[0 := invalid_code, 1 := invalid_code], advance = 2, root_bits = 1, work_area = work \<rparr>) \<and>
    ((\<exists>l \<in> set (length_list lens codes). l \<noteq> 0) \<and>
      (\<not> kraft (length_list lens codes) \<or>
        first_code (length_list lens codes) 15 + cnt (length_list lens codes) 15 < 2 ^ 15 \<and>
        (ty = CODES \<or> (\<exists>l \<in> set (length_list lens codes). 1 < l))) \<longrightarrow>
      inflate_table ty lens codes entries rb work =
        Some \<lparr> ret = -1, table = entries, advance = 0, root_bits = rb, work_area = work \<rparr>)"
proof -
  let ?ls = "length_list lens codes"
  have le: "\<forall>l \<in> set ?ls. l \<le> 15" using assms(3) by (simp add: MAXBITS_def)
  have "counts_of (take 0 ?ls) (replicate 16 0)" by (simp add: counts_of_def)
  then obtain cs where cs: "count_loop lens 0 codes (replicate 16 0) = Some cs" "counts_of ?ls cs"
    using count_loop_counts [OF assms(1,2) le, of 0 codes] by auto
  obtain mx where mx: "find_max cs 15 = Some mx" "mx \<le> 15" "0 < mx \<longrightarrow> count_list ?ls mx \<noteq> 0"
      "\<forall>b. mx < b \<and> b \<le> 15 \<longrightarrow> count_list ?ls b = 0"
    using find_max_value [OF cs(2), of 15] by auto
  have top: "l \<le> mx" if "l \<in> set ?ls" for l
    using mx(4) le that by (metis count_list_0_iff not_le)
  have mx0: "mx = 0 \<longleftrightarrow> (\<forall>l \<in> set ?ls. l = 0)"
    using top mx(3) by (metis count_list_0_iff le_zero_eq not_gr_zero)
  obtain mn where mn: "find_min cs 1 15 = Some mn" using find_min_value [OF cs(2), of 1 15] by auto
  obtain left where left: "left_loop cs 1 15 1 = Some left"
      "if kraft ?ls then left = 2 ^ 15 - int (first_code ?ls 15 + cnt ?ls 15) else left < 0"
    using left_loop_value [OF cs(2), of 1 15 1] unfolding kraft_all by (auto simp: cnt_def)
  have none: "inflate_table ty lens codes entries rb work =
        Some \<lparr> ret = 0, table = entries[0 := invalid_code, 1 := invalid_code], advance = 2, root_bits = 1, work_area = work \<rparr>"
    if "\<forall>l \<in> set ?ls. l = 0" "2 \<le> length entries"
    using cs(1) mx(1) mx0 that
    by (cases entries; cases "tl entries") (auto simp: inflate_table_def MAXBITS_def Let_def poke_def)
  have bad: "inflate_table ty lens codes entries rb work =
        Some \<lparr> ret = -1, table = entries, advance = 0, root_bits = rb, work_area = work \<rparr>"
    if some: "\<exists>l \<in> set ?ls. l \<noteq> 0" and
      why: "\<not> kraft ?ls \<or> first_code ?ls 15 + cnt ?ls 15 < 2 ^ 15 \<and> (ty = CODES \<or> (\<exists>l \<in> set ?ls. 1 < l))"
  proof -
    have "mx \<noteq> 0" unfolding mx0 using some by simp
    moreover have "left < 0 \<or> 0 < left \<and> (ty = CODES \<or> mx \<noteq> 1)"
    proof (cases "kraft ?ls")
      case True
      then have "first_code ?ls 15 + cnt ?ls 15 < 2 ^ 15" "ty = CODES \<or> (\<exists>l \<in> set ?ls. 1 < l)" using why by (simp_all only: not_True_eq_False simp_thms)
      then show ?thesis using left(2) True top by (fastforce simp flip: of_nat_add)
    next
      case False
      then show ?thesis using left(2) by simp
    qed
    ultimately show ?thesis using cs(1) mx(1) mn left(1)
      by (auto simp: inflate_table_def MAXBITS_def Let_def)
  qed
  show ?thesis using none bad by blast
qed

lemma inflate_table_checks_witness:
  "inflate_table LENS [1, 1, 1] 3 (replicate 8 invalid_code) 9 [] =
    Some \<lparr> ret = -1, table = replicate 8 invalid_code, advance = 0, root_bits = 9, work_area = [] \<rparr>"
proof -
  have l: "length_list [1, 1, 1] 3 = [1, 1, 1]" by (simp add: length_list_def)
  have "\<not> kraft [1, 1, 1]" by (simp add: kraft_def cnt_def atLeastAtMost_upt upt_rec)
  then show ?thesis
    using inflate_table_checks [of 3 "[1, 1, 1]" "replicate 8 invalid_code" LENS 9 "[]"] unfolding l by (simp add: MAXBITS_def)
qed

end
