(* ===== verification/Inflate_State.thy ===== *)
theory Inflate_State
  imports Z_Stream Inf_Fixed Adler32 Crc32
begin

text \<open>
  The state of the decompressor, \<^verbatim>\<open>src/AOS/aos/zlib/inflate.h\<close>, and the macros and
  helpers of \<^verbatim>\<open>inflate.c\<close> that the modes of \<open>inflate()\<close> share: the bit accumulator, the check values, the
  lookup in a decoding table and the sliding window.
\<close>

section \<open>Modes\<close>

text \<open>The modes \<open>TYPE\<close> and \<open>LENGTH\<close> have names that the logic reserves.\<close>

datatype inflate_mode = HEAD | FLAGS | TIME | OS | EXLEN | EXTRA | NAME | COMMENT | HCRC | DICTID | DICT
  | TYPE_MODE | TYPEDO | STORED | COPY | TABLE | LENLENS | CODELENS
  | LEN | LENEXT | DIST | DISTEXT | MATCH | LIT
  | CHECK | LENGTH_MODE | DONE | BAD | MEM | SYNC

text \<open>\<open>mode < CHECK\<close>: the modes before \<open>CHECK\<close> in the enumeration.\<close>

definition before_CHECK :: "inflate_mode \<Rightarrow> bool" where
  "before_CHECK m \<longleftrightarrow> m \<notin> {CHECK, LENGTH_MODE, DONE, BAD, MEM, SYNC}"

section \<open>The state\<close>

text \<open>
  A pointer to a table is into one of the two fixed tables or an index of \<open>codes\<close>. \<open>write_at\<close> is \<open>write\<close>,
  \<open>bitcnt\<close> is \<open>bits\<close>, \<open>length_of\<close> is \<open>length\<close>, \<open>extra_need\<close> is \<open>extra\<close>, \<open>have_lens\<close> is \<open>have\<close>, \<open>next_code\<close> is
  \<open>next\<close>, \<open>last_block\<close> is \<open>last\<close>. \<open>head\<close> says that the pointer \<open>head\<close> is not \<open>Z_NULL\<close>, and \<open>gz\<close> is
  what it refers to.
\<close>

datatype code_ptr = Len_Fixed | Dist_Fixed | Codes nat

record inflate_state = z_stream +
  mode :: inflate_mode
  last_block :: bool
  wrap :: int
  havedict :: bool
  flags :: uint
  dmax :: nat
  check :: ulong
  total_of :: ulong
  head :: bool
  gz :: gz_header
  wbits :: nat
  wsize :: nat
  whave :: nat
  write_at :: nat
  window :: "byte list option"
  hold :: ulong
  bitcnt :: nat
  length_of :: uint
  offset :: uint
  extra_need :: nat
  lencode :: code_ptr
  distcode :: code_ptr
  lenbits :: nat
  distbits :: nat
  ncode :: nat
  nlen :: nat
  ndist :: nat
  have_lens :: nat
  next_code :: nat
  lens :: "ushort list"
  work_lens :: "ushort list"
  codes :: "code list"

text \<open>
  The locals of one call: \<open>in_start\<close> and \<open>out_start\<close> are \<open>in\<close> and \<open>out\<close>, and \<open>put\<close> is what the call has written.
  The registers \<open>next\<close>, \<open>have\<close>, \<open>left\<close>, \<open>hold\<close> and \<open>bits\<close> are the fields that \<open>LOAD()\<close> copies to them and that
  \<open>RESTORE()\<close> copies back on every way out that has changed them.
\<close>

record inflate_call = inflate_state +
  in_start :: nat
  out_start :: nat
  put :: "byte list"

section \<open>The bit accumulator\<close>

text \<open>\<open>PULLBYTE()\<close>; there is no result when it goes to \<open>inf_leave\<close>.\<close>

definition PULLBYTE :: "'a inflate_state_scheme \<Rightarrow> 'a inflate_state_scheme option" where
  "PULLBYTE s = (case next_in s of
      [] \<Rightarrow> None
    | b # bs \<Rightarrow> Some (s \<lparr> next_in := bs, hold := hold s + push_bit (bitcnt s) (ucast b), bitcnt := bitcnt s + 8 \<rparr>))"

lemma PULLBYTE_bitcnt: "PULLBYTE s = Some s' \<Longrightarrow> bitcnt s' = bitcnt s + 8"
  by (auto simp: PULLBYTE_def split: list.splits)

text \<open>\<open>NEEDBITS(n)\<close>: whether the bits are there, and the state.\<close>

function NEEDBITS :: "nat \<Rightarrow> 'a inflate_state_scheme \<Rightarrow> bool \<times> 'a inflate_state_scheme" where
  "NEEDBITS n s =
    (if bitcnt s < n then case PULLBYTE s of None \<Rightarrow> (False, s) | Some s' \<Rightarrow> NEEDBITS n s' else (True, s))"
  by pat_completeness auto
termination by (relation "measure (\<lambda>(n, s). n - bitcnt s)") (auto dest: PULLBYTE_bitcnt)

declare NEEDBITS.simps [simp del]

definition BITS :: "nat \<Rightarrow> 'a inflate_state_scheme \<Rightarrow> uint" where
  "BITS n s = hold s AND (push_bit n 1 - 1)"

definition DROPBITS :: "nat \<Rightarrow> 'a inflate_state_scheme \<Rightarrow> 'a inflate_state_scheme" where
  "DROPBITS n s = s \<lparr> hold := drop_bit n (hold s), bitcnt := bitcnt s - n \<rparr>"

definition BYTEBITS :: "'a inflate_state_scheme \<Rightarrow> 'a inflate_state_scheme" where
  "BYTEBITS s = s \<lparr> hold := drop_bit (bitcnt s mod 8) (hold s), bitcnt := bitcnt s - bitcnt s mod 8 \<rparr>"

definition INITBITS :: "'a inflate_state_scheme \<Rightarrow> 'a inflate_state_scheme" where
  "INITBITS s = s \<lparr> hold := 0, bitcnt := 0 \<rparr>"

definition REVERSE :: "ulong \<Rightarrow> ulong" where
  "REVERSE q = (drop_bit 24 q AND 0xff) + (drop_bit 8 q AND 0xff00) + push_bit 8 (q AND 0xff00) + push_bit 24 (q AND 0xff)"

section \<open>Check values\<close>

definition UPDATE :: "uint \<Rightarrow> ulong \<Rightarrow> byte list \<Rightarrow> ulong option" where
  "UPDATE fl c buf = (if fl \<noteq> 0 then crc_of c buf else adler32_update c buf)"

definition CRC2 :: "ulong \<Rightarrow> ulong \<Rightarrow> ulong option" where
  "CRC2 c w = crc_of c [ucast w, ucast (drop_bit 8 w)]"

definition CRC4 :: "ulong \<Rightarrow> ulong \<Rightarrow> ulong option" where
  "CRC4 c w = crc_of c [ucast w, ucast (drop_bit 8 w), ucast (drop_bit 16 w), ucast (drop_bit 24 w)]"

section \<open>What a mode does next\<close>

text \<open>
  The outcome of one pass through the \<open>switch\<close>: the loop goes round again, the code goes to \<open>inf_leave\<close> with a
  value of \<open>ret\<close>, it returns at once, or it has accessed memory outside of an object.
\<close>

datatype outcome = Again inflate_call | Leave int inflate_call | Return int inflate_call | Fault

definition data_error :: "string \<Rightarrow> inflate_call \<Rightarrow> outcome" where
  "data_error m s = Again (s \<lparr> msg := Some m, mode := BAD \<rparr>)"

text \<open>\<open>NEEDBITS(n)\<close> and what follows it.\<close>

definition needing :: "nat \<Rightarrow> (inflate_call \<Rightarrow> outcome) \<Rightarrow> inflate_call \<Rightarrow> outcome" where
  "needing n k s = (case NEEDBITS n s of (ready, s') \<Rightarrow> if ready then k s' else Leave Z_OK s')"

text \<open>A value that is there unless memory outside of an object was accessed.\<close>

definition getting :: "'a option \<Rightarrow> ('a \<Rightarrow> outcome) \<Rightarrow> outcome" where
  "getting x k = (case x of None \<Rightarrow> Fault | Some v \<Rightarrow> k v)"

section \<open>Buffers\<close>

text \<open>\<open>memcpy(buf + i, src, n)\<close>.\<close>

definition copy_to :: "byte list \<Rightarrow> nat \<Rightarrow> byte list \<Rightarrow> nat \<Rightarrow> byte list option" where
  "copy_to buf i src n =
    (if i + n \<le> length buf \<and> n \<le> length src then Some (take i buf @ take n src @ drop (i + n) buf) else None)"

text \<open>The bytes from \<open>n\<close> before the end of what has been written.\<close>

definition last_bytes :: "nat \<Rightarrow> byte list \<Rightarrow> byte list option" where
  "last_bytes n written = (if n \<le> length written then Some (drop (length written - n) written) else None)"

section \<open>Decoding tables\<close>

definition fixedtables :: "'a inflate_state_scheme \<Rightarrow> 'a inflate_state_scheme" where
  "fixedtables s = s \<lparr> lencode := Len_Fixed, lenbits := 9, distcode := Dist_Fixed, distbits := 5 \<rparr>"

definition table_at :: "'a inflate_state_scheme \<Rightarrow> code_ptr \<Rightarrow> nat \<Rightarrow> code option" where
  "table_at s p i = (case p of Len_Fixed \<Rightarrow> peek lenfix i | Dist_Fixed \<Rightarrow> peek distfix i | Codes n \<Rightarrow> peek (codes s) (n + i))"

text \<open>
  The loop \<open>for (;;)\<close> that looks up an entry, index \<open>idx\<close> of the table \<open>p\<close>, and pulls bytes until the bits that the
  entry uses beyond \<open>base\<close> are there.
\<close>

datatype 'a fetched = Got code 'a | Starved 'a | Wild

function fetch :: "code_ptr \<Rightarrow> ('a inflate_state_scheme \<Rightarrow> nat) \<Rightarrow> nat \<Rightarrow> 'a inflate_state_scheme \<Rightarrow>
    'a inflate_state_scheme fetched" where
  "fetch p idx base s = (case table_at s p (idx s) of
      None \<Rightarrow> Wild
    | Some this \<Rightarrow>
        if base + unat (nbits this) \<le> bitcnt s then Got this s
        else case PULLBYTE s of None \<Rightarrow> Starved s | Some s' \<Rightarrow> fetch p idx base s')"
  by pat_completeness auto
termination
  by (relation "measure (\<lambda>(p, idx, base, s). avail_in s)") (auto simp: PULLBYTE_def split: list.splits)

declare fetch.simps [simp del]

text \<open>\<open>lencode[BITS(lenbits)]\<close>, and the second level \<open>lencode[last.val + (BITS(last.bits + last.op) >> last.bits)]\<close>.\<close>

definition root_index :: "nat \<Rightarrow> 'a inflate_state_scheme \<Rightarrow> nat" where
  "root_index nb s = unat (BITS nb s)"

definition sub_index :: "code \<Rightarrow> 'a inflate_state_scheme \<Rightarrow> nat" where
  "sub_index parent s =
    unat (val parent) + unat (drop_bit (unat (nbits parent)) (BITS (unat (nbits parent) + unat (op parent)) s))"

definition fetching :: "inflate_call fetched \<Rightarrow> (code \<Rightarrow> inflate_call \<Rightarrow> outcome) \<Rightarrow> outcome" where
  "fetching f k = (case f of Got this s \<Rightarrow> k this s | Starved s \<Rightarrow> Leave Z_OK s | Wild \<Rightarrow> Fault)"

section \<open>The sliding window\<close>

text \<open>\<open>updatewindow(strm, out)\<close>, with the bytes written before \<open>next_out\<close>.\<close>

datatype 'a window_result = Updated 'a | No_Memory 'a | Outside

definition allocated_window :: "'a inflate_state_scheme \<Rightarrow> byte list option" where
  "allocated_window s = (case window s of None \<Rightarrow> zalloc s (2 ^ wbits s) | Some w \<Rightarrow> Some w)"

definition started_window :: "'a inflate_state_scheme \<Rightarrow> 'a inflate_state_scheme" where
  "started_window s = (if wsize s = 0 then s \<lparr> wsize := 2 ^ wbits s, write_at := 0, whave := 0 \<rparr> else s)"

definition copy_to_window :: "byte list \<Rightarrow> nat \<Rightarrow> byte list \<Rightarrow> 'a inflate_state_scheme \<Rightarrow> 'a inflate_state_scheme option" where
  "copy_to_window written cp w s =
    (if cp \<ge> wsize s then do {
       src \<leftarrow> last_bytes (wsize s) written;
       w \<leftarrow> copy_to w 0 src (wsize s);
       Some (s \<lparr> window := Some w, write_at := 0, whave := wsize s \<rparr>) }
     else do {
       let dist = min (wsize s - write_at s) cp;
       src \<leftarrow> last_bytes cp written;
       w \<leftarrow> copy_to w (write_at s) src dist;
       let cp = cp - dist;
       if cp \<noteq> 0 then do {
         src \<leftarrow> last_bytes cp written;
         w \<leftarrow> copy_to w 0 src cp;
         Some (s \<lparr> window := Some w, write_at := cp, whave := wsize s \<rparr>) }
       else
         Some (s \<lparr> window := Some w,
           write_at := (if write_at s + dist = wsize s then 0 else write_at s + dist),
           whave := (if whave s < wsize s then whave s + dist else whave s) \<rparr>) })"

definition updatewindow :: "byte list \<Rightarrow> nat \<Rightarrow> 'a inflate_state_scheme \<Rightarrow> 'a inflate_state_scheme window_result" where
  "updatewindow written out s = (case allocated_window s of
      None \<Rightarrow> No_Memory s
    | Some w \<Rightarrow>
        (case copy_to_window written (out - avail_out s) w (started_window s) of None \<Rightarrow> Outside | Some s \<Rightarrow> Updated s))"

end
