(* ===== verification/Inflate_Header.thy ===== *)
theory Inflate_Header
  imports Inflate_State
begin

text \<open>
  The modes of \<open>inflate()\<close> that read the zlib or gzip header, \<^verbatim>\<open>src/AOS/aos/zlib/inflate.c\<close> from \<open>case HEAD\<close> to
  \<open>case DICT\<close>, one definition each. A case that falls through to the next sets the mode of that next case first, so
  falling through is going round the loop.
\<close>

definition do_HEAD :: "inflate_call \<Rightarrow> outcome" where
  "do_HEAD s =
    (if wrap s = 0 then Again (s \<lparr> mode := TYPEDO \<rparr>)
     else needing 16 (\<lambda>s.
       if wrap s AND 2 \<noteq> 0 \<and> hold s = 0x8b1f then
         getting (CRC2 crc_init (hold s)) (\<lambda>c. Again (INITBITS (s \<lparr> check := c, mode := FLAGS \<rparr>)))
       else let
         s = s \<lparr> flags := 0 \<rparr>;
         s = (if head s then s \<lparr> gz := (gz s) \<lparr> done_flag := -1 \<rparr> \<rparr> else s)
       in
         if wrap s AND 1 = 0 \<or> (push_bit 8 (BITS 8 s) + drop_bit 8 (hold s)) mod 31 \<noteq> 0 then
           data_error ''incorrect header check'' s
         else if BITS 4 s \<noteq> Z_DEFLATED then data_error ''unknown compression method'' s
         else let
           s = DROPBITS 4 s;
           ln = unat (BITS 4 s) + 8
         in
           if ln > wbits s then data_error ''invalid window size'' s
           else Again (INITBITS (s \<lparr> dmax := 2 ^ ln, adler := adler_init, check := adler_init,
             mode := (if hold s AND 0x200 \<noteq> 0 then DICTID else TYPE_MODE) \<rparr>))) s)"

text \<open>\<open>if (state->flags & 0x0200) CRC2(state->check, hold)\<close>, and the same with \<open>CRC4\<close> or on input bytes.\<close>

definition header_crc :: "(ulong \<Rightarrow> ulong option) \<Rightarrow> inflate_call \<Rightarrow> inflate_call option" where
  "header_crc f s =
    (if flags s AND 0x0200 \<noteq> 0 then case f (check s) of None \<Rightarrow> None | Some c \<Rightarrow> Some (s \<lparr> check := c \<rparr>) else Some s)"

definition set_gz :: "(gz_header \<Rightarrow> gz_header) \<Rightarrow> inflate_call \<Rightarrow> inflate_call" where
  "set_gz f s = (if head s then s \<lparr> gz := f (gz s) \<rparr> else s)"

definition do_FLAGS :: "inflate_call \<Rightarrow> outcome" where
  "do_FLAGS = needing 16 (\<lambda>s. let s = s \<lparr> flags := hold s \<rparr> in
    if flags s AND 0xff \<noteq> Z_DEFLATED then data_error ''unknown compression method'' s
    else if flags s AND 0xe000 \<noteq> 0 then data_error ''unknown header flags set'' s
    else let s = set_gz (\<lambda>g. g \<lparr> text_flag := drop_bit 8 (hold s) AND 1 \<noteq> 0 \<rparr>) s in
      getting (header_crc (\<lambda>c. CRC2 c (hold s)) s) (\<lambda>s. Again (INITBITS s \<lparr> mode := TIME \<rparr>)))"

definition do_TIME :: "inflate_call \<Rightarrow> outcome" where
  "do_TIME = needing 32 (\<lambda>s. let s = set_gz (\<lambda>g. g \<lparr> time := hold s \<rparr>) s in
    getting (header_crc (\<lambda>c. CRC4 c (hold s)) s) (\<lambda>s. Again (INITBITS s \<lparr> mode := OS \<rparr>)))"

definition do_OS :: "inflate_call \<Rightarrow> outcome" where
  "do_OS = needing 16 (\<lambda>s. let s = set_gz (\<lambda>g. g \<lparr> xflags := hold s AND 0xff, os_code := drop_bit 8 (hold s) \<rparr>) s in
    getting (header_crc (\<lambda>c. CRC2 c (hold s)) s) (\<lambda>s. Again (INITBITS s \<lparr> mode := EXLEN \<rparr>)))"

definition do_EXLEN :: "inflate_call \<Rightarrow> outcome" where
  "do_EXLEN s =
    (if flags s AND 0x0400 \<noteq> 0 then needing 16 (\<lambda>s. let
         s = s \<lparr> length_of := hold s \<rparr>;
         s = set_gz (\<lambda>g. g \<lparr> extra_len := hold s \<rparr>) s
       in getting (header_crc (\<lambda>c. CRC2 c (hold s)) s) (\<lambda>s. Again (INITBITS s \<lparr> mode := EXTRA \<rparr>))) s
     else Again (set_gz (\<lambda>g. g \<lparr> extra := None \<rparr>) s \<lparr> mode := EXTRA \<rparr>))"

text \<open>
  The copy of \<open>n\<close> bytes of the extra field to the caller's buffer; \<open>len + copy > extra_max ? extra_max - len : copy\<close>
  is computed in \<open>unsigned int\<close>.
\<close>

definition extra_copy_size :: "uint \<Rightarrow> uint \<Rightarrow> uint \<Rightarrow> uint" where
  "extra_copy_size at n mx = (if at + n > mx then mx - at else n)"

definition save_extra :: "nat \<Rightarrow> inflate_call \<Rightarrow> inflate_call option" where
  "save_extra n s =
    (if head s then case extra (gz s) of
       None \<Rightarrow> Some s
     | Some buf \<Rightarrow>
         let at = extra_len (gz s) - length_of s
         in do { buf \<leftarrow> copy_to buf (unat at) (next_in s) (unat (extra_copy_size at (of_nat n) (extra_max (gz s))));
                 Some (s \<lparr> gz := (gz s) \<lparr> extra := Some buf \<rparr> \<rparr>) }
     else Some s)"

definition do_EXTRA :: "inflate_call \<Rightarrow> outcome" where
  "do_EXTRA s =
    (if flags s AND 0x0400 \<noteq> 0 then let cp = min (unat (length_of s)) (avail_in s) in
       getting (if cp \<noteq> 0 then do {
           s \<leftarrow> save_extra cp s;
           s \<leftarrow> header_crc (\<lambda>c. crc_of c (take cp (next_in s))) s;
           Some (s \<lparr> next_in := drop cp (next_in s), length_of := length_of s - of_nat cp \<rparr>) }
         else Some s)
         (\<lambda>s. if length_of s \<noteq> 0 then Leave Z_OK s else Again (s \<lparr> length_of := 0, mode := NAME \<rparr>))
     else Again (s \<lparr> length_of := 0, mode := NAME \<rparr>))"

text \<open>
  The loop over the bytes of the name or the comment: the buffer and the index, how many bytes have been read, and
  whether the last was not zero. Without a buffer nothing is stored.
\<close>

fun string_loop :: "byte list option \<Rightarrow> uint \<Rightarrow> uint \<Rightarrow> byte list \<Rightarrow> nat \<Rightarrow> (byte list option \<times> uint \<times> nat \<times> bool) option" where
  "string_loop buf mx i [] n = Some (buf, i, n, True)"
| "string_loop buf mx i (b # bs) n = do {
    (buf, i) \<leftarrow> (case buf of
        Some p \<Rightarrow> if i < mx then do { p \<leftarrow> poke p (unat i) b; Some (Some p, i + 1) } else Some (buf, i)
      | None \<Rightarrow> Some (buf, i));
    if b \<noteq> 0 then string_loop buf mx i bs (n + 1) else Some (buf, i, n + 1, False) }"

definition do_NAME :: "inflate_call \<Rightarrow> outcome" where
  "do_NAME s =
    (if flags s AND 0x0800 \<noteq> 0 then
       if avail_in s = 0 then Leave Z_OK s
       else getting (do {
           (buf, i, cp, more) \<leftarrow> string_loop (if head s then name (gz s) else None) (name_max (gz s)) (length_of s) (next_in s) 0;
           s \<leftarrow> header_crc (\<lambda>c. crc_of c (take cp (next_in s))) (set_gz (\<lambda>g. g \<lparr> name := buf \<rparr>) s \<lparr> length_of := i \<rparr>);
           Some (s \<lparr> next_in := drop cp (next_in s) \<rparr>, more) })
         (\<lambda>(s, more). if more then Leave Z_OK s else Again (s \<lparr> length_of := 0, mode := COMMENT \<rparr>))
     else Again (set_gz (\<lambda>g. g \<lparr> name := None \<rparr>) s \<lparr> length_of := 0, mode := COMMENT \<rparr>))"

definition do_COMMENT :: "inflate_call \<Rightarrow> outcome" where
  "do_COMMENT s =
    (if flags s AND 0x1000 \<noteq> 0 then
       if avail_in s = 0 then Leave Z_OK s
       else getting (do {
           (buf, i, cp, more) \<leftarrow> string_loop (if head s then comment (gz s) else None) (comm_max (gz s)) (length_of s) (next_in s) 0;
           s \<leftarrow> header_crc (\<lambda>c. crc_of c (take cp (next_in s))) (set_gz (\<lambda>g. g \<lparr> comment := buf \<rparr>) s \<lparr> length_of := i \<rparr>);
           Some (s \<lparr> next_in := drop cp (next_in s) \<rparr>, more) })
         (\<lambda>(s, more). if more then Leave Z_OK s else Again (s \<lparr> mode := HCRC \<rparr>))
     else Again (set_gz (\<lambda>g. g \<lparr> comment := None \<rparr>) s \<lparr> mode := HCRC \<rparr>))"

definition header_done :: "inflate_call \<Rightarrow> outcome" where
  "header_done s = (let
      s = set_gz (\<lambda>g. g \<lparr> hcrc_flag := drop_bit 9 (flags s) AND 1 \<noteq> 0, done_flag := 1 \<rparr>) s
    in Again (s \<lparr> adler := crc_init, check := crc_init, mode := TYPE_MODE \<rparr>))"

definition do_HCRC :: "inflate_call \<Rightarrow> outcome" where
  "do_HCRC s =
    (if flags s AND 0x0200 \<noteq> 0 then needing 16 (\<lambda>s.
       if hold s \<noteq> check s AND 0xffff then data_error ''header crc mismatch'' s
       else header_done (INITBITS s)) s
     else header_done s)"

definition do_DICTID :: "inflate_call \<Rightarrow> outcome" where
  "do_DICTID = needing 32 (\<lambda>s.
    Again (INITBITS (s \<lparr> adler := REVERSE (hold s), check := REVERSE (hold s), mode := DICT \<rparr>)))"

definition do_DICT :: "inflate_call \<Rightarrow> outcome" where
  "do_DICT s =
    (if \<not> havedict s then Return Z_NEED_DICT s
     else Again (s \<lparr> adler := adler_init, check := adler_init, mode := TYPE_MODE \<rparr>))"

end
