(* ===== verification/Inflate_Blocks.thy ===== *)
theory Inflate_Blocks
  imports Inflate_State
begin

text \<open>
  The modes of \<open>inflate()\<close> that start a block, copy a stored one, and read the code lengths of a dynamic one,
  \<^verbatim>\<open>src/AOS/aos/zlib/inflate.c\<close> from \<open>case TYPE\<close> to \<open>case CODELENS\<close>.
\<close>

section \<open>The start of a block\<close>

definition do_TYPEDO :: "inflate_call \<Rightarrow> outcome" where
  "do_TYPEDO s =
    (if last_block s then Again (BYTEBITS s \<lparr> mode := CHECK \<rparr>)
     else needing 3 (\<lambda>s. let
         s = DROPBITS 1 (s \<lparr> last_block := BITS 1 s \<noteq> 0 \<rparr>);
         ty = BITS 2 s;
         s = (if ty = 0 then s \<lparr> mode := STORED \<rparr>
           else if ty = 1 then fixedtables s \<lparr> mode := LEN \<rparr>
           else if ty = 2 then s \<lparr> mode := TABLE \<rparr>
           else s \<lparr> msg := Some ''invalid block type'', mode := BAD \<rparr>)
       in Again (DROPBITS 2 s)) s)"

text \<open>\<open>TYPE\<close> falls through to \<open>TYPEDO\<close> without a change of the mode.\<close>

definition do_TYPE :: "int \<Rightarrow> inflate_call \<Rightarrow> outcome" where
  "do_TYPE flush s = (if flush = Z_BLOCK then Leave Z_OK s else do_TYPEDO s)"

section \<open>Stored blocks\<close>

definition do_STORED :: "inflate_call \<Rightarrow> outcome" where
  "do_STORED s = needing 32 (\<lambda>s.
     if hold s AND 0xffff \<noteq> (drop_bit 16 (hold s) XOR 0xffff) then data_error ''invalid stored block lengths'' s
     else Again (INITBITS (s \<lparr> length_of := hold s AND 0xffff, mode := COPY \<rparr>))) (BYTEBITS s)"

definition do_COPY :: "inflate_call \<Rightarrow> outcome" where
  "do_COPY s =
    (if length_of s \<noteq> 0 then let cp = min (min (unat (length_of s)) (avail_in s)) (avail_out s) in
       if cp = 0 then Leave Z_OK s
       else Again (s \<lparr> put := put s @ take cp (next_in s), next_in := drop cp (next_in s),
         avail_out := avail_out s - cp, length_of := length_of s - of_nat cp \<rparr>)
     else Again (s \<lparr> mode := TYPE_MODE \<rparr>))"

section \<open>The code lengths of a dynamic block\<close>

definition order_lens :: "nat list" where
  "order_lens = [16, 17, 18, 0, 8, 7, 9, 6, 10, 5, 11, 4, 12, 3, 13, 2, 14, 1, 15]"

definition do_TABLE :: "inflate_call \<Rightarrow> outcome" where
  "do_TABLE = needing 14 (\<lambda>s. let
      s = DROPBITS 5 (s \<lparr> nlen := unat (BITS 5 s) + 257 \<rparr>);
      s = DROPBITS 5 (s \<lparr> ndist := unat (BITS 5 s) + 1 \<rparr>);
      s = DROPBITS 4 (s \<lparr> ncode := unat (BITS 4 s) + 4 \<rparr>)
    in if nlen s > 286 \<or> ndist s > 30 then data_error ''too many length or distance symbols'' s
      else Again (s \<lparr> have_lens := 0, mode := LENLENS \<rparr>))"

text \<open>
  A loop that pulls bits: it ends, runs out of input, breaks off with an error, or accesses memory outside of an
  object.
\<close>

datatype 'a pulled = Ready 'a | Short 'a | Bad 'a | Wrong

lemma NEEDBITS_keeps [simp]:
  "ncode (snd (NEEDBITS n s)) = ncode s" "nlen (snd (NEEDBITS n s)) = nlen s" "ndist (snd (NEEDBITS n s)) = ndist s"
  "have_lens (snd (NEEDBITS n s)) = have_lens s"
  by (induction n s rule: NEEDBITS.induct, subst NEEDBITS.simps, auto simp: PULLBYTE_def split: list.splits)+

lemma NEEDBITS_counts:
  "(ready, s') = NEEDBITS n s \<Longrightarrow> ncode s' = ncode s \<and> nlen s' = nlen s \<and> ndist s' = ndist s \<and> have_lens s' = have_lens s"
  by (metis NEEDBITS_keeps snd_conv)

lemma DROPBITS_keeps [simp]:
  "ncode (DROPBITS n s) = ncode s" "nlen (DROPBITS n s) = nlen s" "ndist (DROPBITS n s) = ndist s"
  "have_lens (DROPBITS n s) = have_lens s" "mode (DROPBITS n s) = mode s"
  by (simp_all add: DROPBITS_def)

text \<open>\<open>while (state->have < state->ncode)\<close>: three bits for each code length code length.\<close>

function lenlens_loop :: "'a inflate_state_scheme \<Rightarrow> 'a inflate_state_scheme pulled" where
  "lenlens_loop s =
    (if have_lens s < ncode s then
       case NEEDBITS 3 s of (ready, s') \<Rightarrow>
         if ready then
           case Option.bind (peek order_lens (have_lens s')) (\<lambda>i. poke (lens s') i (ucast (BITS 3 s'))) of
             None \<Rightarrow> Wrong
           | Some ls \<Rightarrow> lenlens_loop (DROPBITS 3 (s' \<lparr> lens := ls, have_lens := have_lens s' + 1 \<rparr>))
         else Short s'
     else Ready s)"
  by pat_completeness auto
termination
  by (relation "measure (\<lambda>s. ncode s - have_lens s)") (auto dest: NEEDBITS_counts)

declare lenlens_loop.simps [simp del]

text \<open>\<open>while (state->have < 19) state->lens[order[state->have++]] = 0;\<close> with \<open>k\<close> rounds to go.\<close>

fun zero_lens :: "nat \<Rightarrow> 'a inflate_state_scheme \<Rightarrow> 'a inflate_state_scheme option" where
  "zero_lens 0 s = Some s"
| "zero_lens (Suc k) s = do {
    i \<leftarrow> peek order_lens (have_lens s);
    ls \<leftarrow> poke (lens s) i 0;
    zero_lens k (s \<lparr> lens := ls, have_lens := have_lens s + 1 \<rparr>) }"

text \<open>
  A call of \<open>inflate_table\<close> with \<open>n\<close> lengths from index \<open>from\<close> and tables of \<open>nb\<close> index bits, that makes its table at
  \<open>next\<close>: whether it succeeds, the index bits, and the state.
\<close>

definition build_table :: "codetype \<Rightarrow> nat \<Rightarrow> nat \<Rightarrow> nat \<Rightarrow> inflate_call \<Rightarrow> (bool \<times> nat \<times> inflate_call) option" where
  "build_table ty from n nb s = do {
    r \<leftarrow> inflate_table ty (drop from (lens s)) n (drop (next_code s) (codes s)) nb (work_lens s);
    Some (ret r = 0, root_bits r,
      s \<lparr> codes := take (next_code s) (codes s) @ table r, next_code := next_code s + advance r, work_lens := work_area r \<rparr>) }"

definition do_LENLENS :: "inflate_call \<Rightarrow> outcome" where
  "do_LENLENS s = (case lenlens_loop s of
      Wrong \<Rightarrow> Fault
    | Short s \<Rightarrow> Leave Z_OK s
    | Bad s \<Rightarrow> Again s
    | Ready s \<Rightarrow>
        getting (zero_lens (19 - have_lens s) s) (\<lambda>s. let s = s \<lparr> next_code := 0, lencode := Codes 0, lenbits := 7 \<rparr> in
        getting (build_table CODES 0 19 (lenbits s) s) (\<lambda>(ok, nb, s). let s = s \<lparr> lenbits := nb \<rparr> in
          if ok then Again (s \<lparr> have_lens := 0, mode := CODELENS \<rparr>)
          else data_error ''invalid code lengths set'' s)))"

text \<open>\<open>while (copy--) state->lens[state->have++] = (unsigned short)len;\<close>\<close>

fun repeat_len :: "nat \<Rightarrow> ushort \<Rightarrow> 'a inflate_state_scheme \<Rightarrow> 'a inflate_state_scheme option" where
  "repeat_len 0 l s = Some s"
| "repeat_len (Suc k) l s = do {
    ls \<leftarrow> poke (lens s) (have_lens s) l;
    repeat_len k l (s \<lparr> lens := ls, have_lens := have_lens s + 1 \<rparr>) }"

text \<open>
  The bits, the length to repeat and the number of times of the codes 16, 17 and 18. The first is missing when there
  is no length yet.
\<close>

definition repeat_bits :: "ushort \<Rightarrow> nat" where
  "repeat_bits v = (if v = 16 then 2 else if v = 17 then 3 else 7)"

definition repeat_base :: "ushort \<Rightarrow> nat" where
  "repeat_base v = (if v = 16 then 3 else if v = 17 then 3 else 11)"

definition set_bad :: "string \<Rightarrow> 'a inflate_state_scheme \<Rightarrow> 'a inflate_state_scheme" where
  "set_bad m s = s \<lparr> msg := Some m, mode := BAD \<rparr>"

definition repeat_code :: "code \<Rightarrow> 'a inflate_state_scheme \<Rightarrow> 'a inflate_state_scheme pulled" where
  "repeat_code this s =
    (case NEEDBITS (unat (nbits this) + repeat_bits (val this)) s of (ready, s) \<Rightarrow>
      if \<not> ready then Short s
      else let s = DROPBITS (unat (nbits this)) s in
        if val this = 16 \<and> have_lens s = 0 then Bad (set_bad ''invalid bit length repeat'' s)
        else case (if val this = 16 then peek (lens s) (have_lens s - 1) else Some 0) of
          None \<Rightarrow> Wrong
        | Some l \<Rightarrow>
            let n = repeat_base (val this) + unat (BITS (repeat_bits (val this)) s); s = DROPBITS (repeat_bits (val this)) s in
            if have_lens s + n > nlen s + ndist s then Bad (set_bad ''invalid bit length repeat'' s)
            else case repeat_len n l s of None \<Rightarrow> Wrong | Some s \<Rightarrow> Ready s)"

text \<open>One round of \<open>while (state->have < state->nlen + state->ndist)\<close>.\<close>

definition codelens_round :: "'a inflate_state_scheme \<Rightarrow> 'a inflate_state_scheme pulled" where
  "codelens_round s = (case fetch (lencode s) (root_index (lenbits s)) 0 s of
      Wild \<Rightarrow> Wrong
    | Starved s \<Rightarrow> Short s
    | Got this s \<Rightarrow>
        if val this < 16 then
          case NEEDBITS (unat (nbits this)) s of (ready, s) \<Rightarrow>
            if ready then let s = DROPBITS (unat (nbits this)) s in
              (case poke (lens s) (have_lens s) (val this) of
                None \<Rightarrow> Wrong
              | Some ls \<Rightarrow> Ready (s \<lparr> lens := ls, have_lens := have_lens s + 1 \<rparr>))
            else Short s
        else repeat_code this s)"

lemma fetch_keeps:
  "fetch p idx base s = Got this s' \<Longrightarrow> nlen s' = nlen s \<and> ndist s' = ndist s \<and> have_lens s' = have_lens s"
proof (induction p idx base s rule: fetch.induct)
  case (1 p idx base s)
  then show ?case by (subst (asm) (2) fetch.simps) (auto simp: PULLBYTE_def split: option.splits if_splits list.splits)
qed

lemma repeat_len_keeps:
  "repeat_len k l s = Some s' \<Longrightarrow> nlen s' = nlen s \<and> ndist s' = ndist s \<and> have_lens s' = have_lens s + k"
  by (induction k l s rule: repeat_len.induct) (auto split: bind_splits)

lemma repeat_code_Ready:
  assumes "repeat_code this s = Ready s'"
  shows "nlen s' = nlen s \<and> ndist s' = ndist s \<and> have_lens s < have_lens s'"
proof -
  obtain ready t where t: "NEEDBITS (unat (nbits this) + repeat_bits (val this)) s = (ready, t)" by fastforce
  then have "nlen t = nlen s \<and> ndist t = ndist s \<and> have_lens t = have_lens s" by (metis NEEDBITS_keeps(2-4) snd_conv)
  moreover have "0 < repeat_base (val this)" by (simp add: repeat_base_def)
  ultimately show ?thesis
    using assms t by (auto simp: repeat_code_def Let_def split: if_splits option.splits dest!: repeat_len_keeps)
qed

lemma codelens_round_Ready:
  assumes "codelens_round s = Ready s'"
  shows "nlen s' = nlen s \<and> ndist s' = ndist s \<and> have_lens s < have_lens s'"
proof -
  obtain this t where t: "fetch (lencode s) (root_index (lenbits s)) 0 s = Got this t"
    using assms by (auto simp: codelens_round_def split: fetched.splits)
  obtain ready u where u: "NEEDBITS (unat (nbits this)) t = (ready, u)" by fastforce
  have "nlen u = nlen t \<and> ndist u = ndist t \<and> have_lens u = have_lens t" using u by (metis NEEDBITS_keeps(2-4) snd_conv)
  then show ?thesis
    using assms fetch_keeps [OF t] t u
    by (auto simp: codelens_round_def Let_def split: if_splits option.splits dest!: repeat_code_Ready)
qed

function codelens_loop :: "'a inflate_state_scheme \<Rightarrow> 'a inflate_state_scheme pulled" where
  "codelens_loop s =
    (if have_lens s < nlen s + ndist s then
       case codelens_round s of Ready s' \<Rightarrow> codelens_loop s' | r \<Rightarrow> r
     else Ready s)"
  by pat_completeness auto
termination
  by (relation "measure (\<lambda>s. nlen s + ndist s - have_lens s)") (auto dest: codelens_round_Ready)

declare codelens_loop.simps [simp del]

definition do_CODELENS :: "inflate_call \<Rightarrow> outcome" where
  "do_CODELENS s = (case codelens_loop s of
      Wrong \<Rightarrow> Fault
    | Short s \<Rightarrow> Leave Z_OK s
    | Bad s \<Rightarrow> Again s
    | Ready s \<Rightarrow> let s = s \<lparr> next_code := 0, lencode := Codes 0, lenbits := 9 \<rparr> in
        getting (build_table LENS 0 (nlen s) (lenbits s) s) (\<lambda>(ok, nb, s). let s = s \<lparr> lenbits := nb \<rparr> in
          if \<not> ok then data_error ''invalid literal/lengths set'' s
          else let s = s \<lparr> distcode := Codes (next_code s), distbits := 6 \<rparr> in
            getting (build_table DISTS (nlen s) (ndist s) (distbits s) s) (\<lambda>(ok, nb, s). let s = s \<lparr> distbits := nb \<rparr> in
              if \<not> ok then data_error ''invalid distances set'' s
              else Again (s \<lparr> mode := LEN \<rparr>))))"

end
