(* ===== verification/Inffast.thy ===== *)
theory Inffast
  imports Inflate_State
begin

text \<open>
  The fast decoding loop, \<^verbatim>\<open>src/AOS/aos/zlib/inffast.c\<close>. It works on the state of the call: \<open>in < last\<close> is at least six
  bytes of input left, \<open>out < end\<close> at least 258 bytes of room. The code does not check for input, room or index
  bounds inside of the loop; here an access that has none of them gives \<open>None\<close>, and so does a chain of table links
  without an end.
\<close>

section \<open>Reading codes\<close>

definition PULL2 :: "'a inflate_state_scheme \<Rightarrow> 'a inflate_state_scheme option" where
  "PULL2 s = do { s \<leftarrow> PULLBYTE s; PULLBYTE s }"

definition fill15 :: "'a inflate_state_scheme \<Rightarrow> 'a inflate_state_scheme option" where
  "fill15 s = (if bitcnt s < 15 then PULL2 s else Some s)"

definition drop_fast :: "nat \<Rightarrow> 'a inflate_state_scheme \<Rightarrow> 'a inflate_state_scheme option" where
  "drop_fast n s = (if n \<le> bitcnt s then Some (DROPBITS n s) else None)"

text \<open>The labels \<open>dolen\<close> and \<open>dodist\<close>: drop the bits of an entry, and go to the second level when it is a link.\<close>

partial_function (option) follow ::
    "(byte \<Rightarrow> bool) \<Rightarrow> code_ptr \<Rightarrow> code \<Rightarrow> 'a inflate_state_scheme \<Rightarrow> (code \<times> 'a inflate_state_scheme) option" where
  "follow link p this s = do {
    s \<leftarrow> drop_fast (unat (nbits this)) s;
    if link (op this) then do {
      this \<leftarrow> table_at s p (unat (val this) + unat (BITS (unat (op this)) s));
      follow link p this s }
    else Some (this, s) }"

definition len_link :: "byte \<Rightarrow> bool" where
  "len_link o' \<longleftrightarrow> o' \<noteq> 0 \<and> o' AND 16 = 0 \<and> o' AND 64 = 0"

definition dist_link :: "byte \<Rightarrow> bool" where
  "dist_link o' \<longleftrightarrow> o' AND 16 = 0 \<and> o' AND 64 = 0"

text \<open>The extra bits of a length, and of a distance.\<close>

definition fast_len_extra :: "nat \<Rightarrow> 'a inflate_state_scheme \<Rightarrow> (nat \<times> 'a inflate_state_scheme) option" where
  "fast_len_extra n s =
    (if n \<noteq> 0 then do {
       s \<leftarrow> (if bitcnt s < n then PULLBYTE s else Some s);
       t \<leftarrow> drop_fast n s;
       Some (unat (BITS n s), t) }
     else Some (0, s))"

definition fast_dist_extra :: "nat \<Rightarrow> 'a inflate_state_scheme \<Rightarrow> (nat \<times> 'a inflate_state_scheme) option" where
  "fast_dist_extra n s = do {
    s \<leftarrow> (if bitcnt s < n then do {
        s \<leftarrow> PULLBYTE s;
        if bitcnt s < n then PULLBYTE s else Some s }
      else Some s);
    t \<leftarrow> drop_fast n s;
    Some (unat (BITS n s), t) }"

section \<open>Copying a match\<close>

text \<open>
  \<open>PUP(out)\<close>, and the pointer \<open>from\<close>: an index of the window, a distance back from \<open>out\<close>, or a pointer that has been taken
  to before the beginning of the window, from which nothing can be read.
\<close>

definition fast_put :: "byte \<Rightarrow> inflate_call \<Rightarrow> inflate_call option" where
  "fast_put b s = (if avail_out s = 0 then None else Some (s \<lparr> put := put s @ [b], avail_out := avail_out s - 1 \<rparr>))"

datatype copy_from = From_Window nat | From_Out nat | Before_Window

definition window_minus :: "nat \<Rightarrow> nat \<Rightarrow> copy_from" where
  "window_minus a b = (if b \<le> a then From_Window (a - b) else Before_Window)"

definition copy_byte :: "copy_from \<Rightarrow> inflate_call \<Rightarrow> (copy_from \<times> inflate_call) option" where
  "copy_byte f s = (case f of
      From_Window i \<Rightarrow> do {
        w \<leftarrow> window s;
        b \<leftarrow> peek w i;
        s \<leftarrow> fast_put b s;
        Some (From_Window (i + 1), s) }
    | From_Out d \<Rightarrow>
        if d = 0 \<or> length (put s) < d then None
        else do {
          s \<leftarrow> fast_put (put s ! (length (put s) - d)) s;
          Some (f, s) }
    | Before_Window \<Rightarrow> None)"

text \<open>\<open>do { PUP(out) = PUP(from); } while (--op);\<close>\<close>

fun copy_bytes :: "nat \<Rightarrow> copy_from \<Rightarrow> inflate_call \<Rightarrow> (copy_from \<times> inflate_call) option" where
  "copy_bytes 0 f s = Some (f, s)"
| "copy_bytes (Suc n) f s = do { (f, s) \<leftarrow> copy_byte f s; copy_bytes n f s }"

definition copy_while :: "nat \<Rightarrow> copy_from \<Rightarrow> inflate_call \<Rightarrow> inflate_call option" where
  "copy_while n f s = (if n = 0 then None else map_option snd (copy_bytes n f s))"

text \<open>\<open>while (len > 2)\<close> with three bytes in a round, then \<open>if (len)\<close> and \<open>if (len > 1)\<close>.\<close>

definition copy_three :: "copy_from \<Rightarrow> inflate_call \<Rightarrow> (copy_from \<times> inflate_call) option" where
  "copy_three f s = do { (f, s) \<leftarrow> copy_byte f s; (f, s) \<leftarrow> copy_byte f s; copy_byte f s }"

fun copy_rest :: "nat \<Rightarrow> copy_from \<Rightarrow> inflate_call \<Rightarrow> inflate_call option" where
  "copy_rest n f s =
    (if 2 < n then Option.bind (copy_three f s) (\<lambda>(f, s). copy_rest (n - 3) f s)
     else if n \<noteq> 0 then do {
       (f, s) \<leftarrow> copy_byte f s;
       if 1 < n then do { (f, s) \<leftarrow> copy_byte f s; Some s } else Some s }
     else Some s)"

declare copy_rest.simps [simp del]

text \<open>\<open>do { ... len -= 3; } while (len > 2);\<close>: with less than three bytes \<open>len\<close> would wrap around.\<close>

definition copy_direct :: "nat \<Rightarrow> nat \<Rightarrow> inflate_call \<Rightarrow> inflate_call option" where
  "copy_direct n dist s =
    (if n < 3 then None else Option.bind (copy_three (From_Out dist) s) (\<lambda>(f, s). copy_rest (n - 3) f s))"

text \<open>Copy \<open>n\<close> bytes from a distance that reaches \<open>back\<close> bytes into the window.\<close>

definition copy_windowed :: "nat \<Rightarrow> nat \<Rightarrow> nat \<Rightarrow> inflate_call \<Rightarrow> inflate_call option" where
  "copy_windowed n dist back s =
    (if write_at s = 0 then
       if back < n then do {
         s \<leftarrow> copy_while back (window_minus (wsize s) back) s;
         copy_rest (n - back) (From_Out dist) s }
       else copy_rest n (window_minus (wsize s) back) s
     else if write_at s < back then let from = window_minus (wsize s + write_at s) back; rest = back - write_at s in
       if rest < n then do {
         s \<leftarrow> copy_while rest from s;
         if write_at s < n - rest then do {
           s \<leftarrow> copy_while (write_at s) (From_Window 0) s;
           copy_rest (n - rest - write_at s) (From_Out dist) s }
         else copy_rest (n - rest) (From_Window 0) s }
       else copy_rest n from s
     else
       if back < n then do {
         s \<leftarrow> copy_while back (From_Window (write_at s - back)) s;
         copy_rest (n - back) (From_Out dist) s }
       else copy_rest n (From_Window (write_at s - back)) s)"

section \<open>The loop\<close>

datatype fast_round = Next inflate_call | Break inflate_call

definition fast_error :: "string \<Rightarrow> inflate_call \<Rightarrow> fast_round" where
  "fast_error m s = Break (s \<lparr> msg := Some m, mode := BAD \<rparr>)"

definition fast_copy :: "nat \<Rightarrow> nat \<Rightarrow> nat \<Rightarrow> inflate_call \<Rightarrow> fast_round option" where
  "fast_copy start n dist s = (let written = start - avail_out s in
    if dist > written then
      if dist - written > whave s then Some (fast_error ''invalid distance too far back'' s)
      else map_option Next (copy_windowed n dist (dist - written) s)
    else map_option Next (copy_direct n dist s))"

definition fast_distance :: "nat \<Rightarrow> nat \<Rightarrow> inflate_call \<Rightarrow> fast_round option" where
  "fast_distance start n s = do {
    s \<leftarrow> fill15 s;
    this \<leftarrow> table_at s (distcode s) (unat (BITS (distbits s) s));
    (this, s) \<leftarrow> follow dist_link (distcode s) this s;
    if op this AND 16 \<noteq> 0 then do {
      (x, s) \<leftarrow> fast_dist_extra (unat (op this AND 15)) s;
      fast_copy start n (unat (val this) + x) s }
    else Some (fast_error ''invalid distance code'' s) }"

definition fast_step :: "nat \<Rightarrow> inflate_call \<Rightarrow> fast_round option" where
  "fast_step start s = do {
    s \<leftarrow> fill15 s;
    this \<leftarrow> table_at s (lencode s) (unat (BITS (lenbits s) s));
    (this, s) \<leftarrow> follow len_link (lencode s) this s;
    if op this = 0 then map_option Next (fast_put (ucast (val this)) s)
    else if op this AND 16 \<noteq> 0 then do {
      (x, s) \<leftarrow> fast_len_extra (unat (op this AND 15)) s;
      fast_distance start (unat (val this) + x) s }
    else if op this AND 32 \<noteq> 0 then Some (Break (s \<lparr> mode := TYPE_MODE \<rparr>))
    else Some (fast_error ''invalid literal/length code'' s) }"

partial_function (option) fast_loop :: "nat \<Rightarrow> inflate_call \<Rightarrow> inflate_call option" where
  "fast_loop start s = do {
    r \<leftarrow> fast_step start s;
    case r of
      Next s \<Rightarrow> if 5 < avail_in s \<and> 257 < avail_out s then fast_loop start s else Some s
    | Break s \<Rightarrow> Some s }"

text \<open>
  The unused bytes of the accumulator go back to the input, which began with the bytes \<open>inp\<close>: stepping back further
  than that is out of the object.
\<close>

definition return_unused :: "byte list \<Rightarrow> 'a inflate_state_scheme \<Rightarrow> 'a inflate_state_scheme option" where
  "return_unused inp s = (let n = bitcnt s div 8; k = length inp - avail_in s in
    if n \<le> k then Some (s \<lparr> next_in := drop (k - n) inp, bitcnt := bitcnt s - 8 * n,
      hold := hold s AND (push_bit (bitcnt s - 8 * n) 1 - 1) \<rparr>)
    else None)"

definition inflate_fast :: "nat \<Rightarrow> inflate_call \<Rightarrow> inflate_call option" where
  "inflate_fast start s = do {
    t \<leftarrow> fast_loop start s;
    return_unused (next_in s) t }"

end
