(* ===== verification/Inflate_Codes.thy ===== *)
theory Inflate_Codes
  imports Inffast
begin

text \<open>
  The modes of \<open>inflate()\<close> that decode literals, lengths and distances and write the output,
  \<^verbatim>\<open>src/AOS/aos/zlib/inflate.c\<close> from \<open>case LEN\<close> to \<open>case LIT\<close>.
\<close>

text \<open>What an entry of the table of literals and lengths says.\<close>

definition len_entry_mode :: "code \<Rightarrow> inflate_call \<Rightarrow> outcome" where
  "len_entry_mode this s = (let s = DROPBITS (unat (nbits this)) s \<lparr> length_of := ucast (val this) \<rparr> in
    if op this = 0 then Again (s \<lparr> mode := LIT \<rparr>)
    else if op this AND 32 \<noteq> 0 then Again (s \<lparr> mode := TYPE_MODE \<rparr>)
    else if op this AND 64 \<noteq> 0 then data_error ''invalid literal/length code'' s
    else Again (s \<lparr> extra_need := unat (op this AND 15), mode := LENEXT \<rparr>))"

definition do_LEN_slow :: "inflate_call \<Rightarrow> outcome" where
  "do_LEN_slow s = fetching (fetch (lencode s) (root_index (lenbits s)) 0 s) (\<lambda>this s.
    if op this \<noteq> 0 \<and> op this AND 0xf0 = 0 then
      fetching (fetch (lencode s) (sub_index this) (unat (nbits this)) s) (\<lambda>sub s.
        len_entry_mode sub (DROPBITS (unat (nbits this)) s))
    else len_entry_mode this s)"

definition do_LEN :: "inflate_call \<Rightarrow> outcome" where
  "do_LEN s =
    (if avail_in s \<ge> 6 \<and> avail_out s \<ge> 258 then getting (inflate_fast (out_start s) s) Again else do_LEN_slow s)"

definition do_LENEXT :: "inflate_call \<Rightarrow> outcome" where
  "do_LENEXT s =
    (if extra_need s \<noteq> 0 then needing (extra_need s) (\<lambda>s.
       Again (DROPBITS (extra_need s) (s \<lparr> length_of := length_of s + BITS (extra_need s) s \<rparr>) \<lparr> mode := DIST \<rparr>)) s
     else Again (s \<lparr> mode := DIST \<rparr>))"

definition dist_entry_mode :: "code \<Rightarrow> inflate_call \<Rightarrow> outcome" where
  "dist_entry_mode this s = (let s = DROPBITS (unat (nbits this)) s in
    if op this AND 64 \<noteq> 0 then data_error ''invalid distance code'' s
    else Again (s \<lparr> offset := ucast (val this), extra_need := unat (op this AND 15), mode := DISTEXT \<rparr>))"

definition do_DIST :: "inflate_call \<Rightarrow> outcome" where
  "do_DIST s = fetching (fetch (distcode s) (root_index (distbits s)) 0 s) (\<lambda>this s.
    if op this AND 0xf0 = 0 then
      fetching (fetch (distcode s) (sub_index this) (unat (nbits this)) s) (\<lambda>sub s.
        dist_entry_mode sub (DROPBITS (unat (nbits this)) s))
    else dist_entry_mode this s)"

text \<open>\<open>state->whave + out - left\<close> is computed in \<open>unsigned int\<close>.\<close>

definition check_distance :: "inflate_call \<Rightarrow> outcome" where
  "check_distance s =
    (if unat (offset s) > (whave s + out_start s - avail_out s) mod 2 ^ 32 then data_error ''invalid distance too far back'' s
     else Again (s \<lparr> mode := MATCH \<rparr>))"

definition do_DISTEXT :: "inflate_call \<Rightarrow> outcome" where
  "do_DISTEXT s =
    (if extra_need s \<noteq> 0 then needing (extra_need s) (\<lambda>s.
       check_distance (DROPBITS (extra_need s) (s \<lparr> offset := offset s + BITS (extra_need s) s \<rparr>))) s
     else check_distance s)"

text \<open>
  \<open>MATCH\<close>: where the bytes come from and how many there are to copy, before the limit of the room that is left.
\<close>

definition match_source :: "inflate_call \<Rightarrow> copy_from \<times> nat" where
  "match_source s = (let
      written = out_start s - avail_out s;
      off = unat (offset s);
      n = unat (length_of s)
    in if off > written then let back = off - written in
         if back > write_at s then (window_minus (wsize s) (back - write_at s), min (back - write_at s) n)
         else (From_Window (write_at s - back), min back n)
       else (From_Out off, n))"

definition do_MATCH :: "inflate_call \<Rightarrow> outcome" where
  "do_MATCH s =
    (if avail_out s = 0 then Leave Z_OK s
     else let (from, n) = match_source s; n = min n (avail_out s) in
       getting (copy_while n from s) (\<lambda>s. let s = s \<lparr> length_of := length_of s - of_nat n \<rparr> in
         Again (if length_of s = 0 then s \<lparr> mode := LEN \<rparr> else s)))"

definition do_LIT :: "inflate_call \<Rightarrow> outcome" where
  "do_LIT s =
    (if avail_out s = 0 then Leave Z_OK s
     else Again (s \<lparr> put := put s @ [ucast (length_of s)], avail_out := avail_out s - 1, mode := LEN \<rparr>))"

end
