(* ===== verification/Inflate.thy ===== *)
theory Inflate
  imports Inflate_Header Inflate_Blocks Inflate_Codes
begin

text \<open>
  The whole of \<open>inflate()\<close>, \<^verbatim>\<open>src/AOS/aos/zlib/inflate.c\<close>: the trailer modes, the \<open>switch\<close>, the loop and
  \<open>inf_leave\<close>; and the other functions of the file on the stream.
\<close>

section \<open>The trailer\<close>

definition do_CHECK :: "inflate_call \<Rightarrow> outcome" where
  "do_CHECK s =
    (if wrap s \<noteq> 0 then needing 32 (\<lambda>s. let
         n = out_start s - avail_out s;
         s = s \<lparr> total_out := total_out s + of_nat n, total_of := total_of s + of_nat n \<rparr>
       in
         getting (if n \<noteq> 0 then do {
             buf \<leftarrow> last_bytes n (put s);
             c \<leftarrow> UPDATE (flags s) (check s) buf;
             Some (s \<lparr> adler := c, check := c \<rparr>) }
           else Some s) (\<lambda>s. let s = s \<lparr> out_start := avail_out s \<rparr> in
         if (if flags s \<noteq> 0 then hold s else REVERSE (hold s)) \<noteq> check s then data_error ''incorrect data check'' s
         else Again (INITBITS s \<lparr> mode := LENGTH_MODE \<rparr>))) s
     else Again (s \<lparr> mode := LENGTH_MODE \<rparr>))"

definition do_LENGTH :: "inflate_call \<Rightarrow> outcome" where
  "do_LENGTH s =
    (if wrap s \<noteq> 0 \<and> flags s \<noteq> 0 then needing 32 (\<lambda>s.
       if hold s \<noteq> total_of s AND 0xffffffff then data_error ''incorrect length check'' s
       else Again (INITBITS s \<lparr> mode := DONE \<rparr>)) s
     else Again (s \<lparr> mode := DONE \<rparr>))"

section \<open>The loop\<close>

definition inflate_switch :: "int \<Rightarrow> inflate_call \<Rightarrow> outcome" where
  "inflate_switch flush s = (case mode s of
      HEAD \<Rightarrow> do_HEAD s | FLAGS \<Rightarrow> do_FLAGS s | TIME \<Rightarrow> do_TIME s | OS \<Rightarrow> do_OS s
    | EXLEN \<Rightarrow> do_EXLEN s | EXTRA \<Rightarrow> do_EXTRA s | NAME \<Rightarrow> do_NAME s | COMMENT \<Rightarrow> do_COMMENT s
    | HCRC \<Rightarrow> do_HCRC s | DICTID \<Rightarrow> do_DICTID s | DICT \<Rightarrow> do_DICT s
    | TYPE_MODE \<Rightarrow> do_TYPE flush s | TYPEDO \<Rightarrow> do_TYPEDO s | STORED \<Rightarrow> do_STORED s | COPY \<Rightarrow> do_COPY s
    | TABLE \<Rightarrow> do_TABLE s | LENLENS \<Rightarrow> do_LENLENS s | CODELENS \<Rightarrow> do_CODELENS s
    | LEN \<Rightarrow> do_LEN s | LENEXT \<Rightarrow> do_LENEXT s | DIST \<Rightarrow> do_DIST s | DISTEXT \<Rightarrow> do_DISTEXT s
    | MATCH \<Rightarrow> do_MATCH s | LIT \<Rightarrow> do_LIT s
    | CHECK \<Rightarrow> do_CHECK s | LENGTH_MODE \<Rightarrow> do_LENGTH s
    | DONE \<Rightarrow> Leave Z_STREAM_END s | BAD \<Rightarrow> Leave Z_DATA_ERROR s
    | MEM \<Rightarrow> Return Z_MEM_ERROR s | SYNC \<Rightarrow> Return Z_STREAM_ERROR s)"

text \<open>\<open>for (;;) switch (state->mode)\<close>, as long as it goes round; no result would be a loop without an end.\<close>

partial_function (option) inflate_loop :: "int \<Rightarrow> inflate_call \<Rightarrow> outcome option" where
  "inflate_loop flush s = (case inflate_switch flush s of Again s' \<Rightarrow> inflate_loop flush s' | r \<Rightarrow> Some r)"

section \<open>Leaving\<close>

text \<open>The result of a call: the return value, what it has written, and the state.\<close>

record inflate_result =
  rc :: int
  produced :: "byte list"
  after :: inflate_state

definition result_of :: "int \<Rightarrow> inflate_call \<Rightarrow> inflate_result" where
  "result_of r s = \<lparr> rc = r, produced = put s, after = inflate_state.truncate s \<rparr>"

definition keep_window :: "inflate_call \<Rightarrow> inflate_call window_result" where
  "keep_window s =
    (if wsize s \<noteq> 0 \<or> before_CHECK (mode s) \<and> out_start s \<noteq> avail_out s then
       (case updatewindow (put s) (out_start s) s of
         No_Memory s \<Rightarrow> No_Memory (s \<lparr> mode := MEM \<rparr>) | r \<Rightarrow> r)
     else Updated s)"

definition leave_totals :: "inflate_call \<Rightarrow> inflate_call option" where
  "leave_totals s = (let
      i = in_start s - avail_in s;
      n = out_start s - avail_out s;
      s = s \<lparr> total_in := total_in s + of_nat i, total_out := total_out s + of_nat n, total_of := total_of s + of_nat n \<rparr>
    in do {
      s \<leftarrow> (if wrap s \<noteq> 0 \<and> n \<noteq> 0 then do {
          buf \<leftarrow> last_bytes n (put s);
          c \<leftarrow> UPDATE (flags s) (check s) buf;
          Some (s \<lparr> adler := c, check := c \<rparr>) }
        else Some s);
      Some (s \<lparr> strm_data_type := int (bitcnt s) + (if last_block s then 64 else 0) + (if mode s = TYPE_MODE then 128 else 0) \<rparr>) })"

definition inf_leave :: "int \<Rightarrow> int \<Rightarrow> inflate_call \<Rightarrow> inflate_result option" where
  "inf_leave flush r s = (case keep_window s of
      Outside \<Rightarrow> None
    | No_Memory s \<Rightarrow> Some (result_of Z_MEM_ERROR s)
    | Updated s \<Rightarrow> do {
        t \<leftarrow> leave_totals s;
        let idle = in_start s = avail_in s \<and> out_start s = avail_out s;
        Some (result_of (if (idle \<or> flush = Z_FINISH) \<and> r = Z_OK then Z_BUF_ERROR else r) t) })"

definition start_call :: "inflate_state \<Rightarrow> inflate_call" where
  "start_call s = inflate_state.extend (if mode s = TYPE_MODE then s \<lparr> mode := TYPEDO \<rparr> else s)
    \<lparr> in_start = avail_in s, out_start = avail_out s, put = [] \<rparr>"

text \<open>The call on a stream that has a state; there is no result when the code would access memory outside of an object.\<close>

definition inflate_run :: "int \<Rightarrow> inflate_state \<Rightarrow> inflate_result option" where
  "inflate_run flush s = do {
    r \<leftarrow> inflate_loop flush (start_call s);
    case r of Leave k s \<Rightarrow> inf_leave flush k s | Return k s \<Rightarrow> Some (result_of k s) | _ \<Rightarrow> None }"

section \<open>The functions on a stream\<close>

text \<open>The argument \<open>strm\<close>: it can be \<open>Z_NULL\<close>, and its \<open>state\<close> can.\<close>

datatype stream_arg = Null | Stateless z_stream | Stateful inflate_state

definition inflate :: "int \<Rightarrow> stream_arg \<Rightarrow> (int \<times> byte list \<times> stream_arg) option" where
  "inflate flush strm = (case strm of
      Stateful s \<Rightarrow>
        if \<not> next_out_set s \<or> \<not> next_in_set s \<and> avail_in s \<noteq> 0 then Some (Z_STREAM_ERROR, [], strm)
        else map_option (\<lambda>r. (rc r, produced r, Stateful (after r))) (inflate_run flush s)
    | _ \<Rightarrow> Some (Z_STREAM_ERROR, [], strm))"

definition reset_state :: "inflate_state \<Rightarrow> inflate_state" where
  "reset_state s = s \<lparr> total_in := 0, total_out := 0, total_of := 0, msg := None, adler := 1, mode := HEAD,
    last_block := False, havedict := False, dmax := 32768, head := False, wsize := 0, whave := 0, write_at := 0,
    hold := 0, bitcnt := 0, lencode := Codes 0, distcode := Codes 0, next_code := 0 \<rparr>"

definition inflateReset :: "stream_arg \<Rightarrow> int \<times> stream_arg" where
  "inflateReset strm = (case strm of Stateful s \<Rightarrow> (Z_OK, Stateful (reset_state s)) | _ \<Rightarrow> (Z_STREAM_ERROR, strm))"

text \<open>A negative number of bits is undefined in C; the argument \<open>v\<close> is \<open>value\<close> as an \<open>int\<close> of 32 bits.\<close>

definition inflatePrime :: "stream_arg \<Rightarrow> nat \<Rightarrow> uint \<Rightarrow> int \<times> stream_arg" where
  "inflatePrime strm n v = (case strm of
      Stateful s \<Rightarrow>
        if n > 16 \<or> bitcnt s + n > 32 then (Z_STREAM_ERROR, strm)
        else let v = v AND (push_bit n 1 - 1) in
          (Z_OK, Stateful (s \<lparr> hold := hold s + push_bit (bitcnt s) v, bitcnt := bitcnt s + n \<rparr>))
    | _ \<Rightarrow> (Z_STREAM_ERROR, strm))"

text \<open>
  \<open>version\<close> is the caller's string, if any, and \<open>size_ok\<close> says that the caller's \<open>z_stream\<close> has the library's size.
  The object that \<open>ZALLOC\<close> gives for the state, if any, is the argument \<open>fresh\<close>: its contents are whatever they are.
\<close>

definition wrap_and_bits :: "int \<Rightarrow> int \<times> int" where
  "wrap_and_bits windowBits =
    (if windowBits < 0 then (0, - windowBits)
     else (drop_bit 4 windowBits + 1, if windowBits < 48 then windowBits AND 15 else windowBits))"

definition z_part :: "stream_arg \<Rightarrow> z_stream option" where
  "z_part strm = (case strm of Null \<Rightarrow> None | Stateless z \<Rightarrow> Some z | Stateful s \<Rightarrow> Some (z_stream.truncate s))"

text \<open>The stream \<open>z\<close> with the object \<open>s\<close> as its state.\<close>

definition with_stream :: "z_stream \<Rightarrow> 'a inflate_state_scheme \<Rightarrow> 'a inflate_state_scheme" where
  "with_stream z s = s \<lparr> next_in := next_in z, next_in_set := next_in_set z, avail_out := avail_out z, next_out_set := next_out_set z,
    total_in := total_in z, total_out := total_out z, msg := msg z, strm_data_type := strm_data_type z, adler := adler z,
    zalloc := zalloc z \<rparr>"

definition inflateInit2 :: "stream_arg \<Rightarrow> int \<Rightarrow> string option \<Rightarrow> bool \<Rightarrow> inflate_state option \<Rightarrow> int \<times> stream_arg" where
  "inflateInit2 strm windowBits version size_ok fresh =
    (if version_bad version \<or> \<not> size_ok then (Z_VERSION_ERROR, strm)
     else case z_part strm of
       None \<Rightarrow> (Z_STREAM_ERROR, strm)
     | Some z \<Rightarrow>
         (case fresh of
           None \<Rightarrow> (Z_MEM_ERROR, case strm of
               Stateful s \<Rightarrow> Stateful (s \<lparr> msg := None \<rparr>) | _ \<Rightarrow> Stateless (z \<lparr> msg := None \<rparr>))
         | Some f \<Rightarrow> (let (wr, wb) = wrap_and_bits windowBits in
             if wb < 8 \<or> wb > 15 then (Z_STREAM_ERROR, Stateless (z \<lparr> msg := None \<rparr>))
             else inflateReset (Stateful (with_stream (z \<lparr> msg := None \<rparr>) f \<lparr> wrap := wr, wbits := nat wb, window := None \<rparr>)))))"

definition DEF_WBITS :: int where "DEF_WBITS = 15"

definition inflateInit :: "stream_arg \<Rightarrow> string option \<Rightarrow> bool \<Rightarrow> inflate_state option \<Rightarrow> int \<times> stream_arg" where
  "inflateInit strm = inflateInit2 strm DEF_WBITS"

definition inflateEnd :: "stream_arg \<Rightarrow> int \<times> stream_arg" where
  "inflateEnd strm = (case strm of Stateful s \<Rightarrow> (Z_OK, Stateless (z_stream.truncate s)) | _ \<Rightarrow> (Z_STREAM_ERROR, strm))"

text \<open>The dictionary goes to the end of the window.\<close>

definition load_dictionary :: "byte list \<Rightarrow> inflate_state \<Rightarrow> inflate_state option" where
  "load_dictionary dict s = do {
    w \<leftarrow> window s;
    if length dict > wsize s then do {
      w \<leftarrow> copy_to w 0 (drop (length dict - wsize s) dict) (wsize s);
      Some (s \<lparr> window := Some w, whave := wsize s \<rparr>) }
    else do {
      w \<leftarrow> copy_to w (wsize s - length dict) dict (length dict);
      Some (s \<lparr> window := Some w, whave := length dict \<rparr>) } }"

definition inflateSetDictionary :: "stream_arg \<Rightarrow> byte list \<Rightarrow> (int \<times> stream_arg) option" where
  "inflateSetDictionary strm dict = (case strm of
      Stateful s \<Rightarrow>
        if wrap s \<noteq> 0 \<and> mode s \<noteq> DICT then Some (Z_STREAM_ERROR, strm)
        else do {
          id_ok \<leftarrow> (if mode s = DICT then map_option (\<lambda>c. c = check s) (adler32_update adler_init dict) else Some True);
          if \<not> id_ok then Some (Z_DATA_ERROR, strm)
          else case updatewindow [] (avail_out s) s of
            Outside \<Rightarrow> None
          | No_Memory s \<Rightarrow> Some (Z_MEM_ERROR, Stateful (s \<lparr> mode := MEM \<rparr>))
          | Updated s \<Rightarrow> map_option (\<lambda>s. (Z_OK, Stateful (s \<lparr> havedict := True \<rparr>))) (load_dictionary dict s) }
    | _ \<Rightarrow> Some (Z_STREAM_ERROR, strm))"

definition inflateGetHeader :: "stream_arg \<Rightarrow> gz_header \<Rightarrow> int \<times> stream_arg" where
  "inflateGetHeader strm h = (case strm of
      Stateful s \<Rightarrow>
        if wrap s AND 2 = 0 then (Z_STREAM_ERROR, strm)
        else (Z_OK, Stateful (s \<lparr> head := True, gz := h \<lparr> done_flag := 0 \<rparr> \<rparr>))
    | _ \<Rightarrow> (Z_STREAM_ERROR, strm))"

text \<open>
  \<open>inflateCopy(dest, source)\<close>: \<open>fresh\<close> says whether there is memory for the state. In the copy the pointers into
  \<open>codes\<close> are into its own \<open>codes\<close> at the same index, which the indices of the model say already.
\<close>

definition inflateCopy :: "stream_arg \<Rightarrow> stream_arg \<Rightarrow> bool \<Rightarrow> (int \<times> stream_arg) option" where
  "inflateCopy dest source fresh = (case source of
      Stateful s \<Rightarrow>
        if dest = Null then Some (Z_STREAM_ERROR, dest)
        else if \<not> fresh then Some (Z_MEM_ERROR, dest)
        else (case window s of
            None \<Rightarrow> Some (Z_OK, Stateful s)
          | Some w \<Rightarrow>
              (case zalloc s (2 ^ wbits s) of
                None \<Rightarrow> Some (Z_MEM_ERROR, dest)
              | Some v \<Rightarrow> map_option (\<lambda>v. (Z_OK, Stateful (s \<lparr> window := Some v \<rparr>))) (copy_to v 0 w (2 ^ wbits s))))
    | _ \<Rightarrow> Some (Z_STREAM_ERROR, dest))"

section \<open>Synchronisation\<close>

text \<open>One byte of the search: how many bytes of 0, 0, 0xff, 0xff are found, and then.\<close>

definition sync_byte :: "nat \<Rightarrow> byte \<Rightarrow> nat" where
  "sync_byte got b = (if b = (if got < 2 then 0 else 0xff) then got + 1 else if b \<noteq> 0 then 0 else 4 - got)"

text \<open>\<open>syncsearch\<close>: the new \<open>*have\<close>, and how many bytes have been read.\<close>

fun syncsearch :: "nat \<Rightarrow> byte list \<Rightarrow> nat \<times> nat" where
  "syncsearch got [] = (got, 0)"
| "syncsearch got (b # bs) =
    (if got < 4 then let (got, n) = syncsearch (sync_byte got b) bs in (got, n + 1) else (got, 0))"

text \<open>\<open>while (state->bits >= 8) { buf[len++] = ...; }\<close> empties the bit buffer, byte by byte.\<close>

function flush_bytes :: "ulong \<Rightarrow> nat \<Rightarrow> byte list \<times> ulong \<times> nat" where
  "flush_bytes h n =
    (if 8 \<le> n then let (bs, h', n') = flush_bytes (drop_bit 8 h) (n - 8) in (ucast h # bs, h', n') else ([], h, n))"
  by pat_completeness auto
termination by (relation "measure snd") auto

declare flush_bytes.simps [simp del]

text \<open>The first time, the search starts in the bit buffer, of which \<open>bits & 7\<close> bits are to be dropped.\<close>

definition start_sync :: "inflate_state \<Rightarrow> inflate_state" where
  "start_sync s =
    (if mode s \<noteq> SYNC then let
        h = push_bit (bitcnt s mod 8) (hold s);
        (buf, h, n) = flush_bytes h (bitcnt s - bitcnt s mod 8)
      in s \<lparr> mode := SYNC, hold := h, bitcnt := n, have_lens := fst (syncsearch 0 buf) \<rparr>
     else s)"

definition inflateSync :: "stream_arg \<Rightarrow> int \<times> stream_arg" where
  "inflateSync strm = (case strm of
      Stateful s \<Rightarrow>
        if avail_in s = 0 \<and> bitcnt s < 8 then (Z_BUF_ERROR, strm)
        else let
          s = start_sync s;
          (got, n) = syncsearch (have_lens s) (next_in s);
          s = s \<lparr> have_lens := got, next_in := drop n (next_in s), total_in := total_in s + of_nat n \<rparr>
        in
          if got \<noteq> 4 then (Z_DATA_ERROR, Stateful s)
          else (Z_OK, Stateful (reset_state s \<lparr> total_in := total_in s, total_out := total_out s, mode := TYPE_MODE \<rparr>))
    | _ \<Rightarrow> (Z_STREAM_ERROR, strm))"

definition inflateSyncPoint :: "stream_arg \<Rightarrow> int" where
  "inflateSyncPoint strm = (case strm of Stateful s \<Rightarrow> of_bool (mode s = STORED \<and> bitcnt s = 0) | _ \<Rightarrow> Z_STREAM_ERROR)"

end
