(* ===== verification/Inflate_Bits.thy ===== *)
theory Inflate_Bits
  imports Inflate_State
begin

text \<open>
  The macros of the bit accumulator against a list of bits: the bits in the accumulator followed by those of the input
  that is left. Pulling a byte leaves the list as it is, reading and dropping bits take from its front.
\<close>

section \<open>The bits to come\<close>

definition input_bits :: "'a inflate_state_scheme \<Rightarrow> bool list" where
  "input_bits s = bits (bitcnt s) (hold s) @ byte_bits (next_in s)"

text \<open>The accumulator holds at most 32 bits, and zeros above them.\<close>

definition acc_ok :: "'a inflate_state_scheme \<Rightarrow> bool" where
  "acc_ok s \<longleftrightarrow> bitcnt s \<le> 32 \<and> (\<forall>n. bitcnt s \<le> n \<longrightarrow> \<not> bit (hold s) n)"

lemma length_input_bits: "length (input_bits s) = bitcnt s + 8 * avail_in s"
  by (simp add: input_bits_def)

lemma bit_pulled_byte:
  assumes "acc_ok s" "bitcnt s \<le> 24"
  shows "bit (hold s + push_bit (bitcnt s) (ucast (b :: byte))) n \<longleftrightarrow>
    (if n < bitcnt s then bit (hold s) n else bit b (n - bitcnt s))"
proof -
  have z: "\<not> bit (hold s) n" if "bitcnt s \<le> n" for n using assms(1) that by (simp add: acc_ok_def)
  have "hold s AND push_bit (bitcnt s) (ucast b) = 0"
    by (rule bit_eqI) (use z in \<open>auto simp: bit_simps not_le\<close>)
  then have "hold s + push_bit (bitcnt s) (ucast b) = hold s OR push_bit (bitcnt s) (ucast b)"
    by (rule disjunctive_add_eq_or)
  moreover have "bit (push_bit (bitcnt s) (ucast b) :: ulong) n \<longleftrightarrow> bitcnt s \<le> n \<and> bit b (n - bitcnt s)"
  proof (cases "n - bitcnt s < 8")
    case True
    then show ?thesis using assms(2) by (auto simp: bit_simps)
  next
    case False
    then show ?thesis using bit_byte_beyond [of "n - bitcnt s" b] by (auto simp: bit_simps)
  qed
  ultimately show ?thesis using z [of n] by (auto simp: bit_or_iff not_less)
qed

lemma PULLBYTE_input:
  assumes "acc_ok s" "bitcnt s \<le> 24" "PULLBYTE s = Some s'"
  shows "input_bits s' = input_bits s" "acc_ok s'"
proof -
  obtain b bs where b: "next_in s = b # bs" using assms(3) by (auto simp: PULLBYTE_def split: list.splits)
  then have s': "s' = s \<lparr> next_in := bs, hold := hold s + push_bit (bitcnt s) (ucast b), bitcnt := bitcnt s + 8 \<rparr>"
    using assms(3) by (simp add: PULLBYTE_def)
  note bit = bit_pulled_byte [OF assms(1,2), of b]
  have "bits (bitcnt s + 8) (hold s + push_bit (bitcnt s) (ucast b)) = bits (bitcnt s) (hold s) @ bits 8 b"
    by (rule nth_equalityI) (auto simp: nth_append bit)
  then show "input_bits s' = input_bits s" by (simp add: s' b input_bits_def)
  show "acc_ok s'" using assms(1,2) bit_byte_beyond by (auto simp: s' acc_ok_def bit)
qed

text \<open>What the macros change: the input and the accumulator.\<close>

definition same_but_bits :: "'a inflate_state_scheme \<Rightarrow> 'a inflate_state_scheme \<Rightarrow> bool" where
  "same_but_bits s t \<longleftrightarrow> t = s \<lparr> next_in := next_in t, hold := hold t, bitcnt := bitcnt t \<rparr>"

lemma same_but_bits_refl [simp]: "same_but_bits s s"
  by (simp add: same_but_bits_def)

lemma same_but_bits_trans: "same_but_bits s t \<Longrightarrow> same_but_bits t u \<Longrightarrow> same_but_bits s u"
  unfolding same_but_bits_def by (cases s; cases t; cases u) simp

lemma PULLBYTE_same: "PULLBYTE s = Some t \<Longrightarrow> same_but_bits s t"
  by (auto simp: PULLBYTE_def same_but_bits_def split: list.splits)

lemma DROPBITS_same: "same_but_bits s (DROPBITS n s)"
  by (simp add: DROPBITS_def same_but_bits_def)

section \<open>\<open>NEEDBITS\<close>\<close>

text \<open>Pulling until \<open>n\<close> bits are there stays within 32 bits when \<open>n\<close> is at most 25 or the accumulator has whole bytes.\<close>

definition fits_acc :: "nat \<Rightarrow> 'a inflate_state_scheme \<Rightarrow> bool" where
  "fits_acc n s \<longleftrightarrow> n \<le> 25 \<or> n \<le> 32 \<and> 8 dvd bitcnt s"

lemma fits_acc_pull: "fits_acc n s \<Longrightarrow> bitcnt s < n \<Longrightarrow> bitcnt s \<le> 24"
  by (auto simp: fits_acc_def elim!: dvdE)

lemma NEEDBITS_refines:
  assumes "acc_ok s" "fits_acc n s"
  shows "fst (NEEDBITS n s) \<longleftrightarrow> n \<le> length (input_bits s)"
    "input_bits (snd (NEEDBITS n s)) = input_bits s" "acc_ok (snd (NEEDBITS n s))" "same_but_bits s (snd (NEEDBITS n s))"
    "fst (NEEDBITS n s) \<Longrightarrow> n \<le> bitcnt (snd (NEEDBITS n s))"
    "fst (NEEDBITS n s) \<Longrightarrow> bitcnt (snd (NEEDBITS n s)) \<le> max (bitcnt s) (n + 7)"
    "\<not> fst (NEEDBITS n s) \<Longrightarrow> next_in (snd (NEEDBITS n s)) = []"
proof (atomize (full), use assms in \<open>induction n s rule: NEEDBITS.induct\<close>)
  case (1 n s)
  show ?case
  proof (cases "bitcnt s < n")
    case False
    then have "NEEDBITS n s = (True, s)" by (simp add: NEEDBITS.simps)
    then show ?thesis using False 1 by (simp add: length_input_bits)
  next
    case True
    show ?thesis
    proof (cases "PULLBYTE s")
      case None
      then have "next_in s = []" by (auto simp: PULLBYTE_def split: list.splits)
      moreover have "NEEDBITS n s = (False, s)" using True None by (simp add: NEEDBITS.simps)
      ultimately show ?thesis using True 1 by (simp add: length_input_bits)
    next
      case (Some t)
      note le = fits_acc_pull [OF 1(3) True]
      note t = PULLBYTE_input [OF 1(2) le Some] PULLBYTE_same [OF Some] PULLBYTE_bitcnt [OF Some]
      have "fits_acc n t" using 1(3) t(4) by (auto simp: fits_acc_def)
      note IH = 1(1) [OF True Some t(2) this]
      have step: "NEEDBITS n s = NEEDBITS n t" by (subst NEEDBITS.simps) (simp add: True Some)
      show ?thesis unfolding step using IH t True by (auto intro: same_but_bits_trans simp: max_def split: if_splits)
    qed
  qed
qed

section \<open>\<open>BITS\<close>, \<open>DROPBITS\<close>, \<open>BYTEBITS\<close>, \<open>INITBITS\<close>\<close>

lemma bit_BITS: "n < 32 \<Longrightarrow> bit (BITS n s) k \<longleftrightarrow> k < n \<and> bit (hold s) k"
proof -
  have "push_bit n 1 - 1 = (mask n :: uint)" by (simp add: mask_eq_exp_minus_1)
  then show ?thesis by (cases "k < 32") (auto simp: BITS_def bit_and_iff bit_mask_iff bit_beyond)
qed

lemma bits_BITS: "n < 32 \<Longrightarrow> n \<le> bitcnt s \<Longrightarrow> bits n (BITS n s) = take n (input_bits s)"
  by (rule nth_equalityI) (auto simp: bit_BITS input_bits_def nth_append)

lemma unat_BITS_less: "n < 32 \<Longrightarrow> unat (BITS n s) < 2 ^ n"
proof -
  assume n: "n < 32"
  have "BITS n s = take_bit n (hold s)" by (rule bit_eqI) (simp add: bit_BITS n bit_take_bit_iff)
  then show ?thesis by (simp only: unat_take_bit_less)
qed

lemma bits_unat: "bits n (unat (w :: 'a::len word)) = bits n w"
  by (rule bits_cong) (simp add: bit_unsigned_iff)

lemma unat_BITS: "n < 32 \<Longrightarrow> n \<le> bitcnt s \<Longrightarrow> unat (BITS n s) = bits_value (take n (input_bits s))"
  using bits_value_bits [OF unat_BITS_less [of n s]] by (simp add: bits_unat bits_BITS)

lemma DROPBITS_refines:
  assumes "n \<le> bitcnt s"
  shows "input_bits (DROPBITS n s) = drop n (input_bits s)" "acc_ok s \<Longrightarrow> acc_ok (DROPBITS n s)"
    "bitcnt (DROPBITS n s) = bitcnt s - n"
proof -
  have "bits (bitcnt s) (hold s) = bits n (hold s) @ bits (bitcnt s - n) (drop_bit n (hold s))"
    using bits_append [of n "bitcnt s - n" "hold s"] assms by simp
  then show "input_bits (DROPBITS n s) = drop n (input_bits s)" using assms by (simp add: input_bits_def DROPBITS_def)
  show "acc_ok s \<Longrightarrow> acc_ok (DROPBITS n s)" by (auto simp: acc_ok_def DROPBITS_def bit_drop_bit_eq)
  show "bitcnt (DROPBITS n s) = bitcnt s - n" by (simp add: DROPBITS_def)
qed

lemma BYTEBITS_DROPBITS: "BYTEBITS s = DROPBITS (bitcnt s mod 8) s"
  by (simp add: BYTEBITS_def DROPBITS_def)

lemma BYTEBITS_refines:
  "input_bits (BYTEBITS s) = drop (bitcnt s mod 8) (input_bits s)" "acc_ok s \<Longrightarrow> acc_ok (BYTEBITS s)"
  "8 dvd bitcnt (BYTEBITS s)" "bitcnt (BYTEBITS s) \<le> bitcnt s"
proof -
  have le: "bitcnt s mod 8 \<le> bitcnt s" by simp
  show "input_bits (BYTEBITS s) = drop (bitcnt s mod 8) (input_bits s)" "acc_ok s \<Longrightarrow> acc_ok (BYTEBITS s)"
    unfolding BYTEBITS_DROPBITS using DROPBITS_refines [OF le] by simp_all
  show "8 dvd bitcnt (BYTEBITS s)" "bitcnt (BYTEBITS s) \<le> bitcnt s" by (simp_all add: BYTEBITS_def)
qed

lemma INITBITS_refines: "acc_ok (INITBITS s)" "input_bits (INITBITS s) = drop (bitcnt s) (input_bits s)"
  by (simp_all add: acc_ok_def INITBITS_def input_bits_def)

text \<open>With at most seven bits the accumulator and the input are determined by the bits to come.\<close>

lemma byte_bits_inject: "byte_bits xs = byte_bits ys \<Longrightarrow> xs = ys"
proof (induction xs arbitrary: ys)
  case Nil
  then show ?case by (cases ys) (auto simp: bits_def)
next
  case (Cons x xs)
  then obtain y zs where ys: "ys = y # zs" by (cases ys) (auto simp: bits_def)
  then have e: "bits 8 x = bits 8 y" "byte_bits xs = byte_bits zs" using Cons.prems by simp_all
  have "bit x n = bit y n" if "n < 8" for n using arg_cong [OF e(1), of "\<lambda>l. l ! n"] that by simp
  then have "x = y" by (intro bit_word_eqI) simp
  then show ?case using Cons.IH [OF e(2)] ys by simp
qed

lemma small_acc_unique:
  assumes "acc_ok s" "acc_ok t" "bitcnt s < 8" "bitcnt t < 8" "input_bits s = input_bits t"
  shows "bitcnt s = bitcnt t" "hold s = hold t" "next_in s = next_in t"
proof -
  have "bitcnt s + 8 * avail_in s = bitcnt t + 8 * avail_in t" using arg_cong [OF assms(5), of length] by (simp add: length_input_bits)
  then show n: "bitcnt s = bitcnt t" using assms(3,4) by presburger
  then have e: "bits (bitcnt s) (hold s) = bits (bitcnt s) (hold t)" "byte_bits (next_in s) = byte_bits (next_in t)"
    using assms(5) by (simp_all add: input_bits_def)
  have "bit (hold s) k = bit (hold t) k" for k
  proof (cases "k < bitcnt s")
    case True
    then show ?thesis using arg_cong [OF e(1), of "\<lambda>l. l ! k"] by simp
  next
    case False
    then show ?thesis using assms(1,2) n by (simp add: acc_ok_def)
  qed
  then show "hold s = hold t" by (simp add: bit_eq_iff)
  show "next_in s = next_in t" by (rule byte_bits_inject [OF e(2)])
qed

section \<open>Properties\<close>

text \<open>
  C7. The bit macros refine a list of bits. With the accumulator in order and \<open>n\<close> at most 16, \<open>NEEDBITS(n)\<close> succeeds
  exactly when \<open>n\<close> bits are left; then \<open>BITS(n)\<close> is the number that the first \<open>n\<close> of them stand for and
  \<open>DROPBITS(n)\<close> takes them off. Otherwise all of the input is in the accumulator and no bit is lost. Either way nothing
  but the input and the accumulator changes, and the accumulator stays in order.
\<close>

theorem bit_macros_refine_list:
  assumes "acc_ok s" "n \<le> 16"
  shows "case NEEDBITS n s of (ready, t) \<Rightarrow>
    (ready \<longleftrightarrow> n \<le> length (input_bits s)) \<and>
    (ready \<longrightarrow> unat (BITS n t) = bits_value (take n (input_bits s)) \<and> input_bits (DROPBITS n t) = drop n (input_bits s) \<and>
      acc_ok (DROPBITS n t)) \<and>
    (\<not> ready \<longrightarrow> next_in t = [] \<and> input_bits t = input_bits s) \<and> acc_ok t \<and> same_but_bits s t"
proof -
  obtain ready t where t: "NEEDBITS n s = (ready, t)" by fastforce
  have "fits_acc n s" using assms(2) by (simp add: fits_acc_def)
  note r = NEEDBITS_refines [OF assms(1) this, unfolded t fst_conv snd_conv]
  have "ready \<Longrightarrow> unat (BITS n t) = bits_value (take n (input_bits s)) \<and> input_bits (DROPBITS n t) = drop n (input_bits s) \<and>
      acc_ok (DROPBITS n t)"
    using r(2,3,5) DROPBITS_refines [of n t] unat_BITS [of n t] assms(2) by simp
  then show ?thesis using r t by simp
qed

definition sample_header :: gz_header where
  "sample_header = \<lparr> text_flag = False, time = 0, xflags = 0, os_code = 0, extra = None, extra_len = 0, extra_max = 0,
    name = None, name_max = 0, comment = None, comm_max = 0, hcrc_flag = False, done_flag = 0 \<rparr>"

text \<open>A state in the middle of some input, for the examples below and in the theories that follow.\<close>

definition sample_state :: "byte list \<Rightarrow> inflate_state" where
  "sample_state bs = \<lparr> next_in = bs, next_in_set = True, avail_out = 8, next_out_set = True, total_in = 0, total_out = 0,
    msg = None, strm_data_type = 0, adler = 1, zalloc = (\<lambda>n. Some (replicate n 0)),
    mode = HEAD, last_block = False, wrap = 1, havedict = False, flags = 0, dmax = 32768, check = 1, total_of = 0,
    head = False, gz = sample_header, wbits = 15, wsize = 0, whave = 0, write_at = 0, window = None, hold = 0, bitcnt = 0,
    length_of = 0, offset = 0, extra_need = 0, lencode = Codes 0, distcode = Codes 0, lenbits = 0, distbits = 0,
    ncode = 0, nlen = 0, ndist = 0, have_lens = 0, next_code = 0, lens = replicate 320 0, work_lens = replicate 288 0,
    codes = replicate 2048 invalid_code \<rparr>"

lemma bit_macros_refine_list_witness:
  "let s = sample_state [0x35, 0x12] \<lparr> hold := 2, bitcnt := 3 \<rparr> in
    case NEEDBITS 10 s of (ready, t) \<Rightarrow> ready \<and> unat (BITS 10 t) = 0x1AA \<and> input_bits (DROPBITS 10 t) = bits 9 (0x24 :: nat)"
proof -
  let ?s = "sample_state [0x35, 0x12] \<lparr> hold := 2, bitcnt := 3 \<rparr>"
  have "acc_ok ?s" by (auto simp: acc_ok_def sample_state_def bit_simps)
  moreover have "input_bits ?s = bits 10 (0x1AA :: nat) @ bits 9 (0x24 :: nat)"
    by (simp add: input_bits_def sample_state_def byte_bits_def bits_def upt_rec bit_numeral_rec bit_Suc_0_iff)
  moreover have "bits_value (bits 10 (0x1AA :: nat)) = 0x1AA" by (rule bits_value_bits) simp
  ultimately show ?thesis using bit_macros_refine_list [of ?s 10] by (simp add: case_prod_beta Let_def)
qed

end
