(* ===== verification/Inflate_Window.thy ===== *)
theory Inflate_Window
  imports Inflate_Bits
begin

text \<open>
  The sliding window, \<open>updatewindow\<close> of \<^verbatim>\<open>src/AOS/aos/zlib/inflate.c\<close>, against its contract: after every call the window
  stands for the last bytes of the output.
\<close>

section \<open>The bytes that the window stands for\<close>

text \<open>
  From the write index on are the oldest bytes; the last \<open>whave\<close> of the circle are valid.
\<close>

definition circle :: "nat \<Rightarrow> byte list \<Rightarrow> byte list" where
  "circle i w = drop i w @ take i w"

definition last_n :: "nat \<Rightarrow> 'a list \<Rightarrow> 'a list" where
  "last_n n xs = drop (length xs - n) xs"

definition window_bytes :: "'a inflate_state_scheme \<Rightarrow> byte list" where
  "window_bytes s = (case window s of
      Some w \<Rightarrow> if wsize s = 0 then [] else last_n (whave s) (circle (write_at s) w)
    | None \<Rightarrow> [])"

text \<open>
  A window that has been filled from the start, or has gone round.
\<close>

definition window_ok :: "'a inflate_state_scheme \<Rightarrow> bool" where
  "window_ok s \<longleftrightarrow> (\<forall>w. window s = Some w \<longrightarrow> length w = 2 ^ wbits s) \<and>
    (wsize s = 0 \<and> whave s = 0 \<or> wsize s = 2 ^ wbits s \<and> window s \<noteq> None \<and> write_at s < wsize s \<and> (whave s = write_at s \<or> whave s = wsize s))"

definition allocator_ok :: "'a z_stream_scheme \<Rightarrow> bool" where
  "allocator_ok s \<longleftrightarrow> (\<forall>n bs. zalloc s n = Some bs \<longrightarrow> length bs = n)"

lemma length_circle [simp]: "length (circle i w) = length w"
  by (simp add: circle_def)

lemma last_n_append: "length ys \<le> n \<Longrightarrow> last_n n (xs @ ys) = last_n (n - length ys) xs @ ys"
  by (simp add: last_n_def)

lemma last_n_all: "length xs \<le> n \<Longrightarrow> last_n n xs = xs"
  by (simp add: last_n_def)

lemma last_n_beyond: "n \<le> length ys \<Longrightarrow> last_n n (xs @ ys) = last_n n ys"
  by (simp add: last_n_def)

lemma last_n_last_n: "n \<le> m \<Longrightarrow> last_n n (last_n m xs) = last_n n xs"
  by (cases "m \<le> length xs") (simp_all add: last_n_def)

lemma length_last_n [simp]: "length (last_n n xs) = min n (length xs)"
  by (simp add: last_n_def)

text \<open>Writing \<open>ys\<close> at the write index, without going round, and with.\<close>

lemma circle_write:
  assumes "i + length ys \<le> length w"
  shows "circle (i + length ys) (take i w @ ys @ drop (i + length ys) w) = drop (length ys) (circle i w) @ ys"
  using assms by (simp add: circle_def add.commute)

lemma last_n_circle_write:
  assumes "i + length ys \<le> length w"
  shows "last_n (length w) (circle i w @ ys) = circle (i + length ys) (take i w @ ys @ drop (i + length ys) w)"
  using assms by (simp add: circle_write) (simp add: circle_def last_n_def)

lemma circle_whole: "circle (length w) w = circle 0 w"
  by (simp add: circle_def)

section \<open>\<open>updatewindow\<close>\<close>

lemma started_window_simps [simp]:
  "wsize (started_window s) = (if wsize s = 0 then 2 ^ wbits s else wsize s)"
  "window (started_window s) = window s" "avail_out (started_window s) = avail_out s" "wbits (started_window s) = wbits s"
  by (simp_all add: started_window_def)

lemma copy_to_window_round:
  assumes "length w = wsize s" "write_at s < wsize s" "whave s = write_at s \<or> whave s = wsize s" "cp \<le> length written"
  shows "\<exists>t. copy_to_window written cp w s = Some t \<and> wsize t = wsize s \<and> write_at t < wsize s \<and>
    (whave t = write_at t \<or> whave t = wsize s) \<and> (\<exists>v. window t = Some v \<and> length v = wsize s \<and>
      last_n (whave t) (circle (write_at t) v) = last_n (wsize s) (last_n (whave s) (circle (write_at s) w) @ last_n cp written)) \<and>
    t = s \<lparr> window := window t, write_at := write_at t, whave := whave t \<rparr>"
proof -
  let ?n = "wsize s" and ?i = "write_at s"
  let ?src = "last_n cp written"
  have last: "last_bytes k written = Some (last_n k written)" if "k \<le> cp" for k
    using that assms(4) by (simp add: last_bytes_def last_n_def)
  have src: "length ?src = cp" using assms(4) by simp
  have c: "length (circle ?i w) = ?n" by (simp add: assms(1))
  consider "?n \<le> cp" | "cp < ?n" "cp \<le> ?n - ?i" | "cp < ?n" "?n - ?i < cp" by linarith
  then show ?thesis
  proof cases
    case 1
    have s: "last_bytes ?n written = Some (last_n ?n written)" using last 1 by simp
    have k: "copy_to w 0 (last_n ?n written) ?n = Some (last_n ?n written)"
      using assms(1,4) 1 by (simp add: copy_to_def)
    have "last_n ?n (last_n (whave s) (circle ?i w) @ ?src) = last_n ?n written"
      using 1 src by (simp add: last_n_beyond last_n_last_n)
    moreover have "copy_to_window written cp w s = Some (s \<lparr> window := Some (last_n ?n written), write_at := 0, whave := ?n \<rparr>)"
      using 1 s k by (simp add: copy_to_window_def)
    moreover have "last_n ?n (circle 0 (last_n ?n written)) = last_n ?n written" using 1 assms(4) by (simp add: circle_def last_n_all)
    ultimately show ?thesis using assms(2,4) 1
      by (intro exI [of _ "s \<lparr> window := Some (last_n ?n written), write_at := 0, whave := ?n \<rparr>"]) simp
  next
    case 2
    have k: "copy_to w ?i ?src cp = Some (take ?i w @ ?src @ drop (?i + cp) w)"
      using 2 assms(1,2,4) src by (simp add: copy_to_def)
    let ?v = "take ?i w @ ?src @ drop (?i + cp) w"
    have v: "length ?v = ?n" using 2 assms(1,2) src by simp
    let ?t = "s \<lparr> window := Some ?v, write_at := (if ?i + cp = ?n then 0 else ?i + cp),
      whave := (if whave s < ?n then whave s + cp else whave s) \<rparr>"
    have t: "copy_to_window written cp w s = Some ?t"
      using 2 last [of cp] k by (simp add: copy_to_window_def Let_def min_absorb2)
    have full: "last_n ?n (circle ?i w @ ?src) = circle (?i + cp) ?v"
      using last_n_circle_write [of ?i ?src w] 2 assms(1,2) src by simp
    have wr: "circle (write_at ?t) ?v = circle (?i + cp) ?v" using circle_whole [of ?v] unfolding v by (auto simp del: take_append)
    have "last_n (whave ?t) (circle (?i + cp) ?v) = last_n ?n (last_n (whave s) (circle ?i w) @ ?src)"
    proof (cases "whave s = ?n")
      case True
      have "last_n ?n (circle (?i + cp) ?v) = circle (?i + cp) ?v" "last_n ?n (circle ?i w) = circle ?i w"
        using v assms(1) by (intro last_n_all; simp only: length_circle)+
      then show ?thesis using True full by (simp only:) simp
    next
      case False
      then have h: "whave s = ?i" using assms(3) by simp
      have "last_n ?i (circle ?i w) = take ?i w" using assms(1,2) by (simp add: circle_def last_n_def)
      moreover have "last_n (?i + cp) (circle (?i + cp) ?v) = take ?i w @ ?src"
        using 2 assms(1,2) src by (simp add: circle_def last_n_def)
      ultimately show ?thesis using h 2 assms(1,2) src by (simp add: last_n_all)
    qed
    moreover have "whave ?t = write_at ?t \<or> whave ?t = ?n" using assms(2,3) by auto
    moreover have "write_at ?t < ?n" using 2 assms(2) by auto
    ultimately show ?thesis using t v wr by (intro exI [of _ ?t]) simp
  next
    case 3
    let ?d = "?n - ?i"
    let ?v = "take ?i w @ take ?d ?src"
    let ?r = "last_n (cp - ?d) written"
    have k: "copy_to w ?i ?src ?d = Some ?v"
      using 3 assms(1,2,4) src by (simp add: copy_to_def)
    have r: "length ?r = cp - ?d" using assms(4) by simp
    have k2: "copy_to ?v 0 ?r (cp - ?d) = Some (?r @ drop (cp - ?d) ?v)"
      using 3 r assms(1,2) src by (simp add: copy_to_def)
    define u where "u = ?r @ drop (cp - ?d) ?v"
    let ?t = "s \<lparr> window := Some u, write_at := cp - ?d, whave := ?n \<rparr>"
    have t: "copy_to_window written cp w s = Some ?t"
      using 3 last [of cp] last [of "cp - ?d"] k k2 by (simp add: copy_to_window_def Let_def min_absorb1 u_def)
    have split: "?src = take ?d ?src @ ?r"
    proof -
      have "drop ?d ?src = ?r" using 3 assms(4) by (simp add: last_n_def add.commute)
      then show ?thesis by (metis append_take_drop_id)
    qed
    have "circle (cp - ?d) u = last_n ?n (circle ?i w @ ?src)"
    proof -
      have "circle (cp - ?d) u = drop (cp - ?d) ?v @ ?r" using r by (simp add: circle_def u_def)
      also have "\<dots> = drop cp (circle ?i w @ ?src)"
      proof -
        have "drop cp (circle ?i w) = drop (cp - ?d) (take ?i w)" using 3 assms(1,2) by (simp add: circle_def)
        moreover have "drop (cp - ?d) (take ?i w @ take ?d ?src) = drop (cp - ?d) (take ?i w) @ take ?d ?src"
          using 3 assms(1,2) by simp
        moreover have "cp \<le> length (circle ?i w)" using 3 c by simp
        ultimately show ?thesis using split by simp
      qed
      finally show ?thesis using c src by (simp add: last_n_def)
    qed
    moreover have "last_n ?n (last_n (whave s) (circle ?i w) @ ?src) = last_n ?n (circle ?i w @ ?src)"
    proof (cases "whave s = ?n")
      case True
      then show ?thesis using c by (simp add: last_n_all)
    next
      case False
      then have h: "whave s = ?i" using assms(3) by simp
      have "last_n ?n (xs @ ?src) = last_n (?n - cp) xs @ ?src" for xs using 3 src by (simp add: last_n_append)
      moreover have "last_n (?n - cp) (last_n ?i (circle ?i w)) = last_n (?n - cp) (circle ?i w)"
        using 3 by (intro last_n_last_n) simp
      ultimately show ?thesis using h by simp
    qed
    moreover have "length u = ?n" using 3 r assms(1,2) src by (simp add: u_def)
    moreover have "last_n ?n (circle (cp - ?d) u) = circle (cp - ?d) u" using \<open>length u = ?n\<close> by (intro last_n_all) (simp only: length_circle)
    moreover have "cp - ?d < ?n" using 3 by simp
    ultimately show ?thesis using t by (intro exI [of _ ?t]) simp
  qed
qed

lemma updatewindow_keeps:
  assumes "window_ok s" "allocator_ok s" "out - avail_out s \<le> length written"
  shows "case updatewindow written out s of
      Updated t \<Rightarrow> window_ok t \<and> wsize t = 2 ^ wbits s \<and>
        window_bytes t = last_n (2 ^ wbits s) (window_bytes s @ last_n (out - avail_out s) written) \<and>
        t = s \<lparr> wsize := wsize t, window := window t, write_at := write_at t, whave := whave t \<rparr>
    | No_Memory t \<Rightarrow> t = s \<and> window s = None \<and> zalloc s (2 ^ wbits s) = None
    | Outside \<Rightarrow> False"
proof (cases "allocated_window s")
  case None
  then show ?thesis by (auto simp: updatewindow_def allocated_window_def split: option.splits)
next
  case (Some w)
  let ?s = "started_window s" and ?cp = "out - avail_out s"
  have w: "length w = 2 ^ wbits s" "window s \<noteq> None \<Longrightarrow> window s = Some w"
    using Some assms(1,2) by (auto simp: allocated_window_def window_ok_def allocator_ok_def split: option.splits)
  have n: "wsize ?s = 2 ^ wbits s" "write_at ?s < wsize ?s" "whave ?s = write_at ?s \<or> whave ?s = wsize ?s"
    using assms(1) by (auto simp: started_window_def window_ok_def)
  obtain t v where t: "copy_to_window written ?cp w ?s = Some t" "wsize t = wsize ?s" "write_at t < wsize ?s"
      "whave t = write_at t \<or> whave t = wsize ?s" "window t = Some v" "length v = wsize ?s"
      "last_n (whave t) (circle (write_at t) v) = last_n (wsize ?s) (last_n (whave ?s) (circle (write_at ?s) w) @ last_n ?cp written)"
      "t = ?s \<lparr> window := window t, write_at := write_at t, whave := whave t \<rparr>"
    using copy_to_window_round [of w ?s ?cp written] n w(1) assms(3) by auto
  have old: "last_n (whave ?s) (circle (write_at ?s) w) = window_bytes s"
  proof (cases "wsize s = 0")
    case True
    then show ?thesis by (simp add: started_window_def window_bytes_def last_n_def split: option.splits)
  next
    case False
    then have "window s \<noteq> None" using assms(1) by (simp add: window_ok_def)
    then show ?thesis using False w(2) by (simp add: started_window_def window_bytes_def)
  qed
  have "wbits t = wbits s" using arg_cong [OF t(8), of wbits] by simp
  then have "window_ok t" using t(2-6) n(1) by (auto simp: window_ok_def)
  moreover have "window_bytes t = last_n (2 ^ wbits s) (window_bytes s @ last_n ?cp written)"
    using t(2,5,7) n(1) old by (simp add: window_bytes_def)
  moreover have "t = s \<lparr> wsize := wsize t, window := window t, write_at := write_at t, whave := whave t \<rparr>"
  proof -
    have "?s = s \<lparr> wsize := wsize ?s, write_at := write_at ?s, whave := whave ?s \<rparr>" by (simp add: started_window_def)
    then have "?s \<lparr> window := window t, write_at := write_at t, whave := whave t \<rparr> =
        s \<lparr> wsize := wsize ?s, write_at := write_at ?s, whave := whave ?s \<rparr> \<lparr> window := window t, write_at := write_at t, whave := whave t \<rparr>"
      by (rule arg_cong)
    then show ?thesis using t(8) unfolding t(2) by simp
  qed
  ultimately show ?thesis using Some t(1,2) n(1) by (simp add: updatewindow_def)
qed

section \<open>Properties\<close>

text \<open>
  C4. The sliding window refines the output. Whatever a call has written and wherever the write index is,
  \<open>updatewindow\<close> stays inside of its objects, and afterwards the valid bytes of the circular window, from the oldest to the
  newest, are the last \<open>2 ^ wbits\<close> bytes of what they were before followed by what was written; it changes nothing else. It
  fails only when the window does not exist yet and the allocator has no memory, and then changes nothing.
\<close>

theorem updatewindow_refines:
  assumes "window_ok s" "allocator_ok s" "out - avail_out s \<le> length written"
  shows "case updatewindow written out s of
      Updated t \<Rightarrow> window_ok t \<and> wsize t = 2 ^ wbits s \<and>
        window_bytes t = last_n (2 ^ wbits s) (window_bytes s @ last_n (out - avail_out s) written) \<and>
        t = s \<lparr> wsize := wsize t, window := window t, write_at := write_at t, whave := whave t \<rparr>
    | No_Memory t \<Rightarrow> t = s \<and> window s = None \<and> zalloc s (2 ^ wbits s) = None
    | Outside \<Rightarrow> False"
  by (rule updatewindow_keeps [OF assms])

lemma updatewindow_refines_witness:
  "let s = sample_state [] \<lparr> wbits := 3, window := Some [1, 2, 3, 4, 5, 6, 7, 8], wsize := 8, whave := 8, write_at := 6 \<rparr>
   in \<exists>t. updatewindow [20, 21, 22, 23, 24] 13 s = Updated t \<and> window_bytes t = [4, 5, 6, 20, 21, 22, 23, 24]"
proof -
  let ?s = "sample_state [] \<lparr> wbits := 3, window := Some [1, 2, 3, 4, 5, 6, 7, 8], wsize := 8, whave := 8, write_at := 6 \<rparr>"
  have "window_ok ?s" "allocator_ok ?s" "13 - avail_out ?s = 5"
    by (simp_all add: window_ok_def allocator_ok_def sample_state_def)
  moreover have "window_bytes ?s = [7, 8, 1, 2, 3, 4, 5, 6]" by (simp add: window_bytes_def last_n_def circle_def)
  ultimately show ?thesis
    using updatewindow_refines [of ?s 13 "[20, 21, 22, 23, 24]"] by (auto simp: last_n_def Let_def split: window_result.splits)
qed

end
