(* ===== verification/Inflate_Match.thy ===== *)
theory Inflate_Match
  imports Inflate_Window Inflate_Codes
begin

text \<open>
  Matches: \<open>MATCH\<close> of \<^verbatim>\<open>src/AOS/aos/zlib/inflate.c\<close> and the copy loops of \<^verbatim>\<open>src/AOS/aos/zlib/inffast.c\<close>, against one
  reference, the copy of \<open>n\<close> bytes from \<open>d\<close> back in everything that has been put out.
\<close>

section \<open>The reference\<close>

fun lz_copy :: "nat \<Rightarrow> nat \<Rightarrow> byte list \<Rightarrow> byte list" where
  "lz_copy 0 d h = h"
| "lz_copy (Suc n) d h = lz_copy n d (h @ [h ! (length h - d)])"

definition history :: "inflate_call \<Rightarrow> byte list" where
  "history s = window_bytes s @ put s"

lemma lz_copy_add: "lz_copy (m + n) d h = lz_copy n d (lz_copy m d h)"
  by (induction m d h rule: lz_copy.induct) simp_all

lemma length_lz_copy [simp]: "length (lz_copy n d h) = length h + n"
  by (induction n d h rule: lz_copy.induct) simp_all

lemma lz_copy_suffix: "0 < d \<Longrightarrow> d \<le> length p \<Longrightarrow> lz_copy n d (h @ p) = h @ lz_copy n d p"
proof (induction n arbitrary: p)
  case (Suc n)
  have "length (h @ p) - d = length h + (length p - d)" using Suc.prems by simp
  then have "(h @ p) ! (length (h @ p) - d) = p ! (length p - d)" by (simp only: nth_append_length_plus)
  then show ?case using Suc.IH [of "p @ [p ! (length p - d)]"] Suc.prems by simp
qed simp

lemma lz_copy_far: "n \<le> d \<Longrightarrow> d \<le> length h \<Longrightarrow> lz_copy n d h = h @ take n (drop (length h - d) h)"
proof (induction n)
  case (Suc n)
  have "lz_copy (Suc n) d h = lz_copy 1 d (lz_copy n d h)" using lz_copy_add [of n 1 d h] by simp
  also have "\<dots> = lz_copy n d h @ [lz_copy n d h ! (length (lz_copy n d h) - d)]" by simp
  also have "\<dots> = h @ take n (drop (length h - d) h) @ [h ! (length h + n - d)]"
    using Suc by (simp add: nth_append)
  also have "take n (drop (length h - d) h) @ [h ! (length h + n - d)] = take (Suc n) (drop (length h - d) h)"
    using Suc.prems by (simp add: take_Suc_conv_app_nth)
  finally show ?case by simp
qed simp

section \<open>The copy loops\<close>

lemma copy_bytes_out:
  "0 < d \<Longrightarrow> d \<le> length (put s) \<Longrightarrow> n \<le> avail_out s \<Longrightarrow>
    copy_bytes n (From_Out d) s = Some (From_Out d, s \<lparr> put := lz_copy n d (put s), avail_out := avail_out s - n \<rparr>)"
proof (induction n arbitrary: s)
  case (Suc n)
  let ?b = "put s ! (length (put s) - d)"
  let ?t = "s \<lparr> put := put s @ [?b], avail_out := avail_out s - 1 \<rparr>"
  have "copy_byte (From_Out d) s = Some (From_Out d, ?t)" using Suc.prems by (simp add: copy_byte_def fast_put_def)
  moreover have "copy_bytes n (From_Out d) ?t = Some (From_Out d, ?t \<lparr> put := lz_copy n d (put ?t), avail_out := avail_out ?t - n \<rparr>)"
    by (rule Suc.IH) (use Suc.prems in simp_all)
  ultimately show ?case by simp
qed simp

lemma copy_bytes_window:
  "window s = Some w \<Longrightarrow> i + n \<le> length w \<Longrightarrow> n \<le> avail_out s \<Longrightarrow>
    copy_bytes n (From_Window i) s =
      Some (From_Window (i + n), s \<lparr> put := put s @ take n (drop i w), avail_out := avail_out s - n \<rparr>)"
proof (induction n arbitrary: s i)
  case (Suc n)
  let ?t = "s \<lparr> put := put s @ [w ! i], avail_out := avail_out s - 1 \<rparr>"
  have "copy_byte (From_Window i) s = Some (From_Window (i + 1), ?t)" using Suc.prems by (simp add: copy_byte_def fast_put_def)
  moreover have "copy_bytes n (From_Window (i + 1)) ?t =
      Some (From_Window (i + 1 + n), ?t \<lparr> put := put ?t @ take n (drop (i + 1) w), avail_out := avail_out ?t - n \<rparr>)"
    by (rule Suc.IH) (use Suc.prems in simp_all)
  moreover have "drop i w = w ! i # drop (i + 1) w" using Suc.prems by (simp add: Cons_nth_drop_Suc)
  ultimately show ?case by simp
qed simp

text \<open>The unrolled loops copy as many bytes as the plain one.\<close>

lemma copy_bytes_add: "copy_bytes (m + n) f s = Option.bind (copy_bytes m f s) (\<lambda>(f, s). copy_bytes n f s)"
proof (induction m arbitrary: f s)
  case (Suc m)
  then show ?case by (cases "copy_byte f s") auto
qed simp

lemma copy_three_bytes: "copy_three f s = copy_bytes 3 f s"
  by (auto simp: copy_three_def numeral_3_eq_3 split: bind_splits)

lemma copy_rest_bytes: "copy_rest n f s = map_option snd (copy_bytes n f s)"
proof (induction n f s rule: copy_rest.induct)
  case (1 n f s)
  show ?case
  proof (cases "2 < n")
    case True
    have "copy_bytes n f s = Option.bind (copy_bytes 3 f s) (\<lambda>(f, s). copy_bytes (n - 3) f s)"
      using copy_bytes_add [of 3 "n - 3" f s] True by simp
    moreover have "copy_rest n f s = Option.bind (copy_bytes 3 f s) (\<lambda>(f, s). copy_rest (n - 3) f s)"
      using True by (simp add: copy_rest.simps [of n] copy_three_bytes)
    ultimately show ?thesis
      using 1 True by (cases "copy_bytes 3 f s") (auto simp: copy_three_bytes)
  next
    case False
    then consider "n = 0" | "n = 1" | "n = 2" by linarith
    then show ?thesis
      by cases (auto simp: copy_rest.simps numeral_2_eq_2 split: bind_splits)
  qed
qed

lemma copy_direct_bytes: "copy_direct n d s = (if n < 3 then None else map_option snd (copy_bytes n (From_Out d) s))"
proof (cases "n < 3")
  case False
  then have "copy_bytes n (From_Out d) s = Option.bind (copy_bytes 3 (From_Out d) s) (\<lambda>(f, s). copy_bytes (n - 3) f s)"
    using copy_bytes_add [of 3 "n - 3" "From_Out d" s] by simp
  then show ?thesis using False
    by (cases "copy_bytes 3 (From_Out d) s") (auto simp: copy_direct_def copy_three_bytes copy_rest_bytes)
qed (simp add: copy_direct_def)

section \<open>Reading the window\<close>

text \<open>A segment of the window at \<open>back\<close> bytes before the output of the call.\<close>

definition window_index :: "nat \<Rightarrow> 'a inflate_state_scheme \<Rightarrow> nat" where
  "window_index back s = (if write_at s < back then wsize s - (back - write_at s) else write_at s - back)"

definition segment_size :: "nat \<Rightarrow> 'a inflate_state_scheme \<Rightarrow> nat" where
  "segment_size back s = (if write_at s < back then back - write_at s else back)"

lemma window_segment:
  assumes "window_ok s" "0 < wsize s" "back \<le> whave s" "k \<le> segment_size back s"
  shows "\<exists>w. window s = Some w \<and> window_index back s + k \<le> length w \<and>
    take k (drop (whave s - back) (window_bytes s)) = take k (drop (window_index back s) w)"
proof -
  obtain w where w: "window s = Some w" "length w = wsize s" "write_at s < wsize s" "whave s \<le> wsize s"
    using assms(1,2) by (auto simp: window_ok_def)
  have "drop (whave s - back) (window_bytes s) = drop (wsize s - back) (circle (write_at s) w)"
    using w assms(2,3) by (simp add: window_bytes_def last_n_def add.commute)
  also have "take k \<dots> = take k (drop (window_index back s) w)"
  proof (cases "write_at s < back")
    case True
    then have "drop (wsize s - back) (circle (write_at s) w) = drop (window_index back s) w @ take (write_at s) w"
      using w assms(3) by (simp add: circle_def window_index_def)
    then show ?thesis using True assms(3,4) w by (simp add: segment_size_def window_index_def)
  next
    case False
    then have "drop (wsize s - back) (circle (write_at s) w) = drop (write_at s - back) (take (write_at s) w)"
      using w by (simp add: circle_def)
    moreover have "take k (drop (write_at s - back) (take (write_at s) w)) = take k (drop (write_at s - back) w)"
      using False assms(4) by (simp add: drop_take segment_size_def min_absorb1)
    ultimately show ?thesis using False by (simp add: window_index_def)
  qed
  finally show ?thesis using w assms(3,4) by (intro exI [of _ w]) (auto simp: window_index_def segment_size_def)
qed

lemma length_window_bytes: "window_ok s \<Longrightarrow> length (window_bytes s) = whave s"
  by (auto simp: window_ok_def window_bytes_def split: option.splits)

section \<open>Copying from the history\<close>

text \<open>From \<open>s\<close> to \<open>t\<close>, \<open>k\<close> bytes have been copied from \<open>d\<close> back.\<close>

definition copies :: "nat \<Rightarrow> nat \<Rightarrow> inflate_call \<Rightarrow> inflate_call \<Rightarrow> bool" where
  "copies k d s t \<longleftrightarrow> k \<le> avail_out s \<and> (\<exists>p. length p = length (put s) + k \<and>
    window_bytes s @ p = lz_copy k d (history s) \<and> t = s \<lparr> put := p, avail_out := avail_out s - k \<rparr>)"

lemma window_bytes_put [simp]:
  "window_bytes (s \<lparr> put := p \<rparr>) = window_bytes s" "window_bytes (t \<lparr> avail_out := a \<rparr>) = window_bytes t"
  by (simp_all add: window_bytes_def split: option.split)

lemma window_ok_put [simp]:
  "window_ok (s \<lparr> put := p \<rparr>) = window_ok s" "window_ok (t \<lparr> avail_out := a \<rparr>) = window_ok t"
  by (simp_all add: window_ok_def)

lemma copies_trans: "copies k d s t \<Longrightarrow> copies m d t u \<Longrightarrow> copies (k + m) d s u"
  by (auto simp: copies_def history_def lz_copy_add intro!: exI)

lemma copies_D:
  assumes "copies k d s t"
  shows "avail_out t = avail_out s - k" "k \<le> avail_out s" "length (put t) = length (put s) + k"
    "history t = lz_copy k d (history s)" "t = s \<lparr> put := put t, avail_out := avail_out s - k \<rparr>"
  using assms by (auto simp: copies_def history_def)

lemma out_copies:
  assumes "0 < d" "d \<le> length (put s)" "n \<le> avail_out s"
  shows "\<exists>t. copy_bytes n (From_Out d) s = Some (From_Out d, t) \<and> copies n d s t"
proof -
  let ?t = "s \<lparr> put := lz_copy n d (put s), avail_out := avail_out s - n \<rparr>"
  have "copies n d s ?t" using assms by (simp add: copies_def history_def lz_copy_suffix)
  then show ?thesis using copy_bytes_out [OF assms] by blast
qed

lemma window_copies:
  assumes "window_ok s" "length (put s) < d" "d - length (put s) \<le> whave s" "k \<le> segment_size (d - length (put s)) s" "k \<le> avail_out s"
  shows "\<exists>t. copy_bytes k (From_Window (window_index (d - length (put s)) s)) s =
      Some (From_Window (window_index (d - length (put s)) s + k), t) \<and> copies k d s t"
proof -
  let ?far = "d - length (put s)"
  have "0 < wsize s" using assms(1-3) by (auto simp: window_ok_def)
  then obtain w where w: "window s = Some w" "window_index ?far s + k \<le> length w"
      "take k (drop (whave s - ?far) (window_bytes s)) = take k (drop (window_index ?far s) w)"
    using window_segment [OF assms(1) _ assms(3,4)] by blast
  let ?t = "s \<lparr> put := put s @ take k (drop (window_index ?far s) w), avail_out := avail_out s - k \<rparr>"
  have l: "length (history s) = whave s + length (put s)" "length (window_bytes s) = whave s"
    using length_window_bytes [OF assms(1)] by (simp_all add: history_def)
  have "k \<le> ?far" using assms(4) by (simp add: segment_size_def split: if_splits)
  then have k: "k \<le> d" "k \<le> length (window_bytes s) - (whave s - ?far)" using l assms(2,3) by simp_all
  have "lz_copy k d (history s) = history s @ take k (drop (length (history s) - d) (history s))"
    using k(1) l assms(2,3) by (intro lz_copy_far) simp_all
  also have "length (history s) - d = whave s - ?far" using l assms(2,3) by simp
  also have "take k (drop (whave s - ?far) (history s)) = take k (drop (whave s - ?far) (window_bytes s))"
    using k(2) l by (simp add: history_def)
  finally have "copies k d s ?t" using assms(5) w by (simp add: copies_def history_def)
  then show ?thesis using copy_bytes_window [OF w(1,2) assms(5)] by blast
qed

section \<open>The two copies\<close>

text \<open>In the middle of a block, what has been written in the call is what the room has lost.\<close>

definition call_ok :: "inflate_call \<Rightarrow> bool" where
  "call_ok s \<longleftrightarrow> out_start s = length (put s) + avail_out s \<and> window_ok s"

lemma copies_call_ok: "call_ok s \<Longrightarrow> copies k d s t \<Longrightarrow> call_ok t"
  by (auto simp: call_ok_def copies_def)

lemma match_source_copies:
  assumes "call_ok s" "0 < unat (offset s)" "unat (offset s) \<le> whave s + length (put s)"
    "match_source s = (f, n)" "k \<le> n" "k \<le> avail_out s"
  shows "\<exists>g t. copy_bytes k f s = Some (g, t) \<and> copies k (unat (offset s)) s t"
proof -
  let ?d = "unat (offset s)"
  have w: "out_start s - avail_out s = length (put s)" "window_ok s" using assms(1) by (simp_all add: call_ok_def)
  show ?thesis
  proof (cases "length (put s) < ?d")
    case True
    let ?far = "?d - length (put s)"
    have reach: "?far \<le> whave s" using assms(3) by linarith
    then have "?far \<le> wsize s" using w(2) by (auto simp: window_ok_def)
    then have "f = From_Window (window_index ?far s)" "n = min (segment_size ?far s) (unat (length_of s))"
      using assms(4) w(1) True by (auto simp: match_source_def window_index_def segment_size_def window_minus_def Let_def split: if_splits)
    then show ?thesis using window_copies [OF w(2) True, of k] reach assms(5,6) by (simp, blast)
  next
    case False
    then have "f = From_Out ?d" using assms(4) w(1) by (auto simp: match_source_def Let_def split: if_splits)
    then show ?thesis using out_copies [of ?d s k] assms(2,6) False by auto
  qed
qed

lemma match_source_positive:
  assumes "call_ok s" "0 < unat (length_of s)" "match_source s = (f, n)"
  shows "0 < n" "n \<le> unat (length_of s)"
  using assms by (auto simp: match_source_def call_ok_def Let_def split: if_splits)

lemma do_MATCH_copies:
  assumes "call_ok s" "0 < unat (offset s)" "unat (offset s) \<le> whave s + length (put s)" "0 < unat (length_of s)" "0 < avail_out s"
  shows "\<exists>k t. do_MATCH s = Again (t \<lparr> length_of := length_of s - of_nat k, mode := if k = unat (length_of s) then LEN else mode s \<rparr>) \<and>
    0 < k \<and> k \<le> unat (length_of s) \<and> copies k (unat (offset s)) s t"
proof -
  obtain f n where m: "match_source s = (f, n)" by fastforce
  note n = match_source_positive [OF assms(1,4) m]
  let ?k = "min n (avail_out s)"
  obtain g t where t: "copy_bytes ?k f s = Some (g, t)" "copies ?k (unat (offset s)) s t"
    using match_source_copies [OF assms(1-3) m, of ?k] by auto
  have k: "0 < ?k" "?k \<le> unat (length_of s)" using n assms(5) by simp_all
  have same: "length_of t = length_of s" "mode t = mode s" using t(2) by (auto simp: copies_def)
  have "length_of s = of_nat ?k \<longleftrightarrow> ?k = unat (length_of s)"
    using le_unat_uoi [OF k(2)] by (auto simp: word_unat_eq_iff)
  then have "do_MATCH s = Again (t \<lparr> length_of := length_of s - of_nat ?k, mode := if ?k = unat (length_of s) then LEN else mode s \<rparr>)"
    using assms(5) t(1) k(1) same by (simp add: do_MATCH_def m copy_while_def getting_def Let_def)
  then show ?thesis using t(2) k by blast
qed

lemma copy_windowed_copies:
  assumes "window_ok s" "length (put s) < d" "d - length (put s) \<le> whave s" "n \<le> avail_out s" "0 < n"
  shows "\<exists>t. copy_windowed n d (d - length (put s)) s = Some t \<and> copies n d s t"
proof -
  let ?far = "d - length (put s)"
  have w: "write_at s < wsize s" "0 < ?far" "?far \<le> wsize s" using assms(1-3) by (auto simp: window_ok_def)
  have m: "window_minus (wsize s) ?far = From_Window (wsize s - ?far)"
      "window_minus (wsize s + write_at s) ?far = From_Window (wsize s + write_at s - ?far)"
    using w by (simp_all add: window_minus_def)
  have first: "\<exists>t. copy_while k (From_Window (window_index ?far s)) s = Some t \<and> copies k d s t"
    if "0 < k" "k \<le> segment_size ?far s" "k \<le> n" for k
    using window_copies [OF assms(1-3) that(2)] that assms(4) by (auto simp: copy_while_def)
  have whole: "\<exists>t. copy_rest n (From_Window (window_index ?far s)) s = Some t \<and> copies n d s t"
    if "n \<le> segment_size ?far s"
    using window_copies [OF assms(1-3) that] assms(4) by (auto simp: copy_rest_bytes)
  have rest: "\<exists>u. copy_rest (n - k) (From_Out d) t = Some u \<and> copies n d s u"
    if "copies k d s t" "?far \<le> k" "k \<le> n" for k t
  proof -
    have "d \<le> length (put t)" "n - k \<le> avail_out t" "0 < d" using copies_D [OF that(1)] that assms(2,4) by simp_all
    then obtain u where u: "copy_bytes (n - k) (From_Out d) t = Some (From_Out d, u)" "copies (n - k) d t u"
      using out_copies [of d t "n - k"] by blast
    then show ?thesis using copies_trans [OF that(1) u(2)] that(3) by (auto simp: copy_rest_bytes)
  qed
  consider "write_at s < ?far" "write_at s \<noteq> 0" | "?far \<le> write_at s \<or> write_at s = 0" by linarith
  then show ?thesis
  proof cases
    case 1
    let ?r = "?far - write_at s"
    have i: "window_index ?far s = wsize s + write_at s - ?far" "segment_size ?far s = ?r"
      using 1 w by (simp_all add: window_index_def segment_size_def)
    show ?thesis
    proof (cases "?r < n")
      case False
      then show ?thesis using whole 1 i by (simp add: copy_windowed_def Let_def m)
    next
      case True
      have r: "0 < ?r" "?r \<le> segment_size ?far s" "?r \<le> n" using True 1 i by simp_all
      obtain t where t: "copy_while ?r (From_Window (window_index ?far s)) s = Some t" "copies ?r d s t"
        using first [OF r] by blast
      note D = copies_D [OF t(2)]
      have same: "write_at t = write_at s" "wsize t = wsize s" "whave t = whave s" "window_ok t"
        using t(2) assms(1) by (auto simp: copies_def)
      have back_t: "d - length (put t) = write_at s" using D(3) 1 assms(2) by simp
      have far_t: "length (put t) < d" "d - length (put t) \<le> whave t" using back_t 1 same assms(3) by linarith+
      have j: "window_index (write_at s) t = 0" "segment_size (write_at s) t = write_at s"
        using same by (simp_all add: window_index_def segment_size_def)
      show ?thesis
      proof (cases "write_at s < n - ?r")
        case False
        then have k: "n - ?r \<le> segment_size (d - length (put t)) t" "n - ?r \<le> avail_out t"
          unfolding back_t j using D(1) assms(4) by linarith+
        then obtain g u where u: "copy_bytes (n - ?r) (From_Window 0) t = Some (g, u)" "copies (n - ?r) d t u"
          using window_copies [OF same(4) far_t k] unfolding back_t j by blast
        have "copy_windowed n d ?far s = Some u"
          unfolding copy_windowed_def Let_def if_not_P [OF 1(2)] if_P [OF 1(1)] if_P [OF True]
          using t(1) u(1) False by (simp only: m i(1) same bind.bind_lunit if_False copy_rest_bytes option.map snd_conv)
        then show ?thesis using copies_trans [OF t(2) u(2)] True by auto
      next
        case far: True
        then have k: "write_at s \<le> segment_size (d - length (put t)) t" "write_at s \<le> avail_out t"
          unfolding back_t j using D(1) assms(4) True by linarith+
        then obtain g u where u: "copy_bytes (write_at s) (From_Window 0) t = Some (g, u)" "copies (write_at s) d t u"
          using window_copies [OF same(4) far_t k] unfolding back_t j by blast
        have su: "copies ?far d s u" using copies_trans [OF t(2) u(2)] 1 by simp
        obtain v where v: "copy_rest (n - ?far) (From_Out d) u = Some v" "copies n d s v"
          using rest [OF su] far 1 by force
        have "n - ?r - write_at s = n - ?far" using 1 by simp
        moreover have "copy_while (write_at s) (From_Window 0) t = Some u" using u(1) 1(2) by (simp add: copy_while_def)
        moreover have wu: "write_at u = write_at s" using u(2) same by (auto simp: copies_def)
        ultimately have "copy_windowed n d ?far s = Some v"
          unfolding copy_windowed_def Let_def if_not_P [OF 1(2)] if_P [OF 1(1)] if_P [OF True]
          using t(1) v(1) far by (simp only: m i(1) same wu bind.bind_lunit if_True)
        then show ?thesis using v(2) by blast
      qed
    qed
  next
    case 2
    have i: "window_index ?far s = (if write_at s = 0 then wsize s - ?far else write_at s - ?far)" "segment_size ?far s = ?far"
      using 2 w by (auto simp: window_index_def segment_size_def)
    show ?thesis
    proof (cases "?far < n")
      case False
      then show ?thesis using whole 2 i by (auto simp: copy_windowed_def Let_def m)
    next
      case True
      then obtain t where t: "copy_while ?far (From_Window (window_index ?far s)) s = Some t" "copies ?far d s t"
        using first [of ?far] i w by auto
      obtain u where u: "copy_rest (n - ?far) (From_Out d) t = Some u" "copies n d s u"
        using rest [OF t(2)] True by auto
      then show ?thesis using True 2 t(1) i by (auto simp: copy_windowed_def Let_def m)
    qed
  qed
qed

lemma fast_copy_copies:
  assumes "call_ok s" "0 < d" "3 \<le> n" "n \<le> avail_out s"
  shows "fast_copy (out_start s) n d s = (if d \<le> whave s + length (put s) then
      Some (Next (s \<lparr> put := drop (whave s) (lz_copy n d (history s)), avail_out := avail_out s - n \<rparr>))
    else Some (fast_error ''invalid distance too far back'' s))"
proof -
  have w: "out_start s - avail_out s = length (put s)" "window_ok s" using assms(1) by (simp_all add: call_ok_def)
  have put: "t = s \<lparr> put := drop (whave s) (lz_copy n d (history s)), avail_out := avail_out s - n \<rparr>" if cp: "copies n d s t" for t
  proof -
    obtain p where p: "window_bytes s @ p = lz_copy n d (history s)" "t = s \<lparr> put := p, avail_out := avail_out s - n \<rparr>"
      using cp by (auto simp: copies_def)
    have "drop (whave s) (window_bytes s @ p) = p" using length_window_bytes [OF w(2)] by simp
    then show ?thesis using p by simp
  qed
  show ?thesis
  proof (cases "length (put s) < d")
    case True
    then show ?thesis
      using w copy_windowed_copies [OF w(2) True, of n] assms put by (auto simp: fast_copy_def Let_def fast_error_def)
  next
    case False
    then show ?thesis
      using w out_copies [of d s n] assms put by (auto simp: fast_copy_def Let_def copy_direct_bytes)
  qed
qed

section \<open>Properties\<close>

text \<open>
  C3. A match copies from the history, in \<open>inflate()\<close> and in \<open>inflate_fast()\<close> alike. For a distance that is positive and
  not beyond what the window and the output of the call hold, a round of \<open>MATCH\<close> appends at least one and at most
  \<open>length\<close> bytes, each the one at that distance back in everything put out, wherever the piece lies in the circular
  window or in the output, and goes to \<open>LEN\<close> when it has them all; the copy of \<open>inflate_fast\<close> appends all of them in
  one go and leaves the same history.
\<close>

theorem match_copies_history:
  assumes "call_ok s" "0 < unat (offset s)" "unat (offset s) \<le> whave s + length (put s)" "0 < unat (length_of s)" "0 < avail_out s"
  shows "(\<exists>k t. do_MATCH s = Again (t \<lparr> length_of := length_of s - of_nat k, mode := if k = unat (length_of s) then LEN else mode s \<rparr>) \<and>
      0 < k \<and> k \<le> unat (length_of s) \<and> avail_out t + k = avail_out s \<and>
      history t = lz_copy k (unat (offset s)) (history s)) \<and>
    (3 \<le> unat (length_of s) \<and> unat (length_of s) \<le> avail_out s \<longrightarrow>
      (\<exists>u. fast_copy (out_start s) (unat (length_of s)) (unat (offset s)) s = Some (Next u) \<and>
        avail_out u + unat (length_of s) = avail_out s \<and>
        history u = lz_copy (unat (length_of s)) (unat (offset s)) (history s)))"
proof (intro conjI impI)
  obtain k t where k: "do_MATCH s = Again (t \<lparr> length_of := length_of s - of_nat k, mode := if k = unat (length_of s) then LEN else mode s \<rparr>)"
      "0 < k" "k \<le> unat (length_of s)" "copies k (unat (offset s)) s t"
    using do_MATCH_copies [OF assms] by blast
  note D = copies_D [OF k(4)]
  have "avail_out t + k = avail_out s" using D(1,2) by linarith
  then show "\<exists>k t. do_MATCH s = Again (t \<lparr> length_of := length_of s - of_nat k, mode := if k = unat (length_of s) then LEN else mode s \<rparr>) \<and>
      0 < k \<and> k \<le> unat (length_of s) \<and> avail_out t + k = avail_out s \<and> history t = lz_copy k (unat (offset s)) (history s)"
    using k D(4) by (intro exI [of _ k] exI [of _ t] conjI)
next
  let ?n = "unat (length_of s)" and ?d = "unat (offset s)"
  assume n: "3 \<le> ?n \<and> ?n \<le> avail_out s"
  let ?u = "s \<lparr> put := drop (whave s) (lz_copy ?n ?d (history s)), avail_out := avail_out s - ?n \<rparr>"
  have w: "window_ok s" using assms(1) by (simp add: call_ok_def)
  have "take (whave s) (lz_copy m ?d (history s)) = window_bytes s" for m
  proof (induction m)
    case 0
    then show ?case using length_window_bytes [OF w] by (simp add: history_def)
  next
    case (Suc m)
    have "lz_copy (Suc m) ?d (history s) = lz_copy 1 ?d (lz_copy m ?d (history s))" using lz_copy_add [of m 1] by simp
    then show ?case using Suc length_window_bytes [OF w] by (simp add: history_def)
  qed
  then have "history ?u = lz_copy ?n ?d (history s)"
    unfolding history_def [of ?u] by (simp, metis append_take_drop_id)
  then show "\<exists>u. fast_copy (out_start s) ?n ?d s = Some (Next u) \<and> avail_out u + ?n = avail_out s \<and> history u = lz_copy ?n ?d (history s)"
    using fast_copy_copies [of s ?d ?n] assms n by (intro exI [of _ ?u]) simp
qed

definition sample_call :: "byte list \<Rightarrow> inflate_call" where
  "sample_call bs = inflate_state.extend (sample_state bs) \<lparr> in_start = length bs, out_start = 8, put = [] \<rparr>"

lemma match_copies_history_witness:
  "let s = sample_call [] \<lparr> wbits := 3, window := Some [1, 2, 3, 4, 5, 6, 7, 8], wsize := 8, whave := 8, write_at := 2, put := [100],
      avail_out := 7, offset := 5, length_of := 6 \<rparr>
   in (\<exists>u. fast_copy 8 6 5 s = Some (Next u) \<and> history u = [3, 4, 5, 6, 7, 8, 1, 2, 100] @ [7, 8, 1, 2, 100, 7])"
proof -
  let ?s = "sample_call [] \<lparr> wbits := 3, window := Some [1, 2, 3, 4, 5, 6, 7, 8], wsize := 8, whave := 8, write_at := 2, put := [100],
      avail_out := 7, offset := 5, length_of := 6 \<rparr>"
  have h: "history ?s = [3, 4, 5, 6, 7, 8, 1, 2, 100]"
    by (simp add: history_def window_bytes_def last_n_def circle_def)
  have "call_ok ?s" by (simp add: call_ok_def window_ok_def sample_call_def sample_state_def inflate_state.defs)
  moreover have f: "unat (offset ?s) = 5" "unat (length_of ?s) = 6" "out_start ?s = 8" "avail_out ?s = 7" "whave ?s = 8"
    "length (put ?s) = 1"
    by (simp_all add: sample_call_def inflate_state.defs)
  ultimately have "\<exists>u. fast_copy 8 6 5 ?s = Some (Next u) \<and> avail_out u + 6 = 7 \<and> history u = lz_copy 6 5 (history ?s)"
    using match_copies_history [of ?s] unfolding f by simp
  moreover have "lz_copy 6 5 [3, 4, 5, 6, 7, 8, 1, 2, 100] = [3, 4, 5, 6, 7, 8, 1, 2, 100] @ [7, 8, 1, 2, 100, 7 :: byte]"
    by (simp add: eval_nat_numeral)
  ultimately show ?thesis unfolding Let_def h by metis
qed

end
