(* ===== verification/Inflate_Tables.thy ===== *)
theory Inflate_Tables
  imports Inflate_Bits Inffast
begin

text \<open>
  The interface between the decoding tables and the code that looks symbols up in them: what \<open>inflate()\<close> and
  \<open>inflate_fast()\<close> rely on in a table of one or two levels, and what a lookup then does, byte by byte or with the bits
  at hand.
\<close>

section \<open>Links\<close>

text \<open>The tests of \<open>inflate()\<close> and of \<open>inflate_fast()\<close> for a link to a second table agree on the entries of a table.\<close>

definition is_link :: "code \<Rightarrow> bool" where
  "is_link e \<longleftrightarrow> op e \<noteq> 0 \<and> op e AND 0xf0 = 0"

definition leaf_op :: "byte \<Rightarrow> bool" where
  "leaf_op x \<longleftrightarrow> x = 0 \<or> x AND 16 \<noteq> 0 \<or> x AND 64 \<noteq> 0"

lemma and_mask_zero: "x AND 0xf0 = 0 \<Longrightarrow> x AND 16 = 0" "x AND 0xf0 = 0 \<Longrightarrow> x AND 64 = 0" for x :: byte
proof -
  assume a: "x AND 0xf0 = 0"
  have "x AND 16 = (x AND 0xf0) AND 16" "x AND 64 = (x AND 0xf0) AND 64" by (simp_all add: and.assoc)
  then show "x AND 16 = 0" "x AND 64 = 0" unfolding a by simp_all
qed

lemma is_link_tests: "is_link e \<Longrightarrow> len_link (op e)" "is_link e \<Longrightarrow> dist_link (op e)"
  by (auto simp: is_link_def len_link_def dist_link_def and_mask_zero)

lemma leaf_not_link: "leaf_op (op e) \<Longrightarrow> \<not> is_link e" "leaf_op x \<Longrightarrow> \<not> len_link x" "leaf_op x \<Longrightarrow> x \<noteq> 0 \<Longrightarrow> \<not> dist_link x"
  using and_mask_zero by (auto simp: is_link_def leaf_op_def len_link_def dist_link_def)

section \<open>The interface\<close>

text \<open>
  The table \<open>T\<close> of \<open>root\<close> index bits decodes the words of the symbols in \<open>S\<close>: none begins another, and every index of the
  root table has either the entry of the symbol whose word it begins with, or a link to a table of which the
  same holds for the further bits. \<open>entry n c\<close> is the entry of the symbol \<open>c\<close> with \<open>n\<close> bits to drop.
\<close>

locale decoding_table =
  fixes T :: "nat \<Rightarrow> code option"
    and root :: nat
    and S :: "nat set"
    and word :: "nat \<Rightarrow> bool list"
    and entry :: "nat \<Rightarrow> nat \<Rightarrow> code"
  assumes root_small: "root \<le> 15"
    and word_small: "c \<in> S \<Longrightarrow> length (word c) \<le> 15"
    and word_free: "c \<in> S \<Longrightarrow> d \<in> S \<Longrightarrow> prefix (word c) (word d) \<Longrightarrow> c = d"
    and entry_leaf: "c \<in> S \<Longrightarrow> leaf_op (op (entry n c))"
    and entry_nbits: "entry n c = (entry 0 c) \<lparr> nbits := of_nat n \<rparr>"
    and root_entry: "v < 2 ^ root \<Longrightarrow> \<exists>e. T v = Some e \<and>
      (if is_link e then unat (nbits e) = root \<and> root + unat (op e) \<le> 15 \<and>
         (\<forall>w < 2 ^ unat (op e). \<exists>c \<in> S. T (unat (val e) + w) = Some (entry (length (word c) - root) c) \<and>
           root < length (word c) \<and> length (word c) \<le> root + unat (op e) \<and> prefix (word c) (bits root v @ bits (unat (op e)) w))
       else \<exists>c \<in> S. e = entry (length (word c)) c \<and> prefix (word c) (bits root v))"
begin

lemma root_cases:
  assumes "v < 2 ^ root"
  obtains (leaf) c where "c \<in> S" "T v = Some (entry (length (word c)) c)" "prefix (word c) (bits root v)"
  | (link) e where "T v = Some e" "is_link e" "unat (nbits e) = root" "root + unat (op e) \<le> 15"
      "\<And>w. w < 2 ^ unat (op e) \<Longrightarrow> \<exists>c \<in> S. T (unat (val e) + w) = Some (entry (length (word c) - root) c) \<and>
           root < length (word c) \<and> length (word c) \<le> root + unat (op e) \<and> prefix (word c) (bits root v @ bits (unat (op e)) w)"
proof -
  obtain e where e: "T v = Some e" using root_entry [OF assms] by blast
  show ?thesis
  proof (cases "is_link e")
    case True
    then show ?thesis using root_entry [OF assms] e link by auto
  next
    case False
    then show ?thesis using root_entry [OF assms] e leaf by auto
  qed
qed

lemma entry_bits: "n \<le> 15 \<Longrightarrow> unat (nbits (entry n c)) = n"
  by (subst entry_nbits) (simp add: unat_of_nat)

lemma entry_op_val: "op (entry n c) = op (entry 0 c)" "val (entry n c) = val (entry 0 c)"
  by (subst entry_nbits, simp)+

lemma entry_not_link: "c \<in> S \<Longrightarrow> \<not> is_link (entry n c)"
  using entry_leaf leaf_not_link(1) by blast

text \<open>Two words that the same bits begin with are of the same symbol.\<close>

lemma word_unique: "c \<in> S \<Longrightarrow> d \<in> S \<Longrightarrow> prefix (word c) bs \<Longrightarrow> prefix (word d) bs \<Longrightarrow> c = d"
  using prefix_same_cases [of "word c" bs "word d"] word_free [of c d] word_free [of d c] by blast

end

text \<open>The bits of an index: the first of those to come, with zeros after the last.\<close>

lemma bits_mod: "bits n v = bits n (w :: nat) \<longleftrightarrow> v mod 2 ^ n = w mod 2 ^ n"
proof
  assume e: "bits n v = bits n w"
  have "bit v i = bit w i" if "i < n" for i using arg_cong [OF e, of "\<lambda>l. l ! i"] that by simp
  then have "take_bit n v = take_bit n w" by (intro bit_eqI) (auto simp: bit_take_bit_iff)
  then show "v mod 2 ^ n = w mod 2 ^ n" by (simp only: take_bit_eq_mod)
next
  assume "v mod 2 ^ n = w mod 2 ^ n"
  then have e: "take_bit n v = take_bit n w" by (simp only: take_bit_eq_mod)
  have "bit v i = bit w i" if "i < n" for i
    using arg_cong [OF e, of "\<lambda>x. bit x i"] that by (simp add: bit_take_bit_iff)
  then show "bits n v = bits n w" by (rule bits_cong)
qed

lemma bits_value_less: "bits_value bs < 2 ^ length bs"
  by (induction bs) (auto simp: bits_value_def of_bool_def)

lemma bit_bits_value: "bit (bits_value bs) i \<longleftrightarrow> i < length bs \<and> bs ! i"
proof (induction bs arbitrary: i)
  case (Cons b bs)
  have "bits_value (b # bs) = of_bool b + 2 * bits_value bs" by (simp add: bits_value_def)
  then show ?case using Cons.IH by (cases i) (simp_all add: bit_0 bit_Suc)
qed (simp add: bits_value_def)

lemma bits_of_value: "bits n (bits_value bs) = take n bs @ replicate (n - length bs) False"
  by (rule nth_equalityI) (auto simp: bit_bits_value nth_append)

lemma bits_prefix: "m \<le> n \<Longrightarrow> take m (bits n v) = bits m v"
  by (rule nth_equalityI) auto

lemma prefix_take: "prefix p bs \<Longrightarrow> length p \<le> n \<Longrightarrow> prefix p (take n bs)"
  by (auto simp: prefix_def)

section \<open>Looking up byte by byte\<close>

text \<open>
  A loop of \<open>fetch\<close> on a table of \<open>n\<close> index bits, those after the first \<open>from\<close> ones. In a steady table all the
  indices that have the bits of an entry have that entry, so the loop finds the entry that all the bits to come index,
  although it looks with zeros in place of those that it has not got yet.
\<close>

definition index_of :: "nat \<Rightarrow> nat \<Rightarrow> bool list \<Rightarrow> nat" where
  "index_of lo n bs = bits_value (take n (drop lo bs))"

definition steady :: "nat \<Rightarrow> nat \<Rightarrow> (nat \<Rightarrow> code option) \<Rightarrow> bool" where
  "steady lo n T \<longleftrightarrow> (\<forall>v < 2 ^ n. \<exists>e. T v = Some e \<and> unat (nbits e) \<le> n \<and> lo + n \<le> 25 \<and>
    (\<forall>w < 2 ^ n. v mod 2 ^ unat (nbits e) = w mod 2 ^ unat (nbits e) \<longrightarrow> T w = Some e))"

abbreviation acc_bits :: "'a inflate_state_scheme \<Rightarrow> bool list" where
  "acc_bits s \<equiv> bits (bitcnt s) (hold s)"

lemma index_of_less: "index_of lo n bs < 2 ^ n"
proof -
  have "index_of lo n bs < 2 ^ length (take n (drop lo bs))" unfolding index_of_def by (rule bits_value_less)
  also have "\<dots> \<le> 2 ^ n" by (rule power_increasing) simp_all
  finally show ?thesis .
qed

lemma index_of_agree:
  assumes "lo + m \<le> length xs" "m \<le> n"
  shows "index_of lo n (xs @ ys) mod 2 ^ m = index_of lo n xs mod 2 ^ m"
proof -
  have "bits m (index_of lo n (xs @ ys)) = bits m (index_of lo n xs)"
    using assms by (intro bits_cong) (auto simp: index_of_def bit_bits_value nth_append)
  then show ?thesis by (simp only: bits_mod)
qed

lemma same_but_bits_table: "same_but_bits s t \<Longrightarrow> table_at t = table_at s"
  by (rule ext)+ (auto simp: same_but_bits_def table_at_def split: code_ptr.splits intro: arg_cong [where f = "\<lambda>c. peek c _"] dest: arg_cong [of _ _ codes])

lemma fetch_steady:
  "steady lo n T \<Longrightarrow> acc_ok s \<Longrightarrow> \<forall>i. table_at s p (off + i) = T i \<Longrightarrow>
    \<forall>u. same_but_bits s u \<and> acc_ok u \<longrightarrow> idx u = off + index_of lo n (acc_bits u) \<Longrightarrow>
    \<exists>e. T (index_of lo n (input_bits s)) = Some e \<and> unat (nbits e) \<le> n \<and>
      (if lo + unat (nbits e) \<le> length (input_bits s)
       then \<exists>t. fetch p idx lo s = Got e t \<and> input_bits t = input_bits s \<and> acc_ok t \<and> same_but_bits s t \<and>
         lo + unat (nbits e) \<le> bitcnt t \<and> bitcnt t \<le> max (bitcnt s) (lo + unat (nbits e) + 7)
       else \<exists>t. fetch p idx lo s = Starved t \<and> input_bits t = input_bits s \<and> acc_ok t \<and> same_but_bits s t \<and> next_in t = [])"
proof (induction p idx lo s rule: fetch.induct)
  case (1 p idx lo s)
  let ?true = "index_of lo n (input_bits s)" and ?cur = "index_of lo n (acc_bits s)"
  obtain e where e: "T ?true = Some e" "unat (nbits e) \<le> n" "lo + n \<le> 25"
      "\<forall>w < 2 ^ n. ?true mod 2 ^ unat (nbits e) = w mod 2 ^ unat (nbits e) \<longrightarrow> T w = Some e"
    using 1(2) index_of_less [of lo n "input_bits s"] unfolding steady_def by blast
  obtain f where f: "T ?cur = Some f" "unat (nbits f) \<le> n"
      "\<forall>w < 2 ^ n. ?cur mod 2 ^ unat (nbits f) = w mod 2 ^ unat (nbits f) \<longrightarrow> T w = Some f"
    using 1(2) index_of_less [of lo n "acc_bits s"] unfolding steady_def by blast
  have idx: "table_at s p (idx s) = Some f" using 1(4,5) 1(3) f(1) by simp
  have agree: "?true mod 2 ^ m = ?cur mod 2 ^ m" if "lo + m \<le> bitcnt s" "m \<le> n" for m
    using index_of_agree [of lo m "acc_bits s" n] that by (simp add: input_bits_def)
  show ?case
  proof (cases "lo + unat (nbits f) \<le> bitcnt s")
    case True
    then have "T ?true = Some f" using f(3) agree [OF True f(2)] index_of_less [of lo n "input_bits s"] by simp
    then have "f = e" using e(1) by simp
    then show ?thesis using True idx e(1,2) 1(3) by (subst fetch.simps) (simp add: length_input_bits)
  next
    case False
    have short: "\<not> lo + unat (nbits e) \<le> bitcnt s"
    proof
      assume a: "lo + unat (nbits e) \<le> bitcnt s"
      then have "T ?cur = Some e" using e(4) agree [OF a e(2)] index_of_less [of lo n "acc_bits s"] by simp
      then show False using f(1) a False by simp
    qed
    show ?thesis
    proof (cases "PULLBYTE s")
      case None
      then have "next_in s = []" by (auto simp: PULLBYTE_def split: list.splits)
      moreover have "fetch p idx lo s = Starved s" using idx False None by (subst fetch.simps) simp
      ultimately show ?thesis using e(1,2) short 1(3) by (simp add: length_input_bits)
    next
      case (Some t)
      have "bitcnt s \<le> 24" using short e(2,3) by linarith
      note t = PULLBYTE_input [OF 1(3) this Some] PULLBYTE_same [OF Some] PULLBYTE_bitcnt [OF Some]
      have "fetch p idx lo s = fetch p idx lo t" using idx False Some by (subst fetch.simps) simp
      moreover have "\<forall>i. table_at t p (off + i) = T i" using 1(4) same_but_bits_table [OF t(3)] by simp
      moreover have "\<forall>u. same_but_bits t u \<and> acc_ok u \<longrightarrow> idx u = off + index_of lo n (acc_bits u)"
        using 1(5) same_but_bits_trans [OF t(3)] by blast
      ultimately show ?thesis
        using 1(1) [OF idx False Some 1(2) t(2)] e(1) t short same_but_bits_trans [OF t(3)] by (auto simp: max_def split: if_splits)
    qed
  qed
qed

lemma acc_ok_bit: "acc_ok s \<Longrightarrow> bit (hold s) n \<Longrightarrow> n < bitcnt s"
  by (auto simp: acc_ok_def not_le [symmetric])

lemma bit_index_of: "acc_ok s \<Longrightarrow> bit (index_of lo n (acc_bits s)) i \<longleftrightarrow> i < n \<and> bit (hold s) (lo + i)"
  by (auto simp: index_of_def bit_bits_value dest: acc_ok_bit)

lemma root_index_of: "acc_ok s \<Longrightarrow> n < 32 \<Longrightarrow> root_index n s = index_of 0 n (acc_bits s)"
  by (rule bit_eqI) (auto simp: root_index_def bit_index_of bit_unsigned_iff bit_BITS)

lemma sub_index_of:
  assumes "acc_ok s" "unat (nbits e) + unat (op e) < 32"
  shows "sub_index e s = unat (val e) + index_of (unat (nbits e)) (unat (op e)) (acc_bits s)"
proof -
  have "unat (drop_bit (unat (nbits e)) (BITS (unat (nbits e) + unat (op e)) s)) =
      index_of (unat (nbits e)) (unat (op e)) (acc_bits s)"
    using assms by (intro bit_eqI) (auto simp: bit_index_of bit_unsigned_iff bit_drop_bit_eq bit_BITS)
  then show ?thesis by (simp add: sub_index_def)
qed

lemma index_of_prefix: "bits n (index_of lo n bs) = take n (drop lo bs) @ replicate (n - (length bs - lo)) False"
  by (simp add: index_of_def bits_of_value)

lemma prefix_index:
  assumes "prefix p bs" "length p \<le> n"
  shows "prefix p (bits n (index_of 0 n bs))"
  using prefix_take [OF assms] by (auto simp: index_of_prefix prefix_def)

text \<open>\<open>n\<close> bits have been looked at: they are in the accumulator, with at most seven more than it had or needs.\<close>

definition looked :: "nat \<Rightarrow> 'a inflate_state_scheme \<Rightarrow> 'a inflate_state_scheme \<Rightarrow> bool" where
  "looked n s t \<longleftrightarrow> input_bits t = input_bits s \<and> acc_ok t \<and> same_but_bits s t \<and> n \<le> bitcnt t \<and> bitcnt t \<le> max (bitcnt s) (n + 7)"

context decoding_table
begin

lemma root_steady: "steady 0 root T"
  unfolding steady_def
proof (intro allI impI)
  fix v assume v: "v < (2 :: nat) ^ root"
  show "\<exists>e. T v = Some e \<and> unat (nbits e) \<le> root \<and> 0 + root \<le> 25 \<and>
      (\<forall>w < 2 ^ root. v mod 2 ^ unat (nbits e) = w mod 2 ^ unat (nbits e) \<longrightarrow> T w = Some e)"
  using v
  proof (cases rule: root_cases)
    case (leaf c)
    have len: "length (word c) \<le> root" using prefix_length_le [OF leaf(3)] by simp
    have n: "unat (nbits (entry (length (word c)) c)) = length (word c)" using entry_bits len root_small by simp
    have "T w = Some (entry (length (word c)) c)"
      if w: "w < 2 ^ root" and same: "v mod 2 ^ length (word c) = w mod 2 ^ length (word c)" for w
    proof -
      have "take (length (word c)) (bits root v) = take (length (word c)) (bits root w)"
        using same len by (simp add: bits_prefix bits_mod)
      then have p: "prefix (word c) (bits root w)" using leaf(3) by (metis append_eq_conv_conj prefix_def take_is_prefix)
      show ?thesis
      using w
  proof (cases rule: root_cases)
        case leaf': (leaf d)
        then show ?thesis using word_unique [OF leaf(1) leaf'(1) p leaf'(3)] by simp
      next
        case link: (link e)
        obtain d where d: "d \<in> S" "root < length (word d)" "prefix (word d) (bits root w @ bits (unat (op e)) (0 :: nat))"
          using link(5) [of 0] by auto
        have "prefix (word c) (bits root w @ bits (unat (op e)) (0 :: nat))" using p by (rule prefix_prefix)
        then have "c = d" using word_unique leaf(1) d(1,3) by blast
        then show ?thesis using d(2) len by simp
      qed
    qed
    then show ?thesis using leaf(2) n len root_small by auto
  next
    case (link e)
    then show ?thesis using root_small v by auto
  qed
qed

lemma sub_steady:
  assumes "v < 2 ^ root" "T v = Some e" "is_link e"
  shows "steady root (unat (op e)) (\<lambda>w. T (unat (val e) + w))"
  unfolding steady_def
proof (intro allI impI)
  have sub: "\<And>w. w < 2 ^ unat (op e) \<Longrightarrow> \<exists>c \<in> S. T (unat (val e) + w) = Some (entry (length (word c) - root) c) \<and>
           root < length (word c) \<and> length (word c) \<le> root + unat (op e) \<and> prefix (word c) (bits root v @ bits (unat (op e)) w)"
    and small: "root + unat (op e) \<le> 15"
    using root_entry [OF assms(1)] assms(2,3) by simp_all
  fix w assume w: "w < (2 :: nat) ^ unat (op e)"
  obtain c where c: "c \<in> S" "T (unat (val e) + w) = Some (entry (length (word c) - root) c)" "root < length (word c)"
      "length (word c) \<le> root + unat (op e)" "prefix (word c) (bits root v @ bits (unat (op e)) w)"
    using sub [OF w] by blast
  let ?n = "length (word c) - root"
  have n: "unat (nbits (entry ?n c)) = ?n" using entry_bits c(4) small by simp
  have "T (unat (val e) + x) = Some (entry ?n c)" if x: "x < 2 ^ unat (op e)" and same: "w mod 2 ^ ?n = x mod 2 ^ ?n" for x
  proof -
    obtain d where d: "d \<in> S" "T (unat (val e) + x) = Some (entry (length (word d) - root) d)"
        "prefix (word d) (bits root v @ bits (unat (op e)) x)"
      using sub [OF x] by blast
    have "take (length (word c)) (bits root v @ bits (unat (op e)) w) = take (length (word c)) (bits root v @ bits (unat (op e)) x)"
      using same c(3,4) by (simp add: bits_prefix bits_mod)
    then have "prefix (word c) (bits root v @ bits (unat (op e)) x)" using c(5) by (metis append_eq_conv_conj prefix_def take_is_prefix)
    then show ?thesis using word_unique [OF c(1) d(1) _ d(3)] d(2) by blast
  qed
  then show "\<exists>f. T (unat (val e) + w) = Some f \<and> unat (nbits f) \<le> unat (op e) \<and> root + unat (op e) \<le> 25 \<and>
      (\<forall>x < 2 ^ unat (op e). w mod 2 ^ unat (nbits f) = x mod 2 ^ unat (nbits f) \<longrightarrow> T (unat (val e) + x) = Some f)"
    using c(2,4) n small by auto
qed

text \<open>What the bits to come index, when they begin with the word of a symbol.\<close>

lemma indexed:
  assumes "c \<in> S" "prefix (word c) bs"
  obtains (leaf) "length (word c) \<le> root" "T (index_of 0 root bs) = Some (entry (length (word c)) c)"
  | (link) e where "root < length (word c)" "T (index_of 0 root bs) = Some e" "is_link e" "unat (nbits e) = root"
      "root + unat (op e) \<le> 15" "length (word c) \<le> root + unat (op e)"
      "T (unat (val e) + index_of root (unat (op e)) bs) = Some (entry (length (word c) - root) c)"
proof -
  let ?v = "index_of 0 root bs"
  have v: "?v < 2 ^ root" by (rule index_of_less)
  from v show ?thesis
  proof (cases rule: root_cases)
    case a: (leaf d)
    have "prefix (word c) (bits root ?v) \<or> prefix (bits root ?v) (word c)"
    proof (cases "length (word c) \<le> root")
      case True
      then show ?thesis using prefix_index [OF assms(2)] by blast
    next
      case False
      then have "root \<le> length bs" using prefix_length_le [OF assms(2)] by simp
      then have "bits root ?v = take root bs" by (simp add: index_of_prefix)
      also have "\<dots> = take root (word c)" using assms(2) False by (auto simp: prefix_def)
      finally show ?thesis by (simp add: take_is_prefix)
    qed
    then have "prefix (word d) (word c) \<or> prefix (word c) (word d)"
      using a(3) by (meson prefix_order.trans prefix_same_cases)
    then have "c = d" using word_free assms(1) a(1) by blast
    then show ?thesis using a leaf prefix_length_le [OF a(3)] by simp
  next
    case a: (link e)
    let ?w = "index_of root (unat (op e)) bs"
    obtain d where d: "d \<in> S" "T (unat (val e) + ?w) = Some (entry (length (word d) - root) d)" "root < length (word d)"
        "length (word d) \<le> root + unat (op e)" "prefix (word d) (bits root ?v @ bits (unat (op e)) ?w)"
      using a(5) [OF index_of_less] by blast
    have "prefix (word c) (bits root ?v @ bits (unat (op e)) ?w) \<or> prefix (bits root ?v @ bits (unat (op e)) ?w) (word c)"
    proof (cases "length bs \<le> root + unat (op e)")
      case True
      have "bits root ?v @ bits (unat (op e)) ?w = bs @ replicate (root + unat (op e) - length bs) False"
      proof (cases "length bs \<le> root")
        case short: True
        have "bits (unat (op e)) ?w = replicate (unat (op e)) False" using short by (simp add: index_of_prefix)
        moreover have "bits root ?v = bs @ replicate (root - length bs) False" using short by (simp add: index_of_prefix)
        ultimately show ?thesis using short by (simp add: replicate_add [symmetric])
      next
        case False
        then have "bits root ?v = take root bs" "bits (unat (op e)) ?w = drop root bs @ replicate (unat (op e) - (length bs - root)) False"
          using True by (simp_all add: index_of_prefix)
        moreover have "unat (op e) - (length bs - root) = root + unat (op e) - length bs" using False by simp
        ultimately show ?thesis by simp
      qed
      then show ?thesis using prefix_prefix [OF assms(2)] by simp
    next
      case False
      then have "bits root ?v @ bits (unat (op e)) ?w = take (root + unat (op e)) bs"
        by (simp add: index_of_prefix take_add)
      then show ?thesis using prefix_same_cases [OF assms(2) take_is_prefix] by simp
    qed
    then have "prefix (word d) (word c) \<or> prefix (word c) (word d)"
      using d(5) by (meson prefix_order.trans prefix_same_cases)
    then have "c = d" using word_free assms(1) d(1) by blast
    then show ?thesis using a d link by simp
  qed
qed

text \<open>A lookup byte by byte, as in \<open>inflate()\<close>.\<close>

lemma slow_lookup:
  assumes "\<forall>i. table_at s p i = T i" "acc_ok s" "c \<in> S" "prefix (word c) (input_bits s)"
  obtains (leaf) t where "fetch p (root_index root) 0 s = Got (entry (length (word c)) c) t" "looked (length (word c)) s t"
  | (link) e t u where "fetch p (root_index root) 0 s = Got e t" "is_link e" "unat (nbits e) = root" "root < length (word c)"
      "fetch p (sub_index e) root t = Got (entry (length (word c) - root) c) u" "looked (length (word c)) s u" "same_but_bits s t"
proof -
  have len: "length (word c) \<le> length (input_bits s)" "length (word c) \<le> 15"
    using prefix_length_le [OF assms(4)] word_small [OF assms(3)] by simp_all
  have idx: "\<forall>u. same_but_bits s u \<and> acc_ok u \<longrightarrow> root_index root u = 0 + index_of 0 root (acc_bits u)"
    using root_small by (auto intro!: root_index_of)
  note first = fetch_steady [OF root_steady assms(2), of p 0 "root_index root", simplified, OF assms(1) idx [simplified]]
  show ?thesis
  proof (cases rule: indexed [OF assms(3,4)])
    case 1
    have n: "unat (nbits (entry (length (word c)) c)) = length (word c)" using entry_bits len(2) by simp
    obtain t where "fetch p (root_index root) 0 s = Got (entry (length (word c)) c) t" "looked (length (word c)) s t"
      using first 1(2) n len(1) by (auto simp: looked_def)
    then show ?thesis by (rule leaf)
  next
    case (2 e)
    obtain t where t: "fetch p (root_index root) 0 s = Got e t" "looked root s t"
      using first 2 len(1) by (auto simp: looked_def)
    let ?f = "entry (length (word c) - root) c"
    have n: "unat (nbits ?f) = length (word c) - root" using entry_bits len(2) by simp
    have tab: "\<forall>i. table_at t p (unat (val e) + i) = T (unat (val e) + i)"
    proof -
      have "table_at t = table_at s" by (rule same_but_bits_table) (use t(2) in \<open>simp add: looked_def\<close>)
      then show ?thesis using assms(1) by simp
    qed
    have idx2: "\<forall>u. same_but_bits t u \<and> acc_ok u \<longrightarrow> sub_index e u = unat (val e) + index_of root (unat (op e)) (acc_bits u)"
      using 2(4,5) by (auto simp: sub_index_of)
    have same: "input_bits t = input_bits s" "acc_ok t" using t(2) by (simp_all add: looked_def)
    obtain u where u: "fetch p (sub_index e) root t = Got ?f u" "looked (length (word c)) t u"
      using fetch_steady [OF sub_steady [OF index_of_less 2(2,3)] same(2) tab idx2] 2(1,7) n len(1) same(1)
      by (auto simp: looked_def)
    have "looked (length (word c)) s u"
      using t(2) u(2) 2(1) same_but_bits_trans by (auto simp: looked_def max_def split: if_splits)
    then show ?thesis using link t u 2(1,3,4) by (auto simp: looked_def)
  qed
qed

text \<open>A lookup with fifteen bits at hand, as in \<open>inflate_fast()\<close>.\<close>

lemma fast_lookup:
  assumes "\<forall>i. table_at s p i = T i" "acc_ok s" "c \<in> S" "prefix (word c) (input_bits s)" "length (word c) \<le> bitcnt s"
    and "\<And>e. is_link e \<Longrightarrow> link (op e)" "\<not> link (op (entry 0 c))"
  shows "\<exists>e f. table_at s p (unat (BITS root s)) = Some e \<and> follow link p e s = Some (f, DROPBITS (length (word c)) s) \<and>
    op f = op (entry 0 c) \<and> val f = val (entry 0 c)"
proof -
  have nl: "\<not> link (op (entry n c))" for n using assms(7) entry_op_val(1) [of n c] by simp
  have i: "unat (BITS root s) = index_of 0 root (acc_bits s)" using root_index_of [OF assms(2)] root_small by (simp add: root_index_def)
  have p: "prefix (word c) (acc_bits s)"
  proof -
    have "prefix (word c) (take (bitcnt s) (input_bits s))" by (rule prefix_take [OF assms(4,5)])
    then show ?thesis by (simp add: input_bits_def)
  qed
  show ?thesis
  proof (cases rule: indexed [OF assms(3) p])
    case 1
    have n: "unat (nbits (entry (length (word c)) c)) = length (word c)" using entry_bits word_small [OF assms(3)] by simp
    show ?thesis
      using 1 assms(1,5) n nl [of "length (word c)"] entry_op_val [of "length (word c)" c]
      by (intro exI [of _ "entry (length (word c)) c"] conjI) (simp_all add: i follow.simps drop_fast_def)
  next
    case (2 e)
    let ?f = "entry (length (word c) - root) c" and ?t = "DROPBITS root s"
    have n: "unat (nbits ?f) = length (word c) - root" using entry_bits word_small [OF assms(3)] by simp
    have tab: "table_at ?t p i = T i" for i using assms(1) by (simp add: table_at_def DROPBITS_def split: code_ptr.splits)
    have small: "unat (op e) < 32" using 2(5) by simp
    have sub: "unat (BITS (unat (op e)) ?t) = index_of root (unat (op e)) (acc_bits s)"
      using assms(2) small by (intro bit_eqI) (auto simp: bit_index_of bit_unsigned_iff bit_BITS DROPBITS_def bit_drop_bit_eq)
    have "follow link p e s = follow link p ?f ?t"
      using 2 assms(5,6) tab sub by (subst follow.simps) (simp add: drop_fast_def)
    also have "\<dots> = Some (?f, DROPBITS (length (word c) - root) ?t)"
      using n assms(5) nl 2(1) by (subst follow.simps) (simp add: drop_fast_def DROPBITS_def)
    also have "DROPBITS (length (word c) - root) ?t = DROPBITS (length (word c)) s"
      using 2(1) by (simp add: DROPBITS_def drop_bit_drop_bit)
    finally show ?thesis using 2(2) assms(1) entry_op_val [of "length (word c) - root" c] by (simp add: i)
  qed
qed

end

end
