(* ===== verification/Fixed_Match.thy ===== *)
theory Fixed_Match
  imports Inf_Fixed Tree_Blocks
begin

text \<open>
  The fixed decoding tables of \<^theory_text>\<open>Inf_Fixed\<close> against the static trees of \<^theory_text>\<open>Static_Trees\<close>: what the
  compressor sends for a symbol of a block with the static trees, the decompressor's table says back.
\<close>

text \<open>The symbol whose code the index of an entry begins with.\<close>

definition fixed_syms :: "nat list" where
  "fixed_syms = [
    256, 80, 16, 280, 272, 112, 48, 192, 264, 96, 32, 160, 0, 128, 64, 224, 260, 88, 24, 144, 276, 120,
    56, 208, 268, 104, 40, 176, 8, 136, 72, 240, 258, 84, 20, 284, 274, 116, 52, 200, 266, 100, 36, 168,
    4, 132, 68, 232, 262, 92, 28, 152, 278, 124, 60, 216, 270, 108, 44, 184, 12, 140, 76, 248, 257, 82,
    18, 282, 273, 114, 50, 196, 265, 98, 34, 164, 2, 130, 66, 228, 261, 90, 26, 148, 277, 122, 58, 212,
    269, 106, 42, 180, 10, 138, 74, 244, 259, 86, 22, 286, 275, 118, 54, 204, 267, 102, 38, 172, 6, 134,
    70, 236, 263, 94, 30, 156, 279, 126, 62, 220, 271, 110, 46, 188, 14, 142, 78, 252, 256, 81, 17, 281,
    272, 113, 49, 194, 264, 97, 33, 162, 1, 129, 65, 226, 260, 89, 25, 146, 276, 121, 57, 210, 268, 105,
    41, 178, 9, 137, 73, 242, 258, 85, 21, 285, 274, 117, 53, 202, 266, 101, 37, 170, 5, 133, 69, 234,
    262, 93, 29, 154, 278, 125, 61, 218, 270, 109, 45, 186, 13, 141, 77, 250, 257, 83, 19, 283, 273, 115,
    51, 198, 265, 99, 35, 166, 3, 131, 67, 230, 261, 91, 27, 150, 277, 123, 59, 214, 269, 107, 43, 182,
    11, 139, 75, 246, 259, 87, 23, 287, 275, 119, 55, 206, 267, 103, 39, 174, 7, 135, 71, 238, 263, 95,
    31, 158, 279, 127, 63, 222, 271, 111, 47, 190, 15, 143, 79, 254, 256, 80, 16, 280, 272, 112, 48, 193,
    264, 96, 32, 161, 0, 128, 64, 225, 260, 88, 24, 145, 276, 120, 56, 209, 268, 104, 40, 177, 8, 136,
    72, 241, 258, 84, 20, 284, 274, 116, 52, 201, 266, 100, 36, 169, 4, 132, 68, 233, 262, 92, 28, 153,
    278, 124, 60, 217, 270, 108, 44, 185, 12, 140, 76, 249, 257, 82, 18, 282, 273, 114, 50, 197, 265, 98,
    34, 165, 2, 130, 66, 229, 261, 90, 26, 149, 277, 122, 58, 213, 269, 106, 42, 181, 10, 138, 74, 245,
    259, 86, 22, 286, 275, 118, 54, 205, 267, 102, 38, 173, 6, 134, 70, 237, 263, 94, 30, 157, 279, 126,
    62, 221, 271, 110, 46, 189, 14, 142, 78, 253, 256, 81, 17, 281, 272, 113, 49, 195, 264, 97, 33, 163,
    1, 129, 65, 227, 260, 89, 25, 147, 276, 121, 57, 211, 268, 105, 41, 179, 9, 137, 73, 243, 258, 85,
    21, 285, 274, 117, 53, 203, 266, 101, 37, 171, 5, 133, 69, 235, 262, 93, 29, 155, 278, 125, 61, 219,
    270, 109, 45, 187, 13, 141, 77, 251, 257, 83, 19, 283, 273, 115, 51, 199, 265, 99, 35, 167, 3, 131,
    67, 231, 261, 91, 27, 151, 277, 123, 59, 215, 269, 107, 43, 183, 11, 139, 75, 247, 259, 87, 23, 287,
    275, 119, 55, 207, 267, 103, 39, 175, 7, 135, 71, 239, 263, 95, 31, 159, 279, 127, 63, 223, 271, 111,
    47, 191, 15, 143, 79, 255]"

definition fixed_dist_syms :: "nat list" where
  "fixed_dist_syms = [
    0, 16, 8, 24, 4, 20, 12, 28, 2, 18, 10, 26, 6, 22, 14, 30, 1, 17, 9, 25, 5, 21,
    13, 29, 3, 19, 11, 27, 7, 23, 15, 31]"

text \<open>The entry that \<open>inflate_table\<close> makes for a symbol with a code of \<open>n\<close> bits.\<close>

definition len_entry :: "nat \<Rightarrow> nat \<Rightarrow> code" where
  "len_entry n c =
    (if c < 256 then \<lparr> op = 0, nbits = of_nat n, val = of_nat c \<rparr>
     else if c = 256 then \<lparr> op = 96, nbits = of_nat n, val = 0 \<rparr>
     else \<lparr> op = ucast (lext ! (c - 257)), nbits = of_nat n, val = lbase ! (c - 257) \<rparr>)"

definition dist_entry :: "nat \<Rightarrow> nat \<Rightarrow> code" where
  "dist_entry n d = \<lparr> op = ucast (dext ! d), nbits = of_nat n, val = dbase ! d \<rparr>"

definition fixed_entry_ok :: "nat \<Rightarrow> code \<Rightarrow> nat \<Rightarrow> bool" where
  "fixed_entry_ok v e c \<longleftrightarrow> c < 288 \<and> (c < 286 \<longrightarrow> e = len_entry (literal_lens ! c) c) \<and> (286 \<le> c \<longrightarrow> e = \<lparr> op = 64, nbits = 8, val = 0 \<rparr>) \<and>
    v mod 2 ^ (literal_lens ! c) = rev_nat (literal_lens ! c) (canonical literal_lens c)"

lemma fixed_literals:
  "list_all (\<lambda>(v, e, c). fixed_entry_ok v e c) (zip [0..<512] (zip lenfix fixed_syms))"
  by (simp add: lenfix_def mk_code_def fixed_syms_def upt_0_numeral upt_rec_numeral del: One_nat_def)
    (simp add: fixed_entry_ok_def literal_nth canonical_literal rev_nat_numeral len_entry_def lext_def lbase_def del: One_nat_def)

lemma fixed_dists:
  "list_all (\<lambda>(v, e, d). d < 32 \<and> e = dist_entry 5 d \<and> v = rev_nat 5 d)
    (zip [0..<32] (zip distfix fixed_dist_syms))"
  by (simp add: distfix_def mk_code_def fixed_dist_syms_def upt_0_numeral upt_rec_numeral del: One_nat_def)
    (simp add: rev_nat_numeral dist_entry_def dext_def dbase_def del: One_nat_def)

lemma length_fixed: "length lenfix = 512" "length fixed_syms = 512" "length distfix = 32" "length fixed_dist_syms = 32"
  by (simp_all add: lenfix_def fixed_syms_def distfix_def fixed_dist_syms_def)

lemma fixed_literal_at: "v < 512 \<Longrightarrow> fixed_entry_ok v (lenfix ! v) (fixed_syms ! v)"
  using fixed_literals by (simp add: list_all_length length_fixed)

lemma prefix_bits:
  fixes w :: ushort
  assumes "v mod 2 ^ l = unat w" "l \<le> n"
  shows "prefix (bits l w) (bits n v)"
proof -
  have "bit w i = bit v i" if "i < l" for i
  proof -
    have "bit w i = bit (unat w) i" by (simp add: bit_unsigned_iff)
    also have "\<dots> = bit (take_bit l v) i" using assms(1) by (simp add: take_bit_eq_mod)
    finally show ?thesis using that by (simp add: bit_take_bit_iff)
  qed
  then have "bits l w = bits l v" by (rule bits_cong)
  then show ?thesis using bits_append [of l "n - l" v] assms(2) by simp
qed


lemma static_literal_bits: "c < 288 \<Longrightarrow> code_bits static_ltree c = bits (literal_lens ! c) (code_word literal_lens c)"
proof -
  assume c: "c < 288"
  have len: "length literal_lens = 288" by (simp add: literal_lens_def)
  have "unat (Len (static_ltree ! c)) = literal_lens ! c"
    using c by (simp add: static_ltree_nth literal_nth)
  then show ?thesis using code_word_rev [OF kraft_literal, of c] c len by (simp add: code_bits_def static_ltree_nth literal_nth)
qed

lemma unat_code_word:
  "c < 288 \<Longrightarrow> unat (code_word literal_lens c) = rev_nat (literal_lens ! c) (canonical literal_lens c)"
proof -
  assume c: "c < 288"
  have len: "length literal_lens = 288" by (simp add: literal_lens_def)
  have "code_word literal_lens c = of_nat (rev_nat (literal_lens ! c) (canonical literal_lens c))"
    using code_word_rev [OF kraft_literal, of c] c len by (simp add: literal_nth)
  then show ?thesis using unat_of_nat_rev [of "literal_lens ! c"] c by (simp add: literal_nth)
qed

text \<open>Two codes that the same bits begin with are the same.\<close>

lemma fixed_literal_entry:
  assumes "v < 512" "c < 286" "prefix (code_bits static_ltree c) (bits 9 v)"
  shows "lenfix ! v = len_entry (literal_lens ! c) c"
proof -
  let ?d = "fixed_syms ! v"
  have d: "?d < 288" "?d < 286 \<longrightarrow> lenfix ! v = len_entry (literal_lens ! ?d) ?d"
      "v mod 2 ^ (literal_lens ! ?d) = rev_nat (literal_lens ! ?d) (canonical literal_lens ?d)"
    using fixed_literal_at [OF assms(1)] by (simp_all add: fixed_entry_ok_def)
  have "prefix (code_bits static_ltree ?d) (bits 9 v)"
    unfolding static_literal_bits [OF d(1)] using d(1,3) by (intro prefix_bits) (simp_all add: unat_code_word literal_nth)
  then have same: "prefix (code_bits static_ltree ?d) (code_bits static_ltree c) \<or> prefix (code_bits static_ltree c) (code_bits static_ltree ?d)"
    using prefix_same_cases assms(3) by blast
  have lens: "length literal_lens = 288" "\<And>l. l \<in> set literal_lens \<Longrightarrow> l \<le> 15"
    by (auto simp: literal_lens_def split: if_splits)
  have "c = ?d"
  proof (rule ccontr)
    assume "c \<noteq> ?d"
    then show False
      using same code_words_prefix_free [OF kraft_literal, of c ?d] code_words_prefix_free [OF kraft_literal, of ?d c] lens
        static_literal_bits [of c] static_literal_bits [of ?d] d(1) assms(2) by (simp add: literal_nth)
  qed
  then show ?thesis using d(2) assms(2) by simp
qed

lemma fixed_dist_entry:
  assumes "v < 32" "d < 30" "prefix (code_bits static_dtree d) (bits 5 v)"
  shows "distfix ! v = dist_entry 5 d"
proof -
  let ?e = "fixed_dist_syms ! v"
  have e: "?e < 32" "distfix ! v = dist_entry 5 ?e" "v = rev_nat 5 ?e"
    using fixed_dists assms(1) by (auto simp: list_all_length length_fixed)
  have nth: "static_dtree ! d = \<lparr>fc = of_nat (rev_nat 5 d), dl = 5\<rparr>" using assms(2) by (simp add: static_dtree_rev)
  obtain zs where zs: "bits 5 v = code_bits static_dtree d @ zs" using assms(3) by (auto elim: prefixE)
  have "length zs = 0" using arg_cong [OF zs, of length] by (simp add: code_bits_def nth)
  then have eq: "bits 5 v = bits 5 (of_nat (rev_nat 5 d) :: ushort)" using zs by (simp add: code_bits_def nth)
  have "bit v i = bit (rev_nat 5 d) i" if "i < 5" for i
    using arg_cong [OF eq, of "\<lambda>bs. bs ! i"] that by (simp add: bit_of_nat_iff)
  then have vd: "bit v i = bit d (4 - i)" if "i < 5" for i using that by (simp add: bit_rev_nat)
  have b: "bit ?e (4 - i) = bit d (4 - i)" if "i < 5" for i
  proof -
    have "bit v i = bit ?e (4 - i)" using that arg_cong [OF e(3), of "\<lambda>x. bit x i"] by (simp add: bit_rev_nat)
    then show ?thesis using vd [OF that] by simp
  qed
  have "bit ?e k = bit d k" if "k < 5" for k
  proof -
    have "4 - (4 - k) = k" "4 - k < 5" using that by linarith+
    then show ?thesis using b [of "4 - k"] by simp
  qed
  moreover have "?e < 2 ^ 5" "d < 2 ^ 5" using e(1) assms(2) by simp_all
  ultimately have "?e = d" by (metis (no_types, lifting) bit_eqI bit_take_bit_iff take_bit_nat_eq_self)
  then show ?thesis using e(2) assms(2) by simp
qed

section \<open>Properties\<close>

text \<open>
  C37. The decompressor's fixed tables undo the compressor's static trees: whatever bits follow the code
  that the compressor sends for a literal, the end of block, a length or a distance, the entry that they
  index in the table of 9 and of 5 bits says that symbol, with the code's length, its base and its extra bits.
\<close>

theorem fixed_tables_decode_static:
  assumes "v < 2 ^ 9" "c < L_CODES" "prefix (code_bits static_ltree c) (bits 9 v)"
    and "w < 2 ^ 5" "d < D_CODES" "prefix (code_bits static_dtree d) (bits 5 w)"
  shows "lenfix ! v = len_entry (length (code_bits static_ltree c)) c \<and> distfix ! w = dist_entry 5 d"
proof -
  have c: "c < 286" "d < 30" using assms(2,5) by (simp_all add: L_CODES_def LITERALS_def LENGTH_CODES_def D_CODES_def)
  then have "length (code_bits static_ltree c) = literal_lens ! c" using static_literal_bits [of c] by simp
  then show ?thesis using fixed_literal_entry [OF _ c(1) assms(3)] fixed_dist_entry [OF _ c(2) assms(6)] assms(1,4) by simp
qed

lemma fixed_tables_decode_static_witness:
  "lenfix ! 0 = len_entry 7 256 \<and> distfix ! 16 = dist_entry 5 1"
proof -
  have b: "code_bits static_ltree 256 = replicate 7 False" "bits 9 (0::nat) = replicate 9 False"
    "code_bits static_dtree 1 = [False, False, False, False, True]" "bits 5 (16::nat) = [False, False, False, False, True]"
    by (simp_all add: code_bits_def static_ltree_nth literal_nth canonical_literal rev_nat_numeral static_dtree_rev bits_def upt_rec_numeral
        numeral_replicate upt_0_numeral bit_numeral_rec del: One_nat_def) (simp_all add: bit_numeral_rec bit_1_iff bit_Suc_0_iff)
  then show ?thesis
    using fixed_tables_decode_static [of 0 256 16 1] by (simp add: L_CODES_def LITERALS_def LENGTH_CODES_def D_CODES_def prefix_def numeral_replicate numeral_eq_Suc)
qed

end
