(* ===== verification/Inflate_Fixed.thy ===== *)
theory Inflate_Fixed
  imports Inflate_Tables Fixed_Match
begin

text \<open>
  The fixed tables of \<^verbatim>\<open>src/AOS/aos/zlib/inffixed.h\<close> as decoding tables of the codes that the static trees of
  \<^verbatim>\<open>src/AOS/aos/zlib/trees.h\<close> give.
\<close>

definition fixed_len_entry :: "nat \<Rightarrow> nat \<Rightarrow> code" where
  "fixed_len_entry n c = (if c < 286 then len_entry n c else \<lparr> op = 64, nbits = of_nat n, val = 0 \<rparr>)"

definition fixed_dist_word :: "nat \<Rightarrow> bool list" where
  "fixed_dist_word d = bits 5 (rev_nat 5 d)"

lemma lext_leaf: "c < 29 \<Longrightarrow> leaf_op (ucast (lext ! c))"
proof -
  have "list_all (\<lambda>x. leaf_op (ucast x)) (take 29 lext)"
    by (simp add: lext_def leaf_op_def)
  moreover have "length lext = 31" by (simp add: lext_def)
  ultimately show "c < 29 \<Longrightarrow> leaf_op (ucast (lext ! c))" by (simp add: list_all_length)
qed

lemma dext_leaf: "d < 32 \<Longrightarrow> leaf_op (ucast (dext ! d)) \<and> (ucast (dext ! d) :: byte) \<noteq> 0"
proof -
  have "list_all (\<lambda>x. leaf_op (ucast x) \<and> (ucast x :: byte) \<noteq> 0) dext"
    by (simp add: dext_def leaf_op_def)
  moreover have "length dext = 32" by (simp add: dext_def)
  ultimately show "d < 32 \<Longrightarrow> leaf_op (ucast (dext ! d)) \<and> (ucast (dext ! d) :: byte) \<noteq> 0" by (simp add: list_all_length)
qed

lemma fixed_len_leaf: "c < 288 \<Longrightarrow> leaf_op (op (fixed_len_entry n c))"
  using lext_leaf [of "c - 257"] by (auto simp: fixed_len_entry_def len_entry_def leaf_op_def)

lemma fixed_literal_word:
  assumes "v < 512"
  shows "fixed_syms ! v < 288" "lenfix ! v = fixed_len_entry (length (code_bits static_ltree (fixed_syms ! v))) (fixed_syms ! v)"
    "prefix (code_bits static_ltree (fixed_syms ! v)) (bits 9 v)"
proof -
  let ?c = "fixed_syms ! v"
  have e: "?c < 288" "?c < 286 \<longrightarrow> lenfix ! v = len_entry (literal_lens ! ?c) ?c"
      "286 \<le> ?c \<longrightarrow> lenfix ! v = \<lparr> op = 64, nbits = 8, val = 0 \<rparr>"
      "v mod 2 ^ (literal_lens ! ?c) = rev_nat (literal_lens ! ?c) (Gen_Codes.canonical literal_lens ?c)"
    using fixed_literal_at [OF assms] by (simp_all add: fixed_entry_ok_def)
  note b = static_literal_bits [OF e(1)]
  show "?c < 288" by (rule e(1))
  show "lenfix ! v = fixed_len_entry (length (code_bits static_ltree ?c)) ?c"
    using e(1-3) by (simp add: b fixed_len_entry_def literal_nth)
  show "prefix (code_bits static_ltree ?c) (bits 9 v)"
    unfolding b using e(1,4) by (intro prefix_bits) (simp_all add: unat_code_word literal_nth)
qed

lemma static_literal_free:
  assumes "c < 288" "d < 288" "prefix (code_bits static_ltree c) (code_bits static_ltree d)"
  shows "c = d"
proof (rule ccontr)
  assume "c \<noteq> d"
  have lens: "length literal_lens = 288" "\<And>l. l \<in> set literal_lens \<Longrightarrow> l \<le> 15"
    by (auto simp: literal_lens_def split: if_splits)
  show False
    using \<open>c \<noteq> d\<close> code_words_prefix_free [OF kraft_literal, of c d] lens static_literal_bits [of c] static_literal_bits [of d] assms
    by (simp add: literal_nth)
qed

lemma rev_nat_5_inject: "c < 32 \<Longrightarrow> d < 32 \<Longrightarrow> rev_nat 5 c = rev_nat 5 d \<Longrightarrow> c = d"
proof -
  assume a: "c < 32" "d < 32" "rev_nat 5 c = rev_nat 5 d"
  have "bit c i = bit d i" if "i < 5" for i
  proof -
    have "4 - i < 5" "4 - (4 - i) = i" using that by linarith+
    then show ?thesis using arg_cong [OF a(3), of "\<lambda>x. bit x (4 - i)"] by (simp add: bit_rev_nat)
  qed
  then have "take_bit 5 c = take_bit 5 d" by (intro bit_eqI) (auto simp: bit_take_bit_iff)
  then show "c = d" using a(1,2) by (simp add: take_bit_nat_eq_self)
qed

interpretation fixed_len: decoding_table "\<lambda>i. peek lenfix i" 9 "{..<288}" "code_bits static_ltree" fixed_len_entry
proof (unfold_locales, goal_cases)
  case 1
  then show ?case by simp
next
  case (2 c)
  then show ?case using static_literal_bits [of c] by (simp add: literal_nth)
next
  case (3 c d)
  then show ?case using static_literal_free by simp
next
  case (4 c n)
  then show ?case using fixed_len_leaf by simp
next
  case (5 n c)
  then show ?case by (simp add: fixed_len_entry_def len_entry_def)
next
  case (6 v)
  then have v: "v < 512" by simp
  let ?c = "fixed_syms ! v"
  note w = fixed_literal_word [OF v]
  have "\<not> is_link (lenfix ! v)" unfolding w(2) using leaf_not_link(1) fixed_len_leaf [OF w(1)] by blast
  then show ?case using v w by (intro exI [of _ "lenfix ! v"]) auto
qed

lemma fixed_dist_at:
  assumes "v < 32"
  shows "\<exists>d < 32. distfix ! v = dist_entry 5 d \<and> fixed_dist_word d = bits 5 v"
  using fixed_dists assms by (auto simp: list_all_length length_fixed fixed_dist_word_def)

interpretation fixed_dist: decoding_table "\<lambda>i. peek distfix i" 5 "{..<32}" fixed_dist_word dist_entry
proof (unfold_locales, goal_cases)
  case 1
  then show ?case by simp
next
  case (2 c)
  then show ?case by (simp add: fixed_dist_word_def)
next
  case (3 c d)
  then obtain zs where z: "bits 5 (rev_nat 5 d) = bits 5 (rev_nat 5 c) @ zs" by (auto simp: fixed_dist_word_def prefix_def)
  have "length (bits 5 (rev_nat 5 d)) = length (bits 5 (rev_nat 5 c) @ zs)" by (rule arg_cong [OF z])
  then have "zs = []" by simp
  then have e: "bits 5 (rev_nat 5 c) = bits 5 (rev_nat 5 d)" using z by simp
  have "rev_nat 5 c < 2 ^ 5" "rev_nat 5 d < 2 ^ 5" by (rule rev_nat_less)+
  then have "rev_nat 5 c = rev_nat 5 d" using e by (metis bits_value_bits)
  then show ?case using 3 rev_nat_5_inject by simp
next
  case (4 c n)
  then show ?case using dext_leaf by (simp add: dist_entry_def)
next
  case (5 n c)
  then show ?case by (simp add: dist_entry_def)
next
  case (6 v)
  then have v: "v < 32" by simp
  obtain d where d: "d < 32" "distfix ! v = dist_entry 5 d" "fixed_dist_word d = bits 5 v" using fixed_dist_at [OF v] by blast
  have "leaf_op (op (dist_entry 5 d))" using dext_leaf [OF d(1)] by (simp add: dist_entry_def)
  then have "\<not> is_link (distfix ! v)" unfolding d(2) using leaf_not_link(1) by blast
  moreover have "length (fixed_dist_word d) = 5" by (simp add: fixed_dist_word_def)
  ultimately show ?case using v d by (intro exI [of _ "distfix ! v"]) (auto intro!: bexI [of _ d])
qed

lemma static_dist_word: "d < 30 \<Longrightarrow> code_bits static_dtree d = fixed_dist_word d"
proof -
  assume d: "d < 30"
  have nth: "static_dtree ! d = \<lparr>fc = of_nat (rev_nat 5 d), dl = 5\<rparr>" using d by (simp add: static_dtree_rev)
  have "rev_nat 5 d < 2 ^ 5" by (rule rev_nat_less)
  then show ?thesis
    by (auto simp: code_bits_def nth fixed_dist_word_def intro!: bits_cong simp: bit_of_nat_iff)
qed

end
