(* ===== verification/Inflate_Decode.thy ===== *)
theory Inflate_Decode
  imports Inflate Inflate_Match Inflate_Fixed
begin

text \<open>
  The literals and matches of a block through the modes of \<open>inflate()\<close>, from \<open>LEN\<close> to \<open>LEN\<close>, and through the loop of
  \<open>inflate_fast()\<close>, against the items that the compressor has sent.
\<close>

section \<open>Going round the loop\<close>

inductive inflate_reaches :: "int \<Rightarrow> inflate_call \<Rightarrow> inflate_call \<Rightarrow> bool" for flush where
  here: "inflate_reaches flush s s"
| round: "inflate_switch flush s = Again t \<Longrightarrow> inflate_reaches flush t u \<Longrightarrow> inflate_reaches flush s u"

lemma inflate_reaches_loop: "inflate_reaches flush s t \<Longrightarrow> inflate_loop flush s = inflate_loop flush t"
proof (induction rule: inflate_reaches.induct)
  case (round s t u)
  then show ?case by (subst inflate_loop.simps) simp
qed simp

lemma inflate_reaches_trans: "inflate_reaches flush s t \<Longrightarrow> inflate_reaches flush t u \<Longrightarrow> inflate_reaches flush s u"
  by (induction rule: inflate_reaches.induct) (auto intro: inflate_reaches.round)

lemma inflate_reaches_round: "inflate_switch flush s = Again t \<Longrightarrow> inflate_reaches flush s t"
  by (rule inflate_reaches.round [OF _ inflate_reaches.here])

section \<open>What decoding leaves alone\<close>

definition frame :: "inflate_call \<Rightarrow> inflate_call" where
  "frame s = s \<lparr> next_in := [], hold := 0, bitcnt := 0, put := [], avail_out := 0, length_of := 0, offset := 0, extra_need := 0,
    mode := HEAD \<rparr>"

lemma frame_update [simp]:
  "frame (s \<lparr> next_in := a \<rparr>) = frame s" "frame (s \<lparr> hold := b \<rparr>) = frame s" "frame (s \<lparr> bitcnt := n \<rparr>) = frame s"
  "frame (s \<lparr> put := p \<rparr>) = frame s" "frame (s \<lparr> avail_out := n \<rparr>) = frame s" "frame (s \<lparr> length_of := l \<rparr>) = frame s"
  "frame (s \<lparr> offset := l \<rparr>) = frame s" "frame (s \<lparr> extra_need := n \<rparr>) = frame s" "frame (s \<lparr> mode := m \<rparr>) = frame s"
  by (simp_all add: frame_def)

lemma frame_DROPBITS [simp]: "frame (DROPBITS n s) = frame s"
  by (simp add: DROPBITS_def)

lemma frame_same_but_bits: "same_but_bits s t \<Longrightarrow> frame t = frame s"
  unfolding same_but_bits_def by (erule ssubst) simp

lemma frame_copies: "copies k d s t \<Longrightarrow> frame t = frame s"
  by (auto simp: copies_def)

lemma frame_fields:
  assumes "frame s = frame t"
  shows "whave s = whave t" "out_start s = out_start t" "window_bytes s = window_bytes t" "window_ok s = window_ok t"
    "lencode s = lencode t" "distcode s = distcode t" "lenbits s = lenbits t" "distbits s = distbits t" "table_at s = table_at t"
    "wrap s = wrap t" "flags s = flags t" "check s = check t" "last_block s = last_block t" "in_start s = in_start t"
proof -
  have wb: "window_bytes (frame u) = window_bytes u" for u by (simp add: frame_def window_bytes_def split: option.split)
  show "whave s = whave t" using arg_cong [OF assms, of whave] by (simp add: frame_def)
  show "out_start s = out_start t" using arg_cong [OF assms, of out_start] by (simp add: frame_def)
  show "lencode s = lencode t" using arg_cong [OF assms, of lencode] by (simp add: frame_def)
  show "distcode s = distcode t" using arg_cong [OF assms, of distcode] by (simp add: frame_def)
  show "lenbits s = lenbits t" using arg_cong [OF assms, of lenbits] by (simp add: frame_def)
  show "distbits s = distbits t" using arg_cong [OF assms, of distbits] by (simp add: frame_def)
  show "wrap s = wrap t" using arg_cong [OF assms, of wrap] by (simp add: frame_def)
  show "flags s = flags t" using arg_cong [OF assms, of flags] by (simp add: frame_def)
  show "check s = check t" using arg_cong [OF assms, of check] by (simp add: frame_def)
  show "last_block s = last_block t" using arg_cong [OF assms, of last_block] by (simp add: frame_def)
  show "in_start s = in_start t" using arg_cong [OF assms, of in_start] by (simp add: frame_def)
  show "window_bytes s = window_bytes t" using arg_cong [OF assms, of window_bytes] by (simp add: wb)
  show "window_ok s = window_ok t" using arg_cong [OF assms, of window_ok] by (simp add: frame_def window_ok_def)
  show "table_at s = table_at t" using arg_cong [OF assms, of table_at]
    by (auto simp: frame_def table_at_def fun_eq_iff split: code_ptr.splits)
qed

text \<open>The bits to come, with less than a byte in the accumulator.\<close>

definition ready :: "bool list \<Rightarrow> inflate_call \<Rightarrow> bool" where
  "ready bs s \<longleftrightarrow> acc_ok s \<and> input_bits s = bs \<and> bitcnt s < 8"

lemma ready_cong: "hold s = hold t \<Longrightarrow> bitcnt s = bitcnt t \<Longrightarrow> next_in s = next_in t \<Longrightarrow> ready bs s = ready bs t"
  by (simp add: ready_def acc_ok_def input_bits_def)

lemma ready_update [simp]:
  "ready bs (s \<lparr> put := p \<rparr>) = ready bs s" "ready bs (s \<lparr> avail_out := n \<rparr>) = ready bs s" "ready bs (s \<lparr> length_of := l \<rparr>) = ready bs s"
  "ready bs (s \<lparr> offset := l \<rparr>) = ready bs s" "ready bs (s \<lparr> extra_need := n \<rparr>) = ready bs s" "ready bs (s \<lparr> mode := m \<rparr>) = ready bs s"
  by (rule ready_cong; simp)+

text \<open>From \<open>s\<close> to \<open>t\<close>, the first \<open>n\<close> bits have been used and nothing else has changed.\<close>

definition used_bits :: "nat \<Rightarrow> inflate_call \<Rightarrow> inflate_call \<Rightarrow> bool" where
  "used_bits n s t \<longleftrightarrow> same_but_bits s t \<and> (\<forall>bs. ready bs s \<longrightarrow> ready (drop n bs) t)"

lemma looked_used: "looked n s u \<Longrightarrow> used_bits n s (DROPBITS n u)"
  unfolding used_bits_def
proof (intro conjI allI impI)
  assume l: "looked n s u"
  show "same_but_bits s (DROPBITS n u)" by (rule same_but_bits_trans [OF _ DROPBITS_same]) (use l in \<open>simp add: looked_def\<close>)
  fix bs assume "ready bs s"
  then show "ready (drop n bs) (DROPBITS n u)"
    using l DROPBITS_refines [of n u] by (auto simp: looked_def ready_def)
qed

lemma same_but_bits_fields:
  assumes "same_but_bits s (t :: inflate_call)"
  shows "put t = put s" "avail_out t = avail_out s" "length_of t = length_of s" "offset t = offset s" "extra_need t = extra_need s"
    "mode t = mode s" "frame t = frame s"
proof -
  obtain a b c where t: "t = s \<lparr> next_in := a, hold := b, bitcnt := c \<rparr>" using assms unfolding same_but_bits_def by blast
  show "put t = put s" "avail_out t = avail_out s" "length_of t = length_of s" "offset t = offset s" "extra_need t = extra_need s"
    "mode t = mode s" "frame t = frame s" by (simp_all add: t)
qed

lemma needing_ready:
  assumes "ready (v @ rest) s" "length v = n" "n \<le> 16"
  obtains u where "needing n k s = k u" "unat (BITS n u) = bits_value v" "used_bits n s (DROPBITS n u)" "same_but_bits s u"
proof -
  have ok: "acc_ok s" "input_bits s = v @ rest" using assms(1) by (simp_all add: ready_def)
  have f: "fits_acc n s" using assms(3) by (simp add: fits_acc_def)
  obtain r u where u: "NEEDBITS n s = (r, u)" by fastforce
  note N = NEEDBITS_refines [OF ok(1) f, unfolded u fst_conv snd_conv]
  have r: "r" using N(1) ok(2) assms(2) by simp
  have "looked n s u" using N r by (simp add: looked_def)
  moreover have "unat (BITS n u) = bits_value v" using unat_BITS [of n u] N(2,5) r ok(2) assms(2,3) by simp
  ultimately show ?thesis using that looked_used N(4) r u by (simp add: needing_def)
qed

section \<open>The tables of a block\<close>

text \<open>
  The tables of literals and lengths and of distances decode the codes of the two trees that the compressor has used.
\<close>

locale block_tables =
  len: decoding_table Tl rl Sl wl el + dist: decoding_table Td rd Sd wd ed
  for Tl rl Sl wl el Td rd Sd wd ed +
  fixes ltree dtree :: "ct_data list"
  assumes len_words: "c < 286 \<Longrightarrow> Len (ltree ! c) \<noteq> 0 \<Longrightarrow> c \<in> Sl \<and> wl c = code_bits ltree c"
    and dist_words: "d < 30 \<Longrightarrow> Len (dtree ! d) \<noteq> 0 \<Longrightarrow> d \<in> Sd \<and> wd d = code_bits dtree d"
    and len_entries: "c < 286 \<Longrightarrow> el n c = len_entry n c"
    and dist_entries: "d < 30 \<Longrightarrow> ed n d = dist_entry n d"
    and dist_nonzero: "d \<in> Sd \<Longrightarrow> op (ed n d) \<noteq> 0"
begin

lemma len_op_val:
  "c < 256 \<Longrightarrow> op (el n c) = 0 \<and> val (el n c) = of_nat c" "op (el n 256) = 96"
  "256 < c \<Longrightarrow> c < 286 \<Longrightarrow> op (el n c) = ucast (lext ! (c - 257)) \<and> val (el n c) = lbase ! (c - 257)"
  by (simp_all add: len_entries len_entry_def)

lemma dist_op_val: "d < 30 \<Longrightarrow> op (ed n d) = ucast (dext ! d) \<and> val (ed n d) = dbase ! d"
  by (simp add: dist_entries dist_entry_def)

end

definition uses_tables :: "(nat \<Rightarrow> code option) \<Rightarrow> nat \<Rightarrow> (nat \<Rightarrow> code option) \<Rightarrow> nat \<Rightarrow> inflate_call \<Rightarrow> bool" where
  "uses_tables Tl rl Td rd s \<longleftrightarrow> lenbits s = rl \<and> distbits s = rd \<and>
    (\<forall>i. table_at s (lencode s) i = Tl i) \<and> (\<forall>i. table_at s (distcode s) i = Td i)"

lemma uses_tables_frame: "frame s = frame t \<Longrightarrow> uses_tables Tl rl Td rd s = uses_tables Tl rl Td rd t"
  using frame_fields [of s t] by (simp add: uses_tables_def)

lemma DROPBITS_0 [simp]: "DROPBITS 0 s = s"
  by (simp add: DROPBITS_def)

lemma DROPBITS_DROPBITS: "m \<le> n \<Longrightarrow> DROPBITS (n - m) (DROPBITS m s) = DROPBITS n s"
  by (simp add: DROPBITS_def drop_bit_drop_bit)

lemma entry_mode_nbits:
  assumes "unat (nbits e) = n" "op e = op f" "val e = val f" "nbits f = 0"
  shows "len_entry_mode e s = len_entry_mode f (DROPBITS n s)" "dist_entry_mode e s = dist_entry_mode f (DROPBITS n s)"
  using assms by (simp_all add: len_entry_mode_def dist_entry_mode_def Let_def)

lemma is_link_code: "op e \<noteq> 0 \<and> op e AND 0xf0 = 0 \<longleftrightarrow> is_link e"
  by (simp add: is_link_def)

context block_tables
begin

lemma do_LEN_slow_code:
  assumes "uses_tables Tl rl Td rd s" "ready (code_bits ltree c @ rest) s" "c < 286" "Len (ltree ! c) \<noteq> 0"
  shows "\<exists>u. used_bits (length (code_bits ltree c)) s u \<and> do_LEN_slow s = len_entry_mode (el 0 c) u"
proof -
  have c: "c \<in> Sl" "wl c = code_bits ltree c" using len_words assms(3,4) by auto
  have ok: "acc_ok s" "prefix (wl c) (input_bits s)" using assms(2) c(2) by (simp_all add: ready_def)
  have tab: "\<forall>i. table_at s (lencode s) i = Tl i" "lenbits s = rl" using assms(1) by (simp_all add: uses_tables_def)
  let ?n = "length (wl c)"
  have small: "?n \<le> 15" by (rule len.word_small [OF c(1)])
  have z: "nbits (el 0 c) = 0" using len.entry_bits [of 0 c] by (simp add: unat_eq_0)
  show ?thesis
  proof (cases rule: len.slow_lookup [OF tab(1) ok(1) c(1) ok(2)])
    case (1 t)
    have "do_LEN_slow s = len_entry_mode (el ?n c) t"
      using 1(1) len.entry_not_link [OF c(1)] by (simp add: do_LEN_slow_def tab(2) fetching_def is_link_code)
    also have "\<dots> = len_entry_mode (el 0 c) (DROPBITS ?n t)"
      by (rule entry_mode_nbits) (use len.entry_bits [OF small] len.entry_op_val z in auto)
    finally show ?thesis using looked_used [OF 1(2)] c(2) by auto
  next
    case (2 e t u)
    have "lencode t = lencode s" by (rule frame_fields(5) [OF frame_same_but_bits [OF 2(7)]])
    then have "do_LEN_slow s = len_entry_mode (el (?n - rl) c) (DROPBITS rl u)"
      using 2(1-3,5) by (simp add: do_LEN_slow_def tab(2) fetching_def is_link_code)
    also have "\<dots> = len_entry_mode (el 0 c) (DROPBITS (?n - rl) (DROPBITS rl u))"
      by (rule entry_mode_nbits) (use len.entry_bits [of "?n - rl" c] len.entry_op_val small z in auto)
    also have "DROPBITS (?n - rl) (DROPBITS rl u) = DROPBITS ?n u" using 2(4) by (intro DROPBITS_DROPBITS) simp
    finally show ?thesis using looked_used [OF 2(6)] c(2) by auto
  qed
qed

lemma do_DIST_code:
  assumes "uses_tables Tl rl Td rd s" "ready (code_bits dtree d @ rest) s" "d < 30" "Len (dtree ! d) \<noteq> 0"
  shows "\<exists>u. used_bits (length (code_bits dtree d)) s u \<and> do_DIST s = dist_entry_mode (ed 0 d) u"
proof -
  have d: "d \<in> Sd" "wd d = code_bits dtree d" using dist_words assms(3,4) by auto
  have ok: "acc_ok s" "prefix (wd d) (input_bits s)" using assms(2) d(2) by (simp_all add: ready_def)
  have tab: "\<forall>i. table_at s (distcode s) i = Td i" "distbits s = rd" using assms(1) by (simp_all add: uses_tables_def)
  let ?n = "length (wd d)"
  have small: "?n \<le> 15" by (rule dist.word_small [OF d(1)])
  have z: "nbits (ed 0 d) = 0" using dist.entry_bits [of 0 d] by (simp add: unat_eq_0)
  show ?thesis
  proof (cases rule: dist.slow_lookup [OF tab(1) ok(1) d(1) ok(2)])
    case (1 t)
    have "op (ed ?n d) AND 0xf0 \<noteq> 0"
      using dist.entry_not_link [OF d(1), of ?n] dist_nonzero [OF d(1), of ?n] by (simp add: is_link_def)
    then have "do_DIST s = dist_entry_mode (ed ?n d) t"
      using 1(1) by (simp add: do_DIST_def tab(2) fetching_def)
    also have "\<dots> = dist_entry_mode (ed 0 d) (DROPBITS ?n t)"
      by (rule entry_mode_nbits) (use dist.entry_bits [OF small] dist.entry_op_val z in auto)
    finally show ?thesis using looked_used [OF 1(2)] d(2) by auto
  next
    case (2 e t u)
    have "distcode t = distcode s" by (rule frame_fields(6) [OF frame_same_but_bits [OF 2(7)]])
    then have "do_DIST s = dist_entry_mode (ed (?n - rd) d) (DROPBITS rd u)"
      using 2(1-3,5) by (simp add: do_DIST_def tab(2) fetching_def is_link_def)
    also have "\<dots> = dist_entry_mode (ed 0 d) (DROPBITS (?n - rd) (DROPBITS rd u))"
      by (rule entry_mode_nbits) (use dist.entry_bits [of "?n - rd" d] dist.entry_op_val small z in auto)
    also have "DROPBITS (?n - rd) (DROPBITS rd u) = DROPBITS ?n u" using 2(4) by (intro DROPBITS_DROPBITS) simp
    finally show ?thesis using looked_used [OF 2(6)] d(2) by auto
  qed
qed

end

section \<open>The modes after the code of a length\<close>

text \<open>What a state and one that comes from it by decoding have in common, but for the output and the bits.\<close>

lemma history_frame: "frame s = frame t \<Longrightarrow> put s = put t \<Longrightarrow> history s = history t"
  using frame_fields(3) [of s t] by (simp add: history_def)

lemma call_ok_frame: "frame s = frame t \<Longrightarrow> put s = put t \<Longrightarrow> avail_out s = avail_out t \<Longrightarrow> call_ok s = call_ok t"
  using frame_fields(2,4) [of s t] by (simp add: call_ok_def)

lemma length_history: "window_ok s \<Longrightarrow> length (history s) = whave s + length (put s)"
  using length_window_bytes [of s] by (simp add: history_def)

lemma copies_ready: "copies k d s t \<Longrightarrow> ready bs s \<Longrightarrow> ready bs t"
  by (auto simp: copies_def)

lemma copies_fields: "copies k d s t \<Longrightarrow> mode t = mode s \<and> offset t = offset s \<and> length_of t = length_of s"
  by (auto simp: copies_def)

lemma MATCH_all:
  "mode s = MATCH \<Longrightarrow> call_ok s \<Longrightarrow> 0 < unat (offset s) \<Longrightarrow> unat (offset s) \<le> length (history s) \<Longrightarrow> 0 < unat (length_of s) \<Longrightarrow>
    unat (length_of s) \<le> avail_out s \<Longrightarrow> ready bs s \<Longrightarrow>
    \<exists>t. inflate_reaches flush s t \<and> mode t = LEN \<and> ready bs t \<and> frame t = frame s \<and> call_ok t \<and>
      history t = lz_copy (unat (length_of s)) (unat (offset s)) (history s) \<and> avail_out t + unat (length_of s) = avail_out s"
proof (induction "unat (length_of s)" arbitrary: s rule: less_induct)
  case less
  have w: "window_ok s" using less.prems(2) by (simp add: call_ok_def)
  obtain k t where k: "do_MATCH s = Again (t \<lparr> length_of := length_of s - of_nat k, mode := if k = unat (length_of s) then LEN else mode s \<rparr>)"
      "0 < k" "k \<le> unat (length_of s)" "copies k (unat (offset s)) s t"
    using do_MATCH_copies [of s] less.prems(2-6) length_history [OF w] by auto
  let ?t = "t \<lparr> length_of := length_of s - of_nat k, mode := if k = unat (length_of s) then LEN else mode s \<rparr>"
  note D = copies_D [OF k(4)]
  have step: "inflate_reaches flush s ?t" using k(1) less.prems(1) by (intro inflate_reaches_round) (simp add: inflate_switch_def)
  have fr: "frame ?t = frame s" using frame_copies [OF k(4)] by simp
  have h: "history ?t = lz_copy k (unat (offset s)) (history s)" using D(4) history_frame [of ?t t] by simp
  have ok: "call_ok ?t" using copies_call_ok [OF less.prems(2) k(4)] call_ok_frame [of ?t t] by simp
  have rd: "ready bs ?t" using copies_ready [OF k(4) less.prems(7)] by simp
  have av: "avail_out ?t + k = avail_out s" using D(1,2) by simp
  show ?case
  proof (cases "k = unat (length_of s)")
    case True
    then show ?thesis using step fr h ok rd av by (intro exI [of _ ?t]) simp
  next
    case False
    have len: "unat (length_of ?t) = unat (length_of s) - k"
    proof -
      have "unat (of_nat k :: uint) = k" by (rule le_unat_uoi [OF k(3)])
      then show ?thesis using k(3) by (simp add: unat_sub word_le_nat_alt)
    qed
    have off: "offset ?t = offset s" "mode ?t = MATCH" using copies_fields [OF k(4)] False less.prems(1) by simp_all
    have hl: "unat (offset ?t) \<le> length (history ?t)" using h off less.prems(4) by simp
    obtain u where u: "inflate_reaches flush ?t u" "mode u = LEN" "ready bs u" "frame u = frame ?t" "call_ok u"
        "history u = lz_copy (unat (length_of ?t)) (unat (offset ?t)) (history ?t)" "avail_out u + unat (length_of ?t) = avail_out ?t"
    proof -
      have "unat (length_of ?t) \<le> avail_out ?t" "unat (length_of ?t) < unat (length_of s)" "0 < unat (length_of ?t)"
        using len k(2,3) False less.prems(6) av by linarith+
      then show ?thesis using that less.hyps [of ?t] off less.prems(3) ok hl rd by metis
    qed
    have "history u = lz_copy (unat (length_of s)) (unat (offset s)) (history s)"
      using u(6) h len off(1) k(3) by (simp add: lz_copy_add [symmetric])
    then show ?thesis using u inflate_reaches_trans [OF step u(1)] fr len av k(3) by (intro exI [of _ u]) simp
  qed
qed

lemma LENEXT_reaches:
  assumes "mode s = LENEXT" "ready (v @ rest) s" "length v = extra_need s" "extra_need s \<le> 16"
  shows "\<exists>t. inflate_reaches flush s t \<and> ready rest t \<and> frame t = frame s \<and> put t = put s \<and> avail_out t = avail_out s \<and>
    length_of t = length_of s + of_nat (bits_value v) \<and> mode t = DIST"
proof (cases "extra_need s = 0")
  case True
  then have "inflate_switch flush s = Again (s \<lparr> mode := DIST \<rparr>)" using assms(1) by (simp add: inflate_switch_def do_LENEXT_def)
  then show ?thesis using True assms(2,3) by (intro exI [of _ "s \<lparr> mode := DIST \<rparr>"]) (simp add: inflate_reaches_round bits_value_def)
next
  case False
  obtain u where u: "needing (extra_need s) (\<lambda>s. Again (DROPBITS (extra_need s) (s \<lparr> length_of := length_of s + BITS (extra_need s) s \<rparr>) \<lparr> mode := DIST \<rparr>)) s =
        Again (DROPBITS (extra_need u) (u \<lparr> length_of := length_of u + BITS (extra_need u) u \<rparr>) \<lparr> mode := DIST \<rparr>)"
      "unat (BITS (extra_need s) u) = bits_value v" "used_bits (extra_need s) s (DROPBITS (extra_need s) u)" "same_but_bits s u"
    by (rule needing_ready [OF assms(2,3,4)])
  note f = same_but_bits_fields [OF u(4)]
  let ?t = "DROPBITS (extra_need u) (u \<lparr> length_of := length_of u + BITS (extra_need u) u \<rparr>) \<lparr> mode := DIST \<rparr>"
  have "inflate_switch flush s = Again ?t" using u(1) assms(1) False by (simp add: inflate_switch_def do_LENEXT_def)
  moreover have "ready rest (DROPBITS (extra_need s) u)" using u(3) assms(2,3) by (auto simp: used_bits_def)
  then have "ready rest ?t" using f(5) ready_cong [of ?t "DROPBITS (extra_need s) u"] by (simp add: DROPBITS_def)
  moreover have "BITS (extra_need s) u = of_nat (bits_value v)" unfolding u(2) [symmetric] by simp
  ultimately show ?thesis using f by (intro exI [of _ ?t]) (simp add: inflate_reaches_round DROPBITS_def)
qed

lemma DISTEXT_reaches:
  assumes "mode s = DISTEXT" "ready (v @ rest) s" "length v = extra_need s" "extra_need s \<le> 16" "call_ok s"
    "unat (offset s + of_nat (bits_value v)) \<le> length (history s)" "whave s + out_start s < 2 ^ 32"
  shows "\<exists>t. inflate_reaches flush s t \<and> ready rest t \<and> frame t = frame s \<and> put t = put s \<and> avail_out t = avail_out s \<and>
    length_of t = length_of s \<and> offset t = offset s + of_nat (bits_value v) \<and> mode t = MATCH"
proof -
  let ?o = "offset s + of_nat (bits_value v)"
  have w: "window_ok s" "out_start s = length (put s) + avail_out s" using assms(5) by (simp_all add: call_ok_def)
  have room: "(whave s + out_start s - avail_out s) mod 2 ^ 32 = length (history s)"
    using w(2) assms(7) length_history [OF w(1)] by simp
  have far: "check_distance t = Again (t \<lparr> mode := MATCH \<rparr>)" if "frame t = frame s" "avail_out t = avail_out s" "offset t = ?o" for t
    using frame_fields(1,2) [OF that(1)] that(2,3) room assms(6) by (simp add: check_distance_def)
  show ?thesis
  proof (cases "extra_need s = 0")
    case True
    then have v: "of_nat (bits_value v) = (0 :: uint)" using assms(3) by (simp add: bits_value_def)
    then have "inflate_switch flush s = Again (s \<lparr> mode := MATCH \<rparr>)"
      using assms(1) True far [of s] by (simp add: inflate_switch_def do_DISTEXT_def)
    then show ?thesis using True v assms(2,3) by (intro exI [of _ "s \<lparr> mode := MATCH \<rparr>"]) (simp add: inflate_reaches_round)
  next
    case False
    obtain u where u: "needing (extra_need s) (\<lambda>s. check_distance (DROPBITS (extra_need s) (s \<lparr> offset := offset s + BITS (extra_need s) s \<rparr>))) s =
          check_distance (DROPBITS (extra_need u) (u \<lparr> offset := offset u + BITS (extra_need u) u \<rparr>))"
        "unat (BITS (extra_need s) u) = bits_value v" "used_bits (extra_need s) s (DROPBITS (extra_need s) u)" "same_but_bits s u"
      by (rule needing_ready [OF assms(2,3,4)])
    note f = same_but_bits_fields [OF u(4)]
    let ?t = "DROPBITS (extra_need u) (u \<lparr> offset := offset u + BITS (extra_need u) u \<rparr>)"
    have b: "BITS (extra_need s) u = of_nat (bits_value v)" unfolding u(2) [symmetric] by simp
    have t: "frame ?t = frame s" "avail_out ?t = avail_out s" "offset ?t = ?o" "put ?t = put s" "length_of ?t = length_of s"
      using f b by (simp_all add: DROPBITS_def)
    have "inflate_switch flush s = Again (?t \<lparr> mode := MATCH \<rparr>)"
      using u(1) assms(1) False far [OF t(1-3)] by (simp add: inflate_switch_def do_DISTEXT_def)
    moreover have "ready rest (DROPBITS (extra_need s) u)" using u(3) assms(2,3) by (auto simp: used_bits_def)
    then have "ready rest ?t" using f(5) ready_cong [of ?t "DROPBITS (extra_need s) u"] by (simp add: DROPBITS_def)
    ultimately show ?thesis using t by (intro exI [of _ "?t \<lparr> mode := MATCH \<rparr>"]) (simp add: inflate_reaches_round)
  qed
qed

section \<open>An item, mode by mode\<close>

text \<open>What an item, a distance with a length less three or a distance of zero with a literal, does to the history.\<close>

definition put_item :: "ushort \<times> byte \<Rightarrow> byte list \<Rightarrow> byte list" where
  "put_item = (\<lambda>(dist, lc) h. if dist = 0 then h @ [lc] else lz_copy (unat lc + 3) (unat dist) h)"

definition item_size :: "ushort \<times> byte \<Rightarrow> nat" where
  "item_size = (\<lambda>(dist, lc). if dist = 0 then 1 else unat lc + 3)"

definition reaches_back :: "ushort \<times> byte \<Rightarrow> byte list \<Rightarrow> bool" where
  "reaches_back = (\<lambda>(dist, lc) h. unat dist \<le> length h)"

text \<open>The bases and extra bits of the decompressor are those of the compressor, by one and by three.\<close>

lemma lbase_base_length:
  "i < 28 \<Longrightarrow> unat (lbase ! i) = base_length ! i + 3" "unat (lbase ! 28) = 258"
  "i < 29 \<Longrightarrow> unat ((ucast (lext ! i) :: byte) AND 15) = extra_lbits ! i"
  "i < 29 \<Longrightarrow> (ucast (lext ! i) :: byte) \<noteq> 0 \<and> (ucast (lext ! i) :: byte) AND 32 = 0 \<and> (ucast (lext ! i) :: byte) AND 64 = 0 \<and>
    (ucast (lext ! i) :: byte) AND 16 \<noteq> 0"
proof -
  have "list_all (\<lambda>(x, y). unat x = y + 3) (zip (take 28 lbase) (take 28 base_length))"
    by (simp add: lbase_def base_length_def)
  moreover have "length lbase = 31" "length base_length = 29" by (simp_all add: lbase_def base_length_def)
  ultimately show "i < 28 \<Longrightarrow> unat (lbase ! i) = base_length ! i + 3" by (simp add: list_all_length)
  show "unat (lbase ! 28) = 258" by (simp add: lbase_def)
  have l: "length lext = 31" by (simp add: lext_def)
  have "list_all (\<lambda>(x, e). unat ((ucast x :: byte) AND 15) = e \<and> (ucast x :: byte) \<noteq> 0 \<and> (ucast x :: byte) AND 32 = 0 \<and>
      (ucast x :: byte) AND 64 = 0 \<and> (ucast x :: byte) AND 16 \<noteq> 0) (zip (take 29 lext) extra_lbits)"
    by (simp add: lext_def extra_lbits_def)
  then show "i < 29 \<Longrightarrow> unat ((ucast (lext ! i) :: byte) AND 15) = extra_lbits ! i"
    "i < 29 \<Longrightarrow> (ucast (lext ! i) :: byte) \<noteq> 0 \<and> (ucast (lext ! i) :: byte) AND 32 = 0 \<and> (ucast (lext ! i) :: byte) AND 64 = 0 \<and>
    (ucast (lext ! i) :: byte) AND 16 \<noteq> 0"
    using l by (auto simp: list_all_length extra_lbits_def)
qed

lemma dbase_base_dist:
  "d < 30 \<Longrightarrow> unat (dbase ! d) = base_dist ! d + 1"
  "d < 30 \<Longrightarrow> unat ((ucast (dext ! d) :: byte) AND 15) = extra_dbits ! d"
  "d < 30 \<Longrightarrow> (ucast (dext ! d) :: byte) AND 64 = 0 \<and> (ucast (dext ! d) :: byte) AND 16 \<noteq> 0"
proof -
  have l: "length dext = 32" "length dbase = 32" "length base_dist = 30" "length extra_dbits = 30"
    by (simp_all add: dext_def dbase_def base_dist_def extra_dbits_def)
  have "list_all (\<lambda>(x, y). unat x = y + 1) (zip (take 30 dbase) base_dist)"
    by (simp add: dbase_def base_dist_def)
  then show "d < 30 \<Longrightarrow> unat (dbase ! d) = base_dist ! d + 1" using l by (auto simp: list_all_length)
  have "list_all (\<lambda>(x, e). unat ((ucast x :: byte) AND 15) = e \<and> (ucast x :: byte) AND 64 = 0 \<and> (ucast x :: byte) AND 16 \<noteq> 0)
      (zip (take 30 dext) extra_dbits)"
    by (simp add: dext_def extra_dbits_def)
  then show "d < 30 \<Longrightarrow> unat ((ucast (dext ! d) :: byte) AND 15) = extra_dbits ! d"
    "d < 30 \<Longrightarrow> (ucast (dext ! d) :: byte) AND 64 = 0 \<and> (ucast (dext ! d) :: byte) AND 16 \<noteq> 0"
    using l by (auto simp: list_all_length)
qed

lemma length_bits_of_item:
  "dist \<noteq> 0 \<Longrightarrow> unat dist \<le> 2 ^ 15 \<Longrightarrow> length_code ! unat (lc :: byte) < 29 \<and> dist_code_of_item dist < 30 \<and>
    extra_lbits ! (length_code ! unat lc) \<le> 16 \<and> extra_dbits ! dist_code_of_item dist \<le> 16"
  using dist_code_item(2) [of dist] length_code_item(1) [of lc] extra_bits_small(1) [of "length_code ! unat lc"]
    extra_bits_small(2) [of "dist_code_of_item dist"] by simp

lemma unat_ucast_ushort: "unat (ucast (w :: ushort) :: uint) = unat w"
  using unsigned_less [of w, where ?'a = nat] by (simp add: unsigned_ucast_eq take_bit_nat_eq_self_iff)

text \<open>The value of the base and the extra bits of a length, and of a distance.\<close>

lemma length_value:
  "unat (lbase ! (length_code ! unat lc)) +
    bits_value (bits (extra_lbits ! (length_code ! unat lc)) (unat lc - base_length ! (length_code ! unat lc))) = unat (lc :: byte) + 3"
proof -
  let ?c = "length_code ! unat lc"
  note l = length_code_item [of lc]
  show ?thesis
  proof (cases "?c = 28")
    case True
    then have "unat lc = 255" by (rule l(3))
    then show ?thesis using True by (simp add: extra_lbits_28 bits_value_def lbase_base_length(2))
  next
    case False
    then have c: "?c < 28" using l(1) by simp
    have "bits_value (bits (extra_lbits ! ?c) (unat lc - base_length ! ?c)) = unat lc - base_length ! ?c"
      by (rule bits_value_bits) (use l(2) [OF False] in simp)
    then show ?thesis using l(2) [OF False] lbase_base_length(1) [OF c] by simp
  qed
qed

lemma distance_value:
  assumes "dist \<noteq> 0" "unat dist \<le> 2 ^ 15"
  shows "unat (dbase ! dist_code_of_item dist) +
    bits_value (bits (extra_dbits ! dist_code_of_item dist) (unat dist - 1 - base_dist ! dist_code_of_item dist)) = unat dist"
proof -
  let ?d = "dist_code_of_item dist"
  note d = dist_code_item [OF assms]
  have "bits_value (bits (extra_dbits ! ?d) (unat dist - 1 - base_dist ! ?d)) = unat dist - 1 - base_dist ! ?d"
    by (rule bits_value_bits) (rule d(4))
  moreover have "0 < unat dist" using assms(1) by (simp add: unat_gt_0)
  ultimately show ?thesis using d(3) dbase_base_dist(1) [OF d(2)] by simp
qed

lemma ucast_as_nat: "(ucast x :: uint) = of_nat (unat x)" for x :: ushort
  by simp

lemma length_of_item:
  "(ucast (lbase ! (length_code ! unat lc)) :: uint) +
    of_nat (bits_value (bits (extra_lbits ! (length_code ! unat lc)) (unat lc - base_length ! (length_code ! unat lc)))) =
    of_nat (unat (lc :: byte) + 3)"
  unfolding ucast_as_nat of_nat_add [symmetric] length_value ..

lemma distance_of_item:
  "dist \<noteq> 0 \<Longrightarrow> unat dist \<le> 2 ^ 15 \<Longrightarrow> (ucast (dbase ! dist_code_of_item dist) :: uint) +
    of_nat (bits_value (bits (extra_dbits ! dist_code_of_item dist) (unat dist - 1 - base_dist ! dist_code_of_item dist))) = ucast dist"
  unfolding ucast_as_nat of_nat_add [symmetric] by (rule arg_cong [OF distance_value])

lemma literal_byte: "ucast (ucast (b :: byte) :: ushort) = b"
  by (rule bit_word_eqI) (simp add: bit_simps)

text \<open>The conditions on a state that has an item to decode.\<close>

definition block_ok :: "inflate_call \<Rightarrow> bool" where
  "block_ok s \<longleftrightarrow> call_ok s \<and> whave s + out_start s < 2 ^ 32"

lemma block_ok_frame: "block_ok s \<Longrightarrow> call_ok t \<Longrightarrow> frame t = frame s \<Longrightarrow> block_ok t"
  using frame_fields(1,2) [of t s] by (simp add: block_ok_def)

text \<open>An item has been decoded: \<open>t\<close> is \<open>s\<close> after it.\<close>

definition decoded :: "(byte list \<Rightarrow> byte list) \<Rightarrow> nat \<Rightarrow> inflate_call \<Rightarrow> inflate_call \<Rightarrow> bool" where
  "decoded f n s t \<longleftrightarrow> frame t = frame s \<and> call_ok t \<and> history t = f (history s) \<and> avail_out t + n = avail_out s"

context block_tables
begin

lemma slow_literal:
  assumes "mode s = LEN" "uses_tables Tl rl Td rd s" "block_ok s" "item_ok ltree dtree (0, lc)" "1 \<le> avail_out s"
    "ready (item_bits ltree dtree (0, lc) @ rest) s" "\<not> (6 \<le> avail_in s \<and> 258 \<le> avail_out s)"
  shows "\<exists>t. inflate_reaches flush s t \<and> mode t = LEN \<and> ready rest t \<and> decoded (put_item (0, lc)) 1 s t"
proof -
  have lc: "unat lc < 286" "unat lc < 256" "Len (ltree ! unat lc) \<noteq> 0"
    using unat_byte_less [of lc] assms(4) by (simp_all add: item_ok_def)
  have r: "ready (code_bits ltree (unat lc) @ rest) s" using assms(6) by (simp add: item_bits_def)
  obtain u where u: "used_bits (length (code_bits ltree (unat lc))) s u" "do_LEN_slow s = len_entry_mode (el 0 (unat lc)) u"
    using do_LEN_slow_code [OF assms(2) r lc(1,3)] by blast
  let ?t = "u \<lparr> length_of := ucast (of_nat (unat lc) :: ushort), mode := LIT \<rparr>"
  have z: "nbits (el 0 (unat lc)) = 0" using len.entry_bits [of 0 "unat lc"] by (simp add: unat_eq_0)
  have "do_LEN s = Again ?t"
    using u(2) assms(7) len_op_val(1) [OF lc(2), of 0] z by (auto simp: do_LEN_def len_entry_mode_def)
  then have step1: "inflate_switch flush s = Again ?t" using assms(1) by (simp add: inflate_switch_def)
  have f: "same_but_bits s u" "ready rest u" using u(1) r by (auto simp: used_bits_def)
  note ff = same_but_bits_fields [OF f(1)]
  let ?v = "?t \<lparr> put := put s @ [lc], avail_out := avail_out s - 1, mode := LEN \<rparr>"
  have b: "(ucast (ucast (of_nat (unat lc) :: ushort) :: uint) :: byte) = lc"
    by (rule bit_word_eqI) (simp add: bit_simps)
  have "inflate_switch flush ?t = Again ?v"
    using assms(5) ff(1,2) b by (simp add: inflate_switch_def do_LIT_def)
  then have "inflate_reaches flush s ?v" using step1 by (blast intro: inflate_reaches.intros)
  moreover have "frame ?v = frame s" using ff(7) by simp
  moreover have "call_ok ?v" using assms(3,5) frame_fields(2,4) [OF \<open>frame ?v = frame s\<close>] by (simp add: block_ok_def call_ok_def)
  moreover have "history ?v = history s @ [lc]" using frame_fields(3) [OF \<open>frame ?v = frame s\<close>] by (simp add: history_def)
  ultimately show ?thesis using f(2) assms(5) by (intro exI [of _ ?v]) (simp add: decoded_def put_item_def)
qed

lemma slow_match:
  assumes "mode s = LEN" "uses_tables Tl rl Td rd s" "block_ok s" "item_ok ltree dtree (dist, lc)" "dist \<noteq> 0"
    "unat lc + 3 \<le> avail_out s" "unat dist \<le> length (history s)"
    "ready (item_bits ltree dtree (dist, lc) @ rest) s" "\<not> (6 \<le> avail_in s \<and> 258 \<le> avail_out s)"
  shows "\<exists>t. inflate_reaches flush s t \<and> mode t = LEN \<and> ready rest t \<and> decoded (put_item (dist, lc)) (unat lc + 3) s t"
proof -
  let ?c = "length_code ! unat lc" and ?d = "dist_code_of_item dist"
  let ?lv = "bits (extra_lbits ! ?c) (unat lc - base_length ! ?c)"
  let ?dv = "bits (extra_dbits ! ?d) (unat dist - 1 - base_dist ! ?d)"
  have dist: "unat dist \<le> 2 ^ 15" "Len (ltree ! (?c + 257)) \<noteq> 0" "Len (dtree ! ?d) \<noteq> 0"
    using assms(4,5) by (simp_all add: item_ok_def LITERALS_def add.commute)
  note small = length_bits_of_item [OF assms(5) dist(1), of lc]
  have r: "ready (code_bits ltree (?c + 257) @ ?lv @ code_bits dtree ?d @ ?dv @ rest) s"
    using assms(5,8) by (simp add: item_bits_def Let_def LITERALS_def add.commute)
  obtain u where u: "used_bits (length (code_bits ltree (?c + 257))) s u" "do_LEN_slow s = len_entry_mode (el 0 (?c + 257)) u"
    using do_LEN_slow_code [OF assms(2) r _ dist(2)] small by auto
  have f: "same_but_bits s u" "ready (?lv @ code_bits dtree ?d @ ?dv @ rest) u" using u(1) r by (auto simp: used_bits_def)
  note ff = same_but_bits_fields [OF f(1)]
  note lx = lbase_base_length(3,4) [of ?c]
  have z: "nbits (el 0 (?c + 257)) = 0" using len.entry_bits [of 0 "?c + 257"] by (simp add: unat_eq_0)
  have ov: "op (el 0 (?c + 257)) = ucast (lext ! ?c)" "val (el 0 (?c + 257)) = lbase ! ?c"
    using len_op_val(3) [of "?c + 257" 0] small by simp_all
  let ?t1 = "u \<lparr> length_of := ucast (lbase ! ?c), extra_need := extra_lbits ! ?c, mode := LENEXT \<rparr>"
  have "do_LEN s = Again ?t1"
    using u(2) assms(9) ov z lx small by (auto simp: do_LEN_def len_entry_mode_def Let_def)
  then have s1: "inflate_reaches flush s ?t1" using assms(1) by (intro inflate_reaches_round) (simp add: inflate_switch_def)
  obtain t2 where t2: "inflate_reaches flush ?t1 t2" "ready (code_bits dtree ?d @ ?dv @ rest) t2" "frame t2 = frame ?t1" "put t2 = put ?t1"
      "avail_out t2 = avail_out ?t1" "length_of t2 = ucast (lbase ! ?c) + of_nat (bits_value ?lv)" "mode t2 = DIST"
    using LENEXT_reaches [of ?t1 ?lv "code_bits dtree ?d @ ?dv @ rest" flush] f(2) small by auto
  have fr2: "frame t2 = frame s" using t2(3) ff(7) by simp
  obtain u3 where u3: "used_bits (length (code_bits dtree ?d)) t2 u3" "do_DIST t2 = dist_entry_mode (ed 0 ?d) u3"
    using do_DIST_code [OF _ t2(2) _ dist(3)] uses_tables_frame [OF fr2] assms(2) small by auto
  have g: "same_but_bits t2 u3" "ready (?dv @ rest) u3" using u3(1) t2(2) by (auto simp: used_bits_def)
  note gg = same_but_bits_fields [OF g(1)]
  have z: "nbits (ed 0 ?d) = 0" using dist.entry_bits [of 0 ?d] by (simp add: unat_eq_0)
  let ?t3 = "u3 \<lparr> offset := ucast (dbase ! ?d), extra_need := extra_dbits ! ?d, mode := DISTEXT \<rparr>"
  have "do_DIST t2 = Again ?t3"
    using u3(2) dist_op_val [of ?d 0] z dbase_base_dist(2,3) [of ?d] small by (simp add: dist_entry_mode_def Let_def)
  then have s3: "inflate_reaches flush t2 ?t3" using t2(7) by (intro inflate_reaches_round) (simp add: inflate_switch_def)
  have fr3: "frame ?t3 = frame s" using gg(7) fr2 by simp
  have pa3: "put ?t3 = put s" "avail_out ?t3 = avail_out s" using gg t2(4,5) ff by simp_all
  have ok3: "call_ok ?t3" using call_ok_frame [OF fr3 pa3] assms(3) by (simp add: block_ok_def)
  have h3: "history ?t3 = history s" by (rule history_frame [OF fr3 pa3(1)])
  have off: "offset ?t3 + of_nat (bits_value ?dv) = ucast dist" using distance_of_item [OF assms(5) dist(1)] by simp
  have big: "whave ?t3 + out_start ?t3 < 2 ^ 32" using frame_fields(1,2) [OF fr3] assms(3) by (simp add: block_ok_def)
  have ud: "unat (ucast dist :: uint) = unat dist" by (rule unat_ucast_ushort)
  obtain t4 where t4: "inflate_reaches flush ?t3 t4" "ready rest t4" "frame t4 = frame ?t3" "put t4 = put ?t3" "avail_out t4 = avail_out ?t3"
      "length_of t4 = length_of ?t3" "offset t4 = ucast dist" "mode t4 = MATCH"
    using DISTEXT_reaches [of ?t3 ?dv rest flush] g(2) small ok3 h3 off big assms(7) ud by auto
  have fr4: "frame t4 = frame s" "put t4 = put s" "avail_out t4 = avail_out s" using t4(3-5) fr3 pa3 by simp_all
  have "length_of t4 = of_nat (unat lc + 3)" using t4(6) gg(3) t2(6) length_of_item [of lc] by simp
  moreover have "unat lc + 3 < 2 ^ 32" using unat_byte_less [of lc] by simp
  ultimately have l4: "unat (length_of t4) = unat lc + 3" by (simp only: unat_of_nat) simp
  have h4: "history t4 = history s" by (rule history_frame [OF fr4(1,2)])
  have "call_ok t4" using call_ok_frame [OF fr4] assms(3) by (simp add: block_ok_def)
  moreover have "0 < unat dist" using assms(5) by (simp add: unat_gt_0)
  ultimately obtain t where t: "inflate_reaches flush t4 t" "mode t = LEN" "ready rest t" "frame t = frame t4" "call_ok t"
      "history t = lz_copy (unat lc + 3) (unat dist) (history s)" "avail_out t + (unat lc + 3) = avail_out s"
    using MATCH_all [OF t4(8), of rest flush] t4(2,7) l4 h4 fr4(3) assms(6,7) ud by auto
  have "inflate_reaches flush s t"
    by (rule inflate_reaches_trans [OF s1 inflate_reaches_trans [OF t2(1) inflate_reaches_trans [OF s3 inflate_reaches_trans [OF t4(1) t(1)]]]])
  then show ?thesis using t fr4(1) assms(5) by (intro exI [of _ t]) (simp add: decoded_def put_item_def)
qed

end

end
