(* ===== verification/Deflate_Items.thy ===== *)
theory Deflate_Items
  imports Deflate_Window Deflate_Blocks Inflate_Decode
begin

text \<open>
  What the strategies \<open>deflate_fast\<close> and \<open>deflate_slow\<close> of \<^verbatim>\<open>src/AOS/aos/zlib/deflate.c\<close> tally: items that, put to the history
  as the decompressor puts them, give the input.
\<close>

section \<open>The items of the current block\<close>

definition items :: "deflate_state \<Rightarrow> (ushort \<times> byte) list" where
  "items s = zip (take (unat (last_lit s)) (d_buf s)) (take (unat (last_lit s)) (l_buf s))"

definition buffers_ok :: "deflate_state \<Rightarrow> bool" where
  "buffers_ok s \<longleftrightarrow> length (d_buf s) < 2 ^ 32 \<and> length (l_buf s) = length (d_buf s) \<and> unat (last_lit s) \<le> length (d_buf s)"

text \<open>Every item reaches back to bytes that are there, and no further than the format allows.\<close>

fun in_reach :: "(ushort \<times> byte) list \<Rightarrow> byte list \<Rightarrow> bool" where
  "in_reach [] h \<longleftrightarrow> True"
| "in_reach (x # xs) h \<longleftrightarrow> reaches_back x h \<and> unat (fst x) \<le> 2 ^ 15 \<and> in_reach xs (put_item x h)"

lemma in_reach_append [simp]: "in_reach (xs @ ys) h \<longleftrightarrow> in_reach xs h \<and> in_reach ys (fold put_item xs h)"
  by (induction xs arbitrary: h) auto

text \<open>The items lead from the history before the block to \<open>H'\<close>; \<open>H\<close> is the history before \<open>strstart\<close>.\<close>

definition before_block :: "byte list \<Rightarrow> deflate_state \<Rightarrow> byte list" where
  "before_block H s = take (nat (int (length H) - int (strstart s) + block_start s)) H"

definition stand_for :: "byte list \<Rightarrow> byte list \<Rightarrow> deflate_state \<Rightarrow> bool" where
  "stand_for H H' s \<longleftrightarrow> in_reach (items s) (before_block H s) \<and> fold put_item (items s) (before_block H s) = H'"

section \<open>Tallying\<close>

text \<open>All fields but those that tallying changes.\<close>

definition tally_frame :: "deflate_state \<Rightarrow> deflate_state" where
  "tally_frame s = s \<lparr> d_buf := [], l_buf := [], last_lit := 0, dyn_ltree := [], dyn_dtree := [] \<rparr>"

lemma truncate_simps [simp]:
  "last_lit (trees_state.truncate s) = last_lit s" "d_buf (trees_state.truncate s) = d_buf s" "l_buf (trees_state.truncate s) = l_buf s"
  "dyn_ltree (trees_state.truncate s) = dyn_ltree s" "dyn_dtree (trees_state.truncate s) = dyn_dtree s"
  "lit_bufsize (trees_state.truncate s) = lit_bufsize s"
  by (cases s; simp add: trees_state.defs)+

lemma extend_truncate [simp]:
  "trees_state.extend (trees_state.truncate s \<lparr> d_buf := a, l_buf := b, last_lit := c, dyn_ltree := d \<rparr>) (trees_state.more s) =
    s \<lparr> d_buf := a, l_buf := b, last_lit := c, dyn_ltree := d \<rparr>"
  "trees_state.extend (trees_state.truncate s \<lparr> d_buf := a, l_buf := b, last_lit := c, dyn_ltree := d, dyn_dtree := e \<rparr>) (trees_state.more s) =
    s \<lparr> d_buf := a, l_buf := b, last_lit := c, dyn_ltree := d, dyn_dtree := e \<rparr>"
  by (cases s; simp add: trees_state.defs)+

lemma tally_items:
  assumes "buffers_ok s" "unat (last_lit s) < length (d_buf s)"
    "t = s \<lparr> d_buf := (d_buf s)[unat (last_lit s) := x], l_buf := (l_buf s)[unat (last_lit s) := c], last_lit := last_lit s + 1,
      dyn_ltree := lt, dyn_dtree := dt \<rparr>"
  shows "items t = items s @ [(x, c)]" "buffers_ok t" "tally_frame t = tally_frame s"
proof -
  have u: "unat (last_lit s + 1) = unat (last_lit s) + 1"
    using unat_add_no_wrap [of "last_lit s" 1] assms(1,2) by (simp add: buffers_ok_def)
  show "items t = items s @ [(x, c)]" "buffers_ok t"
    using assms u by (simp_all add: items_def buffers_ok_def take_Suc_conv_app_nth zip_append)
  show "tally_frame t = tally_frame s" by (simp add: assms(3) tally_frame_def)
qed

lemma tally_literal_items:
  assumes "tally_literal i s = Some (b, t)" "buffers_ok s"
  shows "items t = items s @ [(0, buf_window s ! i)]" "buffers_ok t" "tally_frame t = tally_frame s"
proof -
  obtain lt where t: "t = s \<lparr> d_buf := (d_buf s)[unat (last_lit s) := 0], l_buf := (l_buf s)[unat (last_lit s) := buf_window s ! i],
      last_lit := last_lit s + 1, dyn_ltree := lt \<rparr>" and l: "unat (last_lit s) < length (d_buf s)"
    using assms(1) by (auto simp: tally_literal_def tallying_def tr_tally_lit_def poke_def peek_Some_iff Let_def split: bind_splits if_splits)
  have "t = s \<lparr> d_buf := (d_buf s)[unat (last_lit s) := 0], l_buf := (l_buf s)[unat (last_lit s) := buf_window s ! i],
      last_lit := last_lit s + 1, dyn_ltree := lt, dyn_dtree := dyn_dtree s \<rparr>" by (simp add: t)
  from tally_items [OF assms(2) l this]
  show "items t = items s @ [(0, buf_window s ! i)]" "buffers_ok t" "tally_frame t = tally_frame s" .
qed

lemma tally_match_items:
  assumes "tally_match d n s = Some (b, t)" "buffers_ok s"
  shows "items t = items s @ [(of_nat d, of_nat n)]" "buffers_ok t" "tally_frame t = tally_frame s"
proof -
  obtain lt dt where t: "t = s \<lparr> d_buf := (d_buf s)[unat (last_lit s) := of_nat d], l_buf := (l_buf s)[unat (last_lit s) := of_nat n],
      last_lit := last_lit s + 1, dyn_ltree := lt, dyn_dtree := dt \<rparr>" and l: "unat (last_lit s) < length (d_buf s)"
    using assms(1) by (auto simp: tally_match_def tallying_def tr_tally_dist_def poke_def Let_def split: bind_splits if_splits)
  from tally_items [OF assms(2) l t]
  show "items t = items s @ [(of_nat d, of_nat n)]" "buffers_ok t" "tally_frame t = tally_frame s" .
qed

section \<open>Matches and the history\<close>

lemma history_nth:
  assumes "window_holds H s" "i < read_end s"
  shows "(H @ ahead s) ! (length H - strstart s + i) = buf_window s ! i"
proof (cases "i < strstart s")
  case True
  have h: "strstart s \<le> length H" "take (strstart s) (buf_window s) = drop (length H - strstart s) H"
    using assms(1) by (simp_all add: window_holds_def)
  have "buf_window s ! i = take (strstart s) (buf_window s) ! i" using True by simp
  moreover have "length H - strstart s + i < length H" using True h(1) by linarith
  ultimately show ?thesis using True h by (simp add: nth_append)
next
  case False
  have h: "strstart s \<le> length H" using assms(1) by (simp add: window_holds_def)
  have "read_end s \<le> length (buf_window s)" using assms(1) by (simp add: window_holds_def sizes_ok_def)
  then have "ahead s ! (i - strstart s) = buf_window s ! i" using False assms(2) by (simp add: ahead_def read_end_def)
  moreover have "length H - strstart s + i = length H + (i - strstart s)" using False h by linarith
  ultimately show ?thesis by (simp only: nth_append_length_plus)
qed

lemma length_ahead:
  assumes "window_holds H s" shows "length (ahead s) = lookahead s"
proof -
  have "strstart s + lookahead s \<le> length (buf_window s)" using assms by (simp add: window_holds_def sizes_ok_def read_end_def)
  then show ?thesis by (simp add: ahead_def)
qed

lemma found_match_copies:
  assumes "window_holds H s" "found_match start n s" "m \<le> n"
  shows "lz_copy m (strstart s - start) H = H @ take m (ahead s)"
  using assms(3)
proof (induction m)
  case (Suc m)
  let ?d = "strstart s - start" and ?h = "H @ take m (ahead s)"
  have f: "n \<le> lookahead s" "start < strstart s" "same_bytes (buf_window s) (strstart s) start n"
    using assms(2) by (simp_all add: found_match_def)
  have h: "strstart s \<le> length H" using assms(1) by (simp add: window_holds_def)
  note l = length_ahead [OF assms(1)]
  have len: "length ?h - ?d = length H - strstart s + (start + m)" using Suc.prems f l h by simp
  have "?h ! (length ?h - ?d) = (H @ ahead s) ! (length ?h - ?d)"
    unfolding len using Suc.prems f l h by (simp add: nth_append)
  also have "\<dots> = buf_window s ! (start + m)"
    unfolding len by (rule history_nth [OF assms(1)]) (use Suc.prems f in \<open>simp add: read_end_def\<close>)
  also have "\<dots> = buf_window s ! (strstart s + m)" using same_bytes_nth [OF f(3), of m] Suc.prems by simp
  also have "\<dots> = ahead s ! m" using Suc.prems f(1) assms(1) by (simp add: ahead_def window_holds_def sizes_ok_def read_end_def)
  finally have "?h ! (length ?h - ?d) = ahead s ! m" .
  then show ?case using lz_copy_add [of m 1 ?d H] Suc l f(1) by (simp add: take_Suc_conv_app_nth)
qed simp

section \<open>Searching\<close>

lemma match_loop_start:
  assumes "match_loop s limit nice cur chain m = Some r" "cur < 2 ^ 32" "best_start m < 2 ^ 32"
  shows "best_start r < 2 ^ 32"
  using assms
proof (induction s limit nice cur chain m rule: match_loop.induct)
  case (1 s limit nice cur chain m)
  obtain stop m' where r: "match_round (buf_window s) (strstart s) nice cur m = Some (stop, m')"
    using "1.prems"(1) by (subst (asm) match_loop.simps) (auto split: option.splits)
  have m': "best_start m' < 2 ^ 32" using r "1.prems"(2,3) by (auto simp: match_round_def Let_def split: bind_splits option.splits if_splits)
  show ?case
  proof (cases "\<exists>p. \<not> stop \<and> peek (prev_of s) (cur AND w_mask s) = Some p \<and> unat p > limit \<and> chain - 1 \<noteq> 0")
    case True
    then obtain p where p: "\<not> stop" "peek (prev_of s) (cur AND w_mask s) = Some p" "unat p > limit \<and> chain - 1 \<noteq> 0" by blast
    have u: "unat p < 2 ^ 32" using unsigned_less [of p, where ?'a = nat] by simp
    have "match_loop s limit nice (unat p) (chain - 1) m' = Some r"
      using "1.prems"(1) r p by (subst (asm) match_loop.simps) simp
    from "1.IH" [OF r refl p(1) p(2) p(3) this u m'] show ?thesis .
  next
    case False
    then have "r = m'" using "1.prems"(1) r by (subst (asm) match_loop.simps) (auto split: option.splits if_splits)
    then show ?thesis using m' by simp
  qed
qed

lemma longest_match_start:
  assumes "longest_match cur s = Some (n, t)" "cur < 2 ^ 32" "match_start s < 2 ^ 32"
  shows "t = s \<lparr> match_start := match_start t \<rparr> \<and> match_start t < 2 ^ 32 \<and> n \<le> lookahead s"
  using assms by (auto simp: longest_match_def Let_def dest: match_loop_start split: bind_splits if_splits)

lemma longest_match_fast_start:
  assumes "longest_match_fast cur s = Some (n, t)" "cur < 2 ^ 32" "match_start s < 2 ^ 32"
  shows "t = s \<lparr> match_start := match_start t \<rparr> \<and> match_start t < 2 ^ 32 \<and> (n \<le> lookahead s \<or> n < MIN_MATCH)"
  using assms by (auto simp: longest_match_fast_def Let_def MIN_MATCH_def split: bind_splits if_splits)

text \<open>A string that the search may start at.\<close>

definition near :: "nat set \<Rightarrow> nat \<Rightarrow> deflate_state \<Rightarrow> bool" where
  "near I cur s \<longleftrightarrow> cur \<in> I \<and> cur < strstart s \<and> strstart s \<le> cur + MAX_DIST s \<and> hash3 s cur = hash3 s (strstart s)"

lemma find_match_found:
  assumes "find_match cur s = Some t" "sizes_ok s" "chains I (strstart s + 1) e s" "cur \<noteq> 0" "cur < 2 ^ 32" "match_start s < 2 ^ 32"
    "match_length s < MIN_MATCH" "MIN_MATCH \<le> lookahead s \<Longrightarrow> near I cur s"
  shows "t = s \<lparr> match_length := match_length t, match_start := match_start t \<rparr> \<and> match_start t < 2 ^ 32 \<and>
    (MIN_MATCH \<le> match_length t \<and> prev_length s < match_length t \<longrightarrow> found_match (match_start t) (match_length t) s)"
proof -
  consider n u where "longest_match cur s = Some (n, u)" "t = u \<lparr> match_length := n \<rparr>"
    | n u where "longest_match_fast cur s = Some (n, u)" "t = u \<lparr> match_length := n \<rparr>" | "t = s"
    using assms(1) by (auto simp: find_match_def split: bind_splits if_splits)
  then show ?thesis
  proof cases
    case (1 n u)
    obtain a where u: "u = s \<lparr> match_start := a \<rparr>" "a < 2 ^ 32" "n \<le> lookahead s"
      using longest_match_start [OF 1(1) assms(5,6)] by blast
    have "found_match a n s" if m: "MIN_MATCH \<le> n" and p: "prev_length s < n"
    proof -
      have "near I cur s" using u(3) m assms(8) by linarith
      then obtain start where "u = s \<lparr> match_start := start \<rparr>" "found_match start n s"
        using longest_match_found [OF 1(1) assms(2,3) _ _ assms(4)] p by (auto simp: near_def)
      then show ?thesis using arg_cong [OF u(1), of match_start] by simp
    qed
    then show ?thesis using u(2) by (simp add: 1(2) u(1))
  next
    case (2 n u)
    obtain a where u: "u = s \<lparr> match_start := a \<rparr>" "a < 2 ^ 32" "n \<le> lookahead s \<or> n < MIN_MATCH"
      using longest_match_fast_start [OF 2(1) assms(5,6)] by blast
    have "found_match a n s" if m: "MIN_MATCH \<le> n"
    proof -
      have "near I cur s" using u(3) m assms(8) by linarith
      then obtain start where "u = s \<lparr> match_start := start \<rparr>" "found_match start n s"
        using longest_match_fast_found [OF 2(1) assms(2) _ assms(4)] m by (auto simp: near_def MIN_MATCH_def)
      then show ?thesis using arg_cong [OF u(1), of match_start] by simp
    qed
    then show ?thesis using u(2) by (simp add: 2(2) u(1))
  next
    case 3
    then show ?thesis using assms(6,7) by simp
  qed
qed

section \<open>Inserting strings\<close>

lemma hash3_fields:
  assumes "buf_window t = buf_window s" "hash_shift t = hash_shift s" "hash_mask t = hash_mask s"
  shows "hash3 t i = hash3 s i"
  by (rule hash3_cong) (use assms in simp_all)

lemma chains_fields:
  assumes "buf_window t = buf_window s" "hash_shift t = hash_shift s" "hash_mask t = hash_mask s" "hash_size t = hash_size s"
    "w_size t = w_size s" "head_of t = head_of s" "prev_of t = prev_of s"
  shows "chains I n e t = chains I n e s"
  using hash3_fields [OF assms(1-3)] assms(4-7) by (simp add: chains_def)

text \<open>All fields but those that an item changes.\<close>

definition item_frame :: "deflate_state \<Rightarrow> deflate_state" where
  "item_frame s = s \<lparr> d_buf := [], l_buf := [], last_lit := 0, dyn_ltree := [], dyn_dtree := [], ins_h := 0, prev_of := [], head_of := [],
    match_length := 0, match_start := 0, prev_match := 0, prev_length := 0, match_available := False, lookahead := 0, strstart := 0 \<rparr>"

lemma item_frame_fields:
  assumes "item_frame t = item_frame s"
  shows "buf_window t = buf_window s" "strm t = strm s" "block_start t = block_start s" "w_size t = w_size s" "w_bits t = w_bits s"
    "w_mask t = w_mask s" "window_size t = window_size s" "hash_bits t = hash_bits s" "hash_size t = hash_size s" "hash_mask t = hash_mask s"
    "hash_shift t = hash_shift s" "wrap_of t = wrap_of s" "max_lazy_match t = max_lazy_match s" "strategy t = strategy s"
    "MAX_DIST t = MAX_DIST s" "lit_bufsize t = lit_bufsize s" "hash3 t i = hash3 s i"
proof -
  show b: "buf_window t = buf_window s" and h: "hash_mask t = hash_mask s" "hash_shift t = hash_shift s"
    using arg_cong [OF assms, of buf_window] arg_cong [OF assms, of hash_mask] arg_cong [OF assms, of hash_shift]
    by (simp_all add: item_frame_def)
  show "hash3 t i = hash3 s i" by (rule hash3_fields [OF b h(2,1)])
  show "strm t = strm s" "block_start t = block_start s" "w_size t = w_size s" "w_bits t = w_bits s"
    "w_mask t = w_mask s" "window_size t = window_size s" "hash_bits t = hash_bits s" "hash_size t = hash_size s"
    "wrap_of t = wrap_of s" "max_lazy_match t = max_lazy_match s" "strategy t = strategy s" "MAX_DIST t = MAX_DIST s" "lit_bufsize t = lit_bufsize s"
    using arg_cong [OF assms, of strm] arg_cong [OF assms, of block_start] arg_cong [OF assms, of w_size] arg_cong [OF assms, of w_bits]
      arg_cong [OF assms, of w_mask] arg_cong [OF assms, of window_size] arg_cong [OF assms, of hash_bits] arg_cong [OF assms, of hash_size]
      arg_cong [OF assms, of wrap_of] arg_cong [OF assms, of max_lazy_match] arg_cong [OF assms, of strategy] arg_cong [OF assms, of MAX_DIST]
      arg_cong [OF assms, of lit_bufsize]
    by (simp_all add: item_frame_def MAX_DIST_def)
qed

lemma item_frame_updates [simp]:
  "item_frame (s \<lparr> strstart := a \<rparr>) = item_frame s" "item_frame (s \<lparr> lookahead := a \<rparr>) = item_frame s"
  "item_frame (s \<lparr> match_length := a \<rparr>) = item_frame s" "item_frame (s \<lparr> match_start := a \<rparr>) = item_frame s"
  "item_frame (s \<lparr> prev_length := a \<rparr>) = item_frame s" "item_frame (s \<lparr> prev_match := a \<rparr>) = item_frame s"
  "item_frame (s \<lparr> match_available := b \<rparr>) = item_frame s" "item_frame (s \<lparr> ins_h := h \<rparr>) = item_frame s"
  "item_frame (s \<lparr> prev_of := p \<rparr>) = item_frame s" "item_frame (s \<lparr> head_of := p \<rparr>) = item_frame s"
  by (simp_all add: item_frame_def)

lemma item_frame_tally: "tally_frame t = tally_frame s \<Longrightarrow> item_frame t = item_frame s"
proof -
  assume "tally_frame t = tally_frame s"
  moreover have "item_frame u = tally_frame u \<lparr> ins_h := 0, prev_of := [], head_of := [],
      match_length := 0, match_start := 0, prev_match := 0, prev_length := 0, match_available := False, lookahead := 0, strstart := 0 \<rparr>" for u
    by (simp add: item_frame_def tally_frame_def)
  ultimately show ?thesis by simp
qed

lemma tally_frame_fields:
  assumes "tally_frame t = tally_frame s"
  shows "strstart t = strstart s" "lookahead t = lookahead s" "head_of t = head_of s" "prev_of t = prev_of s" "ins_h t = ins_h s"
    "match_length t = match_length s" "match_start t = match_start s" "prev_length t = prev_length s" "prev_match t = prev_match s"
    "match_available t = match_available s"
  using arg_cong [OF assms, of strstart] arg_cong [OF assms, of lookahead] arg_cong [OF assms, of head_of] arg_cong [OF assms, of prev_of]
    arg_cong [OF assms, of ins_h] arg_cong [OF assms, of match_length] arg_cong [OF assms, of match_start] arg_cong [OF assms, of prev_length]
    arg_cong [OF assms, of prev_match] arg_cong [OF assms, of match_available]
  by (simp_all add: tally_frame_def)

lemma item_sizes_ok:
  "sizes_ok s \<Longrightarrow> item_frame t = item_frame s \<Longrightarrow> length (head_of t) = length (head_of s) \<Longrightarrow> length (prev_of t) = length (prev_of s) \<Longrightarrow> sizes_ok t"
  using item_frame_fields [of t s] by (simp add: sizes_ok_def)

lemma item_chains:
  "item_frame t = item_frame s \<Longrightarrow> head_of t = head_of s \<Longrightarrow> prev_of t = prev_of s \<Longrightarrow> chains I n e t = chains I n e s"
  using item_frame_fields [of t s] by (intro chains_fields) simp_all

text \<open>Only the chains differ.\<close>

definition chain_step :: "deflate_state \<Rightarrow> deflate_state \<Rightarrow> bool" where
  "chain_step s t \<longleftrightarrow> t = s \<lparr> ins_h := ins_h t, prev_of := prev_of t, head_of := head_of t \<rparr> \<and>
    length (prev_of t) = length (prev_of s) \<and> length (head_of t) = length (head_of s)"

lemma INSERT_STRING_step:
  assumes "INSERT_STRING (strstart s) s = Some (m, t)" "sizes_ok s"
    "UPDATE_HASH s (ins_h s) (buf_window s ! (strstart s + 2)) = hash3 s (strstart s)"
    "chains I (strstart s) e s" "strstart s + MIN_MATCH \<le> e" "e \<le> 2 * w_size s"
  shows "chain_step s t" "sizes_ok t" "chains (insert (strstart s) I) (strstart s + 1) e t" "ins_h t = hash3 t (strstart s)" "m < 2 ^ 32"
    "m \<noteq> 0 \<Longrightarrow> m \<in> I \<and> m < strstart s \<and> hash3 t m = hash3 t (strstart s)"
proof -
  note r = INSERT_STRING_result [OF assms(1-3)]
  have lt: "strstart s < 2 * w_size s" using assms(5,6) by (simp add: MIN_MATCH_def)
  note c = INSERT_STRING_chains [OF assms(1-5) lt]
  show st: "chain_step s t" using r by (simp add: chain_step_def)
  have fr: "item_frame t = item_frame s" using r by simp
  show "sizes_ok t" by (rule item_sizes_ok [OF assms(2) fr]) (use st in \<open>simp_all add: chain_step_def\<close>)
  show "chains (insert (strstart s) I) (strstart s + 1) e t" by (rule c(1))
  show "ins_h t = hash3 t (strstart s)" using r by simp
  show "m < 2 ^ 32" using r unsigned_less [of "head_of s ! unat (hash3 s (strstart s))", where ?'a = nat] by simp
  show "m \<noteq> 0 \<Longrightarrow> m \<in> I \<and> m < strstart s \<and> hash3 t m = hash3 t (strstart s)"
    using c(2) item_frame_fields(17) [OF fr] by simp
qed

text \<open>The string that follows one that has just been inserted.\<close>

lemma INSERT_STRING_next:
  assumes "INSERT_STRING (strstart s + 1) (s \<lparr> strstart := strstart s + 1 \<rparr>) = Some (m, t)" "sizes_ok s" "ins_h s = hash3 s (strstart s)"
    "chains I (strstart s + 1) e s" "strstart s + 1 + MIN_MATCH \<le> e" "e \<le> 2 * w_size s"
  shows "chain_step (s \<lparr> strstart := strstart s + 1 \<rparr>) t" "sizes_ok t" "chains (insert (strstart s + 1) I) (strstart s + 2) e t"
    "ins_h t = hash3 t (strstart s + 1)" "m < 2 ^ 32"
proof -
  let ?s = "s \<lparr> strstart := strstart s + 1 \<rparr>"
  have ok: "sizes_ok ?s" by (rule item_sizes_ok [OF assms(2)]) simp_all
  have roll: "UPDATE_HASH ?s (ins_h ?s) (buf_window ?s ! (strstart ?s + 2)) = hash3 ?s (strstart ?s)"
    using hash3_rolls [OF assms(2), of "strstart s"] assms(3) by (simp add: UPDATE_HASH_def hash3_def numeral_eq_Suc)
  have c: "chains I (strstart ?s) e ?s" using assms(4) item_chains [of ?s s] by simp
  have fit: "strstart ?s + MIN_MATCH \<le> e" "e \<le> 2 * w_size ?s" using assms(5,6) by simp_all
  have i: "INSERT_STRING (strstart ?s) ?s = Some (m, t)" using assms(1) by simp
  note st = INSERT_STRING_step [OF i ok roll c fit]
  show "chain_step ?s t" "sizes_ok t" "m < 2 ^ 32" by (rule st)+
  show "chains (insert (strstart s + 1) I) (strstart s + 2) e t" "ins_h t = hash3 t (strstart s + 1)" using st(3,4) by simp_all
qed

end
