(* ===== verification/Deflate_Fast.thy ===== *)
theory Deflate_Fast
  imports Deflate_Items
begin

text \<open>
  The round of \<open>deflate_fast\<close> of \<^verbatim>\<open>src/AOS/aos/zlib/deflate.c\<close>: whatever the search finds, the items tallied stand for the
  bytes that \<open>strstart\<close> has passed.
\<close>

section \<open>Going ahead\<close>

lemma ahead_nth: "window_holds H s \<Longrightarrow> i < lookahead s \<Longrightarrow> ahead s ! i = buf_window s ! (strstart s + i)"
  by (simp add: ahead_def window_holds_def sizes_ok_def read_end_def)

lemma advance_holds:
  assumes "window_holds H s" "k \<le> lookahead s" "buf_window t = buf_window s" "block_start t = block_start s" "w_size t = w_size s"
    "strstart t = strstart s + k" "lookahead t = lookahead s - k" "sizes_ok t" "match_start t < 2 ^ 32"
  shows "window_holds (H @ take k (ahead s)) t" "ahead t = drop k (ahead s)" "before_block (H @ take k (ahead s)) t = before_block H s"
    "read_end t = read_end s"
proof -
  have b: "read_end s \<le> length (buf_window s)" "strstart s \<le> length H" "take (strstart s) (buf_window s) = drop (length H - strstart s) H"
    "block_start s \<le> int (strstart s)" "0 \<le> int (length H) - int (strstart s) + block_start s" "read_end s \<le> 2 * w_size s"
    using assms(1) by (simp_all add: window_holds_def sizes_ok_def)
  note l = length_ahead [OF assms(1)]
  have "take (strstart s + k) (buf_window s) = take (strstart s) (buf_window s) @ take k (ahead s)"
    using assms(2) by (simp add: take_add ahead_def min_absorb1)
  also have "\<dots> = drop (length (H @ take k (ahead s)) - strstart t) (H @ take k (ahead s))"
    using b(2) assms(2,6) l by (simp add: b(3))
  finally have w: "take (strstart s + k) (buf_window s) = drop (length (H @ take k (ahead s)) - strstart t) (H @ take k (ahead s))" .
  show re: "read_end t = read_end s" using assms(2,6,7) by (simp add: read_end_def)
  show "window_holds (H @ take k (ahead s)) t"
    using w b assms(2-9) l re by (simp add: window_holds_def)
  show "ahead t = drop k (ahead s)"
    using assms(2,3,6,7) by (simp add: ahead_def drop_take add.commute)
  have "nat (int (length (H @ take k (ahead s))) - int (strstart t) + block_start t) = nat (int (length H) - int (strstart s) + block_start s)"
    using assms(2,4,6) l by simp
  moreover have "nat (int (length H) - int (strstart s) + block_start s) \<le> length H" using b(4) by linarith
  ultimately show "before_block (H @ take k (ahead s)) t = before_block H s" by (simp add: before_block_def)
qed

section \<open>The items that are tallied\<close>

lemma literal_stands:
  assumes "fold put_item xs h = H" "in_reach xs h"
  shows "fold put_item (xs @ [(0, c)]) h = H @ [c]" "in_reach (xs @ [(0, c)]) h"
  using assms by (simp_all add: put_item_def reaches_back_def)

lemma match_stands:
  assumes "fold put_item xs h = H" "in_reach xs h" "0 < d" "d \<le> 2 ^ 15" "d \<le> length H" "MIN_MATCH \<le> n" "n \<le> MAX_MATCH"
    "lz_copy n d H = H'"
  shows "fold put_item (xs @ [(of_nat d, of_nat (n - MIN_MATCH))]) h = H'" "in_reach (xs @ [(of_nat d, of_nat (n - MIN_MATCH))]) h"
proof -
  have d: "unat (of_nat d :: ushort) = d" using assms(4) by (simp add: unat_of_nat)
  have "n - MIN_MATCH < 256" using assms(7) by (simp add: MIN_MATCH_def MAX_MATCH_def)
  moreover have "unat (of_nat k :: byte) = k" if "k < 256" for k using that by (simp add: unat_of_nat)
  ultimately have "unat (of_nat (n - MIN_MATCH) :: byte) = n - MIN_MATCH" by blast
  then have n: "unat (of_nat (n - MIN_MATCH) :: byte) + 3 = n" using assms(6) by (simp only: MIN_MATCH_def)
  have "(of_nat d :: ushort) \<noteq> 0" using d assms(3) by (metis unat_0 less_numeral_extra(3))
  then have "put_item (of_nat d, of_nat (n - MIN_MATCH)) H = H'" using assms(8) by (simp add: put_item_def d n)
  then show "fold put_item (xs @ [(of_nat d, of_nat (n - MIN_MATCH))]) h = H'" using assms(1) by simp
  show "in_reach (xs @ [(of_nat d, of_nat (n - MIN_MATCH))]) h" using assms(1,2,4,5) by (simp add: reaches_back_def d)
qed

section \<open>The strings of a match\<close>

lemma insert_strings_step:
  assumes "insert_strings n hh s = Some (hh', t)" "sizes_ok s" "ins_h s = hash3 s (strstart s)"
    "chains I (strstart s + 1) e s" "strstart s + n + MIN_MATCH \<le> e" "e \<le> 2 * w_size s"
  shows "\<exists>J. t = s \<lparr> strstart := strstart s + n, match_length := 0, ins_h := ins_h t, prev_of := prev_of t, head_of := head_of t \<rparr> \<and>
    length (prev_of t) = length (prev_of s) \<and> length (head_of t) = length (head_of s) \<and>
    chains J (strstart t + 1) e t \<and> ins_h t = hash3 t (strstart t) \<and> hh' < 2 ^ 32"
  using assms
proof (induction n arbitrary: hh s I)
  case (Suc n)
  obtain m u where i: "INSERT_STRING (strstart s + 1) (s \<lparr> strstart := strstart s + 1 \<rparr>) = Some (m, u)"
    and r: "(if n = 0 then Some (m, u \<lparr> match_length := n \<rparr>) else insert_strings n m (u \<lparr> match_length := n \<rparr>)) = Some (hh', t)"
    using Suc.prems(1) by (auto simp: Let_def split: bind_splits if_splits)
  have fit: "strstart s + 1 + MIN_MATCH \<le> e" using Suc.prems(5) by simp
  note st = INSERT_STRING_next [OF i Suc.prems(2-4) fit Suc.prems(6)]
  let ?u = "u \<lparr> match_length := n \<rparr>"
  have u: "u = s \<lparr> strstart := strstart s + 1, ins_h := ins_h u, prev_of := prev_of u, head_of := head_of u \<rparr>"
    "length (prev_of u) = length (prev_of s)" "length (head_of u) = length (head_of s)"
    using st(1) by (simp_all add: chain_step_def)
  have uf: "strstart u = strstart s + 1" "w_size u = w_size s" by (subst u(1), simp)+
  have ok: "sizes_ok ?u" by (rule item_sizes_ok [OF st(2)]) simp_all
  have h: "ins_h ?u = hash3 ?u (strstart ?u)" using st(4) uf by (simp add: hash3_def UPDATE_HASH_def)
  have c: "chains (insert (strstart s + 1) I) (strstart ?u + 1) e ?u" using st(3) uf item_chains [of ?u u] by simp
  show ?case
  proof (cases "n = 0")
    case True
    then have t: "t = ?u" "hh' = m" using r by simp_all
    have "t = s \<lparr> strstart := strstart s + Suc n, match_length := 0, ins_h := ins_h t, prev_of := prev_of t, head_of := head_of t \<rparr>"
      unfolding t(1) by (subst u(1)) (simp add: True)
    then show ?thesis using c h u t st(5) by auto
  next
    case False
    have fit: "strstart ?u + n + MIN_MATCH \<le> e" "e \<le> 2 * w_size ?u" using Suc.prems(5,6) uf by simp_all
    have rest: "insert_strings n m ?u = Some (hh', t)" using r False by simp
    obtain J where J: "t = ?u \<lparr> strstart := strstart ?u + n, match_length := 0, ins_h := ins_h t, prev_of := prev_of t, head_of := head_of t \<rparr>"
      "length (prev_of t) = length (prev_of ?u)" "length (head_of t) = length (head_of ?u)"
      "chains J (strstart t + 1) e t" "ins_h t = hash3 t (strstart t)" "hh' < 2 ^ 32"
      using Suc.IH [OF rest ok h c fit] by blast
    have "t = s \<lparr> strstart := strstart s + Suc n, match_length := 0, ins_h := ins_h t, prev_of := prev_of t, head_of := head_of t \<rparr>"
      by (subst J(1), subst u(1)) (simp add: uf)
    then show ?thesis using J u by auto
  qed
qed simp

section \<open>One item\<close>

text \<open>The state between two items; \<open>H\<close> is what the stream has had before \<open>strstart\<close>.\<close>

definition matching_ok :: "byte list \<Rightarrow> deflate_state \<Rightarrow> bool" where
  "matching_ok H s \<longleftrightarrow> window_holds H s \<and> (\<exists>I. chains I (strstart s) (read_end s) s) \<and> primed s \<and> buffers_ok s"

definition fast_ok :: "byte list \<Rightarrow> deflate_state \<Rightarrow> bool" where
  "fast_ok H s \<longleftrightarrow> matching_ok H s \<and> match_length s < MIN_MATCH \<and> prev_length s < MIN_MATCH \<and> stand_for H H s"

lemma insert_start_step:
  assumes "insert_start hh s = Some (hh', t)" "matching_ok H s" "hh < 2 ^ 32"
  shows "\<exists>J. chain_step s t \<and> sizes_ok t \<and> chains J (strstart s + 1) (read_end s) t \<and> hh' < 2 ^ 32 \<and>
    (MIN_MATCH \<le> lookahead s \<longrightarrow> ins_h t = hash3 t (strstart s) \<and>
      (hh' \<noteq> 0 \<longrightarrow> hh' \<in> J \<and> hh' < strstart s \<and> hash3 t hh' = hash3 t (strstart s)))"
proof -
  obtain I where I: "chains I (strstart s) (read_end s) s" and w: "sizes_ok s" "read_end s \<le> 2 * w_size s" "primed s"
    using assms(2) by (auto simp: matching_ok_def window_holds_def)
  show ?thesis
  proof (cases "MIN_MATCH \<le> lookahead s")
    case True
    then have "INSERT_STRING (strstart s) s = Some (hh', t)" using assms(1) by (simp add: insert_start_def)
    moreover have "UPDATE_HASH s (ins_h s) (buf_window s ! (strstart s + 2)) = hash3 s (strstart s)" using w(3) True by (simp add: primed_def)
    moreover have "strstart s + MIN_MATCH \<le> read_end s" using True by (simp add: read_end_def)
    ultimately show ?thesis using INSERT_STRING_step [OF _ w(1) _ I _ w(2)] True by blast
  next
    case False
    then show ?thesis using assms(1,3) w(1) chains_later [OF I, of "strstart s + 1"] by (auto simp: insert_start_def chain_step_def)
  qed
qed

lemma chain_step_fields:
  assumes "chain_step s t"
  shows "item_frame t = item_frame s" "strstart t = strstart s" "lookahead t = lookahead s" "match_length t = match_length s"
    "match_start t = match_start s" "prev_length t = prev_length s" "prev_match t = prev_match s" "match_available t = match_available s"
    "last_lit t = last_lit s" "d_buf t = d_buf s" "l_buf t = l_buf s" "items t = items s" "buffers_ok t = buffers_ok s"
proof -
  have t: "t = s \<lparr> ins_h := ins_h t, prev_of := prev_of t, head_of := head_of t \<rparr>" using assms by (simp add: chain_step_def)
  show "item_frame t = item_frame s" "strstart t = strstart s" "lookahead t = lookahead s" "match_length t = match_length s"
    "match_start t = match_start s" "prev_length t = prev_length s" "prev_match t = prev_match s" "match_available t = match_available s"
    "last_lit t = last_lit s" "d_buf t = d_buf s" "l_buf t = l_buf s" "items t = items s" "buffers_ok t = buffers_ok s"
    by (subst t, simp add: items_def buffers_ok_def)+
qed

text \<open>After an item: the hash is ready when the string before \<open>strstart\<close> has been inserted.\<close>

lemma primed_next:
  assumes "sizes_ok s" "ins_h s = hash3 s i" "strstart s = i + 1"
  shows "primed s"
  using hash3_rolls [OF assms(1), of i] assms(2,3) by (simp add: primed_def numeral_eq_Suc)

lemma fast_take_literal_ok:
  assumes "fast_take_literal s = Some (b, t)" "window_holds H s" "chains J (strstart s + 1) (read_end s) s" "buffers_ok s"
    "MIN_MATCH \<le> lookahead s \<Longrightarrow> ins_h s = hash3 s (strstart s)" "0 < lookahead s" "stand_for H H s"
  shows "matching_ok (H @ take 1 (ahead s)) t" "stand_for (H @ take 1 (ahead s)) (H @ take 1 (ahead s)) t"
    "ahead t = drop 1 (ahead s)" "item_frame t = item_frame s" "match_length t = match_length s" "prev_length t = prev_length s"
    "lookahead t = lookahead s - 1" "strstart t = strstart s + 1"
proof -
  obtain u where u: "tally_literal (strstart s) s = Some (b, u)" and t: "t = u \<lparr> lookahead := lookahead u - 1, strstart := strstart u + 1 \<rparr>"
    using assms(1) by (auto simp: fast_take_literal_def split: bind_splits)
  note i = tally_literal_items [OF u assms(4)]
  note f = tally_frame_fields [OF i(3)]
  show fr: "item_frame t = item_frame s" using item_frame_tally [OF i(3)] by (simp add: t)
  note g = item_frame_fields [OF fr]
  have w: "sizes_ok s" "match_start s < 2 ^ 32" using assms(2) by (simp_all add: window_holds_def)
  have ok: "sizes_ok t" by (rule item_sizes_ok [OF w(1) fr]) (simp_all add: t f)
  have adv: "strstart t = strstart s + 1" "lookahead t = lookahead s - 1" "match_start t < 2 ^ 32" using w(2) by (simp_all add: t f)
  have one: "1 \<le> lookahead s" using assms(6) by simp
  note a = advance_holds [OF assms(2) one g(1) g(3) g(4) adv(1) adv(2) ok adv(3)]
  have c: "chains J (strstart t) (read_end t) t" using assms(3) adv(1) a(4) item_chains [OF fr] by (simp add: t f)
  have p: "primed t"
  proof (cases "MIN_MATCH \<le> lookahead s")
    case True
    have "ins_h t = hash3 t (strstart s)" using assms(5) [OF True] g(17) by (simp add: t f)
    then show ?thesis using primed_next [OF ok] adv(1) by blast
  next
    case False
    then have "\<not> MIN_MATCH \<le> lookahead t" using adv(2) by linarith
    then show ?thesis by (simp add: primed_def)
  qed
  have it: "items t = items s @ [(0, buf_window s ! strstart s)]" "buffers_ok t" using i(1,2) by (simp_all add: t items_def buffers_ok_def)
  show "matching_ok (H @ take 1 (ahead s)) t" using a(1) c p it(2) by (auto simp: matching_ok_def)
  have "take 1 (ahead s) = [buf_window s ! strstart s]"
    using ahead_nth [OF assms(2), of 0] length_ahead [OF assms(2)] one by (cases "ahead s") simp_all
  then show "stand_for (H @ take 1 (ahead s)) (H @ take 1 (ahead s)) t"
    using assms(7) literal_stands [of "items s" "before_block H s" H] a(3) it(1) by (simp add: stand_for_def)
  show "ahead t = drop 1 (ahead s)" by (rule a(2))
  show "match_length t = match_length s" "prev_length t = prev_length s" "lookahead t = lookahead s - 1" "strstart t = strstart s + 1"
    by (simp_all add: t f)
qed

lemma fast_take_match_ok:
  assumes "fast_take_match hh s = Some (b, hh', t)" "window_holds H s" "chains J (strstart s + 1) (read_end s) s" "buffers_ok s"
    "ins_h s = hash3 s (strstart s)" "found_match (match_start s) (match_length s) s" "MIN_MATCH \<le> match_length s" "stand_for H H s"
    "hh < 2 ^ 32"
  defines "k \<equiv> match_length s"
  shows "matching_ok (H @ take k (ahead s)) t" "stand_for (H @ take k (ahead s)) (H @ take k (ahead s)) t"
    "ahead t = drop k (ahead s)" "item_frame t = item_frame s" "match_length t = 0" "prev_length t = prev_length s" "hh' < 2 ^ 32"
    "lookahead t = lookahead s - k" "strstart t = strstart s + k"
proof -
  have w: "sizes_ok s" "match_start s < 2 ^ 32" "strstart s \<le> length H" "read_end s \<le> 2 * w_size s" using assms(2) by (simp_all add: window_holds_def)
  have m: "k \<le> MAX_MATCH" "k \<le> lookahead s" "match_start s < strstart s" "strstart s \<le> match_start s + MAX_DIST s"
    using assms(6) by (simp_all add: found_match_def k_def)
  note md = MAX_DIST_value [OF w(1)]
  have lt: "strstart s < 4294967296" "lookahead s < 4294967296" using w(4) md by (simp_all add: read_end_def)
  let ?d = "strstart s - match_start s"
  have d: "minus_u32 (strstart s) (match_start s) = ?d" "minus_u32 (lookahead s) k = lookahead s - k"
    using m lt by (simp_all add: minus_u32_le)
  obtain b' u where u: "tally_match ?d (k - MIN_MATCH) s = Some (b', u)"
    and r: "(let s = u \<lparr> lookahead := minus_u32 (lookahead u) (match_length u) \<rparr> in
      if match_length s \<le> max_lazy_match s \<and> lookahead s \<ge> MIN_MATCH then do {
        (hash_head, s) \<leftarrow> insert_strings (match_length s - 1) hh s;
        Some (b', hash_head, s \<lparr> strstart := strstart s + 1 \<rparr>) }
      else do {
        s \<leftarrow> start_hash (s \<lparr> strstart := strstart s + match_length s, match_length := 0 \<rparr>);
        Some (b', hh, s) }) = Some (b, hh', t)"
    using assms(1) by (auto simp: fast_take_match_def d k_def split: bind_splits)
  note i = tally_match_items [OF u assms(4)]
  note f = tally_frame_fields [OF i(3)]
  have fu: "item_frame u = item_frame s" by (rule item_frame_tally [OF i(3)])
  let ?v = "u \<lparr> lookahead := lookahead s - k \<rparr>"
  have fv: "item_frame ?v = item_frame s" using fu by simp
  note gv = item_frame_fields [OF fv]
  have okv: "sizes_ok ?v" by (rule item_sizes_ok [OF w(1) fv]) (simp_all add: f)
  have cv: "chains J (strstart ?v + 1) (read_end s) ?v" using assms(3) item_chains [OF fv] by (simp add: f)
  have hv: "ins_h ?v = hash3 ?v (strstart ?v)" using assms(5) gv(17) by (simp add: f)
  have klen: "k = match_length u" "match_length u = k" using f by (simp_all add: k_def)
  have "\<exists>K. item_frame t = item_frame s \<and> strstart t = strstart s + k \<and> lookahead t = lookahead s - k \<and> match_length t = 0 \<and>
      match_start t = match_start s \<and> prev_length t = prev_length s \<and> items t = items u \<and> buffers_ok t \<and> sizes_ok t \<and>
      chains K (strstart t) (read_end s) t \<and> primed t \<and> hh' < 2 ^ 32"
  proof (cases "match_length ?v \<le> max_lazy_match ?v \<and> lookahead ?v \<ge> MIN_MATCH")
    case True
    then obtain x where x: "insert_strings (k - 1) hh ?v = Some (hh', x)" and t: "t = x \<lparr> strstart := strstart x + 1 \<rparr>"
      using r d f by (auto simp: Let_def k_def split: bind_splits)
    have "MIN_MATCH \<le> lookahead s - k" using True by simp
    then have "k + MIN_MATCH \<le> lookahead s" using m(2) by linarith
    then have fit: "strstart ?v + (k - 1) + MIN_MATCH \<le> read_end s" "read_end s \<le> 2 * w_size ?v"
      using w(4) gv(4) by (simp_all add: f read_end_def)
    obtain K where K: "x = ?v \<lparr> strstart := strstart ?v + (k - 1), match_length := 0, ins_h := ins_h x, prev_of := prev_of x, head_of := head_of x \<rparr>"
      "length (prev_of x) = length (prev_of ?v)" "length (head_of x) = length (head_of ?v)"
      "chains K (strstart x + 1) (read_end s) x" "ins_h x = hash3 x (strstart x)" "hh' < 2 ^ 32"
      using insert_strings_step [OF x okv hv cv fit] by blast
    have fx: "item_frame x = item_frame s" by (subst K(1)) (simp add: fu)
    then have ft: "item_frame t = item_frame s" by (simp add: t)
    have xs: "strstart x = strstart s + (k - 1)" "lookahead x = lookahead s - k" "match_length x = 0" "match_start x = match_start s"
      "prev_length x = prev_length s" "items x = items u" "buffers_ok x = buffers_ok u"
      by (subst K(1), simp add: f items_def buffers_ok_def)+
    have okt: "sizes_ok t" by (rule item_sizes_ok [OF w(1) ft]) (use K(2,3) in \<open>simp_all add: t f\<close>)
    have "ins_h t = hash3 t (strstart x)" using K(5) item_frame_fields(17) [OF ft] item_frame_fields(17) [OF fx] by (simp add: t)
    then have "primed t" by (rule primed_next [OF okt]) (simp add: t)
    moreover have "chains K (strstart t) (read_end s) t" using K(4) item_chains [of t x] ft fx by (simp add: t)
    moreover have "k \<ge> 1" using assms(7) by (simp add: k_def MIN_MATCH_def)
    ultimately show ?thesis using ft okt xs i(2) K(6) by (auto simp: t items_def buffers_ok_def)
  next
    case False
    let ?y = "?v \<lparr> strstart := strstart s + k, match_length := 0 \<rparr>"
    have y: "start_hash ?y = Some t" "hh' = hh"
      using r d f False by (auto simp: Let_def k_def split: bind_splits if_splits)
    then obtain h where t: "t = ?y \<lparr> ins_h := h \<rparr>" by (auto simp: start_hash_def split: bind_splits)
    have ft: "item_frame t = item_frame s" using fu by (simp add: t)
    have okt: "sizes_ok t" by (rule item_sizes_ok [OF w(1) ft]) (simp_all add: t f)
    have "primed t"
    proof (cases "MIN_MATCH \<le> lookahead t")
      case True
      have oky: "sizes_ok ?y" "read_end ?y \<le> 2 * w_size ?y" "MIN_MATCH \<le> lookahead ?y"
      proof -
        show "sizes_ok ?y" by (rule item_sizes_ok [OF w(1)]) (simp_all add: f fu)
        show "read_end ?y \<le> 2 * w_size ?y" using w(4) m(2) gv(4) by (simp add: read_end_def)
        show "MIN_MATCH \<le> lookahead ?y" using True by (simp add: t)
      qed
      then show ?thesis using start_hash_primed [OF oky] y(1) t by auto
    qed (simp add: primed_def)
    moreover have "chains J (strstart t) (read_end s) t"
    proof -
      have "chains J (strstart s + 1) (read_end s) t" using assms(3) item_chains [OF ft] by (simp add: t f)
      then show ?thesis by (rule chains_later) (use assms(7) in \<open>simp add: t k_def MIN_MATCH_def\<close>)
    qed
    ultimately show ?thesis using ft okt i(2) y(2) assms(9) by (auto simp: t f items_def buffers_ok_def)
  qed
  then obtain K where t: "item_frame t = item_frame s" "strstart t = strstart s + k" "lookahead t = lookahead s - k" "match_length t = 0"
    "match_start t = match_start s" "prev_length t = prev_length s" "items t = items u" "buffers_ok t" "sizes_ok t"
    "chains K (strstart t) (read_end s) t" "primed t" "hh' < 2 ^ 32" by blast
  note g = item_frame_fields [OF t(1)]
  have ms: "match_start t < 2 ^ 32" using w(2) t(5) by simp
  note a = advance_holds [OF assms(2) m(2) g(1) g(3) g(4) t(2) t(3) t(9) ms]
  show "matching_ok (H @ take k (ahead s)) t" using a(1,4) t by (auto simp: matching_ok_def)
  show "ahead t = drop k (ahead s)" by (rule a(2))
  show "item_frame t = item_frame s" "match_length t = 0" "prev_length t = prev_length s" "hh' < 2 ^ 32" "lookahead t = lookahead s - k"
    "strstart t = strstart s + k" by (rule t)+
  have copy: "lz_copy k ?d H = H @ take k (ahead s)" by (rule found_match_copies [OF assms(2,6)]) (simp add: k_def)
  have st: "fold put_item (items s) (before_block H s) = H" "in_reach (items s) (before_block H s)" using assms(8) by (simp_all add: stand_for_def)
  have "?d \<le> 32768" using m(4) md by linarith
  then have dist: "0 < ?d" "?d \<le> 2 ^ 15" "?d \<le> length H" "MIN_MATCH \<le> k" using m(3) w(3) assms(7) by (simp_all add: k_def)
  note ms = match_stands [OF st dist m(1) copy]
  show "stand_for (H @ take k (ahead s)) (H @ take k (ahead s)) t"
    unfolding stand_for_def a(3) t(7) i(1) using ms by blast
qed

lemma stand_for_same:
  assumes "item_frame t = item_frame s" "strstart t = strstart s" "items t = items s"
  shows "stand_for H H' t = stand_for H H' s"
  using item_frame_fields(3) [OF assms(1)] assms(2,3) by (simp add: stand_for_def before_block_def)

lemma holds_same:
  assumes "window_holds H s" "item_frame t = item_frame s" "strstart t = strstart s" "lookahead t = lookahead s" "match_start t < 2 ^ 32"
    "sizes_ok t"
  shows "window_holds H t" "ahead t = ahead s" "read_end t = read_end s"
  using assms item_frame_fields [OF assms(2)] by (simp_all add: window_holds_def ahead_def read_end_def)

lemma fast_item_ok:
  assumes "fast_item hh s = Some (b, hh', t)" "fast_ok H s" "0 < lookahead s" "hh < 2 ^ 32"
  shows "\<exists>k. 0 < k \<and> k \<le> lookahead s \<and> k \<le> MAX_MATCH \<and> strstart t = strstart s + k \<and> fast_ok (H @ take k (ahead s)) t \<and> ahead t = drop k (ahead s) \<and>
    item_frame t = item_frame s \<and> lookahead t = lookahead s - k \<and> hh' < 2 ^ 32"
proof -
  have ok: "matching_ok H s" "match_length s < MIN_MATCH" "prev_length s < MIN_MATCH" "stand_for H H s"
    using assms(2) by (simp_all add: fast_ok_def)
  have w: "window_holds H s" "match_start s < 2 ^ 32" "buffers_ok s" using ok(1) by (simp_all add: matching_ok_def window_holds_def)
  have re: "strstart s < 4294967296"
    using w(1) MAX_DIST_value [of s] by (auto simp: window_holds_def read_end_def)
  obtain h1 u v where u: "insert_start hh s = Some (h1, u)"
    and v: "(if h1 \<noteq> 0 \<and> minus_u32 (strstart u) h1 \<le> MAX_DIST u then find_match h1 u else Some u) = Some v"
    and r: "(if match_length v \<ge> MIN_MATCH then fast_take_match h1 v
      else do { (b, s) \<leftarrow> fast_take_literal v; Some (b, h1, s) }) = Some (b, hh', t)"
    using assms(1) by (auto simp: fast_item_def split: bind_splits)
  obtain J where J: "chain_step s u" "sizes_ok u" "chains J (strstart s + 1) (read_end s) u" "h1 < 2 ^ 32"
    "MIN_MATCH \<le> lookahead s \<longrightarrow> ins_h u = hash3 u (strstart s) \<and>
      (h1 \<noteq> 0 \<longrightarrow> h1 \<in> J \<and> h1 < strstart s \<and> hash3 u h1 = hash3 u (strstart s))"
    using insert_start_step [OF u ok(1) assms(4)] by blast
  note f = chain_step_fields [OF J(1)]
  have hu: "window_holds H u" "ahead u = ahead s" "read_end u = read_end s"
    using holds_same [OF w(1) f(1-3) _ J(2)] w(2) f(5) by simp_all
  have cu: "chains J (strstart u + 1) (read_end u) u" using J(3) f(2) hu(3) by simp
  have "v = u \<lparr> match_length := match_length v, match_start := match_start v \<rparr> \<and> match_start v < 2 ^ 32 \<and>
      (MIN_MATCH \<le> match_length v \<longrightarrow> found_match (match_start v) (match_length v) u)"
  proof (cases "h1 \<noteq> 0 \<and> minus_u32 (strstart u) h1 \<le> MAX_DIST u")
    case True
    have near: "near J h1 u" if "MIN_MATCH \<le> lookahead u"
    proof -
      have h: "h1 \<in> J" "h1 < strstart s" "hash3 u h1 = hash3 u (strstart s)" using J(5) that True f(3) by auto
      then have "minus_u32 (strstart u) h1 = strstart s - h1" using re f(2) by (simp add: minus_u32_le)
      then have "strstart s \<le> h1 + MAX_DIST u" using True by linarith
      then show ?thesis using h f(2) by (simp add: near_def)
    qed
    have "find_match h1 u = Some v" using v True by simp
    from find_match_found [OF this J(2) cu _ J(4) _ _ near] show ?thesis
      using True w(2) f(4,5,6) ok(2,3) by auto
  next
    case False
    then show ?thesis using v w(2) f(4,5) ok(2) by auto
  qed
  then have vu: "v = u \<lparr> match_length := match_length v, match_start := match_start v \<rparr>" and ms: "match_start v < 2 ^ 32"
    and fm: "MIN_MATCH \<le> match_length v \<Longrightarrow> found_match (match_start v) (match_length v) u" by blast+
  have fv: "item_frame v = item_frame u" by (subst vu) simp
  have vs: "strstart v = strstart s" "lookahead v = lookahead s" "prev_length v = prev_length s" "items v = items s" "buffers_ok v"
    "head_of v = head_of u" "prev_of v = prev_of u" "ins_h v = ins_h u"
    by (subst vu, use f w(3) in \<open>simp add: items_def buffers_ok_def\<close>)+
  note gv = item_frame_fields [OF fv]
  have okv: "sizes_ok v" by (rule item_sizes_ok [OF J(2) fv]) (simp_all add: vs)
  have hv: "window_holds H v" "ahead v = ahead s" "read_end v = read_end s"
    using holds_same [OF hu(1) fv _ _ ms okv] vs f hu by simp_all
  have cv: "chains J (strstart v + 1) (read_end v) v" using cu item_chains [OF fv] vs hu hv f by simp
  have iv: "ins_h v = hash3 v (strstart v)" if "MIN_MATCH \<le> lookahead s" using J(5) that gv(17) by (simp add: vs)
  have sv: "stand_for H H v" using ok(4) stand_for_same [of v s] fv f vs by simp
  show ?thesis
  proof (cases "MIN_MATCH \<le> match_length v")
    case True
    have found: "found_match (match_start v) (match_length v) v"
      using fm [OF True] gv(1,15) vs f by (simp add: found_match_def)
    then have "match_length v \<le> lookahead s" "match_length v \<le> MAX_MATCH" by (simp_all add: found_match_def vs)
    then have "MIN_MATCH \<le> lookahead s" using True by linarith
    have tk: "fast_take_match h1 v = Some (b, hh', t)" using r True by simp
    note m = fast_take_match_ok [OF tk hv(1) cv vs(5) iv [OF \<open>MIN_MATCH \<le> lookahead s\<close>] found True sv J(4)]
    have "0 < match_length v" using True by (simp add: MIN_MATCH_def)
    moreover have "fast_ok (H @ take (match_length v) (ahead s)) t"
      using m(1,2,5,6) hv(2) vs(3) ok(3) by (simp add: fast_ok_def MIN_MATCH_def)
    ultimately show ?thesis using m(3,4,7,8,9) hv(2) vs(1,2) fv f(1) \<open>match_length v \<le> lookahead s\<close> \<open>match_length v \<le> MAX_MATCH\<close>
      by auto
  next
    case False
    then have tk: "fast_take_literal v = Some (b, t)" and hh': "hh' = h1" using r by (auto split: bind_splits)
    have "MIN_MATCH \<le> lookahead v \<Longrightarrow> ins_h v = hash3 v (strstart v)" using iv vs(2) by simp
    note m = fast_take_literal_ok [OF tk hv(1) cv vs(5) this _ sv]
    have "0 < lookahead v" using vs(2) assms(3) by simp
    note m = m [OF _ this]
    have "fast_ok (H @ take 1 (ahead s)) t" using m(1,2,5,6) False hv(2) vs(3) ok(3) by (simp add: fast_ok_def)
    then show ?thesis using m(3,4,7,8) hv(2) vs(1,2) fv f(1) hh' J(4) assms(3) by (intro exI [of _ 1]) (simp add: MAX_MATCH_def)
  qed
qed

end
