(* ===== verification/Inflate_Block.thy ===== *)
theory Inflate_Block
  imports Inflate_Decode
begin

text \<open>
  The same items through \<open>inflate_fast()\<close>, and then whole blocks: whatever of the two decodes an item, the block comes
  out as the compressor has tallied it.
\<close>

section \<open>Pulling with enough input\<close>

lemma PULLBYTE_there: "bitcnt s < length (input_bits s) \<Longrightarrow> \<exists>t. PULLBYTE s = Some t"
  by (cases "next_in s") (auto simp: PULLBYTE_def length_input_bits)

text \<open>From \<open>s\<close> to \<open>t\<close> only bytes have been pulled.\<close>

definition pulls :: "'a inflate_state_scheme \<Rightarrow> 'a inflate_state_scheme \<Rightarrow> bool" where
  "pulls s t \<longleftrightarrow> same_but_bits s t \<and> acc_ok t \<and> input_bits t = input_bits s"

lemma pulls_refl: "acc_ok s \<Longrightarrow> pulls s s"
  by (simp add: pulls_def)

lemma pulls_trans: "pulls s t \<Longrightarrow> pulls t u \<Longrightarrow> pulls s u"
  using same_but_bits_trans by (auto simp: pulls_def)

lemma PULLBYTE_pulls:
  assumes "acc_ok s" "bitcnt s \<le> 24" "bitcnt s < length (input_bits s)"
  shows "\<exists>t. PULLBYTE s = Some t \<and> pulls s t \<and> bitcnt t = bitcnt s + 8"
  using PULLBYTE_there [OF assms(3)] PULLBYTE_input [OF assms(1,2)] PULLBYTE_same PULLBYTE_bitcnt by (auto simp: pulls_def)

lemma fill15_pulls:
  assumes "acc_ok s" "bitcnt s < 15 \<Longrightarrow> bitcnt s + 8 < length (input_bits s)"
  shows "\<exists>t. fill15 s = Some t \<and> pulls s t \<and> 15 \<le> bitcnt t \<and> bitcnt t \<le> max (bitcnt s) 30"
proof (cases "bitcnt s < 15")
  case True
  obtain t where t: "PULLBYTE s = Some t" "pulls s t" "bitcnt t = bitcnt s + 8"
    using PULLBYTE_pulls [OF assms(1)] True assms(2) by auto
  have "bitcnt t < length (input_bits t)" using t(2,3) assms(2) True by (simp add: pulls_def)
  then obtain u where u: "PULLBYTE t = Some u" "pulls t u" "bitcnt u = bitcnt t + 8"
    using PULLBYTE_pulls [of t] t True by (auto simp: pulls_def)
  then show ?thesis using True t pulls_trans [OF t(2) u(2)] by (simp add: fill15_def PULL2_def)
next
  case False
  then show ?thesis using assms(1) by (simp add: fill15_def pulls_refl)
qed

text \<open>The bits are used up; \<open>t\<close> is left with the bits \<open>bs\<close>.\<close>

definition left_with :: "bool list \<Rightarrow> 'a inflate_state_scheme \<Rightarrow> 'a inflate_state_scheme \<Rightarrow> bool" where
  "left_with bs s t \<longleftrightarrow> same_but_bits s t \<and> acc_ok t \<and> input_bits t = bs"

lemma left_with_trans: "left_with bs s t \<Longrightarrow> left_with cs t u \<Longrightarrow> left_with cs s u"
  using same_but_bits_trans by (auto simp: left_with_def)

lemma pulls_left_with: "pulls s t \<Longrightarrow> left_with (input_bits s) s t"
  by (simp add: pulls_def left_with_def)

lemma DROPBITS_left_with:
  assumes "acc_ok s" "input_bits s = v @ rest" "length v = n" "n \<le> bitcnt s"
  shows "left_with rest s (DROPBITS n s)" "drop_fast n s = Some (DROPBITS n s)"
  using DROPBITS_refines [OF assms(4)] DROPBITS_same assms by (auto simp: left_with_def drop_fast_def)

text \<open>The extra bits of a length and of a distance.\<close>

lemma unat_BITS_front: "input_bits s = v @ rest \<Longrightarrow> length v = n \<Longrightarrow> n < 32 \<Longrightarrow> n \<le> bitcnt s \<Longrightarrow> unat (BITS n s) = bits_value v"
  by (simp add: unat_BITS)

lemma drop_fast_reads:
  assumes "pulls s u" "input_bits s = v @ rest" "length v = n" "n \<le> bitcnt u" "n < 32"
  shows "\<exists>t. drop_fast n u = Some t \<and> unat (BITS n u) = bits_value v \<and> left_with rest s t"
proof -
  have u: "acc_ok u" "input_bits u = v @ rest" "same_but_bits s u" using assms(1,2) by (simp_all add: pulls_def)
  note d = DROPBITS_left_with [OF u(1,2) assms(3,4)]
  have "left_with rest s (DROPBITS n u)" using d(1) same_but_bits_trans [OF u(3)] by (auto simp: left_with_def)
  then show ?thesis using d(2) unat_BITS_front [OF u(2) assms(3,5,4)] by blast
qed

lemma fast_len_extra_reads:
  assumes "acc_ok s" "input_bits s = v @ rest" "length v = n" "n \<le> 8"
  shows "\<exists>t. fast_len_extra n s = Some (bits_value v, t) \<and> left_with rest s t"
proof (cases "n = 0")
  case True
  then show ?thesis using assms by (simp add: fast_len_extra_def left_with_def bits_value_def)
next
  case False
  have "\<exists>u. (if bitcnt s < n then PULLBYTE s else Some s) = Some u \<and> pulls s u \<and> n \<le> bitcnt u"
    using PULLBYTE_pulls [OF assms(1)] pulls_refl [OF assms(1)] assms(2-4) by auto
  then obtain u where u: "(if bitcnt s < n then PULLBYTE s else Some s) = Some u" "pulls s u" "n \<le> bitcnt u" by blast
  obtain t where "drop_fast n u = Some t" "unat (BITS n u) = bits_value v" "left_with rest s t"
    using drop_fast_reads [OF u(2) assms(2,3) u(3)] assms(4) by auto
  then show ?thesis using False u(1) by (simp add: fast_len_extra_def)
qed

lemma fast_dist_extra_reads:
  assumes "acc_ok s" "input_bits s = v @ rest" "length v = n" "n \<le> 16"
  shows "\<exists>t. fast_dist_extra n s = Some (bits_value v, t) \<and> left_with rest s t"
proof -
  let ?pull = "if bitcnt s < n then do { s \<leftarrow> PULLBYTE s; if bitcnt s < n then PULLBYTE s else Some s } else Some s"
  have "\<exists>u. ?pull = Some u \<and> pulls s u \<and> n \<le> bitcnt u"
  proof (cases "bitcnt s < n")
    case True
    obtain t where t: "PULLBYTE s = Some t" "pulls s t" "bitcnt t = bitcnt s + 8"
      using PULLBYTE_pulls [OF assms(1)] assms(2-4) True by auto
    have "\<exists>u. (if bitcnt t < n then PULLBYTE t else Some t) = Some u \<and> pulls t u \<and> n \<le> bitcnt u"
      using PULLBYTE_pulls [of t] pulls_refl [of t] t(2,3) assms(2-4) by (auto simp: pulls_def)
    then show ?thesis using True t pulls_trans by fastforce
  next
    case False
    then show ?thesis using pulls_refl [OF assms(1)] by simp
  qed
  then obtain u where u: "?pull = Some u" "pulls s u" "n \<le> bitcnt u" by blast
  obtain t where "drop_fast n u = Some t" "unat (BITS n u) = bits_value v" "left_with rest s t"
    using drop_fast_reads [OF u(2) assms(2,3) u(3)] assms(4) by auto
  then show ?thesis using u(1) by (simp add: fast_dist_extra_def)
qed

section \<open>An item in the fast loop\<close>

lemma fast_copy_next:
  assumes "call_ok s" "0 < d" "3 \<le> n" "n \<le> avail_out s" "d \<le> length (history s)"
  shows "\<exists>t. fast_copy (out_start s) n d s = Some (Next t) \<and> copies n d s t"
proof -
  have w: "out_start s - avail_out s = length (put s)" "window_ok s" using assms(1) by (simp_all add: call_ok_def)
  show ?thesis
  proof (cases "length (put s) < d")
    case True
    then show ?thesis
      using w copy_windowed_copies [OF w(2) True, of n] assms length_history [OF w(2)] by (auto simp: fast_copy_def Let_def)
  next
    case False
    then show ?thesis
      using w out_copies [of d s n] assms by (auto simp: fast_copy_def copy_direct_bytes Let_def)
  qed
qed

lemma left_with_fields:
  assumes "left_with bs s (t :: inflate_call)"
  shows "acc_ok t" "input_bits t = bs" "frame t = frame s" "put t = put s" "avail_out t = avail_out s" "mode t = mode s"
  using assms same_but_bits_fields [of s t] by (simp_all add: left_with_def)

context block_tables
begin

lemma fast_len_code:
  assumes "uses_tables Tl rl Td rd s" "acc_ok s" "input_bits s = code_bits ltree c @ rest" "c < 286" "Len (ltree ! c) \<noteq> 0"
    "24 \<le> length (input_bits s)"
  shows "\<exists>u e f t. fill15 s = Some u \<and> table_at u (lencode u) (unat (BITS (lenbits u) u)) = Some e \<and>
    follow len_link (lencode u) e u = Some (f, t) \<and> op f = op (el 0 c) \<and> val f = val (el 0 c) \<and> left_with rest s t"
proof -
  have c: "c \<in> Sl" "wl c = code_bits ltree c" using len_words assms(4,5) by auto
  obtain u where u: "fill15 s = Some u" "pulls s u" "15 \<le> bitcnt u" using fill15_pulls [OF assms(2)] assms(6) by auto
  have p: "acc_ok u" "input_bits u = code_bits ltree c @ rest" "same_but_bits s u" using u(2) assms(3) by (simp_all add: pulls_def)
  have len: "length (wl c) \<le> bitcnt u" using len.word_small [OF c(1)] u(3) by simp
  have nl: "\<not> len_link (op (el 0 c))" by (rule leaf_not_link(2)) (rule len.entry_leaf [OF c(1)])
  have "uses_tables Tl rl Td rd u" using uses_tables_frame [OF frame_same_but_bits [OF p(3)]] assms(1) by simp
  then have tab: "\<forall>i. table_at u (lencode u) i = Tl i" "lenbits u = rl" by (simp_all add: uses_tables_def)
  have px: "prefix (wl c) (input_bits u)" using p(2) c(2) by simp
  obtain e f where ef: "table_at u (lencode u) (unat (BITS rl u)) = Some e" "follow len_link (lencode u) e u = Some (f, DROPBITS (length (wl c)) u)"
      "op f = op (el 0 c)" "val f = val (el 0 c)"
    using len.fast_lookup [where link = len_link, OF tab(1) p(1) c(1) px len is_link_tests(1) nl] by blast
  have "left_with rest u (DROPBITS (length (wl c)) u)" using DROPBITS_left_with(1) [OF p(1,2)] c(2) len by simp
  then have "left_with rest s (DROPBITS (length (wl c)) u)" using same_but_bits_trans [OF p(3)] by (auto simp: left_with_def)
  then show ?thesis using u(1) ef tab(2) by blast
qed

lemma fast_dist_code:
  assumes "uses_tables Tl rl Td rd s" "acc_ok s" "input_bits s = code_bits dtree d @ rest" "d < 30" "Len (dtree ! d) \<noteq> 0"
    "24 \<le> length (input_bits s)"
  shows "\<exists>u e f t. fill15 s = Some u \<and> table_at u (distcode u) (unat (BITS (distbits u) u)) = Some e \<and>
    follow dist_link (distcode u) e u = Some (f, t) \<and> op f = op (ed 0 d) \<and> val f = val (ed 0 d) \<and> left_with rest s t"
proof -
  have d: "d \<in> Sd" "wd d = code_bits dtree d" using dist_words assms(4,5) by auto
  obtain u where u: "fill15 s = Some u" "pulls s u" "15 \<le> bitcnt u" using fill15_pulls [OF assms(2)] assms(6) by auto
  have p: "acc_ok u" "input_bits u = code_bits dtree d @ rest" "same_but_bits s u" using u(2) assms(3) by (simp_all add: pulls_def)
  have len: "length (wd d) \<le> bitcnt u" using dist.word_small [OF d(1)] u(3) by simp
  have nl: "\<not> dist_link (op (ed 0 d))" by (rule leaf_not_link(3) [OF dist.entry_leaf [OF d(1)] dist_nonzero [OF d(1)]])
  have "uses_tables Tl rl Td rd u" using uses_tables_frame [OF frame_same_but_bits [OF p(3)]] assms(1) by simp
  then have tab: "\<forall>i. table_at u (distcode u) i = Td i" "distbits u = rd" by (simp_all add: uses_tables_def)
  have px: "prefix (wd d) (input_bits u)" using p(2) d(2) by simp
  obtain e f where ef: "table_at u (distcode u) (unat (BITS rd u)) = Some e" "follow dist_link (distcode u) e u = Some (f, DROPBITS (length (wd d)) u)"
      "op f = op (ed 0 d)" "val f = val (ed 0 d)"
    using dist.fast_lookup [where link = dist_link, OF tab(1) p(1) d(1) px len is_link_tests(2) nl] by blast
  have "left_with rest u (DROPBITS (length (wd d)) u)" using DROPBITS_left_with(1) [OF p(1,2)] d(2) len by simp
  then have "left_with rest s (DROPBITS (length (wd d)) u)" using same_but_bits_trans [OF p(3)] by (auto simp: left_with_def)
  then show ?thesis using u(1) ef tab(2) by blast
qed

text \<open>What an item leaves behind, in the fast loop.\<close>

definition fast_decoded :: "ushort \<times> byte \<Rightarrow> bool list \<Rightarrow> inflate_call \<Rightarrow> inflate_call \<Rightarrow> bool" where
  "fast_decoded x rest s t \<longleftrightarrow> acc_ok t \<and> input_bits t = rest \<and> mode t = mode s \<and> decoded (put_item x) (item_size x) s t"

lemma fast_literal:
  assumes "uses_tables Tl rl Td rd s" "block_ok s" "item_ok ltree dtree (0, lc)" "1 \<le> avail_out s" "acc_ok s"
    "input_bits s = item_bits ltree dtree (0, lc) @ rest" "24 \<le> length (input_bits s)"
  shows "\<exists>t. fast_step start s = Some (Next t) \<and> fast_decoded (0, lc) rest s t"
proof -
  have lc: "unat lc < 286" "unat lc < 256" "Len (ltree ! unat lc) \<noteq> 0"
    using unat_byte_less [of lc] assms(3) by (simp_all add: item_ok_def)
  have ib: "input_bits s = code_bits ltree (unat lc) @ rest" using assms(6) by (simp add: item_bits_def)
  obtain u e f t where u: "fill15 s = Some u" "table_at u (lencode u) (unat (BITS (lenbits u) u)) = Some e"
      "follow len_link (lencode u) e u = Some (f, t)" "op f = op (el 0 (unat lc))" "val f = val (el 0 (unat lc))" "left_with rest s t"
    using fast_len_code [OF assms(1,5) ib lc(1,3) assms(7)] by blast
  note tf = left_with_fields [OF u(6)]
  have ov: "op f = 0" "ucast (val f) = lc" using u(4,5) len_op_val(1) [OF lc(2), of 0] literal_byte [of lc] by simp_all
  let ?t = "t \<lparr> put := put s @ [lc], avail_out := avail_out s - 1 \<rparr>"
  have "fast_step start s = Some (Next ?t)" using u(1-3) ov tf(4,5) assms(4) by (simp add: fast_step_def fast_put_def)
  moreover have fr: "frame ?t = frame s" using tf(3) by simp
  have "call_ok ?t" using assms(2,4) frame_fields(2,4) [OF fr] by (simp add: block_ok_def call_ok_def)
  moreover have "history ?t = history s @ [lc]" using frame_fields(3) [OF fr] by (simp add: history_def)
  moreover have "acc_ok ?t" "input_bits ?t = rest" using tf(1,2) by (simp_all add: acc_ok_def input_bits_def)
  ultimately show ?thesis using fr tf(6) assms(4) by (intro exI [of _ ?t]) (simp add: fast_decoded_def decoded_def put_item_def item_size_def)
qed

lemma fast_end_of_block:
  assumes "uses_tables Tl rl Td rd s" "acc_ok s" "input_bits s = code_bits ltree 256 @ rest" "Len (ltree ! 256) \<noteq> 0" "24 \<le> length (input_bits s)"
  shows "\<exists>t. fast_step start s = Some (Break (t \<lparr> mode := TYPE_MODE \<rparr>)) \<and> left_with rest s t"
proof -
  obtain u e f t where u: "fill15 s = Some u" "table_at u (lencode u) (unat (BITS (lenbits u) u)) = Some e"
      "follow len_link (lencode u) e u = Some (f, t)" "op f = op (el 0 256)" "left_with rest s t"
    using fast_len_code [OF assms(1-3) _ assms(4,5)] by auto
  have "op f = 96" using u(4) len_op_val(2) by simp
  then have "fast_step start s = Some (Break (t \<lparr> mode := TYPE_MODE \<rparr>))" using u(1-3) by (simp add: fast_step_def)
  then show ?thesis using u(5) by blast
qed

end

lemma item_bits_match:
  "dist \<noteq> 0 \<Longrightarrow> item_bits ltree dtree (dist, lc) =
    code_bits ltree (length_code ! unat lc + 257) @ bits (extra_lbits ! (length_code ! unat lc)) (unat lc - base_length ! (length_code ! unat lc)) @
    code_bits dtree (dist_code_of_item dist) @ bits (extra_dbits ! dist_code_of_item dist) (unat dist - 1 - base_dist ! dist_code_of_item dist)"
  by (simp add: item_bits_def Let_def LITERALS_def add.commute)

text \<open>What the bits of a match take in all, with those of its two codes.\<close>

lemma extra_bits_item:
  "dist \<noteq> 0 \<Longrightarrow> unat dist \<le> 2 ^ 15 \<Longrightarrow> extra_lbits ! (length_code ! unat (lc :: byte)) \<le> 5 \<and> extra_dbits ! dist_code_of_item dist \<le> 13"
proof -
  assume d: "dist \<noteq> 0" "unat dist \<le> 2 ^ 15"
  have "list_all (\<lambda>x. x \<le> 5) extra_lbits" "list_all (\<lambda>x. x \<le> 13) extra_dbits" "length extra_lbits = 29" "length extra_dbits = 30"
    by (simp_all add: extra_lbits_def extra_dbits_def)
  then show ?thesis using length_bits_of_item [OF d, of lc] by (simp add: list_all_length)
qed

context block_tables
begin

lemma fast_match:
  assumes "uses_tables Tl rl Td rd s" "block_ok s" "item_ok ltree dtree (dist, lc)" "dist \<noteq> 0" "258 \<le> avail_out s" "acc_ok s"
    "unat dist \<le> length (history s)" "input_bits s = item_bits ltree dtree (dist, lc) @ rest" "48 \<le> length (input_bits s)"
  shows "\<exists>t. fast_step (out_start s) s = Some (Next t) \<and> fast_decoded (dist, lc) rest s t"
proof -
  let ?c = "length_code ! unat lc" and ?d = "dist_code_of_item dist"
  let ?lv = "bits (extra_lbits ! ?c) (unat lc - base_length ! ?c)"
  let ?dv = "bits (extra_dbits ! ?d) (unat dist - 1 - base_dist ! ?d)"
  have dist: "unat dist \<le> 2 ^ 15" "Len (ltree ! (?c + 257)) \<noteq> 0" "Len (dtree ! ?d) \<noteq> 0"
    using assms(3,4) by (simp_all add: item_ok_def LITERALS_def add.commute)
  note small = length_bits_of_item [OF assms(4) dist(1), of lc] extra_bits_item [OF assms(4) dist(1), of lc]
  have c286: "?c + 257 < 286" "?d < 30" using small by simp_all
  have ib: "input_bits s = code_bits ltree (?c + 257) @ ?lv @ code_bits dtree ?d @ ?dv @ rest"
    using assms(8) item_bits_match [OF assms(4)] by simp
  have cl: "length (code_bits ltree (?c + 257)) \<le> 15"
    using len.word_small [of "?c + 257"] len_words [OF c286(1) dist(2)] by simp
  obtain u1 e1 f1 t1 where 1: "fill15 s = Some u1" "table_at u1 (lencode u1) (unat (BITS (lenbits u1) u1)) = Some e1"
      "follow len_link (lencode u1) e1 u1 = Some (f1, t1)" "op f1 = op (el 0 (?c + 257))" "val f1 = val (el 0 (?c + 257))"
      "left_with (?lv @ code_bits dtree ?d @ ?dv @ rest) s t1"
    using fast_len_code [OF assms(1,6) ib c286(1) dist(2)] assms(9) by auto
  note tf1 = left_with_fields [OF 1(6)]
  note lx = lbase_base_length(3,4) [of ?c]
  have ov1: "op f1 = ucast (lext ! ?c)" "val f1 = lbase ! ?c"
    using 1(4,5) len_op_val(3) [of "?c + 257" 0] small(1) by simp_all
  have n1: "unat (op f1 AND 15) = extra_lbits ! ?c" "op f1 \<noteq> 0" "op f1 AND 16 \<noteq> 0" using lx ov1 small(1) by simp_all
  obtain t2 where 2: "fast_len_extra (extra_lbits ! ?c) t1 = Some (bits_value ?lv, t2)" "left_with (code_bits dtree ?d @ ?dv @ rest) t1 t2"
    using fast_len_extra_reads [OF tf1(1,2)] small(2) by auto
  note tf2 = left_with_fields [OF left_with_trans [OF 1(6) 2(2)]]
  have long: "24 \<le> length (input_bits t2)"
  proof -
    have "length (input_bits s) = length (code_bits ltree (?c + 257)) + extra_lbits ! ?c + length (input_bits t2)"
      using ib tf2(2) by simp
    then show ?thesis using assms(9) cl small(2) by linarith
  qed
  have "uses_tables Tl rl Td rd t2" using uses_tables_frame [OF tf2(3)] assms(1) by simp
  then obtain u3 e3 f3 t3 where 3: "fill15 t2 = Some u3" "table_at u3 (distcode u3) (unat (BITS (distbits u3) u3)) = Some e3"
      "follow dist_link (distcode u3) e3 u3 = Some (f3, t3)" "op f3 = op (ed 0 ?d)" "val f3 = val (ed 0 ?d)" "left_with (?dv @ rest) t2 t3"
    using fast_dist_code [OF _ tf2(1,2) c286(2) dist(3) long] by blast
  note tf3 = left_with_fields [OF 3(6)]
  have ov3: "op f3 = ucast (dext ! ?d)" "val f3 = dbase ! ?d" using 3(4,5) dist_op_val [OF c286(2), of 0] by simp_all
  have n3: "unat (op f3 AND 15) = extra_dbits ! ?d" "op f3 AND 16 \<noteq> 0" using ov3 dbase_base_dist(2,3) [OF c286(2)] by simp_all
  obtain t4 where 4: "fast_dist_extra (extra_dbits ! ?d) t3 = Some (bits_value ?dv, t4)" "left_with rest t3 t4"
    using fast_dist_extra_reads [OF tf3(1,2)] small(2) by auto
  note tf4 = left_with_fields [OF left_with_trans [OF 1(6) left_with_trans [OF 2(2) left_with_trans [OF 3(6) 4(2)]]]]
  have ok: "call_ok t4" using call_ok_frame [OF tf4(3-5)] assms(2) by (simp add: block_ok_def)
  have h: "history t4 = history s" by (rule history_frame [OF tf4(3,4)])
  have os: "out_start t4 = out_start s" by (rule frame_fields(2) [OF tf4(3)])
  have n: "0 < unat dist" "unat lc + 3 \<le> avail_out t4" "unat dist \<le> length (history t4)"
    using assms(4,5,7) tf4(5) h unat_byte_less [of lc] by (simp_all add: unat_gt_0)
  obtain t where t: "fast_copy (out_start t4) (unat lc + 3) (unat dist) t4 = Some (Next t)" "copies (unat lc + 3) (unat dist) t4 t"
    using fast_copy_next [OF ok n(1) _ n(2,3)] by auto
  have "fast_step (out_start s) s = Some (Next t)"
    using 1(1-3) n1 2(1) 3(1-3) n3 4(1) t(1) os length_value [of lc] distance_value [OF assms(4) dist(1)] ov1(2) ov3(2)
    by (simp add: fast_step_def fast_distance_def)
  moreover have "fast_decoded (dist, lc) rest s t"
  proof -
    note D = copies_D [OF t(2)]
    have "acc_ok t" "input_bits t = rest" using t(2) tf4(1,2) by (auto simp: copies_def acc_ok_def input_bits_def)
    moreover have "mode t = mode s" using copies_fields [OF t(2)] tf4(6) by simp
    moreover have "decoded (put_item (dist, lc)) (item_size (dist, lc)) s t"
      using frame_copies [OF t(2)] tf4(3,5) copies_call_ok [OF ok t(2)] D(1,2,4) h assms(4)
      by (simp add: decoded_def put_item_def item_size_def)
    ultimately show ?thesis by (simp add: fast_decoded_def)
  qed
  ultimately show ?thesis by blast
qed

end

section \<open>Leaving the fast loop\<close>

lemma byte_bits_drop: "byte_bits (drop k bs) = drop (8 * k) (byte_bits bs)"
proof (induction bs arbitrary: k)
  case (Cons b bs)
  then show ?case by (cases k) simp_all
qed simp

text \<open>The bytes go back when the bits to come are an end of those at the entry, where there were less than eight in the accumulator.\<close>

lemma return_unused_ready:
  assumes "bitcnt s < 8" "acc_ok t" "input_bits s = v @ input_bits t"
  shows "\<exists>u. return_unused (next_in s) t = Some u \<and> same_but_bits t u \<and> acc_ok u \<and> input_bits u = input_bits t \<and> bitcnt u < 8"
proof -
  let ?inp = "next_in s" and ?n = "bitcnt t div 8" and ?m = "bitcnt t mod 8"
  let ?k = "length ?inp - avail_in t"
  let ?u = "t \<lparr> next_in := drop (?k - ?n) ?inp, bitcnt := bitcnt t - 8 * ?n, hold := hold t AND (push_bit (bitcnt t - 8 * ?n) 1 - 1) \<rparr>"
  have len: "bitcnt s + 8 * avail_in s = length v + (bitcnt t + 8 * avail_in t)"
    using arg_cong [OF assms(3), of length] by (simp add: length_input_bits)
  have nk: "?n \<le> ?k" "avail_in t + ?n \<le> avail_in s" using len assms(1) by linarith+
  have m: "bitcnt t - 8 * ?n = ?m" by (simp add: minus_mult_div_eq_mod)
  have hold: "hold ?u = take_bit ?m (hold t)" by (simp add: m take_bit_eq_mask mask_eq_exp_minus_1)
  have tail: "byte_bits (drop (?k - ?n) ?inp) = drop ?m (input_bits t)"
  proof -
    have "drop (length (input_bits s) - 8 * (avail_in t + ?n)) (input_bits s) = byte_bits (drop (?k - ?n) ?inp)"
    proof -
      have "length (input_bits s) - 8 * (avail_in t + ?n) = bitcnt s + 8 * (?k - ?n)"
        using nk by (simp add: length_input_bits)
      then show ?thesis by (simp add: input_bits_def byte_bits_drop)
    qed
    moreover have "length (input_bits s) - 8 * (avail_in t + ?n) = length v + ?m"
      using len by (simp add: length_input_bits) (use m in linarith)
    ultimately have "drop (length v + ?m) (input_bits s) = byte_bits (drop (?k - ?n) ?inp)" by (simp only:)
    then show ?thesis by (simp add: assms(3))
  qed
  have "take ?m (input_bits t) = bits ?m (hold t)"
    by (simp add: input_bits_def bits_prefix)
  moreover have "bits ?m (take_bit ?m (hold t)) = bits ?m (hold t)" by (rule bits_cong) (simp add: bit_take_bit_iff)
  moreover have "input_bits ?u = bits ?m (hold ?u) @ byte_bits (drop (?k - ?n) ?inp)" by (simp add: input_bits_def m)
  ultimately have "input_bits ?u = take ?m (input_bits t) @ drop ?m (input_bits t)" unfolding hold tail by (simp only:)
  then have "input_bits ?u = input_bits t" by (simp only: append_take_drop_id)
  moreover have "return_unused ?inp t = Some ?u" using nk by (simp add: return_unused_def Let_def)
  moreover have "acc_ok ?u"
    using hold by (auto simp: acc_ok_def m bit_take_bit_iff)
  moreover have "same_but_bits t ?u" by (simp add: same_but_bits_def)
  moreover have "bitcnt ?u < 8" by (simp add: m)
  ultimately show ?thesis by blast
qed

section \<open>Blocks\<close>

text \<open>The items have room and reach no further back than there is history.\<close>

fun items_fit :: "(ushort \<times> byte) list \<Rightarrow> byte list \<Rightarrow> nat \<Rightarrow> bool" where
  "items_fit [] h left \<longleftrightarrow> True"
| "items_fit (x # xs) h left \<longleftrightarrow> item_size x \<le> left \<and> reaches_back x h \<and> items_fit xs (put_item x h) (left - item_size x)"

abbreviation items_size :: "(ushort \<times> byte) list \<Rightarrow> nat" where
  "items_size xs \<equiv> sum_list (map item_size xs)"

lemma decoded_refl: "call_ok s \<Longrightarrow> decoded (fold put_item []) (items_size []) s s"
  by (simp add: decoded_def)

lemma decoded_Cons:
  "decoded (put_item x) (item_size x) s t \<Longrightarrow> decoded (fold put_item xs) (items_size xs) t u \<Longrightarrow>
    decoded (fold put_item (x # xs)) (items_size (x # xs)) s u"
  by (simp add: decoded_def)

lemma decoded_append:
  "decoded (fold put_item xs) (items_size xs) s t \<Longrightarrow> decoded (fold put_item ys) (items_size ys) t u \<Longrightarrow>
    decoded (fold put_item (xs @ ys)) (items_size (xs @ ys)) s u"
  by (simp add: decoded_def)

lemma decoded_bits:
  assumes "decoded f n s t" "same_but_bits t u"
  shows "decoded f n s u"
proof -
  note f = same_but_bits_fields [OF assms(2)]
  show ?thesis
    using assms(1) f(2) history_frame [OF f(7,1)] call_ok_frame [OF f(7,1,2)] f(7) by (simp add: decoded_def)
qed

lemma decoded_mode: "decoded f n s (t \<lparr> mode := m \<rparr>) = decoded f n s t"
  using history_frame [of "t \<lparr> mode := m \<rparr>" t] call_ok_frame [of "t \<lparr> mode := m \<rparr>" t] by (simp add: decoded_def)

lemma fits_decoded:
  "items_fit (x # xs) (history s) (avail_out s) \<Longrightarrow> decoded (put_item x) (item_size x) s t \<Longrightarrow> items_fit xs (history t) (avail_out t)"
  by (simp add: decoded_def) (metis diff_add_inverse2)

lemma fits_drop: "items_fit (xs @ ys) h left \<Longrightarrow> items_fit ys (fold put_item xs h) (left - items_size xs)"
proof (induction xs arbitrary: h left)
  case (Cons x xs)
  then show ?case using Cons.IH [of "put_item x h" "left - item_size x"] by simp
qed simp

lemma fits_append_decoded:
  "items_fit (xs @ ys) (history s) (avail_out s) \<Longrightarrow> decoded (fold put_item xs) (items_size xs) s t \<Longrightarrow> items_fit ys (history t) (avail_out t)"
  using fits_drop [of xs ys "history s" "avail_out s"] by (simp add: decoded_def) (metis diff_add_inverse2)

lemma items_bits_append: "items_bits ltree dtree (xs @ ys) = items_bits ltree dtree xs @ items_bits ltree dtree ys"
  by (simp add: items_bits_def)

lemma items_bits_Cons: "items_bits ltree dtree (x # xs) = item_bits ltree dtree x @ items_bits ltree dtree xs"
  by (simp add: items_bits_def)

context block_tables
begin

text \<open>The fast loop decodes at least one item, if there is one, and stops before an item or after the end of the block.\<close>

lemma fast_item:
  assumes "uses_tables Tl rl Td rd s" "block_ok s" "item_ok ltree dtree x" "258 \<le> avail_out s" "acc_ok s"
    "reaches_back x (history s)" "input_bits s = item_bits ltree dtree x @ rest" "48 \<le> length (input_bits s)"
  shows "\<exists>t. fast_step (out_start s) s = Some (Next t) \<and> fast_decoded x rest s t"
proof -
  obtain dist lc where x: "x = (dist, lc)" by (cases x)
  show ?thesis
  proof (cases "dist = 0")
    case True
    then show ?thesis using fast_literal [of s lc rest "out_start s"] assms x by simp
  next
    case False
    then show ?thesis using fast_match [OF assms(1,2) _ False assms(4,5) _ _ assms(8), of lc rest] assms(3,6,7) x
      by (simp add: reaches_back_def)
  qed
qed

definition fast_stop :: "(ushort \<times> byte) list \<Rightarrow> bool list \<Rightarrow> inflate_call \<Rightarrow> inflate_call \<Rightarrow> bool" where
  "fast_stop xs rest s t \<longleftrightarrow> acc_ok t \<and>
    ((\<exists>ys zs. xs = ys @ zs \<and> ys \<noteq> [] \<and> mode t = LEN \<and> decoded (fold put_item ys) (items_size ys) s t \<and>
       input_bits t = items_bits ltree dtree zs @ code_bits ltree 256 @ rest) \<or>
     mode t = TYPE_MODE \<and> decoded (fold put_item xs) (items_size xs) s t \<and> input_bits t = rest)"

lemma fast_stop_Cons:
  assumes "fast_decoded x bs s t" "fast_stop xs rest t u"
  shows "fast_stop (x # xs) rest s u"
proof -
  have d: "decoded (put_item x) (item_size x) s t" using assms(1) by (simp add: fast_decoded_def)
  have "\<exists>ys' zs'. x # xs = ys' @ zs' \<and> ys' \<noteq> [] \<and> mode u = LEN \<and> decoded (fold put_item ys') (items_size ys') s u \<and>
       input_bits u = items_bits ltree dtree zs' @ code_bits ltree 256 @ rest"
    if "xs = ys @ zs" "mode u = LEN" "decoded (fold put_item ys) (items_size ys) t u"
      "input_bits u = items_bits ltree dtree zs @ code_bits ltree 256 @ rest" for ys zs
    using that decoded_Cons [OF d that(3)] by (intro exI [of _ "x # ys"] exI [of _ zs]) simp
  moreover have "decoded (fold put_item (x # xs)) (items_size (x # xs)) s u" if "decoded (fold put_item xs) (items_size xs) t u"
    by (rule decoded_Cons [OF d that])
  ultimately show ?thesis using assms(2) unfolding fast_stop_def by blast
qed

lemma fast_loop_items:
  "mode s = LEN \<Longrightarrow> uses_tables Tl rl Td rd s \<Longrightarrow> block_ok s \<Longrightarrow> \<forall>x \<in> set xs. item_ok ltree dtree x \<Longrightarrow> Len (ltree ! 256) \<noteq> 0 \<Longrightarrow>
    items_fit xs (history s) (avail_out s) \<Longrightarrow> acc_ok s \<Longrightarrow> input_bits s = items_bits ltree dtree xs @ code_bits ltree 256 @ rest \<Longrightarrow>
    5 < avail_in s \<Longrightarrow> 257 < avail_out s \<Longrightarrow> out_start s = start \<Longrightarrow>
    \<exists>t. fast_loop start s = Some t \<and> fast_stop xs rest s t"
proof (induction xs arbitrary: s)
  case Nil
  have ib: "input_bits s = code_bits ltree 256 @ rest" using Nil(8) by (simp add: items_bits_def)
  have long: "24 \<le> length (input_bits s)" using Nil(9) by (simp add: length_input_bits)
  obtain t where t: "fast_step start s = Some (Break (t \<lparr> mode := TYPE_MODE \<rparr>))" "left_with rest s t"
    using fast_end_of_block [OF Nil(2,7) ib Nil(5) long] by blast
  have lw: "fast_loop start s = Some (t \<lparr> mode := TYPE_MODE \<rparr>)" by (subst fast_loop.simps) (simp add: t(1))
  have "call_ok s" using Nil(3) by (simp add: block_ok_def)
  then have "decoded (fold put_item []) (items_size []) s t" using t(2) decoded_bits [OF decoded_refl] by (simp add: left_with_def)
  then have "fast_stop [] rest s (t \<lparr> mode := TYPE_MODE \<rparr>)"
    using t(2) decoded_mode by (simp add: fast_stop_def left_with_def acc_ok_def input_bits_def)
  then show ?case using lw by blast
next
  case (Cons x xs)
  have ib: "input_bits s = item_bits ltree dtree x @ items_bits ltree dtree xs @ code_bits ltree 256 @ rest"
    using Cons.prems(8) by (simp add: items_bits_Cons)
  have long: "48 \<le> length (input_bits s)" using Cons.prems(9) by (simp add: length_input_bits)
  have rb: "reaches_back x (history s)" "item_ok ltree dtree x" "258 \<le> avail_out s" using Cons.prems(4,6,10) by simp_all
  obtain t where t: "fast_step start s = Some (Next t)" "fast_decoded x (items_bits ltree dtree xs @ code_bits ltree 256 @ rest) s t"
    using fast_item [OF Cons.prems(2,3) rb(2,3) Cons.prems(7) rb(1) ib long] Cons.prems(11) by auto
  have tt: "acc_ok t" "input_bits t = items_bits ltree dtree xs @ code_bits ltree 256 @ rest" "mode t = LEN"
      "decoded (put_item x) (item_size x) s t" using t(2) Cons.prems(1) by (simp_all add: fast_decoded_def)
  have fr: "frame t = frame s" "call_ok t" using tt(4) by (simp_all add: decoded_def)
  show ?case
  proof (cases "5 < avail_in t \<and> 257 < avail_out t")
    case True
    have step: "fast_loop start s = fast_loop start t" by (subst fast_loop.simps) (simp add: t(1) True)
    obtain u where "fast_loop start t = Some u" "fast_stop xs rest t u"
      using Cons.IH [OF tt(3) _ block_ok_frame [OF Cons.prems(3) fr(2,1)] _ Cons.prems(5) fits_decoded [OF Cons.prems(6) tt(4)] tt(1,2)]
        uses_tables_frame [OF fr(1)] Cons.prems(2,4,11) True frame_fields(2) [OF fr(1)] by auto
    then show ?thesis using step fast_stop_Cons [OF t(2)] by auto
  next
    case False
    have step: "fast_loop start s = Some t" by (subst fast_loop.simps) (use False in \<open>auto simp: t(1)\<close>)
    have "decoded (fold put_item [x]) (items_size [x]) s t" using tt(4) by (simp add: decoded_def)
    then have "fast_stop (x # xs) rest s t"
      unfolding fast_stop_def using tt(1-3) by (intro conjI disjI1 exI [of _ "[x]"] exI [of _ xs]) simp_all
    then show ?thesis using step by blast
  qed
qed

lemma slow_end:
  assumes "mode s = LEN" "uses_tables Tl rl Td rd s" "call_ok s" "ready (code_bits ltree 256 @ rest) s" "Len (ltree ! 256) \<noteq> 0"
    "\<not> (6 \<le> avail_in s \<and> 258 \<le> avail_out s)"
  shows "\<exists>t. inflate_reaches flush s t \<and> mode t = TYPE_MODE \<and> ready rest t \<and> decoded (fold put_item []) (items_size []) s t"
proof -
  obtain u where u: "used_bits (length (code_bits ltree 256)) s u" "do_LEN_slow s = len_entry_mode (el 0 256) u"
    using do_LEN_slow_code [OF assms(2,4) _ assms(5)] by auto
  let ?t = "u \<lparr> length_of := ucast (val (el 0 256)), mode := TYPE_MODE \<rparr>"
  have z: "nbits (el 0 256) = 0" using len.entry_bits [of 0 256] by (simp add: unat_eq_0)
  have "do_LEN s = Again ?t"
    using u(2) assms(6) len_op_val(2) [of 0] z by (auto simp: do_LEN_def len_entry_mode_def)
  then have r: "inflate_reaches flush s ?t" using assms(1) by (intro inflate_reaches_round) (simp add: inflate_switch_def)
  have f: "same_but_bits s u" "ready rest u" using u(1) assms(4) by (auto simp: used_bits_def)
  note d = decoded_bits [OF decoded_refl [OF assms(3)] f(1)]
  have "decoded (fold put_item []) (items_size []) s ?t"
    using d history_frame [of ?t u] call_ok_frame [of ?t u] by (simp add: decoded_def)
  then show ?thesis using r f(2) by (intro exI [of _ ?t]) simp
qed

lemma slow_item:
  assumes "mode s = LEN" "uses_tables Tl rl Td rd s" "block_ok s" "item_ok ltree dtree x" "item_size x \<le> avail_out s"
    "reaches_back x (history s)" "ready (item_bits ltree dtree x @ rest) s" "\<not> (6 \<le> avail_in s \<and> 258 \<le> avail_out s)"
  shows "\<exists>t. inflate_reaches flush s t \<and> mode t = LEN \<and> ready rest t \<and> decoded (put_item x) (item_size x) s t"
proof -
  obtain dist lc where x: "x = (dist, lc)" by (cases x)
  show ?thesis
  proof (cases "dist = 0")
    case True
    then show ?thesis using slow_literal [of s lc rest flush] assms x by (simp add: item_size_def)
  next
    case False
    then show ?thesis using slow_match [of s dist lc rest flush] assms x by (simp add: item_size_def reaches_back_def)
  qed
qed

lemma do_LEN_fast:
  assumes "mode s = LEN" "uses_tables Tl rl Td rd s" "block_ok s" "\<forall>x \<in> set xs. item_ok ltree dtree x" "Len (ltree ! 256) \<noteq> 0"
    "items_fit xs (history s) (avail_out s)" "ready (items_bits ltree dtree xs @ code_bits ltree 256 @ rest) s"
    "6 \<le> avail_in s" "258 \<le> avail_out s"
  shows "\<exists>t. inflate_switch flush s = Again t \<and> bitcnt t < 8 \<and> fast_stop xs rest s t"
proof -
  have r: "acc_ok s" "input_bits s = items_bits ltree dtree xs @ code_bits ltree 256 @ rest" "bitcnt s < 8"
    using assms(7) by (simp_all add: ready_def)
  obtain t where t: "fast_loop (out_start s) s = Some t" "fast_stop xs rest s t"
    using fast_loop_items [OF assms(1-6) r(1,2)] assms(8,9) by auto
  have "\<exists>v. input_bits s = v @ input_bits t"
    using t(2) r(2) by (auto simp: fast_stop_def items_bits_append)
  then obtain v where "input_bits s = v @ input_bits t" ..
  then obtain u where u: "return_unused (next_in s) t = Some u" "same_but_bits t u" "acc_ok u" "input_bits u = input_bits t" "bitcnt u < 8"
    using return_unused_ready [OF r(3), of t v] t(2) by (auto simp: fast_stop_def)
  have "inflate_switch flush s = Again u"
    using assms(1,8,9) t(1) u(1) by (simp add: inflate_switch_def do_LEN_def inflate_fast_def getting_def)
  moreover have "fast_stop xs rest s u"
    using t(2) u(3,4) decoded_bits [OF _ u(2)] same_but_bits_fields(6) [OF u(2)] unfolding fast_stop_def by metis
  ultimately show ?thesis using u(5) by blast
qed

text \<open>A block from its first item to the next \<open>TYPE\<close>.\<close>

lemma block_reaches:
  "mode s = LEN \<Longrightarrow> uses_tables Tl rl Td rd s \<Longrightarrow> block_ok s \<Longrightarrow> \<forall>x \<in> set xs. item_ok ltree dtree x \<Longrightarrow> Len (ltree ! 256) \<noteq> 0 \<Longrightarrow>
    items_fit xs (history s) (avail_out s) \<Longrightarrow> ready (items_bits ltree dtree xs @ code_bits ltree 256 @ rest) s \<Longrightarrow>
    \<exists>t. inflate_reaches flush s t \<and> mode t = TYPE_MODE \<and> ready rest t \<and> decoded (fold put_item xs) (items_size xs) s t"
proof (induction "length xs" arbitrary: xs s rule: less_induct)
  case less
  have ok: "call_ok s" using less.prems(3) by (simp add: block_ok_def)
  have again: "\<exists>t. inflate_reaches flush s t \<and> mode t = TYPE_MODE \<and> ready rest t \<and> decoded (fold put_item xs) (items_size xs) s t"
    if r: "inflate_reaches flush s u" and p: "xs = ys @ zs" "ys \<noteq> []" "mode u = LEN" "decoded (fold put_item ys) (items_size ys) s u"
      "ready (items_bits ltree dtree zs @ code_bits ltree 256 @ rest) u" for u ys zs
  proof -
    have fr: "frame u = frame s" "call_ok u" using p(4) by (simp_all add: decoded_def)
    have tab: "uses_tables Tl rl Td rd u" using uses_tables_frame [OF fr(1)] less.prems(2) by simp
    have fit: "items_fit zs (history u) (avail_out u)" using fits_append_decoded [OF _ p(4)] less.prems(6) p(1) by simp
    obtain t where "inflate_reaches flush u t" "mode t = TYPE_MODE" "ready rest t" "decoded (fold put_item zs) (items_size zs) u t"
      using less.hyps [OF _ p(3) tab block_ok_frame [OF less.prems(3) fr(2,1)] _ less.prems(5) fit p(5)] less.prems(4) p(1,2) by auto
    then show ?thesis using inflate_reaches_trans [OF r] decoded_append [OF p(4)] p(1) by blast
  qed
  show ?case
  proof (cases "6 \<le> avail_in s \<and> 258 \<le> avail_out s")
    case True
    obtain u where u: "inflate_switch flush s = Again u" "bitcnt u < 8" "fast_stop xs rest s u"
      using do_LEN_fast [OF less.prems] True by blast
    note step = inflate_reaches_round [OF u(1)]
    have "acc_ok u" using u(3) by (simp add: fast_stop_def)
    then have rd: "ready (input_bits u) u" using u(2) by (simp add: ready_def)
    from u(3) consider (some) ys zs where "xs = ys @ zs" "ys \<noteq> []" "mode u = LEN" "decoded (fold put_item ys) (items_size ys) s u"
        "input_bits u = items_bits ltree dtree zs @ code_bits ltree 256 @ rest"
      | (all) "mode u = TYPE_MODE" "decoded (fold put_item xs) (items_size xs) s u" "input_bits u = rest"
      unfolding fast_stop_def by blast
    then show ?thesis
    proof cases
      case some
      then show ?thesis using again [OF step some(1-4)] rd by simp
    next
      case all
      then show ?thesis using step rd by blast
    qed
  next
    case False
    show ?thesis
    proof (cases xs)
      case Nil
      then show ?thesis using slow_end [OF less.prems(1,2) ok _ less.prems(5) False] less.prems(7) by (simp add: items_bits_def)
    next
      case (Cons x zs)
      obtain u where u: "inflate_reaches flush s u" "mode u = LEN" "ready (items_bits ltree dtree zs @ code_bits ltree 256 @ rest) u"
          "decoded (put_item x) (item_size x) s u"
        using slow_item [OF less.prems(1-3) _ _ _ _ False, of x "items_bits ltree dtree zs @ code_bits ltree 256 @ rest"] less.prems(4,6,7) Cons
        by (auto simp: items_bits_Cons)
      have "decoded (fold put_item [x]) (items_size [x]) s u" using u(4) by (simp add: decoded_def)
      then show ?thesis using again [OF u(1), of "[x]" zs] u(2,3) Cons by simp
    qed
  qed
qed

end

end
