(* ===== verification/Inflate_Roundtrip.thy ===== *)
theory Inflate_Roundtrip
  imports Inflate_Block Tree_Blocks
begin

text \<open>
  What the compressor has sent, \<^verbatim>\<open>src/AOS/aos/zlib/trees.c\<close>, through the decompressor,
  \<^verbatim>\<open>src/AOS/aos/zlib/inflate.c\<close>: blocks with the static trees and stored blocks.
\<close>

interpretation fixed_block: block_tables "\<lambda>i. peek lenfix i" 9 "{..<288}" "code_bits static_ltree" fixed_len_entry
    "\<lambda>i. peek distfix i" 5 "{..<32}" fixed_dist_word dist_entry static_ltree static_dtree
proof (unfold_locales, goal_cases)
  case (1 c)
  then show ?case by simp
next
  case (2 d)
  then show ?case using static_dist_word by simp
next
  case (3 c n)
  then show ?case by (simp add: fixed_len_entry_def)
next
  case (4 d n)
  then show ?case by simp
next
  case (5 d n)
  then show ?case using dext_leaf [of d] by (simp add: dist_entry_def)
qed

section \<open>The header of a block\<close>

lemma block_header_bits:
  "bits 3 (push_bit 1 STATIC_TREES + of_bool eof) = [eof, True, False]"
  "unat (push_bit 1 STATIC_TREES + of_bool eof) < 2 ^ 3"
proof -
  have "bits 3 (unat (3 :: uint)) = [True, True, False]" "bits 3 (unat (2 :: uint)) = [False, True, False]"
    by (simp_all add: bits_def upt_rec bit_numeral_rec bit_Suc_0_iff)
  then have "bits 3 (3 :: uint) = [True, True, False]" "bits 3 (2 :: uint) = [False, True, False]"
    by (simp_all only: bits_unat)
  then show "bits 3 (push_bit 1 STATIC_TREES + of_bool eof) = [eof, True, False]"
    by (cases eof) (simp_all add: STATIC_TREES_def)
  show "unat (push_bit 1 STATIC_TREES + of_bool eof) < 2 ^ 3"
    by (cases eof) (simp_all add: STATIC_TREES_def)
qed

text \<open>\<open>TYPEDO\<close> reads the three bits and goes on according to the type.\<close>

lemma TYPEDO_reads:
  assumes "\<not> last_block s" "ready ([eof, a, b] @ rest) s"
  shows "\<exists>u. do_TYPEDO s = Again (DROPBITS 2 (let s = u \<lparr> last_block := eof \<rparr>; ty = of_bool a + 2 * of_bool b in
      if ty = (0 :: nat) then s \<lparr> mode := STORED \<rparr>
      else if ty = 1 then fixedtables s \<lparr> mode := LEN \<rparr>
      else if ty = 2 then s \<lparr> mode := TABLE \<rparr>
      else s \<lparr> msg := Some ''invalid block type'', mode := BAD \<rparr>)) \<and>
    same_but_bits s u \<and> 2 \<le> bitcnt u \<and> acc_ok u \<and> input_bits u = [a, b] @ rest \<and> bitcnt u < 10"
proof -
  have ok: "acc_ok s" "input_bits s = [eof, a, b] @ rest" "bitcnt s < 8" using assms(2) by (simp_all add: ready_def)
  obtain r t where t: "NEEDBITS 3 s = (r, t)" by fastforce
  have "fits_acc 3 s" by (simp add: fits_acc_def)
  note N = NEEDBITS_refines [OF ok(1) this, unfolded t fst_conv snd_conv]
  have r: "r" using N(1) ok(2) by simp
  have n: "3 \<le> bitcnt t" "bitcnt t \<le> 10" "input_bits t = [eof, a, b] @ rest" using N(2,5,6) r ok(2,3) by simp_all
  have "1 \<le> bitcnt t" using n(1) by simp
  note D = DROPBITS_refines [OF this]
  let ?u = "DROPBITS 1 t"
  have u: "input_bits ?u = [a, b] @ rest" "acc_ok ?u" "2 \<le> bitcnt ?u" "bitcnt ?u < 10" using D n N(3) by simp_all
  have e: "BITS 1 t \<noteq> 0 \<longleftrightarrow> eof"
  proof -
    have "unat (BITS 1 t) = of_bool eof" using unat_BITS [of 1 t] n by (simp add: bits_value_def)
    then show ?thesis by (cases eof) (auto simp: unat_eq_0)
  qed
  have v: "unat (BITS 2 ?u) = of_bool a + 2 * of_bool b"
    using unat_BITS [of 2 ?u] u by (simp add: bits_value_def eval_nat_numeral)
  have ty: "BITS 2 ?u = of_nat (of_bool a + 2 * of_bool b)" unfolding v [symmetric] by simp
  have D1: "DROPBITS n (v \<lparr> last_block := x \<rparr>) = DROPBITS n v \<lparr> last_block := x \<rparr>" "BITS n (v \<lparr> last_block := x \<rparr>) = BITS n v" for x n and v :: inflate_call
    by (simp_all add: DROPBITS_def BITS_def)
  have "do_TYPEDO s = Again (DROPBITS 2 (let s = ?u \<lparr> last_block := eof \<rparr>; ty = of_bool a + 2 * of_bool b in
      if ty = (0 :: nat) then s \<lparr> mode := STORED \<rparr>
      else if ty = 1 then fixedtables s \<lparr> mode := LEN \<rparr>
      else if ty = 2 then s \<lparr> mode := TABLE \<rparr>
      else s \<lparr> msg := Some ''invalid block type'', mode := BAD \<rparr>))"
    using assms(1) t r e ty by (cases a; cases b) (simp_all add: do_TYPEDO_def needing_def Let_def D1)
  then show ?thesis using u same_but_bits_trans [OF N(4) DROPBITS_same] by blast
qed

section \<open>A block with the static trees\<close>

text \<open>What whole blocks leave alone.\<close>

definition block_frame :: "inflate_call \<Rightarrow> inflate_call" where
  "block_frame s = frame s \<lparr> last_block := False, lencode := Len_Fixed, distcode := Len_Fixed, lenbits := 0, distbits := 0 \<rparr>"

lemma block_frame_frame: "frame s = frame t \<Longrightarrow> block_frame s = block_frame t"
  by (simp add: block_frame_def)

lemma block_frame_update [simp]:
  "block_frame (s \<lparr> last_block := b \<rparr>) = block_frame s" "block_frame (s \<lparr> lencode := p \<rparr>) = block_frame s"
  "block_frame (s \<lparr> distcode := p \<rparr>) = block_frame s" "block_frame (s \<lparr> lenbits := n \<rparr>) = block_frame s"
  "block_frame (s \<lparr> distbits := n \<rparr>) = block_frame s" "block_frame (s \<lparr> mode := m \<rparr>) = block_frame s"
  "block_frame (s \<lparr> put := q \<rparr>) = block_frame s" "block_frame (s \<lparr> avail_out := n \<rparr>) = block_frame s"
  "block_frame (s \<lparr> length_of := l \<rparr>) = block_frame s" "block_frame (s \<lparr> next_in := i \<rparr>) = block_frame s"
  "block_frame (s \<lparr> hold := h \<rparr>) = block_frame s" "block_frame (s \<lparr> bitcnt := n \<rparr>) = block_frame s"
  by (simp_all add: block_frame_def frame_def)

lemma block_frame_DROPBITS [simp]: "block_frame (DROPBITS n s) = block_frame s"
  by (simp add: DROPBITS_def)

lemma block_frame_same_but_bits: "same_but_bits s t \<Longrightarrow> block_frame t = block_frame s"
  using frame_same_but_bits block_frame_frame by blast

lemma block_frame_fields:
  assumes "block_frame s = block_frame t"
  shows "whave s = whave t" "out_start s = out_start t" "window_bytes s = window_bytes t" "window_ok s = window_ok t"
    "wrap s = wrap t" "flags s = flags t" "check s = check t" "in_start s = in_start t" "wsize s = wsize t"
proof -
  have wb: "window_bytes (block_frame u) = window_bytes u" for u
    by (simp add: block_frame_def frame_def window_bytes_def split: option.split)
  show "whave s = whave t" using arg_cong [OF assms, of whave] by (simp add: block_frame_def frame_def)
  show "out_start s = out_start t" using arg_cong [OF assms, of out_start] by (simp add: block_frame_def frame_def)
  show "wrap s = wrap t" using arg_cong [OF assms, of wrap] by (simp add: block_frame_def frame_def)
  show "flags s = flags t" using arg_cong [OF assms, of flags] by (simp add: block_frame_def frame_def)
  show "check s = check t" using arg_cong [OF assms, of check] by (simp add: block_frame_def frame_def)
  show "in_start s = in_start t" using arg_cong [OF assms, of in_start] by (simp add: block_frame_def frame_def)
  show "wsize s = wsize t" using arg_cong [OF assms, of wsize] by (simp add: block_frame_def frame_def)
  show "window_bytes s = window_bytes t" using arg_cong [OF assms, of window_bytes] by (simp add: wb)
  show "window_ok s = window_ok t" using arg_cong [OF assms, of window_ok] by (simp add: block_frame_def frame_def window_ok_def)
qed

lemma block_frame_ok:
  assumes "block_frame s = block_frame t" "put s = put t" "avail_out s = avail_out t"
  shows "history s = history t" "call_ok s = call_ok t" "block_ok s = block_ok t"
  using assms block_frame_fields [OF assms(1)] by (simp_all add: history_def call_ok_def block_ok_def)

text \<open>A block has been inflated: \<open>t\<close> is before the next one, \<open>f\<close> is what the block does to the history.\<close>

definition inflated :: "bool \<Rightarrow> bool list \<Rightarrow> (byte list \<Rightarrow> byte list) \<Rightarrow> nat \<Rightarrow> inflate_call \<Rightarrow> inflate_call \<Rightarrow> bool" where
  "inflated eof rest f n s t \<longleftrightarrow> mode t = TYPE_MODE \<and> last_block t = eof \<and> ready rest t \<and> block_frame t = block_frame s \<and>
    call_ok t \<and> history t = f (history s) \<and> avail_out t + n = avail_out s"

lemma static_block_reaches:
  assumes "mode s = TYPEDO \<or> mode s = TYPE_MODE \<and> flush \<noteq> Z_BLOCK" "\<not> last_block s" "block_ok s" "\<forall>x \<in> set xs. item_ok static_ltree static_dtree x"
    "items_fit xs (history s) (avail_out s)"
    "ready ([eof, True, False] @ items_bits static_ltree static_dtree xs @ code_bits static_ltree END_BLOCK @ rest) s"
  shows "\<exists>t. inflate_reaches flush s t \<and> inflated eof rest (fold put_item xs) (items_size xs) s t"
proof -
  let ?bs = "items_bits static_ltree static_dtree xs @ code_bits static_ltree END_BLOCK @ rest"
  obtain u where u: "do_TYPEDO s = Again (DROPBITS 2 (fixedtables (u \<lparr> last_block := eof \<rparr>) \<lparr> mode := LEN \<rparr>))"
      "same_but_bits s u" "2 \<le> bitcnt u" "acc_ok u" "input_bits u = [True, False] @ ?bs" "bitcnt u < 10"
    using TYPEDO_reads [OF assms(2,6)] by auto
  note f = same_but_bits_fields [OF u(2)]
  let ?t = "DROPBITS 2 (fixedtables (u \<lparr> last_block := eof \<rparr>) \<lparr> mode := LEN \<rparr>)"
  have first: "inflate_reaches flush s ?t" using u(1) assms(1)
    by (intro inflate_reaches_round) (auto simp: inflate_switch_def do_TYPE_def)
  have t: "mode ?t = LEN" "last_block ?t = eof" "block_frame ?t = block_frame s" "put ?t = put s" "avail_out ?t = avail_out s"
    using f block_frame_same_but_bits [OF u(2)] by (simp_all add: DROPBITS_def fixedtables_def)
  have tab: "uses_tables (\<lambda>i. peek lenfix i) 9 (\<lambda>i. peek distfix i) 5 ?t"
    by (simp add: uses_tables_def DROPBITS_def fixedtables_def table_at_def)
  have D: "ready ?bs (DROPBITS 2 u)" using DROPBITS_refines [OF u(3)] u(4-6) by (simp add: ready_def)
  have "ready ?bs ?t = ready ?bs (DROPBITS 2 u)" by (rule ready_cong) (simp_all add: DROPBITS_def fixedtables_def)
  then have r: "ready ?bs ?t" using D by simp
  note e = block_frame_ok [OF t(3-5)]
  have "Len (static_ltree ! 256) \<noteq> 0" by (rule static_lens_nonzero(1)) simp
  then obtain v where v: "inflate_reaches flush ?t v" "mode v = TYPE_MODE" "ready rest v" "decoded (fold put_item xs) (items_size xs) ?t v"
    using fixed_block.block_reaches [OF t(1) tab _ assms(4), of rest flush] assms(3,5) r e t(5) by (auto simp: END_BLOCK_def)
  have fr: "frame v = frame ?t" using v(4) by (simp add: decoded_def)
  have "inflated eof rest (fold put_item xs) (items_size xs) s v"
    using v(2-4) frame_fields(13) [OF fr] block_frame_frame [OF fr] t e(1) by (simp add: inflated_def decoded_def)
  then show ?thesis using inflate_reaches_trans [OF first v(1)] by blast
qed

section \<open>A stored block\<close>

text \<open>The accumulator with the two lengths of a stored block.\<close>

lemma stored_lengths:
  fixes h :: ulong and n :: ushort
  assumes "bits 32 h = bits 16 n @ bits 16 (NOT n)"
  shows "h AND 0xffff = ucast n" "drop_bit 16 h XOR 0xffff = ucast n"
proof -
  have h: "bit h i \<longleftrightarrow> (if i < 16 then bit n i else \<not> bit n (i - 16))" if "i < 32" for i
    using arg_cong [OF assms, of "\<lambda>l. l ! i"] that by (auto simp: nth_append bit_not_iff)
  have m: "(0xffff :: ulong) = mask 16" by (simp add: mask_eq_exp_minus_1)
  have hi: "\<not> bit h i" if "32 \<le> i" for i using that bit_beyond [of i h] by simp
  have nb: "\<not> bit n i" if "16 \<le> i" for i using that by (auto dest: bit_imp_le_length)
  show "h AND 0xffff = ucast n"
    unfolding m by (rule bit_word_eqI) (use h nb in \<open>auto simp: bit_simps\<close>)
  show "drop_bit 16 h XOR 0xffff = ucast n"
    unfolding m by (rule bit_word_eqI) (use h hi nb in \<open>auto simp: bit_simps\<close>)
qed

text \<open>With an empty accumulator, the bits to come are those of the bytes.\<close>

lemma empty_acc_bytes: "bitcnt s = 0 \<Longrightarrow> input_bits s = byte_bits (next_in s)"
  by (simp add: input_bits_def)

lemma byte_bits_split:
  assumes "byte_bits xs = byte_bits data @ rest"
  shows "take (length data) xs = data" "byte_bits (drop (length data) xs) = rest"
proof -
  have l: "length data \<le> length xs" using arg_cong [OF assms, of length] by simp
  have "byte_bits (take (length data) xs) @ byte_bits (drop (length data) xs) = byte_bits data @ rest"
    using assms by (simp flip: byte_bits_append)
  then have "byte_bits (take (length data) xs) = byte_bits data \<and> byte_bits (drop (length data) xs) = rest"
    using l by (subst (asm) append_eq_append_conv) simp_all
  then show "take (length data) xs = data" "byte_bits (drop (length data) xs) = rest"
    using byte_bits_inject by blast+
qed

lemma COPY_reaches:
  assumes "mode s = COPY" "bitcnt s = 0" "hold s = 0" "input_bits s = byte_bits data @ rest" "unat (length_of s) = length data"
    "length data \<le> avail_out s" "call_ok s"
  shows "\<exists>t. inflate_reaches flush s t \<and> inflated (last_block s) rest (\<lambda>h. h @ data) (length data) s t"
proof -
  have d: "take (length data) (next_in s) = data" "byte_bits (drop (length data) (next_in s)) = rest"
    using byte_bits_split [of "next_in s" data rest] assms(4) empty_acc_bytes [OF assms(2)] by simp_all
  have le: "length data \<le> avail_in s" using arg_cong [OF d(1), of length] by simp
  let ?t = "s \<lparr> put := put s @ data, next_in := drop (length data) (next_in s), avail_out := avail_out s - length data, length_of := 0 \<rparr>"
  have copy: "inflate_reaches flush s ?t"
  proof (cases "data = []")
    case True
    then have "length_of s = 0" using assms(5) by (simp add: unat_eq_0)
    then have "?t = s" using True by simp
    then show ?thesis by (simp add: inflate_reaches.here)
  next
    case False
    then have n: "length_of s \<noteq> 0" "length data \<noteq> 0" using assms(5) by (auto simp: unat_eq_0)
    have cp: "min (min (unat (length_of s)) (avail_in s)) (avail_out s) = length data" using assms(5,6) le by simp
    have z: "length_of s - of_nat (length data) = 0" unfolding assms(5) [symmetric] by simp
    have "do_COPY s = Again ?t" using n cp z d(1) by (simp add: do_COPY_def Let_def)
    then show ?thesis using assms(1) by (intro inflate_reaches_round) (simp add: inflate_switch_def)
  qed
  let ?u = "?t \<lparr> mode := TYPE_MODE \<rparr>"
  have "do_COPY ?t = Again ?u" by (simp add: do_COPY_def)
  then have "inflate_reaches flush ?t ?u" using assms(1) by (intro inflate_reaches_round) (simp add: inflate_switch_def)
  then have r: "inflate_reaches flush s ?u" using inflate_reaches_trans [OF copy] by blast
  have f: "block_frame ?u = block_frame s" by simp
  have "call_ok ?u" using assms(6,7) block_frame_fields(2,4) [OF f] by (simp add: call_ok_def)
  moreover have "history ?u = history s @ data" using block_frame_fields(3) [OF f] by (simp add: history_def)
  moreover have "ready rest ?u" using assms(2,3) d(2) by (simp add: ready_def acc_ok_def input_bits_def)
  ultimately have "inflated (last_block s) rest (\<lambda>h. h @ data) (length data) s ?u"
    using assms(6) f by (simp add: inflated_def)
  then show ?thesis using r by blast
qed

lemma STORED_reaches:
  fixes n :: ushort
  assumes "mode s = STORED" "ready (pad @ bits 16 n @ bits 16 (NOT n) @ byte_bits data @ rest) s" "length pad < 8" "8 dvd length rest"
    "unat n = length data" "length data \<le> avail_out s" "call_ok s"
  shows "\<exists>t. inflate_reaches flush s t \<and> inflated (last_block s) rest (\<lambda>h. h @ data) (length data) s t"
proof -
  let ?bs = "bits 16 n @ bits 16 (NOT n) @ byte_bits data @ rest"
  have ok: "acc_ok s" "input_bits s = pad @ ?bs" "bitcnt s < 8" using assms(2) by (simp_all add: ready_def)
  have "bitcnt s + 8 * avail_in s = length pad + 32 + 8 * length data + length rest"
    using arg_cong [OF ok(2), of length] by (simp add: length_input_bits)
  then have bc: "bitcnt s = length pad" using ok(3) assms(3,4) by presburger
  let ?u = "BYTEBITS s"
  have u: "acc_ok ?u" "input_bits ?u = ?bs" "bitcnt ?u = 0"
    using BYTEBITS_refines(1,2) [of s] ok bc by (simp_all add: BYTEBITS_def)
  obtain r v where v: "NEEDBITS 32 ?u = (r, v)" by fastforce
  have "fits_acc 32 ?u" using u(3) by (simp add: fits_acc_def)
  note N = NEEDBITS_refines [OF u(1) this, unfolded v fst_conv snd_conv]
  have r: "r" using N(1) u(2) by simp
  have vb: "input_bits v = ?bs" "32 \<le> bitcnt v" "bitcnt v \<le> 39" using N(2,5,6) r u(2,3) by simp_all
  have "bitcnt v \<le> 32" using N(3) by (simp add: acc_ok_def)
  then have bv: "bitcnt v = 32" using vb(2) by simp
  have "bits 32 (hold v) @ byte_bits (next_in v) = (bits 16 n @ bits 16 (NOT n)) @ byte_bits data @ rest"
    using vb(1) bv by (simp add: input_bits_def)
  then have h: "bits 32 (hold v) = bits 16 n @ bits 16 (NOT n)" "byte_bits (next_in v) = byte_bits data @ rest"
    by (subst (asm) append_eq_append_conv, simp, simp)+
  note L = stored_lengths [OF h(1)]
  let ?w = "INITBITS (v \<lparr> length_of := hold v AND 0xffff, mode := COPY \<rparr>)"
  have "do_STORED s = Again ?w" using v r L by (simp add: do_STORED_def needing_def)
  then have first: "inflate_reaches flush s ?w" using assms(1) by (intro inflate_reaches_round) (simp add: inflate_switch_def)
  have same: "same_but_bits s v" using same_but_bits_trans [OF _ N(4)] by (simp add: BYTEBITS_DROPBITS DROPBITS_same)
  note f = same_but_bits_fields [OF same]
  have w: "block_frame ?w = block_frame s" "put ?w = put s" "avail_out ?w = avail_out s"
    using f block_frame_same_but_bits [OF same] by (simp_all add: INITBITS_def)
  have ld: "unat (ucast n :: uint) = length data" using assms(5) by (simp add: unat_ucast_ushort)
  have ib: "input_bits ?w = byte_bits data @ rest" using h(2) by (simp add: input_bits_def INITBITS_def)
  have lb: "last_block ?w = last_block s" using frame_fields(13) [OF f(7)] by (simp add: INITBITS_def)
  note e = block_frame_ok [OF w]
  have a6: "length data \<le> avail_out ?w" "call_ok ?w" using assms(6,7) w(3) e(2) by simp_all
  have "unat (length_of ?w) = length data" using L(1) ld by (simp add: INITBITS_def)
  then obtain t where "inflate_reaches flush ?w t" "inflated (last_block ?w) rest (\<lambda>h. h @ data) (length data) ?w t"
    using COPY_reaches [OF _ _ _ ib _ a6, of flush] by (auto simp: INITBITS_def)
  then have "inflate_reaches flush ?w t \<and> inflated (last_block s) rest (\<lambda>h. h @ data) (length data) s t"
    using lb w e(1) by (simp add: inflated_def)
  then show ?thesis using inflate_reaches_trans [OF first] by blast
qed

lemma stored_block_reaches:
  fixes n :: ushort
  assumes "mode s = TYPEDO \<or> mode s = TYPE_MODE \<and> flush \<noteq> Z_BLOCK" "\<not> last_block s" "block_ok s" "unat n = length data" "length data \<le> avail_out s"
    "ready ([eof, False, False] @ pad @ bits 16 n @ bits 16 (NOT n) @ byte_bits data @ rest) s" "length pad < 8" "8 dvd length rest"
  shows "\<exists>t. inflate_reaches flush s t \<and> inflated eof rest (\<lambda>h. h @ data) (length data) s t"
proof -
  let ?bs = "pad @ bits 16 n @ bits 16 (NOT n) @ byte_bits data @ rest"
  obtain u where u: "do_TYPEDO s = Again (DROPBITS 2 (u \<lparr> last_block := eof, mode := STORED \<rparr>))"
      "same_but_bits s u" "2 \<le> bitcnt u" "acc_ok u" "input_bits u = [False, False] @ ?bs" "bitcnt u < 10"
    using TYPEDO_reads [OF assms(2,6)] by auto
  note f = same_but_bits_fields [OF u(2)]
  let ?t = "DROPBITS 2 (u \<lparr> last_block := eof, mode := STORED \<rparr>)"
  have first: "inflate_reaches flush s ?t" using u(1) assms(1)
    by (intro inflate_reaches_round) (auto simp: inflate_switch_def do_TYPE_def)
  have t: "mode ?t = STORED" "last_block ?t = eof" "block_frame ?t = block_frame s" "put ?t = put s" "avail_out ?t = avail_out s"
    using f block_frame_same_but_bits [OF u(2)] by (simp_all add: DROPBITS_def)
  have D: "ready ?bs (DROPBITS 2 u)" using DROPBITS_refines [OF u(3)] u(4-6) by (simp add: ready_def)
  have "ready ?bs ?t = ready ?bs (DROPBITS 2 u)" by (rule ready_cong) (simp_all add: DROPBITS_def)
  then have r: "ready ?bs ?t" using D by simp
  note e = block_frame_ok [OF t(3-5)]
  have a: "length data \<le> avail_out ?t" "call_ok ?t" using assms(3,5) t(5) e(2) by (simp_all add: block_ok_def)
  obtain v where "inflate_reaches flush ?t v" "inflated (last_block ?t) rest (\<lambda>h. h @ data) (length data) ?t v"
    using STORED_reaches [OF t(1) r assms(7,8,4) a, of flush] by blast
  then have "inflate_reaches flush ?t v \<and> inflated eof rest (\<lambda>h. h @ data) (length data) s v"
    using t(2,3,5) e(1) by (simp add: inflated_def)
  then show ?thesis using inflate_reaches_trans [OF first] by blast
qed

section \<open>The end of the stream\<close>

text \<open>After the last block of a raw stream.\<close>

lemma last_block_ends:
  assumes "mode s = TYPE_MODE" "last_block s" "wrap s = 0" "flush \<noteq> Z_BLOCK"
  shows "inflate_loop flush s = Some (Leave Z_STREAM_END (BYTEBITS s \<lparr> mode := DONE \<rparr>))"
proof -
  let ?c = "BYTEBITS s \<lparr> mode := CHECK \<rparr>"
  have w: "wrap (BYTEBITS s) = 0" using assms(3) by (simp add: BYTEBITS_def)
  have "inflate_reaches flush s ?c"
    using assms by (intro inflate_reaches_round) (simp add: inflate_switch_def do_TYPE_def do_TYPEDO_def)
  moreover have "inflate_reaches flush ?c (?c \<lparr> mode := LENGTH_MODE \<rparr>)"
    using w by (intro inflate_reaches_round) (simp add: inflate_switch_def do_CHECK_def)
  moreover have "inflate_reaches flush (?c \<lparr> mode := LENGTH_MODE \<rparr>) (?c \<lparr> mode := DONE \<rparr>)"
    using w by (intro inflate_reaches_round) (simp add: inflate_switch_def do_LENGTH_def)
  ultimately have "inflate_reaches flush s (?c \<lparr> mode := DONE \<rparr>)" using inflate_reaches_trans by blast
  then have "inflate_loop flush s = inflate_loop flush (?c \<lparr> mode := DONE \<rparr>)" by (rule inflate_reaches_loop)
  also have "\<dots> = Some (Leave Z_STREAM_END (?c \<lparr> mode := DONE \<rparr>))"
    by (subst inflate_loop.simps) (simp add: inflate_switch_def)
  finally show ?thesis by simp
qed

lemma leave_raw:
  assumes "wsize s = 0" "wrap s = 0" "mode s = DONE"
  shows "\<exists>t. inf_leave flush Z_STREAM_END s = Some (result_of Z_STREAM_END t) \<and> put t = put s \<and> next_in t = next_in s \<and>
    total_out t = total_out s + of_nat (out_start s - avail_out s)"
proof -
  let ?n = "of_nat (out_start s - avail_out s)"
  let ?t = "s \<lparr> total_in := total_in s + of_nat (in_start s - avail_in s), total_out := total_out s + ?n, total_of := total_of s + ?n,
    strm_data_type := int (bitcnt s) + (if last_block s then 64 else 0) \<rparr>"
  have "inf_leave flush Z_STREAM_END s = Some (result_of Z_STREAM_END ?t)"
    using assms by (simp add: inf_leave_def keep_window_def before_CHECK_def leave_totals_def Let_def Z_STREAM_END_def Z_OK_def)
  then show ?thesis by (intro exI [of _ ?t]) simp
qed

text \<open>The state after \<open>inflateInit2\<close> for a raw stream, with its buffers set, in a call.\<close>

lemma raw_start:
  assumes "inflateInit2 (Stateless z) (-15) (Some ''1.2.3'') True (Some f) = (Z_OK, Stateful s)"
  shows "wrap s = 0" "mode s = HEAD" "\<not> last_block s" "wsize s = 0" "whave s = 0" "hold s = 0" "bitcnt s = 0" "window s = None"
    "write_at s = 0" "total_out s = 0"
  using assms
  by (auto simp: inflateInit2_def version_bad_def ZLIB_VERSION_def z_part_def wrap_and_bits_def Let_def inflateReset_def reset_state_def)

section \<open>Properties\<close>

lemma static_block_sent:
  assumes "out_ok c" "unat (last_lit c) \<le> length (d_buf c)" "unat (last_lit c) \<le> length (l_buf c)"
    and "items = take (unat (last_lit c)) (zip (d_buf c) (l_buf c))" "\<forall>(dist, lc) \<in> set items. unat dist \<le> 2 ^ 15"
  shows "\<exists>c'. compress_block static_ltree static_dtree (send_bits (push_bit 1 STATIC_TREES + of_bool eof) 3 c) = Some c' \<and> out_ok c' \<and>
    stream c' = stream c @ [eof, True, False] @ items_bits static_ltree static_dtree items @ code_bits static_ltree END_BLOCK"
    "\<forall>x \<in> set items. item_ok static_ltree static_dtree x"
proof -
  let ?c = "send_bits (push_bit 1 STATIC_TREES + of_bool eof) 3 c"
  show ok: "\<forall>x \<in> set items. item_ok static_ltree static_dtree x" using assms(5) static_item_ok by auto
  have h: "stream ?c = stream c @ [eof, True, False]" "out_ok ?c"
    using send_bits_stream [OF assms(1) _ block_header_bits(2), of eof] block_header_bits(1) [of eof] by simp_all
  have same: "last_lit ?c = last_lit c" "d_buf ?c = d_buf c" "l_buf ?c = l_buf c"
    by (simp_all add: send_bits_def put_short_def put_byte_def Let_def)
  have e: "Len (static_ltree ! END_BLOCK) \<noteq> 0" using static_lens_nonzero(1) [of END_BLOCK] by (simp add: END_BLOCK_def)
  show "\<exists>c'. compress_block static_ltree static_dtree ?c = Some c' \<and> out_ok c' \<and>
    stream c' = stream c @ [eof, True, False] @ items_bits static_ltree static_dtree items @ code_bits static_ltree END_BLOCK"
    using compress_block_sent [OF static_ltree_ok static_dtree_ok e h(2), of "unat (last_lit c)"] same assms(2-4) ok h(1) by auto
qed


text \<open>
  C8. \<open>inflate()\<close> undoes a stored block in the same sense: the bits of \<open>_tr_stored_block\<close>, with the padding that brings
  the lengths to a byte boundary, give back the bytes themselves, whatever whole bytes follow.
\<close>

theorem stored_block_roundtrip:
  assumes "out_ok c" "length buf < 2 ^ 16"
  shows "\<exists>c' bs. tr_stored_block buf (of_nat (length buf)) eof c = Some c' \<and> stream c' = stream c @ bs \<and>
    (\<forall>s rest flush. mode s = TYPEDO \<longrightarrow> \<not> last_block s \<longrightarrow> block_ok s \<longrightarrow> length buf \<le> avail_out s \<longrightarrow> 8 dvd length rest \<longrightarrow>
      ready (bs @ rest) s \<longrightarrow>
      (\<exists>t. inflate_loop flush s = inflate_loop flush t \<and> mode t = TYPE_MODE \<and> last_block t = eof \<and> ready rest t \<and>
        history t = history s @ buf \<and> avail_out t + length buf = avail_out s))"
proof -
  let ?n = "of_nat (length buf) :: ulong" and ?sent = "stream c @ [eof, False, False]"
  have n: "unat ?n = length buf" "unat (ucast ?n :: ushort) = length buf"
    using assms(2) by (simp_all add: unat_of_nat unsigned_ucast_eq take_bit_eq_mod)
  obtain c' where c: "tr_stored_block buf ?n eof c = Some c'"
      "stream c' = stream c @ [eof, False, False] @ padding ?sent @ bits 16 (ucast ?n :: ushort) @ bits 16 (NOT (ucast ?n :: ushort)) @ byte_bits buf"
    using stored_block_bits [OF assms(1), of ?n buf eof] n by (auto simp: Let_def)
  let ?bs = "[eof, False, False] @ padding ?sent @ bits 16 (ucast ?n :: ushort) @ bits 16 (NOT (ucast ?n :: ushort)) @ byte_bits buf"
  have pad: "length (padding ?sent) < 8" by (simp add: padding_def)
  have "\<exists>t. inflate_loop flush s = inflate_loop flush t \<and> mode t = TYPE_MODE \<and> last_block t = eof \<and> ready rest t \<and>
      history t = history s @ buf \<and> avail_out t + length buf = avail_out s"
    if call: "mode s = TYPEDO" "\<not> last_block s" "block_ok s" "length buf \<le> avail_out s" "8 dvd length rest" "ready (?bs @ rest) s" for s rest flush
  proof -
    have "ready ([eof, False, False] @ padding ?sent @ bits 16 (ucast ?n :: ushort) @ bits 16 (NOT (ucast ?n :: ushort)) @ byte_bits buf @ rest) s"
      using call(6) by simp
    then obtain t where "inflate_reaches flush s t" "inflated eof rest (\<lambda>h. h @ buf) (length buf) s t"
      using stored_block_reaches [OF disjI1 [OF call(1)] call(2,3) n(2) call(4) _ pad call(5)] by blast
    then show ?thesis using inflate_reaches_loop by (auto simp: inflated_def)
  qed
  then show ?thesis using c by (intro exI [of _ c'] exI [of _ ?bs]) simp
qed

lemma stored_block_roundtrip_witness:
  "\<exists>c' bs. tr_stored_block [1, 2, 3] 3 True sample_block = Some c' \<and> stream c' = stream sample_block @ bs \<and>
    (\<forall>s flush. mode s = TYPEDO \<longrightarrow> \<not> last_block s \<longrightarrow> block_ok s \<longrightarrow> 3 \<le> avail_out s \<longrightarrow> ready (bs @ []) s \<longrightarrow>
      (\<exists>t. inflate_loop flush s = inflate_loop flush t \<and> history t = history s @ [1, 2, 3]))"
proof -
  have "out_ok sample_block" by (auto simp: out_ok_def sample_block_def bit_1_iff)
  then obtain c' bs where "tr_stored_block [1, 2, 3] (of_nat (length [1, 2, 3 :: byte])) True sample_block = Some c'"
      "stream c' = stream sample_block @ bs"
      "\<And>s rest flush. mode s = TYPEDO \<longrightarrow> \<not> last_block s \<longrightarrow> block_ok s \<longrightarrow> length [1, 2, 3 :: byte] \<le> avail_out s \<longrightarrow>
        8 dvd length rest \<longrightarrow> ready (bs @ rest) s \<longrightarrow>
        (\<exists>t. inflate_loop flush s = inflate_loop flush t \<and> mode t = TYPE_MODE \<and> last_block t = True \<and> ready rest t \<and>
          history t = history s @ [1, 2, 3] \<and> avail_out t + length [1, 2, 3 :: byte] = avail_out s)"
    using stored_block_roundtrip [of sample_block "[1, 2, 3]" True] by fastforce
  note r = this
  have "\<exists>t. inflate_loop flush s = inflate_loop flush t \<and> history t = history s @ [1, 2, 3]"
    if "mode s = TYPEDO" "\<not> last_block s" "block_ok s" "3 \<le> avail_out s" "ready (bs @ []) s" for s flush
    using r(3) [of s "[]" flush] that by auto
  then show ?thesis using r(1,2) by (intro exI [of _ c'] exI [of _ bs]) simp
qed


text \<open>A literal and a match of three bytes at distance one, tallied and nothing sent.\<close>

definition sample_tally :: trees_state where
  "sample_tally = sample_block \<lparr> pending := [], bi_buf := 0, bi_valid := 0, l_buf := [97, 0, 0], d_buf := [0, 1, 0] \<rparr>"

lemma sample_tally_items:
  "unat (last_lit sample_tally) = 2" "take (unat (last_lit sample_tally)) (zip (d_buf sample_tally) (l_buf sample_tally)) = [(0, 97), (1, 0)]"
  "fold put_item [(0, 97), (1, 0)] [] = [97, 97, 97, 97]" "items_fit [(0, 97), (1, 0)] [] 4" "items_size [(0, 97), (1, 0)] = 4"
proof -
  show n: "unat (last_lit sample_tally) = 2" by (simp add: sample_tally_def sample_block_def)
  show "take (unat (last_lit sample_tally)) (zip (d_buf sample_tally) (l_buf sample_tally)) = [(0, 97), (1, 0)]"
    unfolding n by (simp add: sample_tally_def)
  show "fold put_item [(0, 97), (1, 0)] [] = [97, 97, 97, 97]" by (simp add: put_item_def eval_nat_numeral)
  show "items_fit [(0, 97), (1, 0)] [] 4" by (simp add: item_size_def reaches_back_def put_item_def)
  show "items_size [(0, 97), (1, 0)] = 4" by (simp add: item_size_def)
qed



end
