(* ===== verification/Deflate_Flush.thy ===== *)
theory Deflate_Flush
  imports Deflate_Fast Inflate_Roundtrip
begin

text \<open>
  Flushing: \<open>flush_pending\<close> and \<open>FLUSH_BLOCK_ONLY\<close> of \<^verbatim>\<open>src/AOS/aos/zlib/deflate.c\<close> with \<open>_tr_flush_block\<close> of \<^verbatim>\<open>trees.c\<close>:
  no byte is lost, and the next block begins with no items.
\<close>

section \<open>What is on its way\<close>

definition unsent :: "deflate_state \<Rightarrow> byte list" where
  "unsent s = take (length (pending s)) (drop (pending_out s) (pending_buf s))"

text \<open>Everything put so far: the bytes written by the call, those that are pending, and the bits in the buffer.\<close>

definition put_out :: "deflate_state \<Rightarrow> bool list" where
  "put_out s = byte_bits (written s @ unsent s) @ bits (bi_valid s) (bi_buf s)"

lemma unsent_start [simp]: "pending_out s = 0 \<Longrightarrow> unsent s = pending s"
  by (simp add: unsent_def pending_buf_def)

lemma put_out_start: "pending_out s = 0 \<Longrightarrow> put_out s = byte_bits (written s) @ stream s"
  by (simp add: put_out_def stream_def)

text \<open>All fields but those that \<open>flush_pending\<close> changes.\<close>

definition flush_frame :: "deflate_state \<Rightarrow> deflate_state" where
  "flush_frame s = s \<lparr> written := [], strm := (strm s) \<lparr> total_out := 0, avail_out := 0 \<rparr>, stale := [], pending := [], pending_out := 0 \<rparr>"

lemma flush_pending_sends:
  assumes "pending_out s + length (pending s) \<le> length (pending_buf s)"
  shows "written (flush_pending s) @ unsent (flush_pending s) = written s @ unsent s" "flush_frame (flush_pending s) = flush_frame s"
    "length (written (flush_pending s)) = length (written s) + min (length (pending s)) (avail_out (strm s))"
    "avail_out (strm (flush_pending s)) = avail_out (strm s) - min (length (pending s)) (avail_out (strm s))"
    "length (pending (flush_pending s)) = length (pending s) - min (length (pending s)) (avail_out (strm s))"
proof -
  let ?n = "min (length (pending s)) (avail_out (strm s))"
  let ?left = "length (pending s) - ?n"
  obtain buf where buf: "buf = pending_buf s" by blast
  have "written (flush_pending s) @ unsent (flush_pending s) = written s @ unsent s \<and> flush_frame (flush_pending s) = flush_frame s \<and>
    length (written (flush_pending s)) = length (written s) + ?n \<and> avail_out (strm (flush_pending s)) = avail_out (strm s) - ?n \<and>
    length (pending (flush_pending s)) = ?left"
  proof (cases "?n = 0")
    case False
    have fl: "flush_pending s = s \<lparr> written := written s @ take ?n (drop (pending_out s) buf),
        strm := (strm s) \<lparr> total_out := total_out (strm s) + of_nat ?n, avail_out := avail_out (strm s) - ?n \<rparr>,
        stale := buf, pending := take ?left buf, pending_out := (if ?left = 0 then 0 else pending_out s + ?n) \<rparr>"
      using False by (simp add: flush_pending_def Let_def buf)
    have left: "?left \<le> length buf" "pending_out s + length (pending s) \<le> length buf" using assms unfolding buf by linarith+
    have "pending_buf (flush_pending s) = buf" unfolding fl using left by (simp add: pending_buf_def min_absorb2)
    then have "unsent (flush_pending s) = take ?left (drop (pending_out s + ?n) buf)"
      unfolding unsent_def using left by (simp add: fl min_absorb2)
    moreover have "unsent s = take ?n (drop (pending_out s) buf) @ take ?left (drop (pending_out s + ?n) buf)"
      using take_add [of ?n ?left "drop (pending_out s) buf"] by (simp add: unsent_def buf add.commute)
    ultimately have "written (flush_pending s) @ unsent (flush_pending s) = written s @ unsent s"
      by (simp add: fl)
    moreover have "length (take ?n (drop (pending_out s) buf)) = ?n" using left(2) by simp
    ultimately show ?thesis using left(1) by (simp add: fl flush_frame_def)
  qed (simp add: flush_pending_def Let_def)
  then show "written (flush_pending s) @ unsent (flush_pending s) = written s @ unsent s" "flush_frame (flush_pending s) = flush_frame s"
    "length (written (flush_pending s)) = length (written s) + ?n" "avail_out (strm (flush_pending s)) = avail_out (strm s) - ?n"
    "length (pending (flush_pending s)) = ?left" by blast+
qed

lemma flush_pending_all:
  assumes "pending_out s = 0" "avail_out (strm (flush_pending s)) \<noteq> 0"
  shows "pending (flush_pending s) = []" "pending_out (flush_pending s) = 0"
proof -
  have b: "pending_out s + length (pending s) \<le> length (pending_buf s)" by (simp add: assms(1) pending_buf_def)
  have "length (pending s) < avail_out (strm s) \<or> pending s = []"
    using flush_pending_sends(4) [OF b] assms(2) by (auto simp: min_def split: if_splits)
  then show "pending (flush_pending s) = []" "pending_out (flush_pending s) = 0"
    using assms(1) by (auto simp: flush_pending_def Let_def)
qed

section \<open>What the routines of \<open>trees.c\<close> leave alone\<close>

definition kept :: "'a trees_state_scheme \<Rightarrow> byte list \<times> ushort list \<times> uint \<times> int \<times> int" where
  "kept s = (l_buf s, d_buf s, lit_bufsize s, level s, strategy s)"

lemma kept_more: "bit_out.more t = bit_out.more s \<Longrightarrow> kept t = kept (s :: trees_state)"
  by (cases s; cases t) (simp add: kept_def)

lemma more_send_code: "send_code c tr s = Some t \<Longrightarrow> bit_out.more t = bit_out.more s"
  by (auto simp: send_code_def split: bind_splits)

lemma more_send_item: "send_item ltree dtree d lc s = Some t \<Longrightarrow> bit_out.more t = bit_out.more s"
  by (auto simp: send_item_def Let_def dest!: more_send_code split: bind_splits if_splits)

lemma more_compress_loop: "compress_loop ltree dtree lx k s = Some t \<Longrightarrow> bit_out.more t = bit_out.more s"
  by (induction ltree dtree lx k s rule: compress_loop.induct) (auto dest: more_send_item split: bind_splits)


lemma kept_compress_block: "compress_block ltree dtree s = Some t \<Longrightarrow> kept t = kept s"
proof -
  assume "compress_block ltree dtree s = Some t"
  then obtain u v x where u: "compress_loop ltree dtree 0 (unat (last_lit s)) s = Some u" "send_code END_BLOCK ltree u = Some v"
    "t = v \<lparr> last_eob_len := x \<rparr>" by (auto simp: compress_block_def split: bind_splits)
  have "kept v = kept s" by (rule kept_more) (use more_compress_loop [OF u(1)] more_send_code [OF u(2)] in simp)
  then show ?thesis by (simp add: u(3) kept_def)
qed

lemma more_put_bytes: "put_bytes buf n s = Some t \<Longrightarrow> bit_out.more t = bit_out.more s"
  by (induction buf n s rule: put_bytes.induct) (auto split: bind_splits)

lemma kept_stored_block: "tr_stored_block buf n eof s = Some t \<Longrightarrow> kept t = kept s"
proof -
  assume "tr_stored_block buf n eof s = Some t"
  then obtain u where u: "copy_block buf n True (send_bits (push_bit 1 STORED_BLOCK + of_bool eof) 3 s) = Some u" "t = u \<lparr> last_eob_len := 8 \<rparr>"
    by (auto simp: tr_stored_block_def split: bind_splits)
  have "kept u = kept s" by (rule kept_more) (use u(1) more_put_bytes in \<open>force simp: copy_block_def Let_def\<close>)
  then show ?thesis by (simp add: u(2) kept_def)
qed

lemma more_send_copies: "send_copies c n tr s = Some t \<Longrightarrow> bit_out.more t = bit_out.more s"
  by (induction c n tr s rule: send_copies.induct) (auto dest: more_send_code split: bind_splits if_splits)

lemma more_send_run: "send_run p c n k tr s = Some t \<Longrightarrow> bit_out.more t = bit_out.more s"
  by (auto simp: send_run_def dest!: more_send_code more_send_copies split: bind_splits if_splits)

lemma more_send_loop: "send_loop tr2 n k p c i mx mn tr s = Some t \<Longrightarrow> bit_out.more t = bit_out.more s"
proof (induction k arbitrary: n p c i mx mn s)
  case (Suc k)
  obtain c' where c': "len_at tr2 (n + 1) = Some c'" using Suc.prems by (auto split: bind_splits)
  show ?case
  proof (cases "i + 1 < mx \<and> c = c'")
    case True
    then have "send_loop tr2 (n + 1) k p c' (i + 1) mx mn tr s = Some t" using Suc.prems c' by simp
    then show ?thesis by (rule Suc.IH)
  next
    case False
    then obtain u where u: "send_run p c (i + 1) mn tr s = Some u"
      "send_loop tr2 (n + 1) k c c' 0 (fst (run_limits c c')) (snd (run_limits c c')) tr u = Some t"
      using Suc.prems c' by (auto simp: case_prod_beta split: bind_splits)
    show ?thesis using Suc.IH [OF u(2)] more_send_run [OF u(1)] by simp
  qed
qed simp

lemma more_send_tree:
  assumes "send_tree tr2 n tr s = Some t" shows "bit_out.more t = bit_out.more s"
proof -
  obtain c where c: "len_at tr2 0 = Some c" using assms by (auto simp: send_tree_def split: bind_splits)
  show ?thesis
    by (rule more_send_loop [of tr2 0 "n + 1" "-1" c 0 "if c = 0 then 138 else 7" "if c = 0 then 3 else 4" tr])
      (use assms c in \<open>simp add: send_tree_def Let_def del: send_loop.simps split: if_splits\<close>)
qed

lemma more_send_bl_lens: "send_bl_lens bl r k s = Some t \<Longrightarrow> bit_out.more t = bit_out.more s"
  by (induction bl r k s rule: send_bl_lens.induct) (auto split: bind_splits)

lemma kept_send_all_trees: "send_all_trees l d b s = Some t \<Longrightarrow> kept t = kept s"
  by (rule kept_more) (auto simp: send_all_trees_def Let_def dest!: more_send_bl_lens more_send_tree split: bind_splits)

lemma kept_init_block: "init_block s = Some t \<Longrightarrow> kept t = kept s \<and> last_lit t = 0 \<and> bit_out.truncate t = bit_out.truncate s"
  by (auto simp: init_block_def kept_def bit_out.defs split: bind_splits)

lemma kept_build:
  "build_ltree s = Some t \<Longrightarrow> kept t = kept s \<and> bit_out.truncate t = bit_out.truncate s \<and> last_lit t = last_lit s"
  "build_dtree s = Some t \<Longrightarrow> kept t = kept s \<and> bit_out.truncate t = bit_out.truncate s \<and> last_lit t = last_lit s"
  "build_bl_tree s = Some (n, t) \<Longrightarrow> kept t = kept s \<and> bit_out.truncate t = bit_out.truncate s \<and> last_lit t = last_lit s"
  "set_data_type s = Some t \<Longrightarrow> kept t = kept s \<and> bit_out.truncate t = bit_out.truncate s \<and> last_lit t = last_lit s"
  by (auto simp: build_ltree_def build_dtree_def build_bl_tree_def set_data_type_def kept_def bit_out.defs Let_def split: bind_splits)

section \<open>\<open>_tr_flush_block\<close>\<close>

lemma stream_truncate:
  assumes "bit_out.truncate t = bit_out.truncate s"
  shows "stream t = stream s" "out_ok t = out_ok s"
  using arg_cong [OF assms, of pending] arg_cong [OF assms, of bi_buf] arg_cong [OF assms, of bi_valid]
  by (simp_all add: stream_def out_ok_def bit_out.defs)

text \<open>The trees and the lengths that they give, in front of the choice of the kind of block.\<close>

definition planned :: "ulong \<Rightarrow> trees_state \<Rightarrow> (ulong \<times> ulong \<times> nat \<times> trees_state) option" where
  "planned stored_len s =
      (if level s > 0 then do {
         s \<leftarrow> (if stored_len > 0 \<and> data_type_of s = Z_UNKNOWN then set_data_type s else Some s);
         s \<leftarrow> build_ltree s;
         s \<leftarrow> build_dtree s;
         (max_blindex, s) \<leftarrow> build_bl_tree s;
         let opt_lenb = drop_bit 3 (opt_len (work s) + 3 + 7);
         let static_lenb = drop_bit 3 (static_len (work s) + 3 + 7);
         Some (if static_lenb \<le> opt_lenb then static_lenb else opt_lenb, static_lenb, max_blindex, s) }
       else Some (stored_len + 5, stored_len + 5, 0, s))"

definition chosen :: "byte list option \<Rightarrow> ulong \<Rightarrow> bool \<Rightarrow> ulong \<Rightarrow> ulong \<Rightarrow> nat \<Rightarrow> trees_state \<Rightarrow> trees_state option" where
  "chosen buf stored_len eof opt_lenb static_lenb max_blindex s =
      (if stored_len + 4 \<le> opt_lenb \<and> buf \<noteq> None then tr_stored_block (the buf) stored_len eof s
       else if strategy s = Z_FIXED \<or> static_lenb = opt_lenb then
         compress_block static_ltree static_dtree (send_bits (push_bit 1 STATIC_TREES + of_bool eof) 3 s)
       else do {
         s \<leftarrow> send_all_trees (l_max_code s + 1) (d_max_code s + 1) (max_blindex + 1)
           (send_bits (push_bit 1 DYN_TREES + of_bool eof) 3 s);
         compress_block (dyn_ltree s) (dyn_dtree s) s })"

lemma tr_flush_block_parts:
  assumes "tr_flush_block buf stored_len eof s = Some t"
  obtains a b n u v w where "planned stored_len s = Some (a, b, n, u)" "chosen buf stored_len eof a b n u = Some v"
    "init_block v = Some w" "t = (if eof then bi_windup w else w)"
  using assms that unfolding tr_flush_block_def planned_def [symmetric] chosen_def [symmetric]
  by (auto simp: chosen_def [symmetric] split: bind_splits)

lemma planned_kept:
  assumes "planned stored_len s = Some (a, b, n, u)"
  shows "kept u = kept s" "bit_out.truncate u = bit_out.truncate s" "last_lit u = last_lit s"
    "level s \<le> 0 \<Longrightarrow> a = stored_len + 5"
proof -
  have "kept u = kept s \<and> bit_out.truncate u = bit_out.truncate s \<and> last_lit u = last_lit s \<and> (level s \<le> 0 \<longrightarrow> a = stored_len + 5)"
  proof (cases "level s > 0")
    case True
    then obtain s1 s2 s3 where b: "(if stored_len > 0 \<and> data_type_of s = Z_UNKNOWN then set_data_type s else Some s) = Some s1"
      "build_ltree s1 = Some s2" "build_dtree s2 = Some s3" "build_bl_tree s3 = Some (n, u)"
      using assms by (auto simp: planned_def Let_def split: bind_splits)
    have "kept s1 = kept s \<and> bit_out.truncate s1 = bit_out.truncate s \<and> last_lit s1 = last_lit s"
      using b(1) kept_build(4) [of s s1] by (auto split: if_splits)
    then show ?thesis using kept_build(1) [OF b(2)] kept_build(2) [OF b(3)] kept_build(3) [OF b(4)] True by simp
  next
    case False
    then show ?thesis using assms by (simp add: planned_def)
  qed
  then show "kept u = kept s" "bit_out.truncate u = bit_out.truncate s" "last_lit u = last_lit s" "level s \<le> 0 \<Longrightarrow> a = stored_len + 5"
    by blast+
qed

lemma kept_send_bits: "kept (send_bits v n (s :: trees_state)) = kept s"
  by (rule kept_more) simp

lemma chosen_kept: "chosen buf stored_len eof a b n u = Some v \<Longrightarrow> kept v = kept u"
proof -
  assume c: "chosen buf stored_len eof a b n u = Some v"
  consider "tr_stored_block (the buf) stored_len eof u = Some v"
    | "compress_block static_ltree static_dtree (send_bits (push_bit 1 STATIC_TREES + of_bool eof) 3 u) = Some v"
    | x where "send_all_trees (l_max_code u + 1) (d_max_code u + 1) (n + 1) (send_bits (push_bit 1 DYN_TREES + of_bool eof) 3 u) = Some x"
      "compress_block (dyn_ltree x) (dyn_dtree x) x = Some v"
    using c by (auto simp: chosen_def split: if_splits bind_splits)
  then show ?thesis
    by cases (simp_all add: kept_stored_block kept_compress_block kept_send_all_trees kept_send_bits)
qed

lemma last_lit_windup [simp]: "last_lit (bi_windup s) = last_lit s"
  by (simp add: bi_windup_def put_short_def put_byte_def Let_def)

lemma flush_block_kept:
  assumes "tr_flush_block buf stored_len eof s = Some t"
  shows "kept t = kept s" "last_lit t = 0"
proof -
  from assms obtain a b n u v w where p: "planned stored_len s = Some (a, b, n, u)" "chosen buf stored_len eof a b n u = Some v"
    "init_block v = Some w" "t = (if eof then bi_windup w else w)" by (rule tr_flush_block_parts)
  have "kept (bi_windup w) = kept w" by (rule kept_more) simp
  then show "kept t = kept s" "last_lit t = 0"
    using planned_kept [OF p(1)] chosen_kept [OF p(2)] kept_init_block [OF p(3)] by (auto simp: p(4))
qed

text \<open>The bits of a stored and of a static block.\<close>

definition stored_bits :: "bool list \<Rightarrow> bool \<Rightarrow> byte list \<Rightarrow> bool list" where
  "stored_bits pre eof data = [eof, False, False] @ padding (pre @ [eof, False, False]) @ bits 16 (of_nat (length data) :: ushort) @
    bits 16 (NOT (of_nat (length data) :: ushort)) @ byte_bits data"

definition static_bits :: "bool \<Rightarrow> (ushort \<times> byte) list \<Rightarrow> bool list" where
  "static_bits eof xs = [eof, True, False] @ items_bits static_ltree static_dtree xs @ code_bits static_ltree END_BLOCK"

lemma flush_block_sends:
  assumes "tr_flush_block buf stored_len eof s = Some t" "out_ok s" "level s = 0 \<and> buf \<noteq> None \<or> strategy s = Z_FIXED \<and> (\<forall>(dist, lc) \<in> set xs. unat dist \<le> 2 ^ 15)"
    "buf \<noteq> None \<Longrightarrow> unat stored_len \<le> length (the buf) \<and> unat stored_len < 2 ^ 16"
    "xs = take (unat (last_lit s)) (zip (d_buf s) (l_buf s))"
    "unat (last_lit s) \<le> length (d_buf s)" "unat (last_lit s) \<le> length (l_buf s)"
  shows "\<exists>blk. out_ok t \<and> stream t = stream s @ blk @ (if eof then padding (stream s @ blk) else []) \<and> (eof \<longrightarrow> bi_valid t = 0) \<and>
    (buf \<noteq> None \<and> blk = stored_bits (stream s) eof (take (unat stored_len) (the buf)) \<or>
     \<not> (level s = 0 \<and> buf \<noteq> None) \<and> blk = static_bits eof xs)"
proof -
  from assms(1) obtain a b n u v w where p: "planned stored_len s = Some (a, b, n, u)" "chosen buf stored_len eof a b n u = Some v"
    "init_block v = Some w" "t = (if eof then bi_windup w else w)" by (rule tr_flush_block_parts)
  note pk = planned_kept [OF p(1)]
  have u: "stream u = stream s" "out_ok u" using stream_truncate [OF pk(2)] assms(2) by simp_all
  have k: "d_buf u = d_buf s" "l_buf u = l_buf s" "level u = level s" "strategy u = strategy s" "last_lit u = last_lit s"
    using pk(1,3) by (simp_all add: kept_def)
  have "\<exists>blk. out_ok v \<and> stream v = stream s @ blk \<and>
    (buf \<noteq> None \<and> blk = stored_bits (stream s) eof (take (unat stored_len) (the buf)) \<or>
     \<not> (level s = 0 \<and> buf \<noteq> None) \<and> blk = static_bits eof xs)"
  proof (cases "stored_len + 4 \<le> a \<and> buf \<noteq> None")
    case True
    then have "tr_stored_block (the buf) stored_len eof u = Some v" using p(2) by (simp add: chosen_def)
    moreover have fit: "unat stored_len \<le> length (the buf)" "unat stored_len < 2 ^ 16" using assms(4) True by simp_all
    ultimately have sv: "out_ok v" "stream v = (let sent = stream u @ [eof, False, False]
      in sent @ padding sent @ bits 16 (ucast stored_len :: ushort) @ bits 16 (NOT (ucast stored_len :: ushort)) @
         byte_bits (take (unat stored_len) (the buf)))"
      using stored_block_bits [OF u(2), of stored_len "the buf" eof] by auto
    have "(ucast stored_len :: ushort) = of_nat (length (take (unat stored_len) (the buf)))"
      using fit(1) by (simp add: min_absorb2 of_nat_unat)
    then show ?thesis using sv True u(1) by (simp add: stored_bits_def Let_def)
  next
    case False
    have not0: "\<not> (level s = 0 \<and> buf \<noteq> None)"
    proof
      assume z: "level s = 0 \<and> buf \<noteq> None"
      then have "a = stored_len + 5" using pk(4) by simp
      moreover have "stored_len + 4 \<le> stored_len + 5"
      proof -
        have "unat stored_len + unat (5 :: ulong) < 2 ^ LENGTH(32)" using assms(4) z by simp
        then show ?thesis using unat_add_no_wrap [of stored_len 5] unat_add_no_wrap [of stored_len 4] by (simp add: word_le_nat_alt)
      qed
      ultimately show False using False z by simp
    qed
    then have "strategy u = Z_FIXED" "\<forall>(dist, lc) \<in> set xs. unat dist \<le> 2 ^ 15" using assms(3) k(4) by metis+
    then have cb: "compress_block static_ltree static_dtree (send_bits (push_bit 1 STATIC_TREES + of_bool eof) 3 u) = Some v"
      using p(2) False by (auto simp: chosen_def)
    have dist: "\<forall>(dist, lc) \<in> set xs. unat dist \<le> 2 ^ 15" by fact
    obtain c' where "compress_block static_ltree static_dtree (send_bits (push_bit 1 STATIC_TREES + of_bool eof) 3 u) = Some c'" "out_ok c'"
        "stream c' = stream u @ [eof, True, False] @ items_bits static_ltree static_dtree xs @ code_bits static_ltree END_BLOCK"
      using static_block_sent(1) [OF u(2), of xs eof] k assms(5-7) dist by auto
    then show ?thesis using cb not0 u(1) by (simp add: static_bits_def)
  qed
  then obtain blk where blk: "out_ok v" "stream v = stream s @ blk"
    "buf \<noteq> None \<and> blk = stored_bits (stream s) eof (take (unat stored_len) (the buf)) \<or> \<not> (level s = 0 \<and> buf \<noteq> None) \<and> blk = static_bits eof xs"
    by blast
  have w: "stream w = stream s @ blk" "out_ok w" using stream_truncate [of w v] kept_init_block [OF p(3)] blk(1,2) by simp_all
  show ?thesis
  proof (cases eof)
    case True
    have "stream (bi_windup w) = stream w @ padding (stream w)" "out_ok (bi_windup w)" "bi_valid (bi_windup w) = 0"
      using bi_windup_stream [OF w(2)] by (simp_all add: stream_def [of "bi_windup w"] out_ok_def)
    then show ?thesis using w(1) blk(3) True by (intro exI [of _ blk]) (simp add: p(4))
  next
    case False
    then show ?thesis using w blk(3) by (auto simp: p(4))
  qed
qed

section \<open>\<open>FLUSH_BLOCK_ONLY\<close>\<close>

text \<open>All fields but those that the flush of a block changes.\<close>

definition no_work :: build_state where
  "no_work = \<lparr> build_state.tree = [], heap = [], heap_len = 0, heap_max = 0, depth = [], bl_count = [], opt_len = 0, static_len = 0 \<rparr>"

definition outer_frame :: "deflate_state \<Rightarrow> deflate_state" where
  "outer_frame s = s \<lparr> pending := [], bi_buf := 0, bi_valid := 0, dyn_ltree := [], dyn_dtree := [], bl_tree := [], l_max_code := 0,
    d_max_code := 0, bl_max_code := 0, work := no_work, last_lit := 0, matches := 0, last_eob_len := 0, data_type_of := Z_UNKNOWN,
    strm := (strm s) \<lparr> total_out := 0, avail_out := 0 \<rparr>, written := [], stale := [], pending_out := 0, block_start := 0 \<rparr>"

definition flush_step :: "deflate_state \<Rightarrow> deflate_state \<Rightarrow> bool" where
  "flush_step s t \<longleftrightarrow> outer_frame t = outer_frame s \<and> last_lit t = 0 \<and> block_start t = int (strstart s)"

lemma outer_frame_more: "trees_state.more t = trees_state.more s \<Longrightarrow> kept t = kept s \<Longrightarrow> outer_frame t = outer_frame s"
  by (cases s; cases t) (simp add: outer_frame_def kept_def)

lemma outer_frame_flush [simp]: "outer_frame (flush_pending s) = outer_frame s" "outer_frame (s \<lparr> block_start := i \<rparr>) = outer_frame s"
  by (simp_all add: outer_frame_def flush_pending_def Let_def)

lemma outer_frame_fields:
  assumes "outer_frame t = outer_frame s"
  shows "buf_window t = buf_window s" "w_size t = w_size s" "w_bits t = w_bits s" "w_mask t = w_mask s" "window_size t = window_size s"
    "hash_bits t = hash_bits s" "hash_size t = hash_size s" "hash_mask t = hash_mask s" "hash_shift t = hash_shift s" "prev_of t = prev_of s"
    "head_of t = head_of s" "strstart t = strstart s" "lookahead t = lookahead s" "match_length t = match_length s"
    "match_start t = match_start s" "prev_length t = prev_length s" "prev_match t = prev_match s" "match_available t = match_available s"
    "ins_h t = ins_h s" "wrap_of t = wrap_of s" "max_lazy_match t = max_lazy_match s" "pending_buf_size t = pending_buf_size s"
    "next_in (strm t) = next_in (strm s)" "adler (strm t) = adler (strm s)" "kept t = kept s"
  using arg_cong [OF assms, of buf_window] arg_cong [OF assms, of w_size] arg_cong [OF assms, of w_bits] arg_cong [OF assms, of w_mask]
    arg_cong [OF assms, of window_size] arg_cong [OF assms, of hash_bits] arg_cong [OF assms, of hash_size] arg_cong [OF assms, of hash_mask]
    arg_cong [OF assms, of hash_shift] arg_cong [OF assms, of prev_of] arg_cong [OF assms, of head_of] arg_cong [OF assms, of strstart]
    arg_cong [OF assms, of lookahead] arg_cong [OF assms, of match_length] arg_cong [OF assms, of match_start] arg_cong [OF assms, of prev_length]
    arg_cong [OF assms, of prev_match] arg_cong [OF assms, of match_available] arg_cong [OF assms, of ins_h] arg_cong [OF assms, of wrap_of]
    arg_cong [OF assms, of max_lazy_match] arg_cong [OF assms, of pending_buf_size] arg_cong [OF assms, of "\<lambda>s. next_in (strm s)"]
    arg_cong [OF assms, of "\<lambda>s. adler (strm s)"] arg_cong [OF assms, of kept]
  by (simp_all add: outer_frame_def kept_def)

lemma on_trees_result:
  assumes "on_trees f s = Some t"
  shows "f (trees_state.truncate s) = Some (trees_state.truncate t)" "trees_state.more t = trees_state.more s"
proof -
  obtain u where u: "f (trees_state.truncate s) = Some u" "t = trees_state.extend u (trees_state.more s)"
    using assms by (auto simp: on_trees_def)
  have "trees_state.truncate t = u" "trees_state.more t = trees_state.more s" by (simp_all add: u(2) trees_state.defs)
  then show "f (trees_state.truncate s) = Some (trees_state.truncate t)" "trees_state.more t = trees_state.more s" using u(1) by simp_all
qed

lemma kept_truncate [simp]: "kept (trees_state.truncate s) = kept s"
  by (simp add: kept_def trees_state.defs)

lemma truncate_level [simp]: "level (trees_state.truncate s) = level s" "strategy (trees_state.truncate s) = strategy s"
  by (simp_all add: trees_state.defs)

lemma stream_truncate_trees [simp]:
  "stream (trees_state.truncate s) = stream s" "out_ok (trees_state.truncate s) = out_ok s" "bi_valid (trees_state.truncate s) = bi_valid s"
  by (simp_all add: stream_def out_ok_def trees_state.defs)

lemma FLUSH_BLOCK_ONLY_parts:
  assumes "FLUSH_BLOCK_ONLY eof s = Some t"
  obtains u where "tr_flush_block (if block_start s \<ge> 0 then Some (drop (nat (block_start s)) (buf_window s)) else None)
      (of_int (int (strstart s) - block_start s)) eof (trees_state.truncate s) = Some (trees_state.truncate u)"
    "trees_state.more u = trees_state.more s" "kept u = kept s" "last_lit u = 0"
    "t = flush_pending (u \<lparr> block_start := int (strstart s) \<rparr>)"
proof -
  obtain u where u: "on_trees (tr_flush_block (if block_start s \<ge> 0 then Some (drop (nat (block_start s)) (buf_window s)) else None)
      (of_int (int (strstart s) - block_start s)) eof) s = Some u" "t = flush_pending (u \<lparr> block_start := int (strstart u) \<rparr>)"
    using assms by (auto simp: FLUSH_BLOCK_ONLY_def split: bind_splits)
  note r = on_trees_result [OF u(1)]
  note k = flush_block_kept [OF r(1)]
  have k': "kept u = kept s" "last_lit u = 0" using k by simp_all
  have "strstart u = strstart s" by (rule outer_frame_fields(12) [OF outer_frame_more [OF r(2) k'(1)]])
  then show ?thesis using that [OF r k'] u(2) by simp
qed

lemma flush_pending_keeps [simp]:
  "kept (flush_pending s) = kept s" "last_lit (flush_pending s) = last_lit s" "block_start (flush_pending s) = block_start s"
  "bi_buf (flush_pending s) = bi_buf s" "bi_valid (flush_pending s) = bi_valid s"
  by (simp_all add: flush_pending_def Let_def kept_def)

lemma FLUSH_BLOCK_ONLY_step:
  assumes "FLUSH_BLOCK_ONLY eof s = Some t"
  shows "flush_step s t"
proof -
  from assms obtain u where u: "trees_state.more u = trees_state.more s" "kept u = kept s" "last_lit u = 0"
    "t = flush_pending (u \<lparr> block_start := int (strstart s) \<rparr>)" by (rule FLUSH_BLOCK_ONLY_parts)
  then show ?thesis using u outer_frame_more [OF u(1,2)] by (simp add: flush_step_def)
qed

lemma flush_step_fields:
  assumes "flush_step s t"
  shows "outer_frame t = outer_frame s" "block_start t = int (strstart s)" "last_lit t = 0" "d_buf t = d_buf s" "l_buf t = l_buf s"
    "strategy t = strategy s" "level t = level s" "lit_bufsize t = lit_bufsize s"
  using assms outer_frame_fields(25) [of t s] by (simp_all add: flush_step_def kept_def)

lemma flush_step_holds:
  assumes "flush_step s t" "window_holds H s"
  shows "window_holds H t" "stand_for H H t" "items t = []" "ahead t = ahead s" "read_end t = read_end s"
    "check_valid t = check_valid s" "back_distance t = back_distance s" "chains I n e t = chains I n e s" "hash3 t i = hash3 s i"
    "primed t = primed s" "buffers_ok s \<Longrightarrow> buffers_ok t"
proof -
  note f = flush_step_fields(2-8) [OF assms(1)] outer_frame_fields [OF flush_step_fields(1) [OF assms(1)]]
  show i: "items t = []" by (simp add: items_def f)
  show "ahead t = ahead s" "check_valid t = check_valid s" "back_distance t = back_distance s"
    by (simp_all add: ahead_def check_valid_def back_distance_def f)
  show re: "read_end t = read_end s" by (simp add: read_end_def f)
  show "chains I n e t = chains I n e s" by (rule chains_fields) (simp_all add: f)
  show h: "hash3 t i = hash3 s i" for i by (rule hash3_fields) (simp_all add: f)
  show "primed t = primed s" by (simp add: primed_def f UPDATE_HASH_def h)
  show "window_holds H t" using assms(2) by (simp add: window_holds_def sizes_ok_def f re)
  show "buffers_ok s \<Longrightarrow> buffers_ok t" by (simp add: buffers_ok_def f)
  have "strstart s \<le> length H" using assms(2) by (simp add: window_holds_def)
  then have "before_block H t = H" by (simp add: before_block_def f)
  then show "stand_for H H t" by (simp add: stand_for_def i)
qed

lemma flush_step_ok:
  assumes "flush_step s t" "matching_ok H s"
  shows "matching_ok H t"
proof -
  have w: "window_holds H s" using assms(2) by (simp add: matching_ok_def)
  note h = flush_step_holds [OF assms(1) w]
  show ?thesis
    using assms(2) h(1,10,11) h(8) outer_frame_fields(12) [OF flush_step_fields(1) [OF assms(1)]] h(5) by (simp add: matching_ok_def)
qed

section \<open>What a flushed block puts out\<close>

lemma padding_cong: "length xs mod 8 = length ys mod 8 \<Longrightarrow> padding (xs @ zs) = padding (ys @ zs)"
  unfolding padding_def length_append by (metis mod_add_left_eq)

lemma stored_bits_cong: "length xs mod 8 = length ys mod 8 \<Longrightarrow> stored_bits xs eof d = stored_bits ys eof d"
  unfolding stored_bits_def by (simp only: padding_cong [of xs ys])

lemma before_block_split:
  assumes "window_holds H s" "0 \<le> block_start s"
  shows "take (strstart s - nat (block_start s)) (drop (nat (block_start s)) (buf_window s)) = drop (length (before_block H s)) H"
    "H = before_block H s @ drop (length (before_block H s)) H"
proof -
  have h: "strstart s \<le> length H" "take (strstart s) (buf_window s) = drop (length H - strstart s) H" "block_start s \<le> int (strstart s)"
    using assms(1) by (simp_all add: window_holds_def)
  let ?b = "nat (block_start s)"
  have "nat (int (length H) - int (strstart s) + block_start s) = length H - strstart s + ?b" "length H - strstart s + ?b \<le> length H"
    using h(1,3) assms(2) by simp_all
  then have b: "before_block H s = take (length H - strstart s + ?b) H" "length (before_block H s) = length H - strstart s + ?b"
    by (simp_all add: before_block_def)
  have "take (strstart s - ?b) (drop ?b (buf_window s)) = drop ?b (take (strstart s) (buf_window s))" by (simp add: drop_take)
  then show "take (strstart s - ?b) (drop ?b (buf_window s)) = drop (length (before_block H s)) H"
    by (simp add: h(2) b(2) add.commute)
  show "H = before_block H s @ drop (length (before_block H s)) H" unfolding b(2) by (simp add: b(1))
qed

lemma in_reach_dist: "in_reach xs h \<Longrightarrow> \<forall>(dist, lc) \<in> set xs. unat dist \<le> 2 ^ 15"
  by (induction xs arbitrary: h) auto

lemma FLUSH_BLOCK_ONLY_room:
  assumes "FLUSH_BLOCK_ONLY eof s = Some t" "pending_out s = 0" "avail_out (strm t) \<noteq> 0"
  shows "pending t = [] \<and> pending_out t = 0"
proof -
  from assms(1) obtain u where u: "trees_state.more u = trees_state.more s" "t = flush_pending (u \<lparr> block_start := int (strstart s) \<rparr>)"
    by (rule FLUSH_BLOCK_ONLY_parts)
  have "pending_out u = pending_out s" using u(1) by (cases u; cases s) simp
  then show ?thesis using flush_pending_all [of "u \<lparr> block_start := int (strstart s) \<rparr>"] assms(2,3) by (simp add: u(2))
qed

lemma FLUSH_BLOCK_ONLY_sends:
  assumes "FLUSH_BLOCK_ONLY eof s = Some t" "window_holds H s \<and> buffers_ok s" "pending_out s = 0" "out_ok s"
    "0 \<le> block_start s \<longrightarrow> int (strstart s) - block_start s < 2 ^ 16"
    "level s = 0 \<and> 0 \<le> block_start s \<or> strategy s = Z_FIXED" "level s = 0 \<and> 0 \<le> block_start s \<or> stand_for H H s"
  shows "\<exists>blk. put_out t = put_out s @ blk @ (if eof then padding (put_out s @ blk) else []) \<and> out_ok t \<and> (eof \<longrightarrow> bi_valid t = 0) \<and>
    (blk = stored_bits (put_out s) eof (drop (length (before_block H s)) H) \<and> length H - length (before_block H s) < 2 ^ 16 \<and>
       H = before_block H s @ drop (length (before_block H s)) H \<or>
     blk = static_bits eof (items s) \<and> stand_for H H s)"
proof -
  let ?buf = "if block_start s \<ge> 0 then Some (drop (nat (block_start s)) (buf_window s)) else None"
  let ?len = "of_int (int (strstart s) - block_start s) :: ulong"
  from assms(1) obtain u where u: "tr_flush_block ?buf ?len eof (trees_state.truncate s) = Some (trees_state.truncate u)"
    "trees_state.more u = trees_state.more s" "kept u = kept s" "last_lit u = 0"
    "t = flush_pending (u \<lparr> block_start := int (strstart s) \<rparr>)" by (rule FLUSH_BLOCK_ONLY_parts)
  let ?v = "u \<lparr> block_start := int (strstart s) \<rparr>"
  have short: "strstart s - nat (block_start s) < 2 ^ 16" if "0 \<le> block_start s"
  proof -
    from that obtain n where "block_start s = int n" by (rule nonneg_int_cases)
    then show ?thesis using assms(5) by simp
  qed
  have w: "window_holds H s" "buffers_ok s" using assms(2) by simp_all
  have out: "written u = written s \<and> pending_out u = pending_out s"
    using u(2) by (cases u; cases s) simp
  have len: "unat ?len = strstart s - nat (block_start s)" if "0 \<le> block_start s"
  proof -
    have "int (strstart s) - block_start s = int (strstart s - nat (block_start s))" using that w(1) by (simp add: window_holds_def of_nat_diff nat_le_iff)
    then have "?len = of_nat (strstart s - nat (block_start s))" by (simp only: of_int_of_nat_eq)
    moreover have "unat (of_nat k :: ulong) = k" if "k < 2 ^ 16" for k using that by (simp add: unat_of_nat)
    moreover have "strstart s - nat (block_start s) < 2 ^ 16" by (rule short [OF that])
    ultimately show ?thesis by metis
  qed
  have fit: "unat ?len \<le> length (the ?buf) \<and> unat ?len < 2 ^ 16" if "?buf \<noteq> None"
  proof -
    have b: "0 \<le> block_start s" using that by (simp split: if_splits)
    have "strstart s \<le> length (buf_window s)" using w(1) by (simp add: window_holds_def sizes_ok_def read_end_def)
    moreover have "strstart s - nat (block_start s) < 2 ^ 16" by (rule short [OF b])
    ultimately show ?thesis unfolding len [OF b] using b by (auto simp: diff_le_mono)
  qed
  have it: "items s = take (unat (last_lit (trees_state.truncate s))) (zip (d_buf (trees_state.truncate s)) (l_buf (trees_state.truncate s)))"
    by (simp add: items_def take_zip)
  have l: "unat (last_lit (trees_state.truncate s)) \<le> length (d_buf (trees_state.truncate s))"
    "unat (last_lit (trees_state.truncate s)) \<le> length (l_buf (trees_state.truncate s))" using w(2) by (simp_all add: buffers_ok_def)
  have kind: "level (trees_state.truncate s) = 0 \<and> ?buf \<noteq> None \<or>
      strategy (trees_state.truncate s) = Z_FIXED \<and> (\<forall>(dist, lc) \<in> set (items s). unat dist \<le> 2 ^ 15)"
    using assms(6,7) in_reach_dist [of "items s"] by (auto simp: stand_for_def)
  have put: "put_out s = byte_bits (written s) @ stream s" by (rule put_out_start [OF assms(3)])
  have "put_out ?v = byte_bits (written s) @ stream u"
    using put_out_start [of ?v] out assms(3) by (simp add: stream_def)
  moreover have "put_out t = put_out ?v"
  proof -
    have "pending_out ?v + length (pending ?v) \<le> length (pending_buf ?v)" using out assms(3) by (simp add: pending_buf_def)
    from flush_pending_sends(1) [OF this] show ?thesis by (simp add: put_out_def u(5))
  qed
  ultimately have pt: "put_out t = byte_bits (written s) @ stream u" by simp
  have m8: "length (stream s) mod 8 = length (put_out s) mod 8" by (simp add: put)
  show "\<exists>blk. put_out t = put_out s @ blk @ (if eof then padding (put_out s @ blk) else []) \<and> out_ok t \<and> (eof \<longrightarrow> bi_valid t = 0) \<and>
    (blk = stored_bits (put_out s) eof (drop (length (before_block H s)) H) \<and> length H - length (before_block H s) < 2 ^ 16 \<and>
       H = before_block H s @ drop (length (before_block H s)) H \<or>
     blk = static_bits eof (items s) \<and> stand_for H H s)"
  proof -
    obtain blk where blk: "out_ok u" "stream u = stream s @ blk @ (if eof then padding (stream s @ blk) else [])" "eof \<longrightarrow> bi_valid u = 0"
      "?buf \<noteq> None \<and> blk = stored_bits (stream s) eof (take (unat ?len) (the ?buf)) \<or>
       \<not> (level s = 0 \<and> ?buf \<noteq> None) \<and> blk = static_bits eof (items s)"
      using flush_block_sends [OF u(1) _ kind fit it l, unfolded stream_truncate_trees truncate_level] assms(4) by blast
    have "padding (stream s @ blk) = padding (put_out s @ blk)" by (rule padding_cong [OF m8])
    then have "put_out t = put_out s @ blk @ (if eof then padding (put_out s @ blk) else [])"
      unfolding pt put blk(2) by simp
    moreover have "out_ok t" "eof \<longrightarrow> bi_valid t = 0" using blk(1,3) by (simp_all add: u(5) out_ok_def)
    moreover have "(blk = stored_bits (put_out s) eof (drop (length (before_block H s)) H) \<and> length H - length (before_block H s) < 2 ^ 16 \<and>
       H = before_block H s @ drop (length (before_block H s)) H \<or> blk = static_bits eof (items s) \<and> stand_for H H s)"
      using blk(4)
    proof
      assume st: "?buf \<noteq> None \<and> blk = stored_bits (stream s) eof (take (unat ?len) (the ?buf))"
      then have b: "0 \<le> block_start s" by (simp split: if_splits)
      note sp = before_block_split [OF w(1) b]
      have "strstart s - nat (block_start s) < 2 ^ 16" by (rule short [OF b])
      moreover have "length (drop (length (before_block H s)) H) \<le> strstart s - nat (block_start s)" unfolding sp(1) [symmetric] by simp
      ultimately show ?thesis using st b len [OF b] sp stored_bits_cong [OF m8] assms(5) by simp
    next
      assume st: "\<not> (level s = 0 \<and> ?buf \<noteq> None) \<and> blk = static_bits eof (items s)"
      then have "stand_for H H s" using assms(7) by (auto split: if_splits)
      then show ?thesis using st by blast
    qed
    ultimately show ?thesis by blast
  qed
qed

end
