(* ===== verification/Deflate_Loops.thy ===== *)
theory Deflate_Loops
  imports Deflate_Flush
begin

text \<open>
  The loops of \<open>deflate_fast\<close> and \<open>deflate_slow\<close> of \<^verbatim>\<open>src/AOS/aos/zlib/deflate.c\<close>: from call to call they take the
  input in order and hand to the block writer only blocks whose items stand for their bytes. What the writer makes
  of a block is an interface.
\<close>

section \<open>Taking the input\<close>

text \<open>\<open>bs\<close> has passed \<open>strstart\<close> since \<open>s\<close>.\<close>

definition consumed :: "deflate_state \<Rightarrow> byte list \<Rightarrow> deflate_state \<Rightarrow> bool" where
  "consumed s bs t \<longleftrightarrow> wrap_of t = wrap_of s \<and> check_valid t \<and> (\<exists>taken. next_in (strm s) = taken @ next_in (strm t) \<and>
    bs @ ahead t = ahead s @ taken \<and> input_check s taken = Some (adler (strm t)))"

lemma consumed_refl: "check_valid s \<Longrightarrow> consumed s [] s"
  by (simp add: consumed_def input_check_Nil)

lemma consumed_trans:
  assumes "consumed s bs t" "consumed t cs u" "check_valid s" "fits (next_in (strm s))"
  shows "consumed s (bs @ cs) u"
proof -
  obtain a where a: "next_in (strm s) = a @ next_in (strm t)" "bs @ ahead t = ahead s @ a" "input_check s a = Some (adler (strm t))"
    using assms(1) by (auto simp: consumed_def)
  obtain b where b: "next_in (strm t) = b @ next_in (strm u)" "cs @ ahead u = ahead t @ b" "input_check t b = Some (adler (strm u))"
    using assms(2) by (auto simp: consumed_def)
  have "fits (a @ b)" using assms(4) a(1) b(1) by (simp add: fits_def)
  then have "input_check s (a @ b) = Some (adler (strm u))"
    using input_check_append [OF assms(3) _ a(3)] b(3) assms(1) by (simp add: consumed_def)
  moreover have "(bs @ cs) @ ahead u = ahead s @ a @ b" using a(2) b(2) by (metis append.assoc)
  ultimately show ?thesis using assms(1,2) a(1) b(1) by (auto simp: consumed_def)
qed

lemma consumed_fits: "consumed s bs t \<Longrightarrow> fits (next_in (strm s)) \<Longrightarrow> fits (next_in (strm t))"
  by (auto simp: consumed_def fits_def)

lemma consumed_item:
  assumes "check_valid s" "item_frame t = item_frame s" "ahead t = drop k (ahead s)"
  shows "consumed s (take k (ahead s)) t"
  using item_frame_fields(2,12) [OF assms(2)] assms(1,3) input_check_Nil [OF assms(1)]
  by (simp add: consumed_def check_valid_def)

lemma consumed_filled: "filled H inp s t \<Longrightarrow> consumed s [] t"
  using window_frame_fields(9) [of t s] by (auto simp: filled_def consumed_def)

lemma consumed_flush: "flush_step s t \<Longrightarrow> check_valid s \<Longrightarrow> consumed s [] t"
  using outer_frame_fields [OF flush_step_fields(1)] input_check_Nil by (auto simp: consumed_def check_valid_def ahead_def)

section \<open>Filling the window before an item\<close>

lemma matching_ok_filled: "filled H inp s t \<Longrightarrow> matching_ok H s \<Longrightarrow> matching_ok H t"
  using window_frame_fields [of t s] by (auto simp: filled_def matching_ok_def buffers_ok_def)

lemma fill_lookahead_filled:
  assumes "fill_lookahead flush s = Some r" "matching_ok H s" "check_valid s" "fits (next_in (strm s))"
  shows "\<exists>t inp. filled H inp s t \<and> strstart t \<le> w_size t + MAX_DIST t \<and>
    (r = Next_Round t \<and> 0 < lookahead t \<or> r = Break_Loop t \<and> lookahead t = 0 \<and> next_in (strm t) = [] \<or>
     r = Return_With need_more t)"
proof -
  obtain I where m: "window_holds H s" "chains I (strstart s) (read_end s) s" "primed s" using assms(2) by (auto simp: matching_ok_def)
  show ?thesis
  proof (cases "lookahead s < MIN_LOOKAHEAD")
    case True
    obtain t inp where t: "fill_window s = Some t" "filled H inp s t" "strstart t < w_size s + MAX_DIST s"
      "MIN_LOOKAHEAD \<le> lookahead t \<or> next_in (strm t) = []"
      using fill_window_filled [OF m(1,2) assms(3) True assms(4)] by blast
    have "window_frame t = window_frame s" using t(2) by (simp add: filled_def)
    note f = window_frame_fields [OF this]
    have "r = (if lookahead t < MIN_LOOKAHEAD \<and> flush = Z_NO_FLUSH then Return_With need_more t
        else if lookahead t = 0 then Break_Loop t else Next_Round t)"
      using assms(1) True t(1) by (simp add: fill_lookahead_def)
    moreover have "lookahead t = 0 \<Longrightarrow> next_in (strm t) = []" using t(4) by (auto simp: MIN_LOOKAHEAD_def)
    ultimately show ?thesis using t(2,3) f(1,10) by (intro exI [of _ t] exI [of _ inp]) auto
  next
    case False
    have "filled H [] s s" using m assms(3) input_check_Nil by (auto simp: filled_def)
    moreover have "strstart s \<le> w_size s + MAX_DIST s"
    proof -
      have "strstart s + lookahead s \<le> 2 * w_size s" "262 \<le> lookahead s"
        using m(1) False by (simp_all add: window_holds_def read_end_def MIN_LOOKAHEAD_def MIN_MATCH_def MAX_MATCH_def)
      moreover have "MAX_DIST s = w_size s - 262 \<and> 512 \<le> w_size s" using MAX_DIST_value [of s] m(1) by (simp add: window_holds_def)
      ultimately show ?thesis by linarith
    qed
    moreover have "r = Next_Round s" "0 < lookahead s" using assms(1) False by (simp_all add: fill_lookahead_def MIN_LOOKAHEAD_def)
    ultimately show ?thesis by blast
  qed
qed

lemma before_block_later:
  assumes "window_holds H s" "length xs = k" "strstart t = strstart s + k" "block_start t = block_start s"
  shows "before_block (H @ xs) t = before_block H s"
proof -
  have b: "block_start s \<le> int (strstart s)" using assms(1) by (simp add: window_holds_def)
  have "int (length (H @ xs)) - int (strstart t) + block_start t = int (length H) - int (strstart s) + block_start s"
    using assms(2-4) by simp
  moreover have "nat (int (length H) - int (strstart s) + block_start s) \<le> length H" using b by linarith
  ultimately show ?thesis unfolding before_block_def by (simp only: take_append diff_is_0_eq' take_0 append_Nil2)
qed

lemma start_bound:
  assumes "sizes_ok s" "strstart s \<le> w_size s + MAX_DIST s"
  shows "strstart s + MAX_MATCH < 2 ^ 16"
proof -
  have "strstart s + 258 < 65536" using assms(2) MAX_DIST_value [OF assms(1)] by linarith
  then show ?thesis by (simp add: MAX_MATCH_def)
qed

section \<open>The block writer\<close>

definition flush_ready :: "byte list \<Rightarrow> deflate_state \<Rightarrow> bool" where
  "flush_ready H s \<longleftrightarrow> window_holds H s \<and> buffers_ok s \<and> pending_out s = 0 \<and> strstart s < 2 ^ 16 \<and> stand_for H H s"

lemma filled_start_pos: "filled H inp s t \<Longrightarrow> 0 < strstart s \<Longrightarrow> 0 < strstart t"
  using MAX_DIST_value [of t] by (auto simp: filled_def window_holds_def)

text \<open>
  \<open>flushable H s\<close>: a block can be flushed at the history \<open>H\<close>. \<open>wrote h s\<close>: what has been put out stands for the history \<open>h\<close>; \<open>ended h s\<close>: and the last block has been put out. A block that is
  flushed takes the one to the history at its end; nothing but a flush matters.
\<close>

locale block_writer =
  fixes flushable :: "byte list \<Rightarrow> deflate_state \<Rightarrow> bool"
    and wrote :: "byte list \<Rightarrow> deflate_state \<Rightarrow> bool"
    and ended :: "byte list \<Rightarrow> deflate_state \<Rightarrow> bool"
  assumes flushable: "flushable H s \<Longrightarrow> window_holds H s \<and> pending_out s = 0"
    and wrote_item: "item_frame t = item_frame s \<Longrightarrow> wrote h s \<Longrightarrow> wrote h t"
    and wrote_window: "window_frame t = window_frame s \<Longrightarrow> wrote h s \<Longrightarrow> wrote h t"
    and wrote_block: "FLUSH_BLOCK_ONLY False s = Some t \<Longrightarrow> flushable H s \<Longrightarrow> wrote (before_block H s) s \<Longrightarrow> wrote H t"
    and ended_block: "FLUSH_BLOCK_ONLY True s = Some t \<Longrightarrow> flushable H s \<Longrightarrow> wrote (before_block H s) s \<Longrightarrow> ended H t"
begin

text \<open>Between two rounds.\<close>

definition at_round :: "byte list \<Rightarrow> deflate_state \<Rightarrow> bool" where
  "at_round H s \<longleftrightarrow> check_valid s \<and> fits (next_in (strm s)) \<and> pending_out s = 0 \<and> wrote (before_block H s) s"

text \<open>What a strategy has done when it returns.\<close>

definition strategy_done :: "(byte list \<Rightarrow> deflate_state \<Rightarrow> bool) \<Rightarrow> byte list \<Rightarrow> deflate_state \<Rightarrow> block_state \<Rightarrow> deflate_state \<Rightarrow> bool" where
  "strategy_done ok H s b t \<longleftrightarrow> (\<exists>bs. consumed s bs t \<and>
    (if b = finish_started \<or> b = finish_done then ended (H @ bs) t \<and> lookahead t = 0 \<and> next_in (strm t) = []
     else ok (H @ bs) t \<and> wrote (before_block (H @ bs) t) t) \<and>
    (b = block_done \<longrightarrow> lookahead t = 0 \<and> next_in (strm t) = []) \<and>
    (b = block_done \<or> b = finish_done \<longrightarrow> avail_out (strm t) \<noteq> 0 \<and> pending t = [] \<and> pending_out t = 0))"

lemma strategy_done_later:
  assumes "consumed s bs t" "strategy_done ok (H @ bs) t b u" "check_valid s" "fits (next_in (strm s))"
  shows "strategy_done ok H s b u"
proof -
  obtain cs where cs: "consumed t cs u"
    "if b = finish_started \<or> b = finish_done then ended ((H @ bs) @ cs) u \<and> lookahead u = 0 \<and> next_in (strm u) = []
     else ok ((H @ bs) @ cs) u \<and> wrote (before_block ((H @ bs) @ cs) u) u"
    "b = block_done \<longrightarrow> lookahead u = 0 \<and> next_in (strm u) = []"
    "b = block_done \<or> b = finish_done \<longrightarrow> avail_out (strm u) \<noteq> 0 \<and> pending u = [] \<and> pending_out u = 0"
    using assms(2) by (auto simp: strategy_done_def)
  show ?thesis unfolding strategy_done_def
    by (intro exI [of _ "bs @ cs"] conjI consumed_trans [OF assms(1) cs(1) assms(3,4)])
      (rule cs(2) [unfolded append_assoc] cs(3,4))+
qed

lemma at_round_item:
  assumes "at_round H s" "item_frame t = item_frame s" "before_block H' t = before_block H s"
  shows "at_round H' t"
proof -
  have "pending_out t = pending_out s" using arg_cong [OF assms(2), of pending_out] by (simp add: item_frame_def)
  then show ?thesis
    using assms(1,3) wrote_item [OF assms(2)] item_frame_fields(2,12) [OF assms(2)] by (simp add: at_round_def check_valid_def)
qed

lemma filled_round:
  assumes "filled H inp s t" "at_round H s"
  shows "at_round H t" "before_block H t = before_block H s" "items t = items s" "buffers_ok t = buffers_ok s"
    "stand_for H H' t = stand_for H H' s"
proof -
  have w: "window_frame t = window_frame s" using assms(1) by (simp add: filled_def)
  have "int (strstart t) - block_start t = int (strstart s) - block_start s" using assms(1) by (simp add: filled_def)
  then have e: "int (length H) - int (strstart t) + block_start t = int (length H) - int (strstart s) + block_start s" by linarith
  show b: "before_block H t = before_block H s" unfolding before_block_def e ..
  note f = window_frame_fields [OF w]
  show i: "items t = items s" "buffers_ok t = buffers_ok s" by (simp_all add: items_def buffers_ok_def f)
  show "stand_for H H' t = stand_for H H' s" by (simp add: stand_for_def b i)
  have "pending_out t = pending_out s" using arg_cong [OF w, of pending_out] by (simp add: window_frame_def)
  then show "at_round H t"
    using assms wrote_window [OF w] b consumed_fits [OF consumed_filled [OF assms(1)]] by (simp add: at_round_def filled_def)
qed

lemma flushed_round:
  assumes "FLUSH_BLOCK_ONLY False s = Some t" "flushable H s" "at_round H s"
  shows "wrote (before_block H t) t" "avail_out (strm t) \<noteq> 0 \<Longrightarrow> at_round H t" "consumed s [] t" "before_block H t = H"
proof -
  have st: "flush_step s t" by (rule FLUSH_BLOCK_ONLY_step [OF assms(1)])
  have m: "window_holds H s" "pending_out s = 0" using flushable [OF assms(2)] by simp_all
  have cv: "check_valid s" using assms(3) by (simp add: at_round_def)
  note o = outer_frame_fields [OF flush_step_fields(1) [OF st]]
  have "strstart t \<le> length H" using m(1) o(12) by (simp add: window_holds_def)
  then show b: "before_block H t = H" using flush_step_fields(2) [OF st] o(12) by (simp add: before_block_def)
  have "wrote H t" by (rule wrote_block [OF assms(1,2)]) (use assms(3) in \<open>simp add: at_round_def\<close>)
  then show w: "wrote (before_block H t) t" by (simp add: b)
  show c: "consumed s [] t" by (rule consumed_flush [OF st cv])
  show "at_round H t" if "avail_out (strm t) \<noteq> 0"
  proof -
    have "pending_out t = 0" using FLUSH_BLOCK_ONLY_room [OF assms(1) m(2) that] by simp
    then show ?thesis using w c consumed_fits [OF c] assms(3) by (simp add: at_round_def consumed_def)
  qed
qed

lemma FLUSH_IF_done:
  assumes "FLUSH_IF b s = Some r" "flushable H s" "at_round H s"
  shows "\<exists>t. (t = s \<or> flush_step s t) \<and> consumed s [] t \<and> wrote (before_block H t) t \<and>
    (r = Next_Round t \<and> at_round H t \<or> r = Return_With need_more t)"
proof (cases b)
  case True
  then obtain t where t: "FLUSH_BLOCK_ONLY False s = Some t" "r = (if avail_out (strm t) = 0 then Return_With need_more t else Next_Round t)"
    using assms(1) by (auto simp: FLUSH_IF_def FLUSH_BLOCK_def split: bind_splits)
  show ?thesis using flushed_round [OF t(1) assms(2,3)] FLUSH_BLOCK_ONLY_step [OF t(1)] t(2) by (intro exI [of _ t]) auto
next
  case False
  then show ?thesis using assms(1,3) consumed_refl [of s] by (intro exI [of _ s]) (auto simp: FLUSH_IF_def at_round_def)
qed

lemma finish_block_done:
  assumes "finish_block flush s = Some (b, t)" "flushable H s" "at_round H s" "lookahead s = 0" "next_in (strm s) = []"
    "\<And>u. flush_step s u \<Longrightarrow> ok H u"
  shows "strategy_done ok H s b t"
proof -
  let ?eof = "flush = Z_FINISH"
  have f: "FLUSH_BLOCK_ONLY ?eof s = Some t" and b: "b = (if avail_out (strm t) = 0 then if ?eof then finish_started else need_more
      else if ?eof then finish_done else block_done)"
    using assms(1) by (auto simp: finish_block_def FLUSH_BLOCK_def split: bind_splits if_splits)
  have st: "flush_step s t" by (rule FLUSH_BLOCK_ONLY_step [OF f])
  note o = outer_frame_fields [OF flush_step_fields(1) [OF st]]
  have at: "check_valid s" "wrote (before_block H s) s" using assms(3) by (simp_all add: at_round_def)
  have p: "pending_out s = 0" using flushable [OF assms(2)] by simp
  have c: "consumed s [] t" by (rule consumed_flush [OF st at(1)])
  have l: "lookahead t = 0" "next_in (strm t) = []" using o assms(4,5) by simp_all
  have r: "pending t = [] \<and> pending_out t = 0" if "avail_out (strm t) \<noteq> 0" by (rule FLUSH_BLOCK_ONLY_room [OF f p that])
  show ?thesis
  proof (cases ?eof)
    case True
    then have "ended H t" using ended_block [OF _ assms(2) at(2)] f by simp
    then show ?thesis using True b c l r unfolding strategy_done_def by (intro exI [of _ "[]"]) auto
  next
    case False
    then have "FLUSH_BLOCK_ONLY False s = Some t" using f by simp
    note w = flushed_round [OF this assms(2,3)]
    show ?thesis using False b c l r w(1) assms(6) [OF st] unfolding strategy_done_def by (intro exI [of _ "[]"]) auto
  qed
qed

lemma stopped:
  assumes "consumed s [] t" "ok H t" "wrote (before_block H t) t"
  shows "strategy_done ok H s need_more t"
  using assms unfolding strategy_done_def by (intro exI [of _ "[]"]) simp

end

text \<open>A writer that takes every block whose items stand for its bytes.\<close>

locale item_writer = block_writer +
  assumes item_flushable: "flush_ready H s \<Longrightarrow> flushable H s"
begin

section \<open>\<open>deflate_fast\<close>\<close>

lemma fast_ok_filled:
  assumes "filled H inp s t" "fast_ok H s" "at_round H s" shows "fast_ok H t"
proof -
  have w: "window_frame t = window_frame s" using assms(1) by (simp add: filled_def)
  show ?thesis
    using assms(2) matching_ok_filled [OF assms(1)] window_frame_fields(11,12) [OF w] filled_round(5) [OF assms(1,3)] by (simp add: fast_ok_def)
qed

lemma fast_ok_flushed:
  assumes "flush_step s t" "fast_ok H s" shows "fast_ok H t"
proof -
  have m: "matching_ok H s" "window_holds H s" using assms(2) by (simp_all add: fast_ok_def matching_ok_def)
  show ?thesis
    using assms(2) flush_step_ok [OF assms(1) m(1)] flush_step_holds(2) [OF assms(1) m(2)]
      outer_frame_fields(14,16) [OF flush_step_fields(1) [OF assms(1)]] by (simp add: fast_ok_def)
qed

lemma fast_rounds_done:
  assumes "fast_rounds flush hh s = Some (b, t)" "fast_ok H s" "at_round H s" "hh < 2 ^ 32"
  shows "strategy_done fast_ok H s b t"
proof -
  have "\<forall>H. fast_ok H s \<longrightarrow> at_round H s \<longrightarrow> hh < 2 ^ 32 \<longrightarrow> (case (b, t) of (b, t) \<Rightarrow> strategy_done fast_ok H s b t)"
  proof (rule fast_rounds.raw_induct [OF _ assms(1), where P = "\<lambda>flush hh s y. \<forall>H. fast_ok H s \<longrightarrow> at_round H s \<longrightarrow> hh < 2 ^ 32 \<longrightarrow>
      (case y of (b, t) \<Rightarrow> strategy_done fast_ok H s b t)"], intro allI impI, goal_cases)
    case (1 f flush hh s y H)
    obtain b t where y: "y = (b, t)" by fastforce
    have at: "check_valid s" "fits (next_in (strm s))" using "1"(4) by (simp_all add: at_round_def)
    have mo: "matching_ok H s" using "1"(3) by (simp add: fast_ok_def)
    obtain r where r: "fill_lookahead flush s = Some r" using "1"(2) by (auto split: bind_splits)
    obtain u inp where u: "filled H inp s u" "strstart u \<le> w_size u + MAX_DIST u"
      "r = Next_Round u \<and> 0 < lookahead u \<or> r = Break_Loop u \<and> lookahead u = 0 \<and> next_in (strm u) = [] \<or> r = Return_With need_more u"
      using fill_lookahead_filled [OF r mo at] by blast
    have fu: "fast_ok H u" by (rule fast_ok_filled [OF u(1) "1"(3,4)])
    have au: "at_round H u" by (rule filled_round(1) [OF u(1) "1"(4)])
    have cu: "consumed s [] u" by (rule consumed_filled [OF u(1)])
    have wu: "window_holds H u" "sizes_ok u" using fu by (simp_all add: fast_ok_def matching_ok_def window_holds_def)
    have su: "strstart u + MAX_MATCH < 2 ^ 16" by (rule start_bound [OF wu(2) u(2)])
    have "strategy_done fast_ok H u b t" if "r \<noteq> Return_With need_more u"
    proof (cases "r = Break_Loop u")
      case True
      then have fb: "finish_block flush u = Some (b, t)" using "1"(2) r y by simp
      have "flush_ready H u" using fu au su by (simp add: fast_ok_def matching_ok_def at_round_def flush_ready_def)
      then show ?thesis using finish_block_done [OF fb item_flushable au] u(3) True fast_ok_flushed fu by auto
    next
      case False
      then have r': "r = Next_Round u" "0 < lookahead u" using u(3) that by auto
      obtain bf hh' v where v: "fast_item hh u = Some (bf, hh', v)" and
        rest: "(do { r \<leftarrow> FLUSH_IF bf v; case r of Return_With b s \<Rightarrow> Some (b, s) | Break_Loop s \<Rightarrow> finish_block flush s
          | Next_Round s \<Rightarrow> f flush hh' s }) = Some (b, t)"
        using "1"(2) r r'(1) y by (auto split: bind_splits)
      obtain k where k: "k \<le> lookahead u" "k \<le> MAX_MATCH" "strstart v = strstart u + k" "fast_ok (H @ take k (ahead u)) v"
        "ahead v = drop k (ahead u)" "item_frame v = item_frame u" "hh' < 2 ^ 32"
        using fast_item_ok [OF v fu r'(2) "1"(5)] by blast
      let ?H = "H @ take k (ahead u)"
      have cv: "consumed u (take k (ahead u)) v" by (rule consumed_item [OF _ k(6,5)]) (use au in \<open>simp add: at_round_def\<close>)
      have "length (take k (ahead u)) = k" using k(1) length_ahead [OF wu(1)] by simp
      then have "before_block ?H v = before_block H u"
        by (rule before_block_later [OF wu(1) _ k(3) item_frame_fields(3) [OF k(6)]])
      then have av: "at_round ?H v" by (rule at_round_item [OF au k(6)])
      have "strstart v < 2 ^ 16" using su k(2,3) by linarith
      then have fr: "flush_ready ?H v" using k(4) av by (simp add: fast_ok_def matching_ok_def at_round_def flush_ready_def)
      obtain r2 where r2: "FLUSH_IF bf v = Some r2" using rest by (auto split: bind_splits)
      obtain w where w: "w = v \<or> flush_step v w" "consumed v [] w" "wrote (before_block ?H w) w"
        "r2 = Next_Round w \<and> at_round ?H w \<or> r2 = Return_With need_more w"
        using FLUSH_IF_done [OF r2 item_flushable [OF fr] av] by blast
      have fw: "fast_ok ?H w" using w(1) k(4) fast_ok_flushed by blast
      have "strategy_done fast_ok ?H v b t"
      proof (cases "r2 = Return_With need_more w")
        case True
        then have "b = need_more" "t = w" using rest r2 by simp_all
        then show ?thesis using stopped [of v w fast_ok ?H, OF w(2) fw w(3)] by simp
      next
        case False
        then have n: "r2 = Next_Round w" "at_round ?H w" using w(4) by auto
        then have "f flush hh' w = Some (b, t)" using rest r2 by simp
        from "1"(1) [OF this] have "strategy_done fast_ok ?H w b t" using fw n(2) k(7) by auto
        then show ?thesis using strategy_done_later [OF w(2), of fast_ok ?H] av by (simp add: at_round_def)
      qed
      then show ?thesis using strategy_done_later [OF cv] au by (simp add: at_round_def)
    qed
    moreover have "strategy_done fast_ok H u b t" if "r = Return_With need_more u"
    proof -
      have "b = need_more" "t = u" using that "1"(2) r y by simp_all
      then show ?thesis using stopped [of u u fast_ok H, OF consumed_refl fu] au by (simp add: at_round_def)
    qed
    ultimately have "strategy_done fast_ok H u b t" by blast
    then show ?case using strategy_done_later [OF cu, of fast_ok H] at y by simp
  qed
  then show ?thesis using assms(2-4) by simp
qed

end

end
