(* ===== verification/Deflate_Slow.thy ===== *)
theory Deflate_Slow
  imports Deflate_Loops
begin

text \<open>
  The round of \<open>deflate_slow\<close> of \<^verbatim>\<open>src/AOS/aos/zlib/deflate.c\<close>, which puts off every match by one byte: the items tallied
  stand for what has passed \<open>strstart\<close> but for the byte before it when \<open>match_available\<close>.
\<close>

section \<open>The match put off\<close>

text \<open>A match of \<open>n\<close> bytes at the distance \<open>d\<close> from the byte before \<open>strstart\<close>.\<close>

definition put_off :: "byte list \<Rightarrow> nat \<Rightarrow> nat \<Rightarrow> deflate_state \<Rightarrow> bool" where
  "put_off H n d s \<longleftrightarrow> n \<le> MAX_MATCH \<and> n \<le> lookahead s + 1 \<and> 0 < d \<and> d \<le> 2 ^ 15 \<and> d \<le> length (butlast H) \<and>
    lz_copy n d (butlast H) = butlast H @ take n (last H # ahead s)"

definition tallied :: "byte list \<Rightarrow> deflate_state \<Rightarrow> byte list" where
  "tallied H s = (if match_available s then butlast H else H)"

definition waits_ok :: "byte list \<Rightarrow> deflate_state \<Rightarrow> bool" where
  "waits_ok H s \<longleftrightarrow> (match_available s \<longrightarrow> H \<noteq> [] \<and> 0 < strstart s) \<and>
    (MIN_MATCH \<le> match_length s \<longrightarrow> match_available s \<and> put_off H (match_length s) (back_distance s) s)"

definition slow_ok :: "byte list \<Rightarrow> deflate_state \<Rightarrow> bool" where
  "slow_ok H s \<longleftrightarrow> matching_ok H s \<and> stand_for H (tallied H s) s \<and> waits_ok H s"

lemma put_off_now:
  assumes "put_off H n d s" "H \<noteq> []" "0 < n"
  shows "lz_copy n d (butlast H) = H @ take (n - 1) (ahead s)"
  using assms by (cases n) (simp_all add: put_off_def)

lemma put_off_later:
  assumes "window_holds H s" "found_match start n s" "ahead t = drop 1 (ahead s)" "lookahead t = lookahead s - 1" "0 < lookahead s"
  shows "put_off (H @ take 1 (ahead s)) n (strstart s - start) t"
proof -
  have f: "n \<le> MAX_MATCH" "n \<le> lookahead s" "start < strstart s" "strstart s \<le> start + MAX_DIST s" using assms(2) by (simp_all add: found_match_def)
  have w: "sizes_ok s" "strstart s \<le> length H" using assms(1) by (simp_all add: window_holds_def)
  obtain x xs where a: "ahead s = x # xs" using length_ahead [OF assms(1)] assms(5) by (cases "ahead s") auto
  have "lz_copy n (strstart s - start) H = H @ take n (ahead s)" by (rule found_match_copies [OF assms(1,2) order_refl])
  moreover have "strstart s - start \<le> 32768" using f(4) MAX_DIST_value [OF w(1)] by linarith
  ultimately show ?thesis using f w(2) assms(3-5) by (simp add: put_off_def a)
qed

section \<open>Searching\<close>

lemma slow_search_found:
  assumes "slow_search hh s = Some t" "sizes_ok s" "chains I (strstart s + 1) e s" "hh < 2 ^ 32" "match_start s < 2 ^ 32"
    "MIN_MATCH \<le> lookahead s \<longrightarrow> hh \<noteq> 0 \<longrightarrow> minus_u32 (strstart s) hh \<le> MAX_DIST s \<longrightarrow> near I hh s"
  shows "t = s \<lparr> prev_length := match_length s, prev_match := match_start s, match_length := match_length t, match_start := match_start t \<rparr>"
    "match_start t < 2 ^ 32"
    "MIN_MATCH \<le> match_length t \<Longrightarrow> match_length s < match_length t \<Longrightarrow> found_match (match_start t) (match_length t) s"
proof -
  let ?s = "s \<lparr> prev_length := match_length s, prev_match := match_start s, match_length := MIN_MATCH - 1 \<rparr>"
  have fr: "item_frame ?s = item_frame s" by simp
  have ok: "sizes_ok ?s" by (rule item_sizes_ok [OF assms(2) fr]) simp_all
  have c: "chains I (strstart ?s + 1) e ?s" using assms(3) item_chains [OF fr] by simp
  have md: "MAX_DIST ?s = MAX_DIST s" "hash3 ?s i = hash3 s i" for i using item_frame_fields(15,17) [OF fr] by simp_all
  have fm: "found_match a n ?s = found_match a n s" for a n unfolding found_match_def md(1) by simp
  have "t = s \<lparr> prev_length := match_length s, prev_match := match_start s, match_length := match_length t, match_start := match_start t \<rparr> \<and>
    match_start t < 2 ^ 32 \<and> (MIN_MATCH \<le> match_length t \<longrightarrow> match_length s < match_length t \<longrightarrow> found_match (match_start t) (match_length t) s)"
  proof (cases "hh \<noteq> 0 \<and> prev_length ?s < max_lazy_match ?s \<and> minus_u32 (strstart ?s) hh \<le> MAX_DIST ?s")
    case True
    then obtain u where u: "find_match hh ?s = Some u"
      and t: "t = u \<or> t = u \<lparr> match_length := MIN_MATCH - 1 \<rparr>"
      using assms(1) by (auto simp: slow_search_def Let_def split: bind_splits if_splits)
    have "near I hh ?s" if "MIN_MATCH \<le> lookahead ?s" using assms(6) that True unfolding near_def md by simp
    note f = find_match_found [OF u ok c _ assms(4) _ _ this]
    have "u = ?s \<lparr> match_length := match_length u, match_start := match_start u \<rparr> \<and> match_start u < 2 ^ 32 \<and>
      (MIN_MATCH \<le> match_length u \<and> prev_length ?s < match_length u \<longrightarrow> found_match (match_start u) (match_length u) ?s)"
      by (rule f) (use True assms(5) in \<open>simp_all add: MIN_MATCH_def\<close>)
    then have v: "u = ?s \<lparr> match_length := match_length u, match_start := match_start u \<rparr>" "match_start u < 2 ^ 32"
      "MIN_MATCH \<le> match_length u \<Longrightarrow> match_length s < match_length u \<Longrightarrow> found_match (match_start u) (match_length u) s"
      unfolding fm by simp_all
    have w: "u = s \<lparr> prev_length := match_length s, prev_match := match_start s, match_length := match_length u, match_start := match_start u \<rparr>"
      by (subst v(1)) simp
    show ?thesis using t
    proof
      assume "t = u" then show ?thesis using v(2,3) w by blast
    next
      assume t: "t = u \<lparr> match_length := MIN_MATCH - 1 \<rparr>"
      have "t = s \<lparr> prev_length := match_length s, prev_match := match_start s, match_length := match_length t, match_start := match_start t \<rparr>"
        unfolding t by (subst w) simp
      then show ?thesis using v(2) t by (simp add: MIN_MATCH_def)
    qed
  next
    case False
    then have "t = ?s" using assms(1) by (auto simp: slow_search_def Let_def split: if_splits)
    then show ?thesis using assms(5) by (simp add: MIN_MATCH_def)
  qed
  then show "t = s \<lparr> prev_length := match_length s, prev_match := match_start s, match_length := match_length t, match_start := match_start t \<rparr>"
    "match_start t < 2 ^ 32"
    "MIN_MATCH \<le> match_length t \<Longrightarrow> match_length s < match_length t \<Longrightarrow> found_match (match_start t) (match_length t) s"
    by blast+
qed

section \<open>The strings of a match\<close>

lemma slow_inserts_step:
  assumes "slow_inserts (e - MIN_MATCH) n hh s = Some (hh', t)" "sizes_ok s" "strstart s + MIN_MATCH \<le> e \<Longrightarrow> ins_h s = hash3 s (strstart s)"
    "chains I (strstart s + 1) e s" "e \<le> 2 * w_size s" "MIN_MATCH \<le> e" "hh < 2 ^ 32"
  shows "\<exists>J. t = s \<lparr> strstart := strstart s + n, prev_length := 0, ins_h := ins_h t, prev_of := prev_of t, head_of := head_of t \<rparr> \<and>
    length (prev_of t) = length (prev_of s) \<and> length (head_of t) = length (head_of s) \<and>
    chains J (strstart t + 1) e t \<and> (strstart t + MIN_MATCH \<le> e \<longrightarrow> ins_h t = hash3 t (strstart t)) \<and> hh' < 2 ^ 32"
  using assms
proof (induction n arbitrary: hh s I)
  case (Suc n)
  let ?s = "s \<lparr> strstart := strstart s + 1 \<rparr>"
  obtain m u where i: "(if strstart s + 1 \<le> e - MIN_MATCH then INSERT_STRING (strstart s + 1) ?s else Some (hh, ?s)) = Some (m, u)"
    and r: "(if n = 0 then Some (m, u \<lparr> prev_length := n \<rparr>) else slow_inserts (e - MIN_MATCH) n m (u \<lparr> prev_length := n \<rparr>)) = Some (hh', t)"
    using Suc.prems(1) by (auto simp: Let_def split: bind_splits if_splits)
  have "\<exists>J. chain_step ?s u \<and> sizes_ok u \<and> chains J (strstart s + 2) e u \<and>
      (strstart s + 1 + MIN_MATCH \<le> e \<longrightarrow> ins_h u = hash3 u (strstart s + 1)) \<and> m < 2 ^ 32"
  proof (cases "strstart s + 1 + MIN_MATCH \<le> e")
    case True
    then have "strstart s + 1 \<le> e - MIN_MATCH" by linarith
    then have ins: "INSERT_STRING (strstart s + 1) ?s = Some (m, u)" using i by simp
    have "strstart s + MIN_MATCH \<le> e" using True by simp
    from INSERT_STRING_next [OF ins Suc.prems(2) Suc.prems(3) [OF this] Suc.prems(4) True Suc.prems(5)] show ?thesis by blast
  next
    case False
    then have "\<not> strstart s + 1 \<le> e - MIN_MATCH" using Suc.prems(6) by linarith
    then have u: "u = ?s" "m = hh" using i by simp_all
    have "chains I (strstart s + 2) e ?s"
      using chains_later [OF Suc.prems(4), of "strstart s + 2"] item_chains [of ?s s] by simp
    moreover have "sizes_ok ?s" by (rule item_sizes_ok [OF Suc.prems(2)]) simp_all
    ultimately show ?thesis using False Suc.prems(7) by (auto simp: u chain_step_def)
  qed
  then obtain J where st: "chain_step ?s u" "sizes_ok u" "chains J (strstart s + 2) e u"
    "strstart s + 1 + MIN_MATCH \<le> e \<longrightarrow> ins_h u = hash3 u (strstart s + 1)" "m < 2 ^ 32" by blast
  let ?u = "u \<lparr> prev_length := n \<rparr>"
  have u: "u = s \<lparr> strstart := strstart s + 1, ins_h := ins_h u, prev_of := prev_of u, head_of := head_of u \<rparr>"
    "length (prev_of u) = length (prev_of s)" "length (head_of u) = length (head_of s)"
    using st(1) by (simp_all add: chain_step_def)
  have uf: "strstart u = strstart s + 1" "w_size u = w_size s" by (subst u(1), simp)+
  have ok: "sizes_ok ?u" by (rule item_sizes_ok [OF st(2)]) simp_all
  have h: "strstart ?u + MIN_MATCH \<le> e \<Longrightarrow> ins_h ?u = hash3 ?u (strstart ?u)"
    using st(4) uf by (simp add: hash3_def UPDATE_HASH_def)
  have c: "chains J (strstart ?u + 1) e ?u" using st(3) uf item_chains [of ?u u] by simp
  show ?case
  proof (cases "n = 0")
    case True
    then have t: "t = ?u" "hh' = m" using r by simp_all
    have "t = s \<lparr> strstart := strstart s + Suc n, prev_length := 0, ins_h := ins_h t, prev_of := prev_of t, head_of := head_of t \<rparr>"
      unfolding t(1) by (subst u(1)) (simp add: True)
    then show ?thesis using c h u t st(5) by auto
  next
    case False
    have e: "e \<le> 2 * w_size ?u" using Suc.prems(5) uf by simp
    have rest: "slow_inserts (e - MIN_MATCH) n m ?u = Some (hh', t)" using r False by simp
    obtain K where K: "t = ?u \<lparr> strstart := strstart ?u + n, prev_length := 0, ins_h := ins_h t, prev_of := prev_of t, head_of := head_of t \<rparr>"
      "length (prev_of t) = length (prev_of ?u)" "length (head_of t) = length (head_of ?u)"
      "chains K (strstart t + 1) e t" "strstart t + MIN_MATCH \<le> e \<longrightarrow> ins_h t = hash3 t (strstart t)" "hh' < 2 ^ 32"
      using Suc.IH [OF rest ok h c e Suc.prems(6) st(5)] by blast
    have "t = s \<lparr> strstart := strstart s + Suc n, prev_length := 0, ins_h := ins_h t, prev_of := prev_of t, head_of := head_of t \<rparr>"
      by (subst K(1), subst u(1)) (simp add: uf)
    then show ?thesis using K u by auto
  qed
qed simp

section \<open>One item\<close>

lemma slow_take_match_parts:
  assumes "slow_take_match hh s = Some (hh', r)"
  obtains bf u v where "tally_match (minus_u32 (minus_u32 (strstart s) 1) (prev_match s)) (prev_length s - MIN_MATCH) s = Some (bf, u)"
    "slow_inserts (minus_u32 (strstart s + lookahead s) MIN_MATCH) (prev_length u - 2) hh
      (u \<lparr> lookahead := minus_u32 (lookahead u) (prev_length u - 1), prev_length := prev_length u - 2 \<rparr>) = Some (hh', v)"
    "FLUSH_IF bf (v \<lparr> match_available := False, match_length := MIN_MATCH - 1, strstart := strstart v + 1 \<rparr>) = Some r"
  using assms that by (auto simp: slow_take_match_def Let_def split: bind_splits)

lemma slow_take_match_ok:
  assumes "tally_match d (n - MIN_MATCH) s = Some (bf, u)"
    "slow_inserts (minus_u32 (strstart s + lookahead s) MIN_MATCH) (prev_length u - 2) hh
      (u \<lparr> lookahead := minus_u32 (lookahead u) (prev_length u - 1), prev_length := prev_length u - 2 \<rparr>) = Some (hh', v)"
    "window_holds H s" "chains J (strstart s + 1) (read_end s) s" "buffers_ok s"
    "MIN_MATCH \<le> lookahead s \<longrightarrow> ins_h s = hash3 s (strstart s)"
    "n = prev_length s" "MIN_MATCH \<le> n" "put_off H n d s" "H \<noteq> []" "0 < strstart s" "stand_for H (butlast H) s" "hh < 2 ^ 32"
  defines "k \<equiv> n - 1" and "t \<equiv> v \<lparr> match_available := False, match_length := MIN_MATCH - 1, strstart := strstart v + 1 \<rparr>"
  shows "slow_ok (H @ take k (ahead s)) t" "stand_for (H @ take k (ahead s)) (H @ take k (ahead s)) t" "ahead t = drop k (ahead s)"
    "item_frame t = item_frame s" "lookahead t = lookahead s - k" "strstart t = strstart s + k" "hh' < 2 ^ 32" "k \<le> lookahead s" "k \<le> MAX_MATCH"
proof -
  have w: "sizes_ok s" "match_start s < 2 ^ 32" "strstart s \<le> length H" "read_end s \<le> 2 * w_size s" using assms(3) by (simp_all add: window_holds_def)
  have m: "n \<le> MAX_MATCH" "n \<le> lookahead s + 1" "0 < d" "d \<le> 2 ^ 15" "d \<le> length (butlast H)" using assms(9) by (simp_all add: put_off_def)
  have n3: "3 \<le> n" using assms(8) by (simp add: MIN_MATCH_def)
  show kl: "k \<le> lookahead s" "k \<le> MAX_MATCH" using m n3 by (simp_all add: k_def)
  note md = MAX_DIST_value [OF w(1)]
  have lt: "strstart s + lookahead s < 4294967296" using w(4) md by (simp add: read_end_def)
  note i = tally_match_items [OF assms(1,5)]
  note f = tally_frame_fields [OF i(3)]
  have fu: "item_frame u = item_frame s" by (rule item_frame_tally [OF i(3)])
  let ?v = "u \<lparr> lookahead := lookahead s - k, prev_length := n - 2 \<rparr>"
  have fv: "item_frame ?v = item_frame s" using fu by simp
  note gv = item_frame_fields [OF fv]
  have e: "MIN_MATCH \<le> read_end s" using assms(11) m(2) n3 by (simp add: read_end_def MIN_MATCH_def)
  have d: "minus_u32 (strstart s + lookahead s) MIN_MATCH = read_end s - MIN_MATCH" "minus_u32 (lookahead s) (n - 1) = lookahead s - k"
    using e lt kl by (simp_all add: minus_u32_le read_end_def k_def)
  have ins: "slow_inserts (read_end s - MIN_MATCH) (n - 2) hh ?v = Some (hh', v)"
    using assms(2) d f(2,8) assms(7) by simp
  have okv: "sizes_ok ?v" by (rule item_sizes_ok [OF w(1) fv]) (simp_all add: f)
  have cv: "chains J (strstart ?v + 1) (read_end s) ?v" using assms(4) item_chains [OF fv] by (simp add: f)
  have hv: "strstart ?v + MIN_MATCH \<le> read_end s \<Longrightarrow> ins_h ?v = hash3 ?v (strstart ?v)"
    using assms(6) gv(17) by (simp add: f read_end_def)
  have ev: "read_end s \<le> 2 * w_size ?v" using w(4) gv(4) by simp
  obtain K where K: "v = ?v \<lparr> strstart := strstart ?v + (n - 2), prev_length := 0, ins_h := ins_h v, prev_of := prev_of v, head_of := head_of v \<rparr>"
    "length (prev_of v) = length (prev_of ?v)" "length (head_of v) = length (head_of ?v)"
    "chains K (strstart v + 1) (read_end s) v" "strstart v + MIN_MATCH \<le> read_end s \<longrightarrow> ins_h v = hash3 v (strstart v)" "hh' < 2 ^ 32"
    using slow_inserts_step [OF ins okv hv cv ev e assms(13)] by blast
  have fvv: "item_frame v = item_frame s" by (subst K(1)) (simp add: fu)
  have vs: "strstart v = strstart s + (n - 2)" "lookahead v = lookahead s - k" "match_start v = match_start s" "items v = items u"
    "buffers_ok v = buffers_ok u" by (subst K(1), simp add: f items_def buffers_ok_def)+
  show ft: "item_frame t = item_frame s" using fvv by (simp add: t_def)
  show ts: "strstart t = strstart s + k" "lookahead t = lookahead s - k" using vs n3 by (simp_all add: t_def k_def)
  have okt: "sizes_ok t" by (rule item_sizes_ok [OF w(1) ft]) (use K(2,3) in \<open>simp_all add: t_def f\<close>)
  note g = item_frame_fields [OF ft]
  have ms: "match_start t < 2 ^ 32" using w(2) vs(3) by (simp add: t_def)
  note a = advance_holds [OF assms(3) kl(1) g(1) g(3) g(4) ts okt ms]
  have p: "primed t"
  proof (cases "MIN_MATCH \<le> lookahead t")
    case True
    then have "strstart v + MIN_MATCH \<le> read_end s" using ts vs(1) kl(1) n3 by (simp add: read_end_def k_def)
    then have "ins_h t = hash3 t (strstart v)" using K(5) g(17) item_frame_fields(17) [OF fvv] by (simp add: t_def)
    then show ?thesis by (rule primed_next [OF okt]) (simp add: t_def)
  qed (simp add: primed_def)
  have c: "chains K (strstart t) (read_end t) t" using K(4) item_chains [of t v] ft fvv a(4) by (simp add: t_def)
  have it: "items t = items s @ [(of_nat d, of_nat (n - MIN_MATCH))]" "buffers_ok t"
    using i(1,2) vs(4,5) by (simp_all add: t_def items_def buffers_ok_def)
  have mo: "matching_ok (H @ take k (ahead s)) t" using a(1) c p it(2) by (auto simp: matching_ok_def)
  show "ahead t = drop k (ahead s)" by (rule a(2))
  show "hh' < 2 ^ 32" by (rule K(6))
  have st: "fold put_item (items s) (before_block H s) = butlast H" "in_reach (items s) (before_block H s)"
    using assms(12) by (simp_all add: stand_for_def)
  have "lz_copy n d (butlast H) = H @ take k (ahead s)" unfolding k_def by (rule put_off_now [OF assms(9,10)]) (use n3 in simp)
  from match_stands [OF st m(3-5) assms(8) m(1) this]
  show sf: "stand_for (H @ take k (ahead s)) (H @ take k (ahead s)) t"
    unfolding stand_for_def a(3) it(1) by blast
  show "slow_ok (H @ take k (ahead s)) t"
    using mo sf by (simp add: slow_ok_def tallied_def waits_ok_def t_def MIN_MATCH_def)
qed

text \<open>The byte before \<open>strstart\<close>.\<close>

lemma last_before:
  assumes "window_holds H s" "0 < strstart s"
  shows "H = butlast H @ [buf_window s ! (strstart s - 1)]"
proof -
  have h: "strstart s \<le> length H" "take (strstart s) (buf_window s) = drop (length H - strstart s) H" "read_end s \<le> length (buf_window s)"
    using assms(1) by (simp_all add: window_holds_def sizes_ok_def)
  have ne: "H \<noteq> []" using h(1) assms(2) by auto
  have "buf_window s ! (strstart s - 1) = take (strstart s) (buf_window s) ! (strstart s - 1)" using assms(2) by simp
  also have "\<dots> = H ! (length H - 1)" unfolding h(2) using h(1) assms(2) by (simp add: diff_diff_eq)
  also have "\<dots> = last H" using ne by (simp add: last_conv_nth)
  finally show ?thesis using ne by simp
qed

lemma waiting_literal:
  assumes "tally_literal (strstart s - 1) s = Some (bf, u)" "window_holds H s" "buffers_ok s" "0 < strstart s" "stand_for H (butlast H) s"
  shows "window_holds H u" "buffers_ok u" "stand_for H H u" "tally_frame u = tally_frame s" "read_end u = read_end s"
    "chains I n e u = chains I n e s" "hash3 u j = hash3 s j" "primed u = primed s"
proof -
  note w = assms(2,3)
  note i = tally_literal_items [OF assms(1) w(2)]
  show tf: "tally_frame u = tally_frame s" by (rule i(3))
  note f = tally_frame_fields [OF tf]
  have fu: "item_frame u = item_frame s" by (rule item_frame_tally [OF tf])
  note g = item_frame_fields [OF fu]
  have ok: "sizes_ok u" by (rule item_sizes_ok [OF _ fu]) (use w(1) in \<open>simp_all add: f window_holds_def\<close>)
  have hu: "window_holds H u" "read_end u = read_end s"
    using holds_same [OF w(1) fu f(1,2) _ ok] w(1) by (simp_all add: f window_holds_def)
  show "window_holds H u" "read_end u = read_end s" by (rule hu)+
  show "buffers_ok u" by (rule i(2))
  show "chains I n e u = chains I n e s" using item_chains [OF fu f(3,4)] by simp
  show "hash3 u j = hash3 s j" by (rule g(17))
  show "primed u = primed s" by (simp add: primed_def UPDATE_HASH_def f g)
  have "before_block H u = before_block H s" by (simp add: before_block_def f g)
  moreover have "butlast H @ [buf_window s ! (strstart s - 1)] = H" using last_before [OF w(1) assms(4)] by simp
  ultimately show "stand_for H H u"
    using assms(5) literal_stands [of "items s" "before_block H s" "butlast H"] by (simp add: stand_for_def i(1))
qed

text \<open>Going ahead by a byte, with the string at \<open>strstart\<close> inserted and searched for.\<close>

lemma slow_advance:
  assumes "window_holds H s" "chains J (strstart s + 1) (read_end s) s" "buffers_ok t" "stand_for H H s" "0 < lookahead s"
    "MIN_MATCH \<le> lookahead s \<longrightarrow> ins_h s = hash3 s (strstart s)"
    "MIN_MATCH \<le> match_length s \<longrightarrow> found_match (match_start s) (match_length s) s"
    "item_frame t = item_frame s" "strstart t = strstart s + 1" "lookahead t = lookahead s - 1" "match_available t"
    "match_length t = match_length s" "match_start t = match_start s" "head_of t = head_of s" "prev_of t = prev_of s" "ins_h t = ins_h s"
    "items t = items s"
  shows "slow_ok (H @ take 1 (ahead s)) t" "ahead t = drop 1 (ahead s)" "before_block (H @ take 1 (ahead s)) t = before_block H s"
proof -
  have w: "sizes_ok s" "match_start s < 2 ^ 32" "read_end s \<le> 2 * w_size s" using assms(1) by (simp_all add: window_holds_def)
  note g = item_frame_fields [OF assms(8)]
  have ok: "sizes_ok t" by (rule item_sizes_ok [OF w(1) assms(8)]) (simp_all add: assms)
  have one: "1 \<le> lookahead s" using assms(5) by simp
  have ms: "match_start t < 2 ^ 32" using w(2) assms(13) by simp
  note a = advance_holds [OF assms(1) one g(1) g(3) g(4) assms(9,10) ok ms]
  show at: "ahead t = drop 1 (ahead s)" by (rule a(2))
  show bb: "before_block (H @ take 1 (ahead s)) t = before_block H s" by (rule a(3))
  have p: "primed t"
  proof (cases "MIN_MATCH \<le> lookahead s")
    case True
    have "ins_h t = hash3 t (strstart s)" using assms(6) True g(17) by (simp add: assms(16))
    then show ?thesis using primed_next [OF ok] assms(9) by blast
  next
    case False
    then have "\<not> MIN_MATCH \<le> lookahead t" using assms(10) by linarith
    then show ?thesis by (simp add: primed_def)
  qed
  have c: "chains J (strstart t) (read_end t) t"
    using assms(2) a(4) item_chains [OF assms(8,14,15)] by (simp add: assms(9))
  have mo: "matching_ok (H @ take 1 (ahead s)) t" using a(1) c p assms(3) by (auto simp: matching_ok_def)
  obtain x xs where x: "ahead s = x # xs" using length_ahead [OF assms(1)] one by (cases "ahead s") auto
  have sf: "stand_for (H @ take 1 (ahead s)) H t" using assms(4) unfolding stand_for_def bb assms(17) .
  have po: "put_off (H @ take 1 (ahead s)) (match_length s) (back_distance t) t" if "MIN_MATCH \<le> match_length s"
  proof -
    have f: "found_match (match_start s) (match_length s) s" using assms(7) that by simp
    have "match_start s < strstart s" "strstart s + 1 < 4294967296"
      using f w(3) MAX_DIST_value [OF w(1)] by (simp_all add: found_match_def read_end_def)
    then have "minus_u32 (strstart s + 1) 1 = strstart s" "minus_u32 (strstart s) (match_start s) = strstart s - match_start s"
      by (simp_all add: minus_u32_le)
    then have "back_distance t = strstart s - match_start s" by (simp only: back_distance_def assms(9,13))
    then show ?thesis using put_off_later [OF assms(1) f at assms(10,5)] by simp
  qed
  show "slow_ok (H @ take 1 (ahead s)) t"
    using mo sf po by (simp add: slow_ok_def tallied_def waits_ok_def assms(9,11,12) x)
qed

section \<open>A round\<close>

lemma slow_ok_filled:
  assumes "filled H inp s t" "slow_ok H s" "block_writer flushable wrote ended" "block_writer.at_round wrote H s"
  shows "slow_ok H t"
proof -
  have w: "window_frame t = window_frame s" and b: "back_distance t = back_distance s" "ahead t = ahead s @ inp"
    and h: "window_holds H t" "window_holds H s"
    using assms(1,2) by (simp_all add: filled_def slow_ok_def matching_ok_def)
  note f = window_frame_fields [OF w]
  have l: "lookahead s \<le> lookahead t" "length (ahead s) = lookahead s"
    using arg_cong [OF b(2), of length] length_ahead [OF h(1)] length_ahead [OF h(2)] by simp_all
  have "put_off H n d t" if "put_off H n d s" for n d
  proof -
    have "n \<le> length (last H # ahead s)" using that l(2) by (simp add: put_off_def)
    then have "take n (last H # ahead s @ inp) = take n (last H # ahead s)" by (metis append_Cons take_append append_Nil2 diff_is_0_eq' take_0)
    then show ?thesis using that l(1) by (simp add: put_off_def b(2))
  qed
  then have "waits_ok H t" using assms(2) b(1) filled_start_pos [OF assms(1)] by (simp add: slow_ok_def waits_ok_def f)
  moreover have "stand_for H (tallied H t) t"
    using assms(2) block_writer.filled_round(5) [OF assms(3,1,4)] by (simp add: slow_ok_def tallied_def f)
  ultimately show ?thesis using assms(2) matching_ok_filled [OF assms(1)] by (simp add: slow_ok_def)
qed

lemma slow_ok_flushed:
  assumes "flush_step s t" "slow_ok H s" "\<not> match_available s" shows "slow_ok H t"
proof -
  have m: "matching_ok H s" "window_holds H s" using assms(2) by (simp_all add: slow_ok_def matching_ok_def)
  note o = outer_frame_fields [OF flush_step_fields(1) [OF assms(1)]]
  show ?thesis
    using assms(2,3) flush_step_ok [OF assms(1) m(1)] flush_step_holds(2) [OF assms(1) m(2)]
    by (simp add: slow_ok_def waits_ok_def tallied_def o)
qed

context item_writer
begin

text \<open>The byte before \<open>strstart\<close> is tallied, the block is flushed when it is full, and \<open>strstart\<close> goes ahead.\<close>

lemma slow_take_literal_done:
  assumes "slow_take_literal s = Some r" "window_holds H s" "chains J (strstart s + 1) (read_end s) s" "buffers_ok s"
    "0 < strstart s" "stand_for H (butlast H) s" "0 < lookahead s" "MIN_MATCH \<le> lookahead s \<longrightarrow> ins_h s = hash3 s (strstart s)"
    "MIN_MATCH \<le> match_length s \<longrightarrow> found_match (match_start s) (match_length s) s" "match_available s"
    "at_round H s" "strstart s < 2 ^ 16"
  shows "\<exists>t. consumed s (take 1 (ahead s)) t \<and> slow_ok (H @ take 1 (ahead s)) t \<and> wrote (before_block (H @ take 1 (ahead s)) t) t \<and>
    (r = Next_Round t \<and> at_round (H @ take 1 (ahead s)) t \<or> r = Return_With need_more t)"
proof -
  obtain bf u v where u: "tally_literal (strstart s - 1) s = Some (bf, u)"
    and v: "(if bf then FLUSH_BLOCK_ONLY False u else Some u) = Some v"
    and r: "r = (let t = v \<lparr> strstart := strstart v + 1, lookahead := lookahead v - 1 \<rparr> in
      if avail_out (strm t) = 0 then Return_With need_more t else Next_Round t)"
    using assms(1,5) by (auto simp: slow_take_literal_def Let_def split: bind_splits)
  note wl = waiting_literal [OF u assms(2,4-6)]
  note f = tally_frame_fields [OF wl(4)]
  have fu: "item_frame u = item_frame s" by (rule item_frame_tally [OF wl(4)])
  note g = item_frame_fields [OF fu]
  have hu: "ahead u = ahead s" by (simp add: ahead_def f g)
  have bu: "before_block H u = before_block H s" by (simp add: before_block_def f g)
  have au: "at_round H u" by (rule at_round_item [OF assms(11) fu bu])
  have fr: "flush_ready H u" using wl(1-3) au assms(12) by (simp add: flush_ready_def at_round_def f)
  have cv: "check_valid s" "check_valid u" "fits (next_in (strm s))" using assms(11) au by (simp_all add: at_round_def)
  have "\<exists>v'. v = v' \<and> (v' = u \<or> flush_step u v') \<and> consumed u [] v' \<and> wrote (before_block H v') v' \<and> (avail_out (strm v') \<noteq> 0 \<longrightarrow> at_round H v')"
  proof (cases bf)
    case True
    then have fl: "FLUSH_BLOCK_ONLY False u = Some v" using v by simp
    show ?thesis using flushed_round [OF fl item_flushable [OF fr] au] FLUSH_BLOCK_ONLY_step [OF fl] by blast
  next
    case False
    then show ?thesis using v au consumed_refl [OF cv(2)] by (auto simp: at_round_def)
  qed
  then have vv: "v = u \<or> flush_step u v" "consumed u [] v" "wrote (before_block H v) v" "avail_out (strm v) \<noteq> 0 \<longrightarrow> at_round H v" by blast+
  have vs: "window_holds H v \<and> chains J (strstart v + 1) (read_end v) v \<and> buffers_ok v \<and> stand_for H H v \<and> ahead v = ahead s \<and>
    lookahead v = lookahead s \<and> (MIN_MATCH \<le> lookahead v \<longrightarrow> ins_h v = hash3 v (strstart v)) \<and> match_available v \<and> strstart v = strstart s \<and>
    match_length v = match_length s \<and> match_start v = match_start s \<and>
    (MIN_MATCH \<le> match_length v \<longrightarrow> found_match (match_start v) (match_length v) v) \<and> check_valid v"
    using vv(1)
  proof
    assume "v = u"
    then show ?thesis using assms(3,8-10) wl f g hu cv by (simp add: found_match_def)
  next
    assume st: "flush_step u v"
    note o = outer_frame_fields [OF flush_step_fields(1) [OF st]]
    note h = flush_step_holds [OF st wl(1)]
    have "MAX_DIST v = MAX_DIST u" by (simp add: MAX_DIST_def o)
    then show ?thesis using assms(3,8-10) wl f g hu cv h by (simp add: found_match_def o)
  qed
  let ?t = "v \<lparr> strstart := strstart v + 1, lookahead := lookahead v - 1 \<rparr>"
  have ft: "item_frame ?t = item_frame v" by simp
  have v1: "window_holds H v" "chains J (strstart v + 1) (read_end v) v" "buffers_ok v" "stand_for H H v" "0 < lookahead v"
    "MIN_MATCH \<le> lookahead v \<longrightarrow> ins_h v = hash3 v (strstart v)" "match_available v"
    "MIN_MATCH \<le> match_length v \<longrightarrow> found_match (match_start v) (match_length v) v" using vs assms(7) by metis+
  have adv: "slow_ok (H @ take 1 (ahead v)) ?t" "ahead ?t = drop 1 (ahead v)" "before_block (H @ take 1 (ahead v)) ?t = before_block H v"
    by (rule slow_advance(1) [of H v J] slow_advance(2) [of H v J] slow_advance(3) [of H v J];
        use v1 in \<open>simp add: buffers_ok_def items_def\<close>)+
  have ah: "ahead v = ahead s" "check_valid v" using vs by simp_all
  have "consumed s [] u" using consumed_item [OF cv(1) fu, of 0] hu by simp
  from consumed_trans [OF this vv(2) cv(1,3)] have "consumed s [] v" by simp
  moreover have "consumed v (take 1 (ahead v)) ?t" by (rule consumed_item [OF ah(2) ft adv(2)])
  ultimately have c: "consumed s (take 1 (ahead s)) ?t" using consumed_trans [OF _ _ cv(1,3), of "[]" v] ah(1) by fastforce
  have w: "wrote (before_block (H @ take 1 (ahead s)) ?t) ?t" using adv(3) wrote_item [OF ft vv(3)] ah(1) by simp
  have "at_round (H @ take 1 (ahead s)) ?t" if "avail_out (strm v) \<noteq> 0"
    using at_round_item [OF _ ft adv(3)] vv(4) that ah(1) by simp
  then show ?thesis using c w adv(1) ah(1) r by (intro exI [of _ ?t]) (auto simp: Let_def)
qed

end

end
