(* ===== verification/Deflate_Lazy.thy ===== *)
theory Deflate_Lazy
  imports Deflate_Slow
begin

text \<open>
  The loop of \<open>deflate_slow\<close> of \<^verbatim>\<open>src/AOS/aos/zlib/deflate.c\<close>, and its end, where the last byte may still wait.
\<close>

context item_writer
begin

lemma slow_take_match_done:
  assumes "slow_take_match hh s = Some (hh', r)" "window_holds H s" "chains J (strstart s + 1) (read_end s) s" "buffers_ok s"
    "MIN_MATCH \<le> lookahead s \<longrightarrow> ins_h s = hash3 s (strstart s)" "MIN_MATCH \<le> prev_length s"
    "put_off H (prev_length s) (minus_u32 (minus_u32 (strstart s) 1) (prev_match s)) s" "H \<noteq> []" "0 < strstart s"
    "stand_for H (butlast H) s" "hh < 2 ^ 32" "at_round H s" "strstart s + MAX_MATCH < 2 ^ 16"
  shows "\<exists>k t. consumed s (take k (ahead s)) t \<and> slow_ok (H @ take k (ahead s)) t \<and> wrote (before_block (H @ take k (ahead s)) t) t \<and> hh' < 2 ^ 32 \<and>
    (r = Next_Round t \<and> at_round (H @ take k (ahead s)) t \<or> r = Return_With need_more t)"
proof -
  from assms(1) obtain bf u v where p: "tally_match (minus_u32 (minus_u32 (strstart s) 1) (prev_match s)) (prev_length s - MIN_MATCH) s = Some (bf, u)"
    "slow_inserts (minus_u32 (strstart s + lookahead s) MIN_MATCH) (prev_length u - 2) hh
      (u \<lparr> lookahead := minus_u32 (lookahead u) (prev_length u - 1), prev_length := prev_length u - 2 \<rparr>) = Some (hh', v)"
    "FLUSH_IF bf (v \<lparr> match_available := False, match_length := MIN_MATCH - 1, strstart := strstart v + 1 \<rparr>) = Some r"
    by (rule slow_take_match_parts)
  let ?k = "prev_length s - 1" and ?t = "v \<lparr> match_available := False, match_length := MIN_MATCH - 1, strstart := strstart v + 1 \<rparr>"
  let ?H = "H @ take ?k (ahead s)"
  note m = slow_take_match_ok [OF p(1,2) assms(2-5) refl assms(6-11)]
  have cv: "check_valid s" "fits (next_in (strm s))" using assms(12) by (simp_all add: at_round_def)
  have c: "consumed s (take ?k (ahead s)) ?t" by (rule consumed_item [OF cv(1) m(4,3)])
  have "length (take ?k (ahead s)) = ?k" using m(8) length_ahead [OF assms(2)] by simp
  then have "before_block ?H ?t = before_block H s"
    by (rule before_block_later [OF assms(2) _ m(6) item_frame_fields(3) [OF m(4)]])
  then have at: "at_round ?H ?t" by (rule at_round_item [OF assms(12) m(4)])
  have "strstart ?t < 2 ^ 16" using m(6,9) assms(13) by linarith
  then have fr: "flush_ready ?H ?t" using m(1,2) at by (simp add: slow_ok_def matching_ok_def at_round_def flush_ready_def)
  obtain w where w: "w = ?t \<or> flush_step ?t w" "consumed ?t [] w" "wrote (before_block ?H w) w"
    "r = Next_Round w \<and> at_round ?H w \<or> r = Return_With need_more w"
    using FLUSH_IF_done [OF p(3) item_flushable [OF fr] at] by blast
  have "slow_ok ?H w" using w(1)
  proof
    assume "w = ?t" then show ?thesis using m(1) by simp
  next
    assume "flush_step ?t w" then show ?thesis by (rule slow_ok_flushed [OF _ m(1)]) simp
  qed
  moreover have "consumed s (take ?k (ahead s)) w" using consumed_trans [OF c w(2) cv] by simp
  ultimately show ?thesis using w(3,4) m(7) by blast
qed

lemma slow_item_done:
  assumes "slow_item hh s = Some (hh', r)" "slow_ok H s" "at_round H s" "0 < lookahead s" "hh < 2 ^ 32" "strstart s + MAX_MATCH < 2 ^ 16"
  shows "\<exists>k t. consumed s (take k (ahead s)) t \<and> slow_ok (H @ take k (ahead s)) t \<and> wrote (before_block (H @ take k (ahead s)) t) t \<and> hh' < 2 ^ 32 \<and>
    (r = Next_Round t \<and> at_round (H @ take k (ahead s)) t \<or> r = Return_With need_more t)"
proof -
  have ok: "matching_ok H s" "stand_for H (tallied H s) s" "waits_ok H s" using assms(2) by (simp_all add: slow_ok_def)
  have w: "window_holds H s" "match_start s < 2 ^ 32" "buffers_ok s" using ok(1) by (simp_all add: matching_ok_def window_holds_def)
  have re: "strstart s < 4294967296" using assms(6) by simp
  have cs: "check_valid s" "fits (next_in (strm s))" using assms(3) by (simp_all add: at_round_def)
  obtain h1 u v where u: "insert_start hh s = Some (h1, u)" and v: "slow_search h1 u = Some v"
    and r: "(if prev_length v \<ge> MIN_MATCH \<and> match_length v \<le> prev_length v then slow_take_match h1 v
      else if match_available v then map_option (Pair h1) (slow_take_literal v)
      else Some (h1, Next_Round (v \<lparr> match_available := True, strstart := strstart v + 1, lookahead := lookahead v - 1 \<rparr>))) = Some (hh', r)"
    using assms(1) by (auto simp: slow_item_def split: bind_splits)
  obtain J where J: "chain_step s u" "sizes_ok u" "chains J (strstart s + 1) (read_end s) u" "h1 < 2 ^ 32"
    "MIN_MATCH \<le> lookahead s \<longrightarrow> ins_h u = hash3 u (strstart s) \<and>
      (h1 \<noteq> 0 \<longrightarrow> h1 \<in> J \<and> h1 < strstart s \<and> hash3 u h1 = hash3 u (strstart s))"
    using insert_start_step [OF u ok(1) assms(5)] by blast
  note f = chain_step_fields [OF J(1)]
  have hu: "window_holds H u" "ahead u = ahead s" "read_end u = read_end s"
    using holds_same [OF w(1) f(1-3) _ J(2)] w(2) f(5) by simp_all
  have cu: "chains J (strstart u + 1) (read_end u) u" using J(3) f(2) hu(3) by simp
  have near: "MIN_MATCH \<le> lookahead u \<longrightarrow> h1 \<noteq> 0 \<longrightarrow> minus_u32 (strstart u) h1 \<le> MAX_DIST u \<longrightarrow> near J h1 u"
  proof (intro impI)
    assume that: "MIN_MATCH \<le> lookahead u" "h1 \<noteq> 0" "minus_u32 (strstart u) h1 \<le> MAX_DIST u"
    have h: "h1 \<in> J" "h1 < strstart s" "hash3 u h1 = hash3 u (strstart s)" using J(5) that f(3) by auto
    then have "minus_u32 (strstart u) h1 = strstart s - h1" using re f(2) by (simp add: minus_u32_le)
    then have "strstart s \<le> h1 + MAX_DIST u" using that(3) by linarith
    then show "near J h1 u" using h f(2) by (simp add: near_def)
  qed
  have "match_start u < 2 ^ 32" using w(2) f(5) by simp
  note ss = slow_search_found [OF v J(2) cu J(4) this near]
  have fv: "item_frame v = item_frame u" by (subst ss(1)) simp
  have vs: "strstart v = strstart s" "lookahead v = lookahead s" "prev_length v = match_length s" "prev_match v = match_start s"
    "match_available v = match_available s" "items v = items s" "buffers_ok v" "head_of v = head_of u" "prev_of v = prev_of u" "ins_h v = ins_h u"
    by (subst ss(1), use f w(3) in \<open>simp add: items_def buffers_ok_def\<close>)+
  note gv = item_frame_fields [OF fv]
  have fsv: "item_frame v = item_frame s" using fv f(1) by simp
  have okv: "sizes_ok v" by (rule item_sizes_ok [OF J(2) fv]) (simp_all add: vs)
  have hv: "window_holds H v" "ahead v = ahead s" "read_end v = read_end s"
    using holds_same [OF hu(1) fv _ _ ss(2) okv] vs f hu by simp_all
  have cv: "chains J (strstart v + 1) (read_end v) v" using cu item_chains [OF fv] vs hu hv f by simp
  have iv: "MIN_MATCH \<le> lookahead v \<longrightarrow> ins_h v = hash3 v (strstart v)" using J(5) gv(17) by (simp add: vs)
  have bv: "before_block H v = before_block H s"
    using item_frame_fields(3) [OF fsv] by (simp add: before_block_def vs)
  have sv: "stand_for H (tallied H s) v" using ok(2) by (simp add: stand_for_def bv vs)
  have av: "at_round H v" by (rule at_round_item [OF assms(3) fsv bv])
  have c0: "consumed s [] v" using consumed_item [OF cs(1) fsv, of 0] hv(2) by simp
  have found: "MIN_MATCH \<le> match_length v \<longrightarrow> found_match (match_start v) (match_length v) v"
    if nt: "\<not> (prev_length v \<ge> MIN_MATCH \<and> match_length v \<le> prev_length v)"
  proof
    assume ml: "MIN_MATCH \<le> match_length v"
    have "match_length u < match_length v" using nt ml f(4) by (auto simp: vs)
    from ss(3) [OF ml this] have "found_match (match_start v) (match_length v) u" .
    then show "found_match (match_start v) (match_length v) v" using gv(1,15) vs(1,2) f(2,3) by (simp add: found_match_def)
  qed
  have waits: "match_available s \<Longrightarrow> H \<noteq> [] \<and> 0 < strstart s" using ok(3) by (simp add: waits_ok_def)
  have later: ?thesis if "\<exists>k t. consumed v (take k (ahead v)) t \<and> slow_ok (H @ take k (ahead v)) t \<and>
      wrote (before_block (H @ take k (ahead v)) t) t \<and> hh' < 2 ^ 32 \<and>
      (r = Next_Round t \<and> at_round (H @ take k (ahead v)) t \<or> r = Return_With need_more t)"
    using that consumed_trans [OF c0 _ cs] unfolding hv(2) by fastforce
  consider "prev_length v \<ge> MIN_MATCH \<and> match_length v \<le> prev_length v"
    | "\<not> (prev_length v \<ge> MIN_MATCH \<and> match_length v \<le> prev_length v)" "match_available v"
    | "\<not> (prev_length v \<ge> MIN_MATCH \<and> match_length v \<le> prev_length v)" "\<not> match_available v" by blast
  then show ?thesis
  proof cases
    case 1
    then have tk: "slow_take_match h1 v = Some (hh', r)" using r by simp
    have ma: "match_available s" "put_off H (match_length s) (back_distance s) s"
      using ok(3) 1 by (simp_all add: waits_ok_def vs)
    then have po: "put_off H (prev_length v) (minus_u32 (minus_u32 (strstart v) 1) (prev_match v)) v"
      by (simp add: put_off_def back_distance_def vs hv)
    have sb: "stand_for H (butlast H) v" using sv ma(1) by (simp add: tallied_def)
    have "MIN_MATCH \<le> prev_length v" using 1 by simp
    from slow_take_match_done [OF tk hv(1) cv vs(7) iv this po _ _ sb J(4) av] show ?thesis
      using waits [OF ma(1)] assms(6) later by (simp add: vs)
  next
    case 2
    then obtain r' where tk: "slow_take_literal v = Some r'" and r': "r = r'" "hh' = h1" using r by auto
    have ma: "match_available s" using 2 vs(5) by simp
    have sb: "stand_for H (butlast H) v" using sv ma(1) by (simp add: tallied_def)
    have p: "0 < strstart v" "0 < lookahead v" "strstart v < 2 ^ 16" using waits [OF ma] assms(4,6) by (simp_all add: vs)
    from slow_take_literal_done [OF tk hv(1) cv vs(7) p(1) sb p(2) iv found [OF 2(1)] 2(2) av p(3)] show ?thesis
      using r' J(4) later by blast
  next
    case 3
    then have t: "r = Next_Round (v \<lparr> match_available := True, strstart := strstart v + 1, lookahead := lookahead v - 1 \<rparr>)" "hh' = h1"
      using r by auto
    let ?t = "v \<lparr> match_available := True, strstart := strstart v + 1, lookahead := lookahead v - 1 \<rparr>"
    have st: "stand_for H H v" using sv 3(2) by (simp add: tallied_def vs)
    have l: "0 < lookahead v" using assms(4) by (simp add: vs)
    have ft: "item_frame ?t = item_frame v" by simp
    have adv: "slow_ok (H @ take 1 (ahead v)) ?t" "ahead ?t = drop 1 (ahead v)" "before_block (H @ take 1 (ahead v)) ?t = before_block H v"
      by (rule slow_advance(1) [of H v J] slow_advance(2) [of H v J] slow_advance(3) [of H v J];
        use hv(1) cv vs(7) st l iv found [OF 3(1)] in \<open>simp add: buffers_ok_def items_def\<close>)+
    have at: "at_round (H @ take 1 (ahead v)) ?t" by (rule at_round_item [OF av ft adv(3)])
    have "check_valid v" using av by (simp add: at_round_def)
    then have "consumed v (take 1 (ahead v)) ?t" by (rule consumed_item [OF _ ft adv(2)])
    then show ?thesis using adv(1) at t J(4) later by (auto simp: at_round_def)
  qed
qed

lemma slow_finish_done:
  assumes "slow_finish flush s = Some (b, t)" "slow_ok H s" "at_round H s" "lookahead s = 0" "next_in (strm s) = []" "strstart s < 2 ^ 16"
  shows "strategy_done slow_ok H s b t"
proof -
  have ok: "matching_ok H s" "stand_for H (tallied H s) s" "waits_ok H s" using assms(2) by (simp_all add: slow_ok_def)
  have w: "window_holds H s" "buffers_ok s" using ok(1) by (simp_all add: matching_ok_def)
  have cs: "check_valid s" "fits (next_in (strm s))" using assms(3) by (simp_all add: at_round_def)
  have ml: "match_length s < MIN_MATCH"
  proof (rule ccontr)
    assume "\<not> match_length s < MIN_MATCH"
    then have "match_length s \<le> lookahead s + 1" "3 \<le> match_length s" using ok(3) by (simp_all add: waits_ok_def put_off_def MIN_MATCH_def)
    then show False using assms(4) by simp
  qed
  obtain v where v: "finish_block flush v = Some (b, t)" "matching_ok H v" "stand_for H H v" "item_frame v = item_frame s"
    "strstart v = strstart s" "lookahead v = lookahead s" "\<not> match_available v" "match_length v = match_length s"
  proof (cases "match_available s")
    case True
    then obtain bf u where u: "tally_literal (strstart s - 1) s = Some (bf, u)" and f: "finish_block flush (u \<lparr> match_available := False \<rparr>) = Some (b, t)"
      using assms(1) by (auto simp: slow_finish_def split: bind_splits if_splits)
    have p: "0 < strstart s" "stand_for H (butlast H) s" using ok(2,3) True by (simp_all add: waits_ok_def tallied_def)
    note wl = waiting_literal [OF u w p]
    note tf = tally_frame_fields [OF wl(4)]
    have fu: "item_frame u = item_frame s" by (rule item_frame_tally [OF wl(4)])
    let ?u = "u \<lparr> match_available := False \<rparr>"
    have mu: "matching_ok H u" using ok(1) wl(1,2,5,8) wl(6) by (simp add: matching_ok_def tf)
    have "item_frame ?u = item_frame u" by simp
    note g = item_frame_fields [OF \<open>item_frame ?u = item_frame u\<close>]
    have c: "chains I n e ?u = chains I n e u" for I n e by (rule chains_fields) simp_all
    have "matching_ok H ?u"
      using mu c g(17) item_sizes_ok [of u ?u] \<open>item_frame ?u = item_frame u\<close>
      by (simp add: matching_ok_def window_holds_def primed_def UPDATE_HASH_def buffers_ok_def read_end_def)
    moreover have "stand_for H H ?u" using wl(3) by (simp add: stand_for_def before_block_def items_def)
    ultimately show ?thesis using that [of ?u] f fu tf by simp
  next
    case False
    then show ?thesis using that [of s] assms(1) ok by (simp add: slow_finish_def tallied_def)
  qed
  have bv: "before_block H v = before_block H s" using item_frame_fields(3) [OF v(4)] by (simp add: before_block_def v(5))
  have av: "at_round H v" by (rule at_round_item [OF assms(3) v(4) bv])
  have so: "slow_ok H v" using v(2,3,7,8) ml by (simp add: slow_ok_def tallied_def waits_ok_def)
  have fr: "flush_ready H v" using v(2,3,5) av assms(6) by (simp add: flush_ready_def matching_ok_def at_round_def)
  have l: "lookahead v = 0" "next_in (strm v) = []" using assms(4,5) v(6) item_frame_fields(2) [OF v(4)] by simp_all
  have "strategy_done slow_ok H v b t" 
    using finish_block_done [OF v(1) item_flushable [OF fr] av l, of slow_ok] slow_ok_flushed [OF _ so v(7)] by blast
  moreover have "ahead v = ahead s" using assms(4) v(6) by (simp add: ahead_def)
  then have "consumed s [] v" using consumed_item [OF cs(1) v(4), of 0] by simp
  ultimately show ?thesis using strategy_done_later [of s "[]" v slow_ok H b t] cs by simp
qed

lemma slow_rounds_done:
  assumes "slow_rounds flush hh s = Some (b, t)" "slow_ok H s" "at_round H s" "hh < 2 ^ 32"
  shows "strategy_done slow_ok H s b t"
proof -
  have "\<forall>H. slow_ok H s \<longrightarrow> at_round H s \<longrightarrow> hh < 2 ^ 32 \<longrightarrow> (case (b, t) of (b, t) \<Rightarrow> strategy_done slow_ok H s b t)"
  proof (rule slow_rounds.raw_induct [OF _ assms(1), where P = "\<lambda>flush hh s y. \<forall>H. slow_ok H s \<longrightarrow> at_round H s \<longrightarrow> hh < 2 ^ 32 \<longrightarrow>
      (case y of (b, t) \<Rightarrow> strategy_done slow_ok H s b t)"], intro allI impI, goal_cases)
    case (1 f flush hh s y H)
    note IH = "1"(1) and body = "1"(2) and hh = "1"(5)
    obtain b t where y: "y = (b, t)" by fastforce
    have at: "check_valid s" "fits (next_in (strm s))" using "1"(4) by (simp_all add: at_round_def)
    have mo: "matching_ok H s" using "1"(3) by (simp add: slow_ok_def)
    obtain r where r: "fill_lookahead flush s = Some r" using "1"(2) by (auto split: bind_splits)
    obtain u inp where u: "filled H inp s u" "strstart u \<le> w_size u + MAX_DIST u"
      "r = Next_Round u \<and> 0 < lookahead u \<or> r = Break_Loop u \<and> lookahead u = 0 \<and> next_in (strm u) = [] \<or> r = Return_With need_more u"
      using fill_lookahead_filled [OF r mo at] by blast
    have fu: "slow_ok H u" by (rule slow_ok_filled [OF u(1) "1"(3) block_writer_axioms "1"(4)])
    have au: "at_round H u" by (rule filled_round(1) [OF u(1) "1"(4)])
    have cu: "consumed s [] u" by (rule consumed_filled [OF u(1)])
    have su: "strstart u + MAX_MATCH < 2 ^ 16" using start_bound [OF _ u(2)] fu by (simp add: slow_ok_def matching_ok_def window_holds_def)
    have cvu: "check_valid u" "fits (next_in (strm u))" using au by (simp_all add: at_round_def)
    consider "r = Next_Round u" "0 < lookahead u" | "r = Break_Loop u" "lookahead u = 0" "next_in (strm u) = []" | "r = Return_With need_more u"
      using u(3) by metis
    then have "strategy_done slow_ok H u b t"
    proof cases
      case 1
      obtain hh' r2 where v: "slow_item hh u = Some (hh', r2)" and
        rest: "(case r2 of Return_With b s \<Rightarrow> Some (b, s) | Break_Loop s \<Rightarrow> slow_finish flush s | Next_Round s \<Rightarrow> f flush hh' s) = Some (b, t)"
        using body r 1(1) y by (auto split: bind_splits)
      obtain k w where w: "consumed u (take k (ahead u)) w" "slow_ok (H @ take k (ahead u)) w"
        "wrote (before_block (H @ take k (ahead u)) w) w" "hh' < 2 ^ 32"
        "r2 = Next_Round w \<and> at_round (H @ take k (ahead u)) w \<or> r2 = Return_With need_more w"
        using slow_item_done [OF v fu au 1(2) hh su] by blast
      have "strategy_done slow_ok (H @ take k (ahead u)) w b t"
      proof (cases "r2 = Return_With need_more w")
        case True
        then have b: "b = need_more" "t = w" using rest by simp_all
        have "consumed w [] w" using w(1) by (intro consumed_refl) (simp add: consumed_def)
        then show ?thesis using stopped [of w w slow_ok, OF _ w(2,3)] b by simp
      next
        case False
        then have n: "r2 = Next_Round w" "at_round (H @ take k (ahead u)) w" using w(5) by auto
        then have "f flush hh' w = Some (b, t)" using rest by simp
        from IH [OF this] show ?thesis using w(2,4) n(2) by auto
      qed
      then show ?thesis using strategy_done_later [OF w(1)] cvu by simp
    next
      case 2
      have sf: "slow_finish flush u = Some (b, t)" using body r 2(1) y by simp
      show ?thesis using slow_finish_done [OF sf fu au 2(2,3)] su by simp
    next
      case 3
      have b: "b = need_more" "t = u" using body r 3 y by simp_all
      show ?thesis using stopped [of u u slow_ok H, OF consumed_refl [OF cvu(1)] fu] au b by (simp add: at_round_def)
    qed
    then show ?case using strategy_done_later [OF cu, of slow_ok H] at y by simp
  qed
  then show ?thesis using assms(2-4) by simp
qed

end

end
