(* ===== verification/Deflate_Stream.thy ===== *)
theory Deflate_Stream
  imports Deflate_Lazy
begin

text \<open>
  What \<open>deflate_fast\<close> and \<open>deflate_slow\<close> of \<^verbatim>\<open>src/AOS/aos/zlib/deflate.c\<close> put out with the strategy \<open>Z_FIXED\<close>: a sequence of
  stored and static blocks that \<open>inflate\<close> of \<^verbatim>\<open>inflate.c\<close> takes back to the input.
\<close>

section \<open>Sequences of blocks\<close>

text \<open>From the bits \<open>P\<close> and the history \<open>h\<close> the blocks lead to the bits \<open>Q\<close> and the history \<open>g\<close>.\<close>

inductive blocks_sent :: "bool list \<Rightarrow> byte list \<Rightarrow> bool list \<Rightarrow> byte list \<Rightarrow> bool" for P h where
  no_block: "blocks_sent P h P h"
| stored: "blocks_sent P h Q g \<Longrightarrow> length data < 2 ^ 16 \<Longrightarrow> blocks_sent P h (Q @ stored_bits Q False data) (g @ data)"
| static: "blocks_sent P h Q g \<Longrightarrow> in_reach xs g \<Longrightarrow> blocks_sent P h (Q @ static_bits False xs) (fold put_item xs g)"

text \<open>A block \<open>blk\<close> after the bits \<open>Q\<close> that takes the history \<open>g\<close> to \<open>g'\<close>.\<close>

definition one_block :: "bool list \<Rightarrow> bool \<Rightarrow> bool list \<Rightarrow> byte list \<Rightarrow> byte list \<Rightarrow> bool" where
  "one_block Q eof blk g g' \<longleftrightarrow> (\<exists>data. length data < 2 ^ 16 \<and> blk = stored_bits Q eof data \<and> g' = g @ data) \<or>
    (\<exists>xs. in_reach xs g \<and> blk = static_bits eof xs \<and> g' = fold put_item xs g)"

definition stream_ended :: "bool list \<Rightarrow> byte list \<Rightarrow> bool list \<Rightarrow> byte list \<Rightarrow> bool" where
  "stream_ended P h R g' \<longleftrightarrow> (\<exists>Q g blk. blocks_sent P h Q g \<and> one_block Q True blk g g' \<and> R = Q @ blk @ padding (Q @ blk))"

lemma blocks_sent_block: "blocks_sent P h Q g \<Longrightarrow> one_block Q False blk g g' \<Longrightarrow> blocks_sent P h (Q @ blk) g'"
  by (auto simp: one_block_def intro: blocks_sent.intros)

lemma blocks_sent_prefix: "blocks_sent P h Q g \<Longrightarrow> length P \<le> length Q"
  by (induction rule: blocks_sent.induct) auto

lemma length_put_item: "length (put_item x h) = length h + item_size x"
  by (cases x) (simp add: put_item_def item_size_def)

lemma in_reach_fit: "in_reach xs h \<Longrightarrow> items_size xs \<le> n \<Longrightarrow> items_fit xs h n"
  by (induction xs arbitrary: h n) (auto simp: le_diff_conv2)

lemma length_put_items: "length (fold put_item xs h) = length h + items_size xs"
  by (induction xs arbitrary: h) (auto simp: length_put_item)

lemma one_block_longer: "one_block Q eof blk g g' \<Longrightarrow> length g \<le> length g'"
  by (auto simp: one_block_def length_put_items)

lemma padding_aligns: "length (padding bs) < 8" "8 dvd length bs + length (padding bs)"
proof -
  let ?n = "length bs"
  show "length (padding bs) < 8" by (simp add: padding_def)
  have eq: "n + (8 - n mod 8) = 8 * (n div 8 + 1)" for n :: nat
  proof -
    have "n + (8 - n mod 8) = 8 * (n div 8) + (n mod 8 + (8 - n mod 8))" by (simp only: add.assoc [symmetric] mult_div_mod_eq)
    also have "n mod 8 + (8 - n mod 8) = 8" by (rule le_add_diff_inverse) (rule less_imp_le [OF mod_less_divisor], simp)
    finally show ?thesis by simp
  qed
  have "(?n + (8 - ?n mod 8)) mod 8 = 0" unfolding eq by simp
  then have "(?n + (8 - ?n mod 8) mod 8) mod 8 = 0" by (simp only: mod_add_right_eq)
  then show "8 dvd length bs + length (padding bs)" unfolding dvd_eq_mod_eq_0 padding_def length_replicate .
qed

section \<open>Inflating a sequence of blocks\<close>

definition between_blocks :: "int \<Rightarrow> inflate_call \<Rightarrow> bool" where
  "between_blocks flush s \<longleftrightarrow> (mode s = TYPEDO \<or> mode s = TYPE_MODE \<and> flush \<noteq> Z_BLOCK) \<and> \<not> last_block s \<and> block_ok s"

lemma block_frame_block_ok: "block_frame t = block_frame s \<Longrightarrow> call_ok t \<Longrightarrow> block_ok s \<Longrightarrow> block_ok t"
  using block_frame_fields(1,2) [of t s] by (simp add: block_ok_def)

lemma one_block_reaches:
  assumes "one_block Q eof blk g g'" "mode s = TYPEDO \<or> mode s = TYPE_MODE \<and> flush \<noteq> Z_BLOCK" "\<not> last_block s" "block_ok s" "history s = g" "length g' \<le> length g + avail_out s"
    "8 dvd length Q + length blk + length rest" "ready (blk @ rest) s"
  shows "\<exists>t. inflate_reaches flush s t \<and> mode t = TYPE_MODE \<and> last_block t = eof \<and> ready rest t \<and> block_frame t = block_frame s \<and>
    call_ok t \<and> history t = g' \<and> avail_out t + length g' = avail_out s + length g"
  using assms(1) unfolding one_block_def
proof (elim disjE exE conjE)
  fix data
  assume d: "length data < 2 ^ 16" "blk = stored_bits Q eof data" "g' = g @ data"
  let ?n = "of_nat (length data) :: ushort" and ?pad = "padding (Q @ [eof, False, False])"
  have n: "unat ?n = length data" using d(1) by (simp add: unat_of_nat)
  have r: "ready ([eof, False, False] @ ?pad @ bits 16 ?n @ bits 16 (NOT ?n) @ byte_bits data @ rest) s"
    using assms(8) by (simp add: d(2) stored_bits_def)
  have p: "length ?pad < 8" "8 dvd length Q + 3 + length ?pad" using padding_aligns [of "Q @ [eof, False, False]"] unfolding length_append
    by (simp_all only: list.size numeral_3_eq_3 add_Suc_right add_0_right)
  have "length Q + length blk = length Q + 3 + length ?pad + 32 + 8 * length data" by (simp add: d(2) stored_bits_def)
  then have "8 dvd length rest" using assms(7) p(2) by presburger
  then show ?thesis
    using stored_block_reaches [OF assms(2-4) n _ r p(1)] assms(5,6) by (auto simp: d(3) inflated_def)
next
  fix xs
  assume x: "in_reach xs g" "blk = static_bits eof xs" "g' = fold put_item xs g"
  have ok: "\<forall>x \<in> set xs. item_ok static_ltree static_dtree x" using in_reach_dist [OF x(1)] static_item_ok by auto
  have r: "ready ([eof, True, False] @ items_bits static_ltree static_dtree xs @ code_bits static_ltree END_BLOCK @ rest) s"
    using assms(8) by (simp add: x(2) static_bits_def)
  have l: "length g' = length g + items_size xs" by (simp add: x(3) length_put_items)
  then have "items_fit xs (history s) (avail_out s)" using in_reach_fit [OF x(1)] assms(5,6) by simp
  from static_block_reaches [OF assms(2-4) ok this r] show ?thesis
    using assms(5) l by (auto simp: x(3) inflated_def)
qed

lemma blocks_reach:
  assumes "blocks_sent P h Q g" "8 dvd length Q + length rest" "between_blocks flush s" "history s = h" "length g \<le> length h + avail_out s"
    "ready (drop (length P) Q @ rest) s" "flush \<noteq> Z_BLOCK"
  shows "\<exists>t. inflate_reaches flush s t \<and> between_blocks flush t \<and> ready rest t \<and> block_frame t = block_frame s \<and>
    call_ok t \<and> history t = g \<and> avail_out t + length g = avail_out s + length h"
proof -
  have step: "\<exists>u. inflate_reaches flush s u \<and> between_blocks flush u \<and> ready rest u \<and> block_frame u = block_frame s \<and>
      call_ok u \<and> history u = g' \<and> avail_out u + length g' = avail_out s + length h"
    if IH: "\<And>rest. 8 dvd length Q + length rest \<Longrightarrow> length g \<le> length h + avail_out s \<Longrightarrow> ready (drop (length P) Q @ rest) s \<Longrightarrow>
        \<exists>t. inflate_reaches flush s t \<and> between_blocks flush t \<and> ready rest t \<and> block_frame t = block_frame s \<and>
          call_ok t \<and> history t = g \<and> avail_out t + length g = avail_out s + length h"
      and b: "one_block Q False blk g g'" and p: "length P \<le> length Q" and d: "8 dvd length (Q @ blk) + length rest"
      and l: "length g' \<le> length h + avail_out s" and r: "ready (drop (length P) (Q @ blk) @ rest) s" for Q g blk g' rest
  proof -
    have "8 dvd length Q + length (blk @ rest)" "length g \<le> length h + avail_out s" "ready (drop (length P) Q @ blk @ rest) s"
      using d r p l one_block_longer [OF b] by (simp_all add: add.assoc)
    from IH [OF this] obtain t where t: "inflate_reaches flush s t" "between_blocks flush t" "ready (blk @ rest) t" "block_frame t = block_frame s"
      "call_ok t" "history t = g" "avail_out t + length g = avail_out s + length h" by blast
    have "length g' \<le> length g + avail_out t" using l t(7) by linarith
    moreover have "8 dvd length Q + length blk + length rest" using d by simp
    ultimately obtain u where u: "inflate_reaches flush t u" "mode u = TYPE_MODE" "\<not> last_block u" "ready rest u" "block_frame u = block_frame t"
      "call_ok u" "history u = g'" "avail_out u + length g' = avail_out t + length g"
      using one_block_reaches [OF b _ _ _ t(6) _ _ t(3)] t(2) by (auto simp: between_blocks_def)
    have "between_blocks flush u"
      using u(2,3) assms(7) block_frame_block_ok [OF u(5,6)] t(2) by (simp add: between_blocks_def)
    then show ?thesis using u(4-8) t(4,7) inflate_reaches_trans [OF t(1) u(1)] by (intro exI [of _ u]) simp
  qed
  show ?thesis using assms(1,2,5,6)
  proof (induction arbitrary: rest rule: blocks_sent.induct)
    case no_block
    then show ?case using assms(3,4) by (intro exI [of _ s]) (auto simp: between_blocks_def block_ok_def intro: inflate_reaches.here)
  next
    case (stored Q g data)
    have "one_block Q False (stored_bits Q False data) g (g @ data)" using stored.hyps(2) by (auto simp: one_block_def)
    from step [OF stored.IH this blocks_sent_prefix [OF stored.hyps(1)] stored.prems] show ?case .
  next
    case (static Q g xs)
    have "one_block Q False (static_bits False xs) g (fold put_item xs g)" using static.hyps(2) by (auto simp: one_block_def)
    from step [OF static.IH this blocks_sent_prefix [OF static.hyps(1)] static.prems] show ?case .
  qed
qed

text \<open>A whole stream, up to the padding of its last byte.\<close>

lemma stream_reaches:
  assumes "stream_ended P h R g" "between_blocks flush s" "history s = h" "length g \<le> length h + avail_out s"
    "ready (drop (length P) R) s" "flush \<noteq> Z_BLOCK"
  shows "\<exists>t pad. inflate_reaches flush s t \<and> mode t = TYPE_MODE \<and> last_block t \<and> ready pad t \<and> length pad < 8 \<and> block_frame t = block_frame s \<and>
    call_ok t \<and> history t = g \<and> avail_out t + length g = avail_out s + length h"
proof -
  obtain Q g' blk where q: "blocks_sent P h Q g'" "one_block Q True blk g' g" "R = Q @ blk @ padding (Q @ blk)"
    using assms(1) by (auto simp: stream_ended_def)
  let ?pad = "padding (Q @ blk)"
  have p: "length ?pad < 8" "8 dvd length Q + length blk + length ?pad" using padding_aligns [of "Q @ blk"] by simp_all
  have d: "8 dvd length Q + length (blk @ ?pad)" using p(2) by (simp add: add.assoc)
  have l: "length g' \<le> length h + avail_out s" using one_block_longer [OF q(2)] assms(4) by linarith
  have r: "ready (drop (length P) Q @ blk @ ?pad) s" using assms(5) blocks_sent_prefix [OF q(1)] by (simp add: q(3))
  obtain t where t: "inflate_reaches flush s t" "between_blocks flush t" "ready (blk @ ?pad) t" "block_frame t = block_frame s"
    "call_ok t" "history t = g'" "avail_out t + length g' = avail_out s + length h"
    using blocks_reach [OF q(1) d assms(2,3) l r assms(6)] by blast
  have "length g \<le> length g' + avail_out t" using assms(4) t(7) by linarith
  then obtain u where "inflate_reaches flush t u" "mode u = TYPE_MODE" "last_block u" "ready ?pad u" "block_frame u = block_frame t"
      "call_ok u" "history u = g" "avail_out u + length g = avail_out t + length g'"
    using one_block_reaches [OF q(2) _ _ _ t(6) _ p(2) t(3)] t(2) by (auto simp: between_blocks_def)
  then show ?thesis using t(4,7) p(1) inflate_reaches_trans [OF t(1)] by (intro exI [of _ u] exI [of _ ?pad]) simp
qed

section \<open>The writer of blocks\<close>

definition blocks_written :: "bool list \<Rightarrow> byte list \<Rightarrow> byte list \<Rightarrow> deflate_state \<Rightarrow> bool" where
  "blocks_written P h g s \<longleftrightarrow> strategy s = Z_FIXED \<and> out_ok s \<and> blocks_sent P h (put_out s) g"

definition stream_written :: "bool list \<Rightarrow> byte list \<Rightarrow> byte list \<Rightarrow> deflate_state \<Rightarrow> bool" where
  "stream_written P h g s \<longleftrightarrow> bi_valid s = 0 \<and> out_ok s \<and> stream_ended P h (put_out s) g"

lemma put_out_item: "item_frame t = item_frame s \<Longrightarrow> put_out t = put_out s \<and> out_ok t = out_ok s"
proof -
  have "put_out u = put_out (item_frame u) \<and> out_ok u = out_ok (item_frame u)" for u
    by (simp add: put_out_def unsent_def pending_buf_def item_frame_def out_ok_def)
  then show "item_frame t = item_frame s \<Longrightarrow> put_out t = put_out s \<and> out_ok t = out_ok s" by metis
qed

lemma put_out_window: "window_frame t = window_frame s \<Longrightarrow> put_out t = put_out s \<and> out_ok t = out_ok s"
proof -
  have "put_out u = put_out (window_frame u) \<and> out_ok u = out_ok (window_frame u)" for u
    by (simp add: put_out_def unsent_def pending_buf_def window_frame_def out_ok_def)
  then show "window_frame t = window_frame s \<Longrightarrow> put_out t = put_out s \<and> out_ok t = out_ok s" by metis
qed

lemma flushed_one_block:
  assumes "blk = stored_bits P eof (drop (length (before_block H s)) H) \<and> length H - length (before_block H s) < 2 ^ 16 \<and>
       H = before_block H s @ drop (length (before_block H s)) H \<or> blk = static_bits eof (items s) \<and> stand_for H H s"
  shows "one_block P eof blk (before_block H s) H"
  using assms
proof (elim disjE conjE)
  assume "blk = stored_bits P eof (drop (length (before_block H s)) H)" "length H - length (before_block H s) < 2 ^ 16"
    "H = before_block H s @ drop (length (before_block H s)) H"
  then show ?thesis unfolding one_block_def by (intro disjI1 exI [of _ "drop (length (before_block H s)) H"]) simp
next
  assume "blk = static_bits eof (items s)" "stand_for H H s"
  then show ?thesis unfolding one_block_def by (intro disjI2 exI [of _ "items s"]) (simp add: stand_for_def)
qed

lemma block_put_out:
  assumes "FLUSH_BLOCK_ONLY eof s = Some t" "flush_ready H s" "strategy s = Z_FIXED" "out_ok s"
  shows "\<exists>blk. put_out t = put_out s @ blk @ (if eof then padding (put_out s @ blk) else []) \<and> out_ok t \<and> (eof \<longrightarrow> bi_valid t = 0) \<and>
    one_block (put_out s) eof blk (before_block H s) H"
proof -
  have f: "window_holds H s \<and> buffers_ok s" "pending_out s = 0" "strstart s < 2 ^ 16" "stand_for H H s"
    using assms(2) by (simp_all add: flush_ready_def)
  have len: "0 \<le> block_start s \<longrightarrow> int (strstart s) - block_start s < 2 ^ 16" using f(3) by simp
  obtain blk where b: "put_out t = put_out s @ blk @ (if eof then padding (put_out s @ blk) else [])" "out_ok t" "eof \<longrightarrow> bi_valid t = 0"
    "blk = stored_bits (put_out s) eof (drop (length (before_block H s)) H) \<and> length H - length (before_block H s) < 2 ^ 16 \<and>
       H = before_block H s @ drop (length (before_block H s)) H \<or> blk = static_bits eof (items s) \<and> stand_for H H s"
    using FLUSH_BLOCK_ONLY_sends [OF assms(1) f(1,2) assms(4) len] assms(3) f(4) by blast
  then have "one_block (put_out s) eof blk (before_block H s) H" using flushed_one_block by blast
  then show ?thesis using b(1-3) by blast
qed

interpretation fixed_writer: item_writer flush_ready "blocks_written P h" "stream_written P h" for P h
proof (unfold_locales, goal_cases)
  case (1 H s)
  then show ?case by (simp add: flush_ready_def)
next
  case (2 t s g)
  then show ?case using put_out_item [OF 2(1)] item_frame_fields(14) [OF 2(1)] by (simp add: blocks_written_def)
next
  case (3 t s g)
  then show ?case using put_out_window [OF 3(1)] window_frame_fields(18) [OF 3(1)] by (simp add: blocks_written_def)
next
  case (4 s t H)
  have s: "strategy s = Z_FIXED" "out_ok s" "blocks_sent P h (put_out s) (before_block H s)" using 4(3) by (simp_all add: blocks_written_def)
  have "strategy t = strategy s" by (rule flush_step_fields(6) [OF FLUSH_BLOCK_ONLY_step [OF 4(1)]])
  then show ?case using block_put_out [OF 4(1,2) s(1,2)] blocks_sent_block [OF s(3)] s(1) by (auto simp: blocks_written_def)
next
  case (5 s t H)
  have s: "strategy s = Z_FIXED" "out_ok s" "blocks_sent P h (put_out s) (before_block H s)" using 5(3) by (simp_all add: blocks_written_def)
  then show ?case using block_put_out [OF 5(1,2) s(1,2)] by (auto simp: stream_written_def stream_ended_def)
qed

end
