(* ===== verification/Utf8.thy ===== *)
theory Utf8
  imports C_Prelude
begin

text \<open>
  UTF-8 in the regular-expression library: the tables of
  \<^verbatim>\<open>src/AOS/aos/pcre/pcre_tables.c\<close>, the encoder \<open>_pcre_ord2utf8\<close>, the decoding
  macros of \<^verbatim>\<open>pcre_internal.h\<close> and the validity check \<open>_pcre_valid_utf8\<close>. A C
  \<open>int\<close> is an \<open>int\<close> here: every value these functions compute fits in 31 bits.
\<close>

section \<open>Tables\<close>

definition utf8_table1 :: "int list" where
  "utf8_table1 = [0x7f, 0x7ff, 0xffff, 0x1fffff, 0x3ffffff, 0x7fffffff]"

definition utf8_table1_size :: nat where
  "utf8_table1_size = length utf8_table1"

definition utf8_table2 :: "int list" where
  "utf8_table2 = [0, 0xc0, 0xe0, 0xf0, 0xf8, 0xfc]"

definition utf8_table3 :: "int list" where
  "utf8_table3 = [0xff, 0x1f, 0x0f, 0x07, 0x03, 0x01]"

definition utf8_table4 :: "nat list" where
  "utf8_table4 = [
  1,1,1,1,1,1,1,1,1,1,1,1,1,1,1,1,
  1,1,1,1,1,1,1,1,1,1,1,1,1,1,1,1,
  2,2,2,2,2,2,2,2,2,2,2,2,2,2,2,2,
  3,3,3,3,3,3,3,3,4,4,4,4,5,5,5,5]"

section \<open>The encoder\<close>

text \<open>\<open>for (i = 0; i < _pcre_utf8_table1_size; i++) if (cvalue <= _pcre_utf8_table1[i]) break;\<close>\<close>

function size_loop :: "int \<Rightarrow> nat \<Rightarrow> nat" where
  "size_loop cvalue i =
    (if i < utf8_table1_size
     then if cvalue \<le> utf8_table1 ! i then i else size_loop cvalue (i + 1)
     else i)"
  by pat_completeness auto
termination by (relation "measure (\<lambda>(c, i). utf8_table1_size - i)") auto

text \<open>The continuation bytes, from the last one back.\<close>

fun trail_loop :: "byte list \<Rightarrow> nat \<Rightarrow> nat \<Rightarrow> int \<Rightarrow> (byte list \<times> nat \<times> int) option" where
  "trail_loop mem pos 0 cvalue = Some (mem, pos, cvalue)"
| "trail_loop mem pos (Suc j) cvalue = do {
    mem \<leftarrow> poke mem pos (word_of_int (0x80 OR (cvalue AND 0x3f)));
    trail_loop mem (pos - 1) j (drop_bit 6 cvalue) }"

definition ord2utf8 :: "int \<Rightarrow> byte list \<Rightarrow> (nat \<times> byte list) option" where
  "ord2utf8 cvalue mem = (
    let i = size_loop cvalue 0 in do {
      (mem, pos, cvalue) \<leftarrow> trail_loop mem i i cvalue;
      t \<leftarrow> peek utf8_table2 i;
      mem \<leftarrow> poke mem pos (word_of_int (t OR cvalue));
      Some (i + 1, mem) })"

section \<open>The decoding macros\<close>

text \<open>The loop of \<open>GETCHAR\<close>, from \<open>gcii\<close> up to \<open>gcaa\<close>.\<close>

function getchar_loop :: "byte list \<Rightarrow> nat \<Rightarrow> nat \<Rightarrow> nat \<Rightarrow> int \<Rightarrow> int option" where
  "getchar_loop eptr gcii gcaa gcss c =
    (if gcii \<le> gcaa then do {
       b \<leftarrow> peek eptr gcii;
       let gcss = gcss - 6;
       getchar_loop eptr (gcii + 1) gcaa gcss (c OR push_bit gcss (uint b AND 0x3f)) }
     else Some c)"
  by pat_completeness auto
termination by (relation "measure (\<lambda>(e, i, a, s, c). Suc a - i)") auto

definition GETCHAR :: "byte list \<Rightarrow> int option" where
  "GETCHAR eptr = do {
    b \<leftarrow> peek eptr 0;
    let c = uint b;
    if c \<ge> 0xc0 then do {
      gcaa \<leftarrow> peek utf8_table4 (nat (c AND 0x3f));
      t \<leftarrow> peek utf8_table3 gcaa;
      let gcss = 6 * gcaa;
      getchar_loop eptr 1 gcaa gcss (push_bit gcss (c AND t)) }
    else Some c }"

text \<open>\<open>GETCHARLEN\<close> adds the number of extra bytes to \<open>len\<close>.\<close>

definition GETCHARLEN :: "byte list \<Rightarrow> nat \<Rightarrow> (int \<times> nat) option" where
  "GETCHARLEN eptr len = do {
    b \<leftarrow> peek eptr 0;
    let c = uint b;
    if c \<ge> 0xc0 then do {
      gcaa \<leftarrow> peek utf8_table4 (nat (c AND 0x3f));
      t \<leftarrow> peek utf8_table3 gcaa;
      let gcss = 6 * gcaa;
      c \<leftarrow> getchar_loop eptr 1 gcaa gcss (push_bit gcss (c AND t));
      Some (c, len + gcaa) }
    else Some (c, len) }"

text \<open>\<open>GETCHARINC\<close> advances the pointer.\<close>

fun getcharinc_loop :: "byte list \<Rightarrow> nat \<Rightarrow> nat \<Rightarrow> int \<Rightarrow> (int \<times> byte list) option" where
  "getcharinc_loop eptr 0 gcss c = Some (c, eptr)"
| "getcharinc_loop eptr (Suc gcaa) gcss c = do {
    (b, eptr) \<leftarrow> next_item eptr;
    let gcss = gcss - 6;
    getcharinc_loop eptr gcaa gcss (c OR push_bit gcss (uint b AND 0x3f)) }"

definition GETCHARINC :: "byte list \<Rightarrow> (int \<times> byte list) option" where
  "GETCHARINC eptr = do {
    (b, eptr) \<leftarrow> next_item eptr;
    let c = uint b;
    if c \<ge> 0xc0 then do {
      gcaa \<leftarrow> peek utf8_table4 (nat (c AND 0x3f));
      t \<leftarrow> peek utf8_table3 gcaa;
      let gcss = 6 * gcaa;
      getcharinc_loop eptr gcaa gcss (push_bit gcss (c AND t)) }
    else Some (c, eptr) }"

section \<open>The validity check\<close>

text \<open>\<open>for (p = string; *p != 0; p++);\<close>\<close>

fun zero_terminated :: "byte list \<Rightarrow> nat option" where
  "zero_terminated [] = None"
| "zero_terminated (b # p) = (if b = 0 then Some 0 else map_option Suc (zero_terminated p))"

text \<open>
  The tests on the second byte by the number of additional bytes: overlong forms, the
  surrogates, and values above \<open>0x10ffff\<close>.
\<close>

definition bad_second :: "nat \<Rightarrow> byte \<Rightarrow> byte \<Rightarrow> bool" where
  "bad_second ab c b =
    (if ab = 1 then c AND 0x3e = 0
     else if ab = 2 then c = 0xe0 \<and> b AND 0x20 = 0 \<or> c = 0xed \<and> b \<ge> 0xa0
     else if ab = 3 then c = 0xf0 \<and> b AND 0x30 = 0 \<or> c > 0xf4 \<or> c = 0xf4 \<and> b > 0x8f
     else False)"

text \<open>
  \<open>while (--ab > 0)\<close>, where \<open>k\<close> is \<open>ab - 1\<close>: \<open>Inl p\<close> is the return with the offset \<open>p\<close>,
  \<open>Inr p\<close> the pointer after the loop.
\<close>

fun more_bytes :: "byte list \<Rightarrow> nat \<Rightarrow> nat \<Rightarrow> (nat + nat) option" where
  "more_bytes str p 0 = Some (Inr p)"
| "more_bytes str p (Suc k) = do {
    b \<leftarrow> peek str (p + 1);
    if b AND 0xc0 \<noteq> 0x80 then Some (Inl (p + 1)) else more_bytes str (p + 1) k }"

text \<open>One iteration of the outer loop, with the length as it is after the decrement.\<close>

definition valid_char :: "byte list \<Rightarrow> nat \<Rightarrow> int \<Rightarrow> (nat + nat \<times> int) option" where
  "valid_char str p n = do {
    c \<leftarrow> peek str p;
    if c < 128 then Some (Inr (p + 1, n))
    else if c < 0xc0 then Some (Inl p)
    else do {
      ab \<leftarrow> peek utf8_table4 (unat (c AND 0x3f));
      if n < int ab \<or> ab > 3 then Some (Inl p)
      else do {
        b \<leftarrow> peek str (p + 1);
        if b AND 0xc0 \<noteq> 0x80 then Some (Inl (p + 1))
        else if bad_second ab c b then Some (Inl (p + 1))
        else do {
          r \<leftarrow> more_bytes str (p + 1) (ab - 1);
          case r of Inl q \<Rightarrow> Some (Inl q) | Inr q \<Rightarrow> Some (Inr (q + 1, n - int ab)) } } } }"

lemma valid_char_decreases:
  "valid_char str p n = Some (Inr (q, n')) \<Longrightarrow> n' \<le> n"
  by (auto simp: valid_char_def Let_def split: if_splits option.splits Option.bind_splits sum.splits)

function valid_scan :: "byte list \<Rightarrow> nat \<Rightarrow> int \<Rightarrow> int option" where
  "valid_scan str p n =
    (if 0 < n then
       case valid_char str p (n - 1) of
         None \<Rightarrow> None
       | Some (Inl q) \<Rightarrow> Some (int q)
       | Some (Inr (q, n')) \<Rightarrow> valid_scan str q n'
     else Some (- 1))"
  by pat_completeness auto

termination
  by (relation "measure (\<lambda>(s, p, n). nat n)") (auto dest: valid_char_decreases)

definition valid_utf8 :: "byte list \<Rightarrow> int \<Rightarrow> int option" where
  "valid_utf8 str n =
    (if n < 0 then do { k \<leftarrow> zero_terminated str; valid_scan str 0 (int k) }
     else valid_scan str 0 n)"

declare size_loop.simps [simp del] getchar_loop.simps [simp del] valid_scan.simps [simp del]

text \<open>A field of bits is zero exactly below a bound, when the bits above it are known.\<close>

lemma field_zero_iff:
  fixes n :: nat
  assumes "c * m * d \<le> n" "n < (c * m + m) * d" "0 < d"
  shows "n div d mod m * d = 0 \<longleftrightarrow> n < (c * m + 1) * d"
proof -
  have "c * m \<le> n div d" using assms by (simp add: less_eq_div_iff_mult_less_eq)
  moreover have "n div d < c * m + m" using assms by (simp add: div_less_iff_less_mult)
  ultimately have "n div d mod m = n div d - c * m" "c * m \<le> n div d"
    using mod_nat_eqI [of "n div d - c * m" m "n div d"] by auto
  then have "n div d mod m * d = 0 \<longleftrightarrow> n div d < c * m + 1" using assms(3) by auto
  then show ?thesis using assms(3) by (simp add: div_less_iff_less_mult)
qed

lemma and_c0_iff: "(b :: byte) AND 0xc0 = 0x80 \<longleftrightarrow> 0x80 \<le> unat b \<and> unat b < 0xc0"
proof -
  have "unat (b AND 0xc0) = unat b div 64 * 64"
    using unat_and_field [of 6 2 b] unat_byte_less [of b] by (simp add: mask_numeral)
  then have "b AND 0xc0 = 0x80 \<longleftrightarrow> \<not> unat b div 64 < 2 \<and> unat b div 64 < 3"
    by (auto simp: word_unat_eq_iff)
  then show ?thesis by (simp add: div_less_iff_less_mult not_less)
qed

lemma and_3e_iff: "0xc0 \<le> unat b \<Longrightarrow> unat b < 0xe0 \<Longrightarrow> (b :: byte) AND 0x3e = 0 \<longleftrightarrow> unat b < 0xc2"
  using unat_and_field [of 1 5 b] field_zero_iff [of 3 32 2 "unat b"]
  by (simp add: word_unat_eq_iff mask_numeral)

lemma and_20_iff: "0x80 \<le> unat b \<Longrightarrow> unat b < 0xc0 \<Longrightarrow> (b :: byte) AND 0x20 = 0 \<longleftrightarrow> unat b < 0xa0"
  using unat_and_field [of 5 1 b] field_zero_iff [of 2 2 32 "unat b"]
  by (simp add: word_unat_eq_iff)

lemma and_30_iff: "0x80 \<le> unat b \<Longrightarrow> unat b < 0xc0 \<Longrightarrow> (b :: byte) AND 0x30 = 0 \<longleftrightarrow> unat b < 0x90"
  using unat_and_field [of 4 2 b] field_zero_iff [of 2 4 16 "unat b"]
  by (simp add: word_unat_eq_iff mask_numeral)

lemma unat_and_3f: "unat ((b :: byte) AND 0x3f) = unat b mod 64"
  using unat_and_field [of 0 6 b] by (simp add: mask_numeral)

definition extra :: "nat \<Rightarrow> nat" where
  "extra n = (if n < 32 then 1 else if n < 48 then 2 else if n < 56 then 3 else if n < 60 then 4 else 5)"

lemma peek_table4: "n < 64 \<Longrightarrow> peek utf8_table4 n = Some (extra n)"
proof -
  have "list_all (\<lambda>n. peek utf8_table4 n = Some (extra n)) [0..<64]" by code_simp
  then show "n < 64 \<Longrightarrow> ?thesis" by (simp add: list.pred_set)
qed

section \<open>The grammar of UTF-8\<close>

text \<open>The well-formed sequences of RFC 3629, as its table of byte ranges gives them.\<close>

abbreviation tail_byte :: "byte \<Rightarrow> bool" where
  "tail_byte b \<equiv> 0x80 \<le> unat b \<and> unat b < 0xc0"

fun utf8_seq :: "byte list \<Rightarrow> bool" where
  "utf8_seq [a] \<longleftrightarrow> unat a < 0x80"
| "utf8_seq [a, b] \<longleftrightarrow> 0xc2 \<le> unat a \<and> unat a < 0xe0 \<and> tail_byte b"
| "utf8_seq [a, b, c] \<longleftrightarrow>
    (unat a = 0xe0 \<and> 0xa0 \<le> unat b \<and> unat b < 0xc0 \<or>
     0xe1 \<le> unat a \<and> unat a < 0xed \<and> tail_byte b \<or>
     unat a = 0xed \<and> 0x80 \<le> unat b \<and> unat b < 0xa0 \<or>
     0xee \<le> unat a \<and> unat a < 0xf0 \<and> tail_byte b) \<and> tail_byte c"
| "utf8_seq [a, b, c, d] \<longleftrightarrow>
    (unat a = 0xf0 \<and> 0x90 \<le> unat b \<and> unat b < 0xc0 \<or>
     0xf1 \<le> unat a \<and> unat a < 0xf4 \<and> tail_byte b \<or>
     unat a = 0xf4 \<and> 0x80 \<le> unat b \<and> unat b < 0x90) \<and> tail_byte c \<and> tail_byte d"
| "utf8_seq _ \<longleftrightarrow> False"

lemma utf8_seq_length: "utf8_seq bs \<Longrightarrow> 1 \<le> length bs \<and> length bs \<le> 4"
  by (cases bs rule: utf8_seq.cases) auto

lemma peek_drop: "peek str (p + i) = peek (drop p str) i"
  by (auto simp: peek_def)

lemma bad_second_2:
  "0xe0 \<le> unat a \<Longrightarrow> unat a < 0xf0 \<Longrightarrow> tail_byte b \<Longrightarrow> \<not> bad_second 2 a b \<longleftrightarrow>
   unat a = 0xe0 \<and> 0xa0 \<le> unat b \<or> 0xe1 \<le> unat a \<and> unat a < 0xed \<or>
   unat a = 0xed \<and> unat b < 0xa0 \<or> 0xee \<le> unat a"
  using and_20_iff [of b] by (auto simp: bad_second_def word_unat_eq_iff word_le_nat_alt)

lemma bad_second_3:
  "0xf0 \<le> unat a \<Longrightarrow> unat a < 0xf8 \<Longrightarrow> tail_byte b \<Longrightarrow> \<not> bad_second 3 a b \<longleftrightarrow>
   unat a = 0xf0 \<and> 0x90 \<le> unat b \<or> 0xf1 \<le> unat a \<and> unat a < 0xf4 \<or>
   unat a = 0xf4 \<and> unat b < 0x90"
  using and_30_iff [of b] by (auto simp: bad_second_def word_unat_eq_iff word_less_nat_alt)

definition lead_length :: "byte \<Rightarrow> nat" where
  "lead_length a = (if unat a < 0x80 then 1 else if unat a < 0xe0 then 2 else if unat a < 0xf0 then 3 else 4)"

lemma utf8_seq_lead: "utf8_seq bs \<Longrightarrow> bs \<noteq> [] \<and> length bs = lead_length (hd bs)"
  by (cases bs rule: utf8_seq.cases) (auto simp: lead_length_def)

lemma utf8_seq_take_unique:
  "utf8_seq (take k xs) \<Longrightarrow> k \<le> length xs \<Longrightarrow> k = lead_length (hd xs)"
  using utf8_seq_lead [of "take k xs"] by (cases xs; cases k) auto

lemmas valid_char_steps = valid_char_def Let_def unat_and_3f peek_table4 extra_def and_c0_iff
  word_less_nat_alt

lemma more_bytes_2: "more_bytes str p 2 = more_bytes str p (Suc (Suc 0))"
  by (simp only: numeral_2_eq_2)

lemma take_cases:
  "take 2 (a # b # r) = [a, b]" "take 3 (a # b # c # r) = [a, b, c]"
  "take 4 (a # b # c # d # r) = [a, b, c, d]"
  by (simp_all add: numeral_eq_Suc)

lemma valid_char_local:
  assumes "drop p str = xs" "m < length xs"
  shows "valid_char str p (int m) = Some (Inr (q, n')) \<longleftrightarrow>
    utf8_seq (take (lead_length (hd xs)) xs) \<and> lead_length (hd xs) \<le> Suc m \<and>
    q = p + lead_length (hd xs) \<and> n' = int (Suc m) - int (lead_length (hd xs))"
proof -
  obtain a r where xs: "xs = a # r" "m \<le> length r" using assms(2) by (cases xs) auto
  have peeks: "peek str p = Some a" "peek str (p + i) = peek (a # r) i" for i
    using peek_drop [of str p 0] peek_drop [of str p i] assms(1) xs by (simp_all add: peek_def)
  have hi: "192 \<le> unat a \<Longrightarrow> unat a mod 64 = unat a - 192"
    using mod_nat_eqI [of "unat a - 192" 64 "unat a"] unat_byte_less [of a] by simp
  consider "unat a < 0x80" | "0x80 \<le> unat a" "unat a < 0xc0" | "0xc0 \<le> unat a" "unat a < 0xe0"
    | "0xe0 \<le> unat a" "unat a < 0xf0" | "0xf0 \<le> unat a" "unat a < 0xf8" | "0xf8 \<le> unat a"
    by linarith
  then show ?thesis
  proof cases
    case 1
    then show ?thesis using xs peeks(1) by (auto simp: valid_char_steps lead_length_def)
  next
    case 2
    then show ?thesis using xs peeks(1)
      by (cases r) (auto simp: valid_char_steps lead_length_def take_cases)
  next
    case 3
    with hi have "unat a mod 64 < 32" by simp
    with 3 show ?thesis using xs peeks(1) peeks(2) [of 1]
      by (cases r) (auto simp: valid_char_steps lead_length_def take_cases bad_second_def and_3e_iff)
  next
    case 4
    with hi have e: "\<not> unat a mod 64 < 32" "unat a mod 64 < 48" by simp_all
    show ?thesis
    proof (cases "2 \<le> m")
      case True
      then obtain b c r' where r: "r = b # c # r'"
        using xs(2) by (cases r rule: remdups_adj.cases) auto
      have "valid_char str p (int m) = (if \<not> tail_byte b \<or> bad_second 2 a b then Some (Inl (p + 1))
          else if \<not> tail_byte c then Some (Inl (p + 2)) else Some (Inr (p + 3, int m - 2)))"
        using 4 e True xs(1) r peeks(1) peeks(2) [of "Suc 0"] peeks(2) [of "Suc (Suc 0)"]
        by (simp add: valid_char_steps)
      moreover have "utf8_seq [a, b, c] \<longleftrightarrow> tail_byte b \<and> \<not> bad_second 2 a b \<and> tail_byte c"
        using 4 bad_second_2 [of a b] by auto
      ultimately show ?thesis using 4 True xs(1) r by (auto simp: lead_length_def take_cases)
    next
      case False
      then show ?thesis using 4 e peeks(1) xs(1) by (auto simp: valid_char_steps lead_length_def)
    qed
  next
    case 5
    with hi have e: "\<not> unat a mod 64 < 48" "unat a mod 64 < 56" by simp_all
    show ?thesis
    proof (cases "3 \<le> m")
      case True
      then obtain b c d r' where r: "r = b # c # d # r'"
        using xs(2) by (auto simp: numeral_3_eq_3 neq_Nil_conv less_eq_Suc_le Suc_le_length_iff dest!: order_trans [of _ m])
      have "valid_char str p (int m) = (if \<not> tail_byte b \<or> bad_second 3 a b then Some (Inl (p + 1))
          else if \<not> tail_byte c then Some (Inl (p + 2)) else if \<not> tail_byte d then Some (Inl (p + 3))
          else Some (Inr (p + 4, int m - 3)))"
        using 5 e True xs(1) r peeks(1) peeks(2) [of "Suc 0"] peeks(2) [of "Suc (Suc 0)"]
          peeks(2) [of "Suc (Suc (Suc 0))"]
        by (simp add: valid_char_steps more_bytes_2)
      moreover have "utf8_seq [a, b, c, d] \<longleftrightarrow>
          tail_byte b \<and> \<not> bad_second 3 a b \<and> tail_byte c \<and> tail_byte d"
        using 5 bad_second_3 [of a b] by auto
      ultimately show ?thesis using 5 True xs(1) r by (auto simp: lead_length_def take_cases)
    next
      case False
      then show ?thesis using 5 e peeks(1) xs(1) by (auto simp: valid_char_steps lead_length_def)
    qed
  next
    case 6
    with hi have e: "\<not> unat a mod 64 < 48" "\<not> unat a mod 64 < 56" by simp_all
    have "\<not> utf8_seq (take 4 (a # r))" using 6 utf8_seq.simps
      by (cases "take 4 (a # r)" rule: utf8_seq.cases) auto
    then show ?thesis using 6 e peeks(1) xs(1) by (auto simp: valid_char_steps lead_length_def)
  qed
qed

lemma valid_char_iff:
  assumes "p + m < length str"
  shows "valid_char str p (int m) = Some (Inr (q, n')) \<longleftrightarrow>
    (\<exists>k. k \<le> Suc m \<and> utf8_seq (take k (drop p str)) \<and> q = p + k \<and> n' = int (Suc m) - int k)"
proof -
  have "k = lead_length (hd (drop p str))" if "k \<le> Suc m" "utf8_seq (take k (drop p str))" for k
    using utf8_seq_take_unique [of k "drop p str"] assms that by simp
  then show ?thesis using valid_char_local [OF refl, of m p str q n'] assms by auto
qed

lemma more_bytes_result:
  "q + j < length str \<Longrightarrow> more_bytes str q j = Some (Inr (q + j)) \<or>
    (\<exists>r. more_bytes str q j = Some (Inl r) \<and> q < r \<and> r \<le> q + j)"
proof (induction str q j rule: more_bytes.induct)
  case (2 str p k)
  have b: "peek str (p + 1) = Some (str ! (p + 1))" using 2(2) by simp
  show ?case
  proof (cases "str ! (p + 1) AND 0xc0 = 0x80")
    case True
    then show ?thesis using 2(1) [OF b] 2(2) b by fastforce
  next
    case False
    then show ?thesis using b by auto
  qed
qed simp

lemma valid_char_result:
  assumes "p + m < length str"
  shows "(\<exists>r. valid_char str p (int m) = Some (Inr r)) \<or>
    (\<exists>q. valid_char str p (int m) = Some (Inl q) \<and> p \<le> q \<and> q \<le> p + 3 \<and> q \<le> p + m)"
proof -
  define ab where "ab = extra (unat (str ! p) mod 64)"
  have ab: "1 \<le> ab" by (simp add: ab_def extra_def)
  have a: "peek str p = Some (str ! p)" using assms by simp
  have t: "peek utf8_table4 (unat (str ! p AND 0x3f)) = Some ab"
    by (simp add: unat_and_3f peek_table4 ab_def)
  show ?thesis
  proof (cases "str ! p < 0xc0 \<or> m < ab \<or> 3 < ab")
    case True
    then show ?thesis using a t by (auto simp: valid_char_def)
  next
    case False
    then have "peek str (p + 1) = Some (str ! (p + 1))" using ab assms by simp
    moreover have "\<not> str ! p < 128" using False by (auto simp: word_less_nat_alt)
    moreover have "p + 1 + (ab - 1) < length str" using ab False assms by linarith
    ultimately show ?thesis
      using False a t ab more_bytes_result [of "p + 1" "ab - 1" str]
      by (auto simp: valid_char_def)
  qed
qed

text \<open>The outer loop accepts exactly the concatenations of well-formed sequences.\<close>

lemma valid_scan_step:
  assumes "p + m < length str"
  shows "valid_scan str p (int (Suc m)) = Some (- 1) \<longleftrightarrow>
    (\<exists>k. k \<le> Suc m \<and> utf8_seq (take k (drop p str)) \<and>
         valid_scan str (p + k) (int (Suc m - k)) = Some (- 1))"
proof -
  have unfold: "valid_scan str p (int (Suc m)) = (case valid_char str p (int m) of
         None \<Rightarrow> None | Some (Inl q) \<Rightarrow> Some (int q) | Some (Inr (q, n')) \<Rightarrow> valid_scan str q n')"
    by (subst valid_scan.simps) simp
  from valid_char_result [OF assms] show ?thesis
  proof
    assume "\<exists>r. valid_char str p (int m) = Some (Inr r)"
    then obtain q n' where r: "valid_char str p (int m) = Some (Inr (q, n'))" by auto
    then obtain k where k: "k \<le> Suc m" "utf8_seq (take k (drop p str))" "q = p + k" "n' = int (Suc m) - int k"
      using valid_char_iff [OF assms] by blast
    have unique: "j = k" if "j \<le> Suc m" "utf8_seq (take j (drop p str))" for j
    proof -
      have "Suc m \<le> length (drop p str)" using assms by simp
      then show ?thesis
        using utf8_seq_take_unique [of j] utf8_seq_take_unique [of k] that k(1,2) by (metis le_trans)
    qed
    have "valid_scan str p (int (Suc m)) = valid_scan str (p + k) (int (Suc m - k))"
      unfolding unfold r k(3,4) using k(1) by (simp add: of_nat_diff)
    then show ?thesis using unique k(1,2) by metis
  next
    assume "\<exists>q. valid_char str p (int m) = Some (Inl q) \<and> p \<le> q \<and> q \<le> p + 3 \<and> q \<le> p + m"
    then obtain q where r: "valid_char str p (int m) = Some (Inl q)" by auto
    then have "\<not> (\<exists>k. k \<le> Suc m \<and> utf8_seq (take k (drop p str)))"
      using valid_char_iff [OF assms] by (auto simp: r)
    then show ?thesis using unfold r by auto
  qed
qed

lemma valid_scan_iff:
  "p + m \<le> length str \<Longrightarrow> valid_scan str p (int m) = Some (- 1) \<longleftrightarrow>
    (\<exists>ss. (\<forall>s\<in>set ss. utf8_seq s) \<and> take m (drop p str) = concat ss)"
proof (induction m arbitrary: p rule: less_induct)
  case (less m)
  show ?case
  proof (cases m)
    case 0
    then show ?thesis by (auto simp: valid_scan.simps intro: exI [of _ "[]"])
  next
    case (Suc m')
    let ?xs = "drop p str"
    have IH: "valid_scan str (p + k) (int (m - k)) = Some (- 1) \<longleftrightarrow>
        (\<exists>ss. (\<forall>s\<in>set ss. utf8_seq s) \<and> take (m - k) (drop k ?xs) = concat ss)"
      if "k \<le> m" "utf8_seq (take k ?xs)" for k
      using less.IH [of "m - k" "p + k"] less.prems that utf8_seq_length [OF that(2)]
      by (simp add: add.commute)
    have "valid_scan str p (int m) = Some (- 1) \<longleftrightarrow>
        (\<exists>k. k \<le> m \<and> utf8_seq (take k ?xs) \<and> valid_scan str (p + k) (int (m - k)) = Some (- 1))"
      using valid_scan_step [of p m' str] less.prems Suc by simp
    also have "\<dots> \<longleftrightarrow> (\<exists>k ss. k \<le> m \<and> utf8_seq (take k ?xs) \<and> (\<forall>s\<in>set ss. utf8_seq s) \<and>
        take (m - k) (drop k ?xs) = concat ss)"
      using IH by blast
    also have "\<dots> \<longleftrightarrow> (\<exists>ss. (\<forall>s\<in>set ss. utf8_seq s) \<and> take m ?xs = concat ss)"
    proof
      assume "\<exists>k ss. k \<le> m \<and> utf8_seq (take k ?xs) \<and> (\<forall>s\<in>set ss. utf8_seq s) \<and>
        take (m - k) (drop k ?xs) = concat ss"
      then obtain k ss where k: "k \<le> m" "utf8_seq (take k ?xs)" "\<forall>s\<in>set ss. utf8_seq s"
        "take (m - k) (drop k ?xs) = concat ss" by blast
      have "take m ?xs = take k ?xs @ take (m - k) (drop k ?xs)"
        using k(1) by (metis le_add_diff_inverse take_add)
      with k show "\<exists>ss. (\<forall>s\<in>set ss. utf8_seq s) \<and> take m ?xs = concat ss"
        by (intro exI [of _ "take k ?xs # ss"]) auto
    next
      assume "\<exists>ss. (\<forall>s\<in>set ss. utf8_seq s) \<and> take m ?xs = concat ss"
      then obtain ss where ss: "\<forall>s\<in>set ss. utf8_seq s" "take m ?xs = concat ss" by blast
      then obtain s ss' where c: "ss = s # ss'" using Suc less.prems by (cases ss) auto
      have len: "length s \<le> m"
        using arg_cong [OF ss(2), of length] by (simp add: c)
      have t: "take (length s) ?xs = s"
        using arg_cong [OF ss(2), of "take (length s)"] len by (simp add: c min_absorb1)
      have "take (m - length s) (drop (length s) ?xs) = concat ss'"
        using ss(2) unfolding c by (metis append_eq_conv_conj concat.simps(2) drop_take)
      then show "\<exists>k ss. k \<le> m \<and> utf8_seq (take k ?xs) \<and> (\<forall>s\<in>set ss. utf8_seq s) \<and>
        take (m - k) (drop k ?xs) = concat ss"
        using len t ss(1) c by (intro exI [of _ "length s"] exI [of _ ss']) auto
    qed
    finally show ?thesis .
  qed
qed

text \<open>A refused string: the offset lies in the first character that is not well formed.\<close>

lemma valid_scan_offset:
  "p + m \<le> length str \<Longrightarrow> valid_scan str p (int m) = Some (- 1) \<or>
    (\<exists>k j. valid_scan str p (int m) = Some (int k) \<and> p \<le> j \<and> j \<le> k \<and> k \<le> j + 3 \<and> k < p + m \<and>
      (\<exists>ss. (\<forall>s\<in>set ss. utf8_seq s) \<and> take (j - p) (drop p str) = concat ss) \<and>
      \<not> (\<exists>i. j + i \<le> p + m \<and> utf8_seq (take i (drop j str))))"
proof (induction m arbitrary: p rule: less_induct)
  case (less m)
  show ?case
  proof (cases m)
    case 0
    then show ?thesis by (simp add: valid_scan.simps)
  next
    case (Suc m')
    with less.prems have p: "p + m' < length str" by simp
    have unfold: "valid_scan str p (int m) = (case valid_char str p (int m') of
         None \<Rightarrow> None | Some (Inl q) \<Rightarrow> Some (int q) | Some (Inr (q, n')) \<Rightarrow> valid_scan str q n')"
      by (subst valid_scan.simps) (simp add: Suc)
    from valid_char_result [OF p] show ?thesis
    proof
      assume "\<exists>q. valid_char str p (int m') = Some (Inl q) \<and> p \<le> q \<and> q \<le> p + 3 \<and> q \<le> p + m'"
      then obtain q where q: "valid_char str p (int m') = Some (Inl q)" "p \<le> q" "q \<le> p + 3" "q \<le> p + m'"
        by blast
      have "\<not> (\<exists>i. p + i \<le> p + m \<and> utf8_seq (take i (drop p str)))"
        using valid_char_iff [OF p] q(1) Suc by auto
      moreover have "\<exists>ss. (\<forall>s\<in>set ss. utf8_seq s) \<and> take (p - p) (drop p str) = concat ss"
        by (rule exI [of _ "[]"]) simp
      ultimately show ?thesis using q unfold Suc by (intro disjI2 exI [of _ q] exI [of _ p]) simp
    next
      assume "\<exists>r. valid_char str p (int m') = Some (Inr r)"
      then obtain q n' where r: "valid_char str p (int m') = Some (Inr (q, n'))" by auto
      then obtain i where i: "i \<le> m" "utf8_seq (take i (drop p str))" "q = p + i" "n' = int (m - i)"
        using valid_char_iff [OF p] Suc by (auto simp: of_nat_diff)
      then have "1 \<le> i" using utf8_seq_length by fastforce
      then have "m - i < m" "q + (m - i) \<le> length str" "q + (m - i) = p + m"
        using i less.prems Suc by auto
      note IH = less.IH [OF this(1,2)]
      have eq: "valid_scan str p (int m) = valid_scan str q (int (m - i))"
        using unfold r i by simp
      from IH show ?thesis
      proof (elim disjE exE conjE)
        fix k j ss
        assume *: "valid_scan str q (int (m - i)) = Some (int k)" "q \<le> j" "j \<le> k" "k \<le> j + 3" "k < q + (m - i)"
          "\<forall>s\<in>set ss. utf8_seq s" "take (j - q) (drop q str) = concat ss"
          "\<not> (\<exists>i'. j + i' \<le> q + (m - i) \<and> utf8_seq (take i' (drop j str)))"
        have "take (j - p) (drop p str) = concat (take i (drop p str) # ss)"
          using * i(3) take_add [of i "j - q" "drop p str"] by (simp add: add.commute)
        moreover have "\<forall>s\<in>set (take i (drop p str) # ss). utf8_seq s" using * i by simp
        ultimately show ?thesis using * i(3) \<open>q + (m - i) = p + m\<close>
          by (intro disjI2, rule_tac x = k in exI, rule_tac x = j in exI)
            (intro conjI exI [of _ "take i (drop p str) # ss"], auto simp: eq)
      qed (simp add: eq)
    qed
  qed
qed

section \<open>Encoding and decoding\<close>

lemma int_or_low:
  fixes x y :: int
  assumes "0 \<le> y" "y < 2 ^ n"
  shows "(x * 2 ^ n) OR y = x * 2 ^ n + y"
proof -
  have "(x * 2 ^ n) AND y = push_bit n x AND take_bit n y"
    using assms by (simp add: push_bit_eq_mult take_bit_int_eq_self)
  also have "\<dots> = 0" by (rule bit_eqI) (auto simp: bit_simps)
  finally show ?thesis by (simp add: disjunctive_add_eq_or)
qed

lemma int_and_low:
  fixes x b :: int
  assumes "0 \<le> x" "x < 2 ^ n"
  shows "(b * 2 ^ n + x) AND mask n = x"
  using assms by (simp flip: take_bit_eq_mask add: take_bit_eq_mod)

lemma int_and_3f: "(x :: int) AND 0x3f = take_bit 6 x"
  by (simp add: take_bit_eq_mask mask_numeral)

definition continuation :: "int \<Rightarrow> byte" where
  "continuation c = word_of_int (0x80 OR (c AND 0x3f))"

lemma continuation_uint: "uint (continuation c) = 0x80 + c mod 64"
proof -
  have "0x80 OR (c AND 0x3f) = 0x80 + c mod 64"
    using int_or_low [of "c mod 64" 6 2] by (simp add: int_and_3f take_bit_eq_mod)
  moreover have "0 \<le> c mod 64" "c mod 64 < 64" by simp_all
  then have "0 \<le> 0x80 + c mod 64" "0x80 + c mod 64 < 256" by linarith+
  then have "uint (word_of_int (0x80 + c mod 64) :: byte) = 0x80 + c mod 64"
    by (simp add: uint_word_of_int del: of_int_add of_int_numeral wi_hom_add)
  ultimately show ?thesis unfolding continuation_def by simp
qed

lemma continuation_data: "uint (continuation c) AND 0x3f = take_bit 6 c"
proof -
  have "0x80 + c mod 64 = c mod 64 + 2 * 64" by linarith
  then have "(0x80 + c mod 64) mod 64 = (c mod 64 + 2 * 64) mod 64" by (rule arg_cong)
  also have "\<dots> = c mod 64" unfolding mod_mult_self1 by simp
  finally show ?thesis unfolding continuation_uint int_and_3f by (simp add: take_bit_eq_mod)
qed

fun trail :: "nat \<Rightarrow> int \<Rightarrow> byte list" where
  "trail 0 c = []"
| "trail (Suc j) c = continuation (drop_bit (6 * j) c) # trail j c"

lemma trail_snoc: "trail (Suc j) c = trail j (drop_bit 6 c) @ [continuation c]"
  by (induction j) (simp_all add: algebra_simps)

lemma length_trail [simp]: "length (trail j c) = j"
  by (induction j) auto

lemma trail_loop_eq:
  "p + j < length mem \<Longrightarrow> trail_loop mem (p + j) j c =
    Some (take (Suc p) mem @ trail j c @ drop (Suc (p + j)) mem, p, drop_bit (6 * j) c)"
proof (induction j arbitrary: mem c)
  case (Suc j)
  let ?mem = "mem[p + Suc j := continuation c]"
  have "trail_loop mem (p + Suc j) (Suc j) c = trail_loop ?mem (p + j) j (drop_bit 6 c)"
    using Suc.prems by (simp add: continuation_def)
  also have "\<dots> = Some (take (Suc p) ?mem @ trail j (drop_bit 6 c) @ drop (Suc (p + j)) ?mem, p,
      drop_bit (6 * j) (drop_bit 6 c))"
    using Suc by simp
  also have "drop (Suc (p + j)) ?mem = continuation c # drop (Suc (p + Suc j)) mem"
    using Suc.prems by (simp add: drop_update_swap list_update_code flip: Cons_nth_drop_Suc)
  finally show ?case by (simp add: trail_snoc algebra_simps del: trail.simps(2))
qed (simp flip: append_take_drop_id)

lemma take_bit_groups:
  "(a OR push_bit (6 * j) (take_bit 6 (drop_bit (6 * j) c))) OR take_bit (6 * j) c = a OR take_bit (6 * Suc j) (c :: int)"
  by (rule bit_eqI) (auto simp: bit_simps)

lemma getcharinc_loop_trail:
  "getcharinc_loop (trail j c @ rest) j (6 * j) a = Some (a OR take_bit (6 * j) c, rest)"
proof (induction j arbitrary: a)
  case (Suc j)
  have "getcharinc_loop (trail (Suc j) c @ rest) (Suc j) (6 * Suc j) a =
      getcharinc_loop (trail j c @ rest) j (6 * j)
        (a OR push_bit (6 * j) (uint (continuation (drop_bit (6 * j) c)) AND 0x3f))"
    by (simp add: Let_def del: push_bit_and)
  also have "\<dots> = Some (a OR take_bit (6 * Suc j) c, rest)"
    unfolding continuation_data Suc take_bit_groups ..
  finally show ?case .
qed simp

text \<open>The bytes of a value: the first byte, by the number of continuation bytes.\<close>

definition size_of :: "int \<Rightarrow> nat" where
  "size_of c = (if c < 0x80 then 0 else if c < 0x800 then 1 else if c < 0x10000 then 2
    else if c < 0x200000 then 3 else if c < 0x4000000 then 4 else 5)"

definition first_byte :: "int \<Rightarrow> byte" where
  "first_byte c = word_of_int (utf8_table2 ! size_of c OR drop_bit (6 * size_of c) c)"

definition encoded :: "int \<Rightarrow> byte list" where
  "encoded c = first_byte c # trail (size_of c) c"

lemma size_loop_0: "c < 2 ^ 31 \<Longrightarrow> size_loop c 0 = size_of c"
  by (simp add: size_loop.simps utf8_table1_def utf8_table1_size_def size_of_def)

lemma ord2utf8_encoded:
  assumes "c < 2 ^ 31" "length (encoded c) \<le> length mem"
  shows "ord2utf8 c mem = Some (length (encoded c), encoded c @ drop (length (encoded c)) mem)"
proof -
  let ?i = "size_of c"
  have i: "?i < length mem" "?i < 6" using assms(2) by (auto simp: encoded_def size_of_def)
  obtain b mem' where mem: "mem = b # mem'" using i by (cases mem) auto
  have "trail_loop mem ?i ?i c = Some (b # trail ?i c @ drop (Suc ?i) mem, 0, drop_bit (6 * ?i) c)"
    using trail_loop_eq [of 0 ?i mem c] i mem by simp
  moreover have "peek utf8_table2 ?i = Some (utf8_table2 ! ?i)" using i by (simp add: utf8_table2_def)
  ultimately show ?thesis
    using i by (simp add: ord2utf8_def Let_def size_loop_0 [simplified] assms(1) [simplified] encoded_def first_byte_def mem)
qed

lemma first_byte_uint:
  assumes "0 \<le> c" "c < 2 ^ 31"
  shows "uint (first_byte c) = [0, 0xc0, 0xe0, 0xf0, 0xf8, 0xfc] ! size_of c + c div 2 ^ (6 * size_of c)"
    and "c div 2 ^ (6 * size_of c) < [0x80, 0x20, 0x10, 0x08, 0x04, 0x02] ! size_of c"
proof -
  let ?i = "size_of c"
  let ?x = "c div 2 ^ (6 * ?i)"
  show bound: "?x < [0x80, 0x20, 0x10, 0x08, 0x04, 0x02] ! size_of c"
    using assms by (auto simp: size_of_def div_less_iff_less_mult)
  have nonneg: "0 \<le> ?x" using assms(1) by (simp add: pos_imp_zdiv_nonneg_iff)
  note or = int_or_low [of ?x 5 6] int_or_low [of ?x 4 14] int_or_low [of ?x 3 30]
    int_or_low [of ?x 2 62] int_or_low [of ?x 1 126]
  let ?b = "[0, 0xc0, 0xe0, 0xf0, 0xf8, 0xfc] ! ?i"
  have i: "?i \<in> {0, 1, 2, 3, 4, 5}" by (simp add: size_of_def)
  have "utf8_table2 ! ?i OR ?x = ?b + ?x \<and> ?b + ?x < 256 \<and> 0 \<le> ?b + ?x"
    using i bound nonneg or unfolding insert_iff
  proof (elim disjE)
    assume "?i = 0" then show ?thesis using bound nonneg by (simp add: utf8_table2_def)
  next
    assume "?i = 1" then show ?thesis using bound nonneg or(1) by (simp add: utf8_table2_def)
  next
    assume "?i = 2" then show ?thesis using bound nonneg or(2) by (simp add: utf8_table2_def)
  next
    assume "?i = 3" then show ?thesis using bound nonneg or(3) by (simp add: utf8_table2_def)
  next
    assume "?i = 4" then show ?thesis using bound nonneg or(4) by (simp add: utf8_table2_def)
  next
    assume "?i = 5" then show ?thesis using bound nonneg or(5) by (simp add: utf8_table2_def)
  qed simp
  then show "uint (first_byte c) = [0, 0xc0, 0xe0, 0xf0, 0xf8, 0xfc] ! ?i + ?x"
    by (simp add: first_byte_def drop_bit_eq_div uint_word_of_int del: of_int_add wi_hom_add)
qed

lemma getchar_loop_inc:
  "getchar_loop eptr i n s c = map_option fst (getcharinc_loop (drop i eptr) (Suc n - i) s c)"
proof (induction eptr i n s c rule: getchar_loop.induct)
  case (1 eptr i n s c)
  show ?case
  proof (cases "i \<le> n \<and> i < length eptr")
    case True
    then have "drop i eptr = eptr ! i # drop (Suc i) eptr" "Suc n - i = Suc (n - i)"
      by (auto simp: Cons_nth_drop_Suc Suc_diff_le)
    then show ?thesis using True 1 [OF _ peek_in refl]
      by (subst getchar_loop.simps) (simp add: Let_def)
  next
    case False
    then show ?thesis by (subst getchar_loop.simps) (auto simp: Suc_diff_le)
  qed
qed

lemma GETCHAR_inc: "GETCHAR eptr = map_option fst (GETCHARINC eptr)"
  by (cases eptr) (auto simp: GETCHAR_def GETCHARINC_def Let_def getchar_loop_inc split: Option.bind_splits)

lemma first_byte_fields:
  assumes "0 \<le> c" "0x80 \<le> c" "c < 2 ^ 31"
  shows "0xc0 \<le> uint (first_byte c)"
    and "peek utf8_table4 (nat (uint (first_byte c) AND 0x3f)) = Some (size_of c)"
    and "uint (first_byte c) AND utf8_table3 ! size_of c = drop_bit (6 * size_of c) c"
proof -
  let ?x = "c div 2 ^ (6 * size_of c)"
  have x: "0 \<le> ?x" using assms(1) by (simp add: pos_imp_zdiv_nonneg_iff)
  have i: "size_of c = 1 \<or> size_of c = 2 \<or> size_of c = 3 \<or> size_of c = 4 \<or> size_of c = 5"
    using assms(2) by (simp add: size_of_def)
  note u = first_byte_uint [OF assms(1,3)]
  show "0xc0 \<le> uint (first_byte c)" using u x i by auto
  show "peek utf8_table4 (nat (uint (first_byte c) AND 0x3f)) = Some (size_of c)"
  proof -
    have peek: "peek utf8_table4 (nat y) = Some (extra (nat y))" if "0 \<le> y" "y < 64" for y :: int
      by (rule peek_table4) (use that in \<open>simp add: nat_less_iff\<close>)
    have mod: "(k * m + y) mod m = y" if "0 \<le> y" "y < m" for y m k :: int using that by simp
    define y where "y = uint (first_byte c) - 192"
    have y: "0 \<le> y" "y < 64" "extra (nat y) = size_of c"
      using i u x by (auto simp: y_def extra_def nat_less_iff)
    have "uint (first_byte c) = 3 * 64 + y" by (simp add: y_def)
    then show ?thesis
      unfolding int_and_3f take_bit_eq_mod using mod [of y 64 3] peek [of y] y by simp
  qed
  show "uint (first_byte c) AND utf8_table3 ! size_of c = drop_bit (6 * size_of c) c"
  proof -
    note low = int_and_low [of ?x 5 6] int_and_low [of ?x 4 14] int_and_low [of ?x 3 30]
      int_and_low [of ?x 2 62] int_and_low [of ?x 1 126]
    show ?thesis unfolding drop_bit_eq_div using i
    proof (elim disjE)
      assume "size_of c = 1"
      with u low(1) x show "uint (first_byte c) AND utf8_table3 ! size_of c = ?x"
        by (simp add: utf8_table3_def mask_numeral)
    next
      assume "size_of c = 2"
      with u low(2) x show "uint (first_byte c) AND utf8_table3 ! size_of c = ?x"
        by (simp add: utf8_table3_def mask_numeral)
    next
      assume "size_of c = 3"
      with u low(3) x show "uint (first_byte c) AND utf8_table3 ! size_of c = ?x"
        by (simp add: utf8_table3_def mask_numeral)
    next
      assume "size_of c = 4"
      with u low(4) x show "uint (first_byte c) AND utf8_table3 ! size_of c = ?x"
        by (simp add: utf8_table3_def mask_numeral)
    next
      assume "size_of c = 5"
      with u low(5) x show "uint (first_byte c) AND utf8_table3 ! size_of c = ?x"
        by (simp add: utf8_table3_def mask_numeral)
    qed
  qed
qed

lemma GETCHARINC_encoded:
  assumes "0 \<le> c" "c < 2 ^ 31"
  shows "GETCHARINC (encoded c @ rest) = Some (c, rest)"
proof (cases "c < 0x80")
  case True
  then show ?thesis using first_byte_uint(1) [OF assms] 
    by (simp add: GETCHARINC_def encoded_def size_of_def)
next
  case False
  have "push_bit (6 * size_of c) (drop_bit (6 * size_of c) c) OR take_bit (6 * size_of c) c = c"
    by (rule bit_eqI) (auto simp: bit_simps)
  moreover have "peek utf8_table3 (size_of c) = Some (utf8_table3 ! size_of c)"
    by (simp add: utf8_table3_def size_of_def)
  ultimately show ?thesis using first_byte_fields [of c] assms False
    by (simp add: GETCHARINC_def encoded_def Let_def getcharinc_loop_trail del: push_bit_and)
qed

text \<open>The Unicode scalar values.\<close>

definition scalar :: "int \<Rightarrow> bool" where
  "scalar c \<longleftrightarrow> 0 \<le> c \<and> c \<le> 0x10ffff \<and> \<not> (0xd800 \<le> c \<and> c \<le> 0xdfff)"

lemma unat_uint_iff:
  "numeral n \<le> unat (b :: byte) \<longleftrightarrow> numeral n \<le> uint b"
  "unat b < numeral n \<longleftrightarrow> uint b < numeral n"
  "unat b = numeral n \<longleftrightarrow> uint b = numeral n"
proof -
  have u: "uint b = int (unat b)" by simp
  show "numeral n \<le> unat b \<longleftrightarrow> numeral n \<le> uint b" unfolding u by (metis of_nat_le_iff of_nat_numeral)
  show "unat b < numeral n \<longleftrightarrow> uint b < numeral n" unfolding u by (metis of_nat_less_iff of_nat_numeral)
  show "unat b = numeral n \<longleftrightarrow> uint b = numeral n" unfolding u by (metis of_nat_eq_iff of_nat_numeral)
qed

lemma int_digits:
  fixes h l :: int
  assumes "0 \<le> l" "l < 64"
  shows "(h * 64 + l) div 64 = h" "(h * 64 + l) mod 64 = l"
  using assms by (simp_all add: div_add1_eq)

lemma digit_split: "\<exists>h l. c = h * 64 + l \<and> 0 \<le> l \<and> l < (64 :: int)"
  by (rule exI [of _ "c div 64"], rule exI [of _ "c mod 64"]) simp

lemma encoded_cases:
  assumes "0 \<le> c" "c \<le> 0x10ffff"
  obtains (1) a where "c < 0x80" "encoded c = [a]" "uint a = c"
  | (2) a b h l where "0x80 \<le> c" "c < 0x800" "encoded c = [a, b]" "c = h * 64 + l" "0 \<le> l" "l < 64"
      "uint a = 0xc0 + h" "uint b = 0x80 + l"
  | (3) a b d h k l where "0x800 \<le> c" "c < 0x10000" "encoded c = [a, b, d]"
      "c = 4096 * h + 64 * k + l" "0 \<le> l" "l < 64" "0 \<le> k" "k < 64"
      "uint a = 0xe0 + h" "uint b = 0x80 + k" "uint d = 0x80 + l"
  | (4) a b d e h j k l where "0x10000 \<le> c" "encoded c = [a, b, d, e]"
      "c = 262144 * h + 4096 * j + 64 * k + l" "0 \<le> l" "l < 64" "0 \<le> k" "k < 64" "0 \<le> j" "j < 64"
      "uint a = 0xf0 + h" "uint b = 0x80 + j" "uint d = 0x80 + k" "uint e = 0x80 + l"
proof -
  have dd: "c div 4096 = c div 64 div 64" "c div 262144 = c div 64 div 64 div 64"
    by (simp_all flip: zdiv_zmult2_eq)
  note f = first_byte_uint(1) [OF assms(1) order.strict_trans1 [OF assms(2)]]
  obtain q l where c: "c = q * 64 + l" "0 \<le> l" "l < 64" using digit_split by blast
  obtain p k where q: "q = p * 64 + k" "0 \<le> k" "k < 64" using digit_split by blast
  obtain h j where p: "p = h * 64 + j" "0 \<le> j" "j < 64" using digit_split by blast
  note digits = int_digits [OF c(2,3)] int_digits [OF q(2,3)] int_digits [OF p(2,3)]
  have e: "c div 64 = q" "q div 64 = p" "p div 64 = h" "c mod 64 = l" "q mod 64 = k" "p mod 64 = j"
    unfolding c(1) q(1) p(1) digits by (rule refl)+
  have c3: "c = 4096 * p + 64 * k + l" unfolding c(1) q(1) by simp
  have c4: "c = 262144 * h + 4096 * j + 64 * k + l" unfolding c3 p(1) by simp
  note steps = encoded_def size_of_def continuation_uint dd drop_bit_eq_div e numeral_2_eq_2 numeral_3_eq_3
  consider "c < 0x80" | "0x80 \<le> c" "c < 0x800" | "0x800 \<le> c" "c < 0x10000" | "0x10000 \<le> c" by linarith
  then show ?thesis
  proof cases
    case 1
    then show ?thesis using f that(1) [of "first_byte c"] by (simp add: encoded_def size_of_def)
  next
    case 2
    show ?thesis using 2 f c(2,3)
      by (intro that(2) [of "first_byte c" "continuation c" q l]) (rule c(1) | simp add: steps)+
  next
    case 3
    show ?thesis using 3 f c(2,3) q(2,3)
      by (intro that(3) [of "first_byte c" "continuation (c div 64)" "continuation c" p k l])
        (rule c3 | simp add: steps)+
  next
    case 4
    show ?thesis using 4 f assms(2) c(2,3) q(2,3) p(2,3)
      by (intro that(4) [of "first_byte c" "continuation (c div 64 div 64)" "continuation (c div 64)" "continuation c" h j k l])
        (rule c4 | simp add: steps)+
  qed
qed

lemma utf8_seq_encoded:
  assumes "scalar c" shows "utf8_seq (encoded c)"
proof -
  have r: "0 \<le> c" "c \<le> 0x10ffff" and s: "c < 0xd800 \<or> 0xe000 \<le> c" using assms by (auto simp: scalar_def)
  from r show ?thesis
  proof (cases rule: encoded_cases)
    case (1 a)
    then show ?thesis by (simp add: unat_uint_iff)
  next
    case (2 a b h l)
    then have "2 \<le> h" "h < 32" by linarith+
    then show ?thesis using 2 by (simp add: unat_uint_iff)
  next
    case (3 a b d h k l)
    then have "0 \<le> h" "h < 16" by linarith+
    moreover have "32 \<le> k" if "h = 0" using 3 that by linarith
    moreover have "k < 32" if "h = 13" using 3 s that by linarith
    ultimately show ?thesis using 3(3,5-11) by (auto simp: unat_uint_iff)
  next
    case (4 a b d e h j k l)
    then have "0 \<le> h" "h < 5" using r by linarith+
    then have "h = 0 \<or> h = 4 \<or> 1 \<le> h \<and> h < 4" by linarith
    moreover have "16 \<le> j" if "h = 0" using 4 that by linarith
    moreover have "j < 16" if "h = 4" using 4 r that by linarith
    ultimately show ?thesis using 4(2,4-13) by (auto simp: unat_uint_iff)
  qed
qed

lemma digits_unique:
  fixes h k l h' k' l' :: int
  assumes "0 \<le> l" "l < 64" "0 \<le> l'" "l' < 64"
  shows "64 * h + l = 64 * h' + l' \<Longrightarrow> h = h' \<and> l = l'"
    and "\<lbrakk> 4096 * h + 64 * k + l = 4096 * h' + 64 * k' + l'; 0 \<le> k; k < 64; 0 \<le> k'; k' < 64 \<rbrakk> \<Longrightarrow>
      h = h' \<and> k = k' \<and> l = l'"
    and "\<lbrakk> 262144 * h + 4096 * j + 64 * k + l = 262144 * h' + 4096 * j' + 64 * k' + l';
      0 \<le> k; k < 64; 0 \<le> k'; k' < 64; 0 \<le> j; j < 64; 0 \<le> j'; j' < 64 \<rbrakk> \<Longrightarrow>
      h = h' \<and> j = j' \<and> k = k' \<and> l = l'"
proof -
  have one: "g = g' \<and> m = m'" if "64 * g + m = 64 * g' + m'" "0 \<le> m" "m < 64" "0 \<le> m'" "m' < 64"
    for g m g' m' :: int
  proof
    from that show "g = g'" by linarith
    with that show "m = m'" by linarith
  qed
  then show "64 * h + l = 64 * h' + l' \<Longrightarrow> h = h' \<and> l = l'" using assms by blast
  have two: "h = h' \<and> k = k' \<and> l = l'"
    if "4096 * h + 64 * k + l = 4096 * h' + 64 * k' + l'" "0 \<le> k" "k < 64" "0 \<le> k'" "k' < 64" for h h' k k'
    using one [of "64 * h + k" l "64 * h' + k'" l'] one [of h k h' k'] assms that by simp
  then show "\<lbrakk> 4096 * h + 64 * k + l = 4096 * h' + 64 * k' + l'; 0 \<le> k; k < 64; 0 \<le> k'; k' < 64 \<rbrakk> \<Longrightarrow>
      h = h' \<and> k = k' \<and> l = l'" .
  show "\<lbrakk> 262144 * h + 4096 * j + 64 * k + l = 262144 * h' + 4096 * j' + 64 * k' + l';
      0 \<le> k; k < 64; 0 \<le> k'; k' < 64; 0 \<le> j; j < 64; 0 \<le> j'; j' < 64 \<rbrakk> \<Longrightarrow>
      h = h' \<and> j = j' \<and> k = k' \<and> l = l'"
    using two [of "64 * h + j" k "64 * h' + j'" k'] one [of h j h' j'] by simp
qed

lemma utf8_seq_decoded:
  assumes "utf8_seq bs" shows "\<exists>c. scalar c \<and> encoded c = bs"
  using assms
proof (cases bs rule: utf8_seq.cases)
  case (1 a)
  have c: "scalar (uint a)" "uint a < 0x80" using assms 1 by (auto simp: unat_uint_iff scalar_def)
  then have "0 \<le> uint a" "uint a \<le> 0x10ffff" by simp_all
  then have "encoded (uint a) = bs" using 1 c(2)
    by (cases rule: encoded_cases) (auto intro: word_uint_eqI)
  with c show ?thesis by blast
next
  case (2 a b)
  define c where "c = 64 * (uint a - 0xc0) + (uint b - 0x80)"
  have r: "0xc2 \<le> uint a" "uint a < 0xe0" "0x80 \<le> uint b" "uint b < 0xc0" using assms 2 by (auto simp: unat_uint_iff)
  then have c: "scalar c" "0x80 \<le> c" "c < 0x800" by (auto simp: scalar_def c_def)
  have "0 \<le> c" "c \<le> 0x10ffff" using c by simp_all
  then have "encoded c = bs"
  proof (cases rule: encoded_cases)
    case (2 a' b' h l)
    then have "h = uint a - 0xc0 \<and> l = uint b - 0x80"
      using digits_unique(1) [of l "uint b - 0x80" h "uint a - 0xc0"] r by (simp add: c_def)
    then have "a' = a" "b' = b" using 2 by (auto intro: word_uint_eqI)
    then show ?thesis using 2 \<open>bs = [a, b]\<close> by simp
  qed (use c in auto)
  with c show ?thesis by blast
next
  case (3 a b e)
  define c where "c = 4096 * (uint a - 0xe0) + 64 * (uint b - 0x80) + (uint e - 0x80)"
  have r: "0xe0 \<le> uint a" "uint a < 0xf0" "0x80 \<le> uint b" "uint b < 0xc0" "0x80 \<le> uint e" "uint e < 0xc0"
    and s: "uint a = 0xe0 \<Longrightarrow> 0xa0 \<le> uint b" "uint a = 0xed \<Longrightarrow> uint b < 0xa0"
    using assms 3 by (auto simp: unat_uint_iff)
  then have c: "0x800 \<le> c" "c < 0x10000" by (cases "uint a = 0xe0"; auto simp: c_def)+
  have "\<not> (0xd800 \<le> c \<and> c \<le> 0xdfff)"
  proof (rule notI, elim conjE)
    assume h: "0xd800 \<le> c" "c \<le> 0xdfff"
    have sum: "c + 925824 = 4096 * uint a + 64 * uint b + uint e" by (simp add: c_def)
    then have "uint a = 0xed" using r h by linarith
    with s(2) have "uint a = 0xed" "uint b < 0xa0" by simp_all
    with h r sum show False by linarith
  qed
  with c have sc: "scalar c" by (simp add: scalar_def)
  have "0 \<le> c" "c \<le> 0x10ffff" using c by simp_all
  then have "encoded c = bs"
  proof (cases rule: encoded_cases)
    case (3 a' b' e' h k l)
    then have "h = uint a - 0xe0 \<and> k = uint b - 0x80 \<and> l = uint e - 0x80"
      using digits_unique(2) [of l "uint e - 0x80" h k "uint a - 0xe0" "uint b - 0x80"] r by (simp add: c_def)
    then have "a' = a" "b' = b" "e' = e" using 3 by (auto intro: word_uint_eqI)
    then show ?thesis using 3 \<open>bs = [a, b, e]\<close> by simp
  qed (use c in auto)
  with sc show ?thesis by blast
next
  case (4 a b e f)
  define c where "c = 262144 * (uint a - 0xf0) + 4096 * (uint b - 0x80) + 64 * (uint e - 0x80) + (uint f - 0x80)"
  have r: "0xf0 \<le> uint a" "uint a < 0xf5" "0x80 \<le> uint b" "uint b < 0xc0" "0x80 \<le> uint e" "uint e < 0xc0"
      "0x80 \<le> uint f" "uint f < 0xc0"
    and s: "uint a = 0xf0 \<Longrightarrow> 0x90 \<le> uint b" "uint a = 0xf4 \<Longrightarrow> uint b < 0x90"
    using assms 4 by (auto simp: unat_uint_iff)
  then have c: "0x10000 \<le> c" "c \<le> 0x10ffff"
    by (cases "uint a = 0xf0"; cases "uint a = 0xf4"; auto simp: c_def)+
  then have sc: "scalar c" by (simp add: scalar_def)
  have "0 \<le> c" using c by simp
  then have "encoded c = bs" using c(2)
  proof (cases rule: encoded_cases)
    case (4 a' b' e' f' h j k l)
    then have "h = uint a - 0xf0 \<and> j = uint b - 0x80 \<and> k = uint e - 0x80 \<and> l = uint f - 0x80"
      using digits_unique(3) [of l "uint f - 0x80" h j k "uint a - 0xf0" "uint b - 0x80" "uint e - 0x80"] r
      by (simp add: c_def)
    then have "a' = a" "b' = b" "e' = e" "f' = f" using 4 by (auto intro: word_uint_eqI)
    then show ?thesis using 4 \<open>bs = [a, b, e, f]\<close> by simp
  qed (use c in auto)
  with sc show ?thesis by blast
qed auto

lemma encoded_iff: "utf8_seq bs \<longleftrightarrow> (\<exists>c. scalar c \<and> bs = encoded c)"
  using utf8_seq_encoded utf8_seq_decoded by blast

lemma utf8_seqs_encoded:
  "(\<exists>ss. (\<forall>s\<in>set ss. utf8_seq s) \<and> bs = concat ss) \<longleftrightarrow> (\<exists>cs. (\<forall>c\<in>set cs. scalar c) \<and> bs = concat (map encoded cs))"
proof
  assume "\<exists>ss. (\<forall>s\<in>set ss. utf8_seq s) \<and> bs = concat ss"
  then obtain ss where ss: "\<forall>s\<in>set ss. \<exists>c. scalar c \<and> s = encoded c" "bs = concat ss"
    by (auto simp: encoded_iff)
  then have "\<exists>cs. (\<forall>c\<in>set cs. scalar c) \<and> ss = map encoded cs"
  proof (induction ss arbitrary: bs)
    case (Cons s ss)
    then obtain c cs where "scalar c" "s = encoded c" "\<forall>c\<in>set cs. scalar c" "ss = map encoded cs" by auto
    then show ?case by (intro exI [of _ "c # cs"]) auto
  qed simp
  then show "\<exists>cs. (\<forall>c\<in>set cs. scalar c) \<and> bs = concat (map encoded cs)" using ss(2) by blast
next
  assume "\<exists>cs. (\<forall>c\<in>set cs. scalar c) \<and> bs = concat (map encoded cs)"
  then obtain cs where "\<forall>c\<in>set cs. scalar c" "bs = concat (map encoded cs)" by blast
  then show "\<exists>ss. (\<forall>s\<in>set ss. utf8_seq s) \<and> bs = concat ss"
    by (intro exI [of _ "map encoded cs"]) (auto simp: utf8_seq_encoded)
qed

section \<open>The properties\<close>

text \<open>The bytes \<open>_pcre_ord2utf8\<close> produces for a value, in a buffer of six bytes.\<close>

definition utf8_bytes :: "int \<Rightarrow> byte list" where
  "utf8_bytes c = (case ord2utf8 c [0, 0, 0, 0, 0, 0] of Some (n, mem) \<Rightarrow> take n mem | None \<Rightarrow> [])"

lemma utf8_bytes_encoded: "c < 2 ^ 31 \<Longrightarrow> utf8_bytes c = encoded c"
  using ord2utf8_encoded [of c "[0, 0, 0, 0, 0, 0]"]
  by (simp add: utf8_bytes_def encoded_def size_of_def)

lemma scalar_text: "(\<forall>c\<in>set cs. scalar c) \<Longrightarrow> map utf8_bytes cs = map encoded cs"
  by (auto simp: scalar_def utf8_bytes_encoded)

text \<open>
  C21. \<open>_pcre_ord2utf8\<close> and the decoding macros are inverse on the whole range the encoder is
  specified for, 0 to \<open>0x7fffffff\<close>: in any buffer of at least six bytes the encoder stores
  \<open>n\<close> bytes, leaves the rest of the buffer as it was, and both \<open>GETCHAR\<close> and \<open>GETCHARINC\<close>
  read the value back, the latter advancing by exactly the \<open>n\<close> bytes.
\<close>

theorem utf8_roundtrip:
  assumes "0 \<le> c" "c \<le> 0x7fffffff" "6 \<le> length mem"
  shows "\<exists>n bs. ord2utf8 c mem = Some (n, bs @ drop n mem) \<and> length bs = n \<and>
    GETCHAR (bs @ rest) = Some c \<and> GETCHARINC (bs @ rest) = Some (c, rest)"
proof -
  have "length (encoded c) \<le> length mem" using assms(3) by (simp add: encoded_def size_of_def)
  then have "ord2utf8 c mem = Some (length (encoded c), encoded c @ drop (length (encoded c)) mem)"
    using ord2utf8_encoded assms(2) by simp
  moreover have "GETCHARINC (encoded c @ rest) = Some (c, rest)"
    using GETCHARINC_encoded assms(1,2) by simp
  ultimately show ?thesis by (auto simp: GETCHAR_inc)
qed

theorem utf8_roundtrip_witness:
  "\<exists>n bs. ord2utf8 0x20ac [0, 0, 0, 0, 0, 0] = Some (n, bs @ drop n [0, 0, 0, 0, 0, 0]) \<and> length bs = n \<and>
    GETCHAR (bs @ [0x41]) = Some 0x20ac \<and> GETCHARINC (bs @ [0x41]) = Some (0x20ac, [0x41])"
  using utf8_roundtrip [of "0x20ac" "[0, 0, 0, 0, 0, 0]" "[0x41]"] by simp

text \<open>
  C15. \<open>_pcre_valid_utf8\<close> accepts the first \<open>m\<close> bytes of a string exactly when they are the
  encodings, as \<open>_pcre_ord2utf8\<close> writes them, of a sequence of Unicode scalar values: values
  up to \<open>0x10ffff\<close> that are not surrogates. No overlong form, surrogate, five-byte form or
  truncated character is accepted, and nothing well formed is refused.
\<close>

theorem valid_utf8_iff:
  assumes "m \<le> length str"
  shows "valid_utf8 str (int m) = Some (- 1) \<longleftrightarrow>
    (\<exists>cs. (\<forall>c\<in>set cs. scalar c) \<and> take m str = concat (map utf8_bytes cs))"
proof -
  have "valid_utf8 str (int m) = Some (- 1) \<longleftrightarrow>
      (\<exists>cs. (\<forall>c\<in>set cs. scalar c) \<and> take m str = concat (map encoded cs))"
    using valid_scan_iff [of 0 m str] assms by (simp add: valid_utf8_def utf8_seqs_encoded)
  then show ?thesis by (metis scalar_text)
qed

theorem valid_utf8_iff_witness:
  "\<exists>cs. (\<forall>c\<in>set cs. scalar c) \<and> take 4 [0xe2, 0x82, 0xac, 0x41, 0xff] = concat (map utf8_bytes cs)"
proof -
  have "valid_utf8 [0xe2, 0x82, 0xac, 0x41, 0xff] (int 4) = Some (- 1)" by code_simp
  then show ?thesis using valid_utf8_iff [of 4 "[0xe2, 0x82, 0xac, 0x41, 0xff]"] by simp
qed

text \<open>
  C22. When \<open>_pcre_valid_utf8\<close> refuses a string, the offset it returns points into the string,
  into the first character that is not well formed: the bytes before that character, at
  offset \<open>j\<close>, are valid UTF-8, no well-formed character starts at \<open>j\<close>, and the offset is at
  most three bytes further. In every case the check reads no byte outside the given length.
\<close>

theorem valid_utf8_offset:
  assumes "m \<le> length str"
  shows "valid_utf8 str (int m) = Some (- 1) \<or>
    (\<exists>k j cs. valid_utf8 str (int m) = Some (int k) \<and> j \<le> k \<and> k \<le> j + 3 \<and> k < m \<and>
      (\<forall>c\<in>set cs. scalar c) \<and> take j str = concat (map utf8_bytes cs) \<and>
      \<not> (\<exists>c rest. scalar c \<and> take (m - j) (drop j str) = utf8_bytes c @ rest))"
proof -
  from assms have "0 + m \<le> length str" by simp
  from valid_scan_offset [OF this] show ?thesis
  proof (elim disjE exE conjE)
    fix k j ss
    assume r: "valid_scan str 0 (int m) = Some (int k)" "j \<le> k" "k \<le> j + 3" "k < 0 + m"
      and ss: "\<forall>s\<in>set ss. utf8_seq s" "take (j - 0) (drop 0 str) = concat ss"
      and no: "\<not> (\<exists>i. j + i \<le> 0 + m \<and> utf8_seq (take i (drop j str)))"
    obtain cs where cs: "\<forall>c\<in>set cs. scalar c" "take j str = concat (map encoded cs)"
      using ss utf8_seqs_encoded [of "take j str"] by auto
    have "\<not> (\<exists>c rest. scalar c \<and> take (m - j) (drop j str) = utf8_bytes c @ rest)"
    proof (safe)
      fix c rest
      assume c: "scalar c" "take (m - j) (drop j str) = utf8_bytes c @ rest"
      let ?i = "length (utf8_bytes c)"
      have "?i \<le> m - j" using arg_cong [OF c(2), of length] by simp
      moreover have "take ?i (drop j str) = utf8_bytes c"
        using arg_cong [OF c(2), of "take ?i"] \<open>?i \<le> m - j\<close> by (simp add: min_absorb1)
      moreover have "utf8_seq (utf8_bytes c)"
        using c(1) utf8_seq_encoded scalar_text [of "[c]"] by simp
      moreover have "j + ?i \<le> m" using calculation(1) r by linarith
      ultimately show False using no by auto
    qed
    moreover have "take j str = concat (map utf8_bytes cs)" unfolding scalar_text [OF cs(1)] by (rule cs(2))
    moreover have "valid_utf8 str (int m) = Some (int k)" using r by (simp add: valid_utf8_def)
    moreover have "k < m" using r by simp
    ultimately show ?thesis using r(2,3) cs(1) by blast
  qed (simp_all add: valid_utf8_def)
qed

theorem valid_utf8_offset_witness:
  "valid_utf8 [0x41, 0xed, 0xa0, 0x80] 4 = Some 2 \<and>
   (\<exists>j cs. j \<le> 2 \<and> (\<forall>c\<in>set cs. scalar c) \<and> take j [0x41, 0xed, 0xa0, 0x80] = concat (map utf8_bytes cs))"
proof -
  have "valid_utf8 [0x41, 0xed, 0xa0, 0x80] (int 4) = Some 2" by code_simp
  then show ?thesis using valid_utf8_offset [of 4 "[0x41, 0xed, 0xa0, 0x80]"] by simp blast
qed

lemma zero_terminated_append: "0 \<notin> set s \<Longrightarrow> zero_terminated (s @ 0 # t) = Some (length s)"
  by (induction s) auto

lemma valid_utf8_terminated: "0 \<notin> set s \<Longrightarrow> valid_utf8 (s @ 0 # t) (- 1) = valid_utf8 (s @ 0 # t) (int (length s))"
  by (simp add: valid_utf8_def zero_terminated_append)

end
