(* ===== verification/Newline.thy ===== *)
theory Newline
  imports Utf8
begin

text \<open>
  Newlines of more than one kind, \<^verbatim>\<open>src/AOS/aos/pcre/pcre_newline.c\<close>. A pointer into the
  subject is an index. The result \<open>Some (Some n)\<close> is TRUE with \<open>*lenptr = n\<close>, \<open>Some None\<close> is
  FALSE, and \<open>None\<close> is a read outside the subject.
\<close>

datatype nltype = NLTYPE_FIXED | NLTYPE_ANY | NLTYPE_ANYCRLF

text \<open>\<open>BACKCHAR\<close>: back to the first byte of the character.\<close>

fun BACKCHAR :: "byte list \<Rightarrow> nat \<Rightarrow> nat option" where
  "BACKCHAR str 0 = do { b \<leftarrow> peek str 0; if b AND 0xc0 = 0x80 then None else Some 0 }"
| "BACKCHAR str (Suc p) = do {
    b \<leftarrow> peek str (Suc p);
    if b AND 0xc0 = 0x80 then BACKCHAR str p else Some (Suc p) }"

definition is_newline :: "byte list \<Rightarrow> nat \<Rightarrow> nltype \<Rightarrow> nat \<Rightarrow> bool \<Rightarrow> nat option option" where
  "is_newline str ptr type endptr utf8 = do {
    c \<leftarrow> (if utf8 then GETCHAR (drop ptr str) else map_option uint (peek str ptr));
    if type = NLTYPE_ANYCRLF then
      (if c = 0x0a then Some (Some 1)
       else if c = 0x0d then
         if ptr + 1 < endptr then do {
           b \<leftarrow> peek str (ptr + 1);
           Some (Some (if b = 0x0a then 2 else 1)) }
         else Some (Some 1)
       else Some None)
    else
      (if c = 0x0a \<or> c = 0x0b \<or> c = 0x0c then Some (Some 1)
       else if c = 0x0d then
         if ptr + 1 < endptr then do {
           b \<leftarrow> peek str (ptr + 1);
           Some (Some (if b = 0x0a then 2 else 1)) }
         else Some (Some 1)
       else if c = 0x85 then Some (Some (if utf8 then 2 else 1))
       else if c = 0x2028 \<or> c = 0x2029 then Some (Some 3)
       else Some None) }"

text \<open>The caller guarantees that \<open>ptr\<close> is greater than the start of the subject.\<close>

definition was_newline :: "byte list \<Rightarrow> nat \<Rightarrow> nltype \<Rightarrow> nat \<Rightarrow> bool \<Rightarrow> nat option option" where
  "was_newline str ptr type startptr utf8 = (
    if ptr = 0 then None else do {
    ptr \<leftarrow> (if utf8 then BACKCHAR str (ptr - 1) else Some (ptr - 1));
    c \<leftarrow> (if utf8 then GETCHAR (drop ptr str) else map_option uint (peek str ptr));
    let lf = (if startptr < ptr then do {
                b \<leftarrow> peek str (ptr - 1);
                Some (Some (if b = 0x0d then 2 else 1)) }
              else Some (Some 1));
    if type = NLTYPE_ANYCRLF then
      (if c = 0x0a then lf
       else if c = 0x0d then Some (Some 1)
       else Some None)
    else
      (if c = 0x0a then lf
       else if c = 0x0b \<or> c = 0x0c \<or> c = 0x0d then Some (Some 1)
       else if c = 0x85 then Some (Some (if utf8 then 2 else 1))
       else if c = 0x2028 \<or> c = 0x2029 then Some (Some 3)
       else Some None) })"

text \<open>A character below 128 is read as it is and ends the way back at once.\<close>

lemma GETCHAR_ascii: "p < length str \<Longrightarrow> uint (str ! p) < 0x80 \<Longrightarrow> GETCHAR (drop p str) = Some (uint (str ! p))"
  by (simp add: GETCHAR_def)

lemma BACKCHAR_lead:
  "p < length str \<Longrightarrow> \<not> (0x80 \<le> uint (str ! p) \<and> uint (str ! p) < 0xc0) \<Longrightarrow> BACKCHAR str p = Some p"
  by (cases p) (auto simp: and_c0_iff unat_uint_iff)

lemma BACKCHAR_tail:
  "Suc p < length str \<Longrightarrow> 0x80 \<le> uint (str ! Suc p) \<Longrightarrow> uint (str ! Suc p) < 0xc0 \<Longrightarrow>
   BACKCHAR str (Suc p) = BACKCHAR str p"
  by (simp add: and_c0_iff unat_uint_iff)

lemma newline_code_values: "encoded 0x85 = [0xc2, 0x85]" "encoded 0x2028 = [0xe2, 0x80, 0xa8]"
  "encoded 0x2029 = [0xe2, 0x80, 0xa9]"
  by code_simp+

text \<open>The bytes under a character of the subject.\<close>

lemma text_at:
  assumes "0 \<le> c" "c < 2 ^ 31" "drop p str = encoded c @ rest"
  shows "GETCHAR (drop p str) = Some c"
    and "\<And>i. i < length (encoded c) \<Longrightarrow> p + i < length str \<and> str ! (p + i) = encoded c ! i"
proof -
  show "GETCHAR (drop p str) = Some c" using assms by (simp add: GETCHAR_inc GETCHARINC_encoded)
  fix i assume i: "i < length (encoded c)"
  have "length (encoded c) \<le> length str - p" using arg_cong [OF assms(3), of length] by simp
  moreover have "drop p str ! i = encoded c ! i" using i assms(3) by (simp add: nth_append)
  ultimately show "p + i < length str \<and> str ! (p + i) = encoded c ! i" using i by simp
qed

lemma back_over:
  assumes "0 \<le> c" "c < 2 ^ 31" "drop p str = encoded c @ rest" "c = 0x85 \<or> c = 0x2028 \<or> c = 0x2029"
  shows "BACKCHAR str (p + length (encoded c) - 1) = Some p"
proof -
  note b = text_at(2) [OF assms(1-3)]
  show ?thesis using assms(4)
  proof (elim disjE)
    assume "c = 0x85"
    then show ?thesis using b [of 0] b [of 1] by (simp add: newline_code_values BACKCHAR_lead BACKCHAR_tail del: BACKCHAR.simps)
  next
    assume "c = 0x2028"
    then show ?thesis using b [of 0] b [of "Suc 0"] b [of "Suc (Suc 0)"]
        BACKCHAR_tail [of p str] BACKCHAR_tail [of "Suc p" str] BACKCHAR_lead [of p str]
      by (simp add: newline_code_values del: BACKCHAR.simps)
  next
    assume "c = 0x2029"
    then show ?thesis using b [of 0] b [of "Suc 0"] b [of "Suc (Suc 0)"]
        BACKCHAR_tail [of p str] BACKCHAR_tail [of "Suc p" str] BACKCHAR_lead [of p str]
      by (simp add: newline_code_values del: BACKCHAR.simps)
  qed
qed

lemma was_newline_ascii:
  assumes "q < length str"
    and "str ! q \<in> {0x0a, 0x0d} \<or> str ! q \<in> {0x0b, 0x0c} \<and> type \<noteq> NLTYPE_ANYCRLF"
  shows "was_newline str (Suc q) type start utf8 =
    Some (Some (if str ! q = 0x0a \<and> start < q \<and> str ! (q - 1) = 0x0d then 2 else 1))"
proof -
  have small: "uint (str ! q) < 0x80" using assms(2) by auto
  have "BACKCHAR str q = Some q" using BACKCHAR_lead [of q str] assms(1) small by simp
  moreover have "GETCHAR (drop q str) = Some (uint (str ! q))" by (rule GETCHAR_ascii [OF assms(1) small])
  moreover have "peek str q = Some (str ! q)" "peek str (q - 1) = Some (str ! (q - 1))" using assms(1) by simp_all
  ultimately have "was_newline str (Suc q) type start utf8 =
     (let lf = Some (Some (if start < q \<and> str ! (q - 1) = 0x0d then 2 else 1)) in
      if uint (str ! q) = 0x0a then lf
      else if type = NLTYPE_ANYCRLF then if uint (str ! q) = 0x0d then Some (Some 1) else Some None
      else if uint (str ! q) \<in> {0x0b, 0x0c, 0x0d} then Some (Some 1) else Some None)" (is "_ = ?r")
    using small by (simp add: was_newline_def Let_def del: BACKCHAR.simps)
  moreover consider "str ! q = 0x0a" | "str ! q = 0x0d" | "str ! q = 0x0b" "type \<noteq> NLTYPE_ANYCRLF"
    | "str ! q = 0x0c" "type \<noteq> NLTYPE_ANYCRLF" using assms(2) by blast
  then have "?r = Some (Some (if str ! q = 0x0a \<and> start < q \<and> str ! (q - 1) = 0x0d then 2 else 1))"
    by cases (simp_all add: Let_def)
  ultimately show ?thesis by simp
qed

lemma character_at:
  assumes "p < length str" "utf8 \<Longrightarrow> \<exists>c rest. scalar c \<and> drop p str = utf8_bytes c @ rest"
    and "(if utf8 then GETCHAR (drop p str) else map_option uint (peek str p)) = Some c"
  shows "c < 0x80 \<Longrightarrow> str ! p = word_of_int c"
    and "utf8 \<Longrightarrow> scalar c \<and> (\<exists>rest. drop p str = encoded c @ rest)"
proof -
  show enc: "scalar c \<and> (\<exists>rest. drop p str = encoded c @ rest)" if u: utf8
  proof -
    obtain c' rest where c': "scalar c'" "drop p str = utf8_bytes c' @ rest" using assms(2) u by blast
    then have "drop p str = encoded c' @ rest" using utf8_bytes_encoded [of c'] by (simp add: scalar_def)
    moreover from this have "c' = c"
      using assms(3) u c'(1) text_at(1) [of c' p str rest] by (simp add: scalar_def)
    ultimately show ?thesis using c'(1) by blast
  qed
  show "str ! p = word_of_int c" if "c < 0x80"
  proof (cases utf8)
    case True
    then obtain rest where c: "scalar c" "drop p str = encoded c @ rest" using enc by blast
    then have "str ! p = first_byte c"
      using text_at(2) [of c p str rest 0] by (simp add: scalar_def encoded_def)
    then show ?thesis using that by (simp add: first_byte_def size_of_def utf8_table2_def)
  next
    case False
    then show ?thesis using assms(1,3) by auto
  qed
qed

text \<open>
  The two tests agree. If \<open>_pcre_is_newline\<close> finds a newline of length \<open>n\<close> at \<open>p\<close>, then
  \<open>_pcre_was_newline\<close> just after it finds a newline of the same length, for either newline
  type, in byte mode and, where a well-formed character starts at \<open>p\<close>, in UTF-8 mode. The one
  exception is the intended one: tested on a line feed whose predecessor is a carriage return,
  the backward test finds the two-byte sequence.
\<close>

theorem newline_there_and_back:
  assumes "start \<le> p" "p < e" "e \<le> length str"
    and "is_newline str p type e utf8 = Some (Some n)"
    and "utf8 \<Longrightarrow> \<exists>c rest. scalar c \<and> drop p str = utf8_bytes c @ rest"
  shows "was_newline str (p + n) type start utf8 =
    Some (Some (if str ! p = 0x0a \<and> start < p \<and> str ! (p - 1) = 0x0d then 2 else n))"
proof -
  have p: "p < length str" using assms(2,3) by simp
  obtain c where c: "(if utf8 then GETCHAR (drop p str) else map_option uint (peek str p)) = Some c"
    using assms(4) unfolding is_newline_def by (auto split: Option.bind_splits)
  note at = character_at [OF p assms(5) c]
  have result: "c \<in> {0x0a, 0x0d} \<or> c \<in> {0x0b, 0x0c} \<and> type \<noteq> NLTYPE_ANYCRLF \<or>
      c \<in> {0x85, 0x2028, 0x2029} \<and> type \<noteq> NLTYPE_ANYCRLF \<and> n = (if c = 0x85 then if utf8 then 2 else 1 else 3)"
    and len: "c \<in> {0x0a, 0x0b, 0x0c} \<Longrightarrow> n = 1"
    and cr: "c = 0x0d \<Longrightarrow> n = 1 \<or> n = 2 \<and> p + 1 < e \<and> str ! (p + 1) = 0x0a"
    using assms(3,4) unfolding is_newline_def c by (auto split: if_splits)
  show ?thesis
  proof (cases "c < 0x80")
    case True
    have b: "str ! p = word_of_int c" by (rule at(1) [OF _ True])
    show ?thesis
    proof (cases "n = 2 \<and> c = 0x0d")
      case True
      then have "str ! p = 0x0d" "str ! Suc p = 0x0a" "Suc p < length str" using b cr assms(3) by auto
      then show ?thesis using True was_newline_ascii [of "Suc p" str type start utf8] assms(1) by simp
    next
      case False
      then have "n = 1" using result len cr \<open>c < 0x80\<close> by auto
      then show ?thesis using result \<open>c < 0x80\<close> b p was_newline_ascii [of p str type start utf8] by auto
    qed
  next
    case False
    then have big: "c = 0x85 \<or> c = 0x2028 \<or> c = 0x2029" "type \<noteq> NLTYPE_ANYCRLF"
      and n: "n = (if c = 0x85 then if utf8 then 2 else 1 else 3)" using result by auto
    show ?thesis
    proof (cases utf8)
      case True
      then obtain rest where r: "drop p str = encoded c @ rest" "scalar c" using at(2) by blast
      have ne: "str ! p \<noteq> 0x0a"
        using text_at(2) [of c p str rest 0] r big by (auto simp: newline_code_values scalar_def)
      have "BACKCHAR str (p + n - 1) = Some p"
        using back_over [OF _ _ r(1) big(1)] r(2) n True big(1) by (auto simp: newline_code_values scalar_def)
      then show ?thesis using True big c n ne by (auto simp: was_newline_def)
    next
      case False
      then have u: "uint (str ! p) = c" using c p by simp
      then have "c = 0x85" using big uint_lt2p [of "str ! p"] by auto
      then show ?thesis using u False n p big(2) by (auto simp: was_newline_def)
    qed
  qed
qed

theorem newline_there_and_back_witness:
  "was_newline [0x61, 0xe2, 0x80, 0xa9, 0x62] (1 + 3) NLTYPE_ANY 0 True = Some (Some 3)"
proof -
  have "is_newline [0x61, 0xe2, 0x80, 0xa9, 0x62] 1 NLTYPE_ANY 5 True = Some (Some 3)"
    and "utf8_bytes 0x2029 = [0xe2, 0x80, 0xa9]" "scalar 0x2029"
    by code_simp+
  then show ?thesis
    using newline_there_and_back [of 0 1 5 "[0x61, 0xe2, 0x80, 0xa9, 0x62]" NLTYPE_ANY True 3]
    by (fastforce intro!: exI [of _ "0x2029"])
qed

end
