(* ===== verification/Char_Tables.thy ===== *)
theory Char_Tables
  imports C_Prelude
begin

text \<open>
  The character tables of the regular-expression library: \<open>pcre_maketables\<close> of
  \<^verbatim>\<open>src/AOS/aos/pcre/pcre_maketables.c\<close> and the built-in tables of
  \<^verbatim>\<open>pcre_chartables.c\<close>. The \<open>ctype.h\<close> functions depend on the locale; the builder takes
  them as a record, and \<open>c_locale\<close> is the record of the C locale.
\<close>

section \<open>The classification functions\<close>

record ctype_functions =
  tolower :: "nat \<Rightarrow> nat"
  toupper :: "nat \<Rightarrow> nat"
  isdigit :: "nat \<Rightarrow> bool"
  isupper :: "nat \<Rightarrow> bool"
  islower :: "nat \<Rightarrow> bool"
  isalpha :: "nat \<Rightarrow> bool"
  isalnum :: "nat \<Rightarrow> bool"
  isspace :: "nat \<Rightarrow> bool"
  isxdigit :: "nat \<Rightarrow> bool"
  isgraph :: "nat \<Rightarrow> bool"
  isprint :: "nat \<Rightarrow> bool"
  ispunct :: "nat \<Rightarrow> bool"
  iscntrl :: "nat \<Rightarrow> bool"

definition c_locale :: ctype_functions where
  "c_locale = \<lparr>
    tolower = (\<lambda>c. if 65 \<le> c \<and> c \<le> 90 then c + 32 else c),
    toupper = (\<lambda>c. if 97 \<le> c \<and> c \<le> 122 then c - 32 else c),
    isdigit = (\<lambda>c. 48 \<le> c \<and> c \<le> 57),
    isupper = (\<lambda>c. 65 \<le> c \<and> c \<le> 90),
    islower = (\<lambda>c. 97 \<le> c \<and> c \<le> 122),
    isalpha = (\<lambda>c. 65 \<le> c \<and> c \<le> 90 \<or> 97 \<le> c \<and> c \<le> 122),
    isalnum = (\<lambda>c. 48 \<le> c \<and> c \<le> 57 \<or> 65 \<le> c \<and> c \<le> 90 \<or> 97 \<le> c \<and> c \<le> 122),
    isspace = (\<lambda>c. c = 32 \<or> 9 \<le> c \<and> c \<le> 13),
    isxdigit = (\<lambda>c. 48 \<le> c \<and> c \<le> 57 \<or> 65 \<le> c \<and> c \<le> 70 \<or> 97 \<le> c \<and> c \<le> 102),
    isgraph = (\<lambda>c. 33 \<le> c \<and> c \<le> 126),
    isprint = (\<lambda>c. 32 \<le> c \<and> c \<le> 126),
    ispunct = (\<lambda>c. 33 \<le> c \<and> c \<le> 47 \<or> 58 \<le> c \<and> c \<le> 64 \<or> 91 \<le> c \<and> c \<le> 96 \<or> 123 \<le> c \<and> c \<le> 126),
    iscntrl = (\<lambda>c. c \<le> 31 \<or> c = 127) \<rparr>"

section \<open>Layout of the tables\<close>

definition cbit_space :: nat where "cbit_space = 0"
definition cbit_xdigit :: nat where "cbit_xdigit = 32"
definition cbit_digit :: nat where "cbit_digit = 64"
definition cbit_upper :: nat where "cbit_upper = 96"
definition cbit_lower :: nat where "cbit_lower = 128"
definition cbit_word :: nat where "cbit_word = 160"
definition cbit_graph :: nat where "cbit_graph = 192"
definition cbit_print :: nat where "cbit_print = 224"
definition cbit_punct :: nat where "cbit_punct = 256"
definition cbit_cntrl :: nat where "cbit_cntrl = 288"
definition cbit_length :: nat where "cbit_length = 320"

definition lcc_offset :: nat where "lcc_offset = 0"
definition fcc_offset :: nat where "fcc_offset = 256"
definition cbits_offset :: nat where "cbits_offset = 512"
definition ctypes_offset :: nat where "ctypes_offset = cbits_offset + cbit_length"

definition ctype_space :: nat where "ctype_space = 0x01"
definition ctype_letter :: nat where "ctype_letter = 0x02"
definition ctype_digit :: nat where "ctype_digit = 0x04"
definition ctype_xdigit :: nat where "ctype_xdigit = 0x08"
definition ctype_word :: nat where "ctype_word = 0x10"
definition ctype_meta :: nat where "ctype_meta = 0x80"

lemmas cbit_offsets = cbit_space_def cbit_xdigit_def cbit_digit_def cbit_upper_def cbit_lower_def
  cbit_word_def cbit_graph_def cbit_print_def cbit_punct_def cbit_cntrl_def cbit_length_def

lemmas ctype_values = ctype_space_def ctype_letter_def ctype_digit_def ctype_xdigit_def
  ctype_word_def ctype_meta_def

section \<open>The builder\<close>

text \<open>\<open>if (isX(i)) p[off + i/8] |= 1 << (i&7);\<close>\<close>

definition set_class :: "bool \<Rightarrow> nat \<Rightarrow> nat \<Rightarrow> byte list \<Rightarrow> byte list" where
  "set_class b off i p =
    (if b then p[off + i div 8 := p ! (off + i div 8) OR push_bit (i mod 8) 1] else p)"

definition class_step :: "ctype_functions \<Rightarrow> nat \<Rightarrow> byte list \<Rightarrow> byte list" where
  "class_step ct i p =
    (let p = set_class (isdigit ct i) cbit_digit i p;
         p = set_class (isupper ct i) cbit_upper i p;
         p = set_class (islower ct i) cbit_lower i p;
         p = set_class (isalnum ct i) cbit_word i p;
         p = set_class (i = 95) cbit_word i p;
         p = set_class (isspace ct i) cbit_space i p;
         p = set_class (isxdigit ct i) cbit_xdigit i p;
         p = set_class (isgraph ct i) cbit_graph i p;
         p = set_class (isprint ct i) cbit_print i p;
         p = set_class (ispunct ct i) cbit_punct i p
     in set_class (iscntrl ct i) cbit_cntrl i p)"

text \<open>The characters of the string given to \<open>strchr\<close>, and its terminating zero.\<close>

definition meta_chars :: "nat list" where
  "meta_chars = [92, 42, 43, 63, 123, 94, 46, 36, 124, 40, 41, 91, 0]"

definition ctype_entry :: "ctype_functions \<Rightarrow> nat \<Rightarrow> nat" where
  "ctype_entry ct i =
    (let x = 0;
         x = (if i \<noteq> 0x0b \<and> isspace ct i then x + ctype_space else x);
         x = (if isalpha ct i then x + ctype_letter else x);
         x = (if isdigit ct i then x + ctype_digit else x);
         x = (if isxdigit ct i then x + ctype_xdigit else x);
         x = (if isalnum ct i \<or> i = 95 then x + ctype_word else x)
     in if i \<in> set meta_chars then x + ctype_meta else x)"

text \<open>The first argument says whether \<open>pcre_malloc\<close> gave the block.\<close>

definition maketables :: "bool \<Rightarrow> ctype_functions \<Rightarrow> byte list option" where
  "maketables allocated ct =
    (if \<not> allocated then None
     else Some (
       map (\<lambda>i. word_of_nat (tolower ct i)) [0..<256] @
       map (\<lambda>i. word_of_nat (if islower ct i then toupper ct i else tolower ct i)) [0..<256] @
       fold (class_step ct) [0..<256] (replicate cbit_length 0) @
       map (\<lambda>i. word_of_nat (ctype_entry ct i)) [0..<256]))"

section \<open>The built-in tables\<close>

definition default_lcc :: "byte list" where
  "default_lcc = [
    0, 1, 2, 3, 4, 5, 6, 7, 8, 9, 10, 11, 12, 13, 14, 15,
    16, 17, 18, 19, 20, 21, 22, 23, 24, 25, 26, 27, 28, 29, 30, 31,
    32, 33, 34, 35, 36, 37, 38, 39, 40, 41, 42, 43, 44, 45, 46, 47,
    48, 49, 50, 51, 52, 53, 54, 55, 56, 57, 58, 59, 60, 61, 62, 63,
    64, 97, 98, 99, 100, 101, 102, 103, 104, 105, 106, 107, 108, 109, 110, 111,
    112, 113, 114, 115, 116, 117, 118, 119, 120, 121, 122, 91, 92, 93, 94, 95,
    96, 97, 98, 99, 100, 101, 102, 103, 104, 105, 106, 107, 108, 109, 110, 111,
    112, 113, 114, 115, 116, 117, 118, 119, 120, 121, 122, 123, 124, 125, 126, 127,
    128, 129, 130, 131, 132, 133, 134, 135, 136, 137, 138, 139, 140, 141, 142, 143,
    144, 145, 146, 147, 148, 149, 150, 151, 152, 153, 154, 155, 156, 157, 158, 159,
    160, 161, 162, 163, 164, 165, 166, 167, 168, 169, 170, 171, 172, 173, 174, 175,
    176, 177, 178, 179, 180, 181, 182, 183, 184, 185, 186, 187, 188, 189, 190, 191,
    192, 193, 194, 195, 196, 197, 198, 199, 200, 201, 202, 203, 204, 205, 206, 207,
    208, 209, 210, 211, 212, 213, 214, 215, 216, 217, 218, 219, 220, 221, 222, 223,
    224, 225, 226, 227, 228, 229, 230, 231, 232, 233, 234, 235, 236, 237, 238, 239,
    240, 241, 242, 243, 244, 245, 246, 247, 248, 249, 250, 251, 252, 253, 254, 255]"

definition default_fcc :: "byte list" where
  "default_fcc = [
    0, 1, 2, 3, 4, 5, 6, 7, 8, 9, 10, 11, 12, 13, 14, 15,
    16, 17, 18, 19, 20, 21, 22, 23, 24, 25, 26, 27, 28, 29, 30, 31,
    32, 33, 34, 35, 36, 37, 38, 39, 40, 41, 42, 43, 44, 45, 46, 47,
    48, 49, 50, 51, 52, 53, 54, 55, 56, 57, 58, 59, 60, 61, 62, 63,
    64, 97, 98, 99, 100, 101, 102, 103, 104, 105, 106, 107, 108, 109, 110, 111,
    112, 113, 114, 115, 116, 117, 118, 119, 120, 121, 122, 91, 92, 93, 94, 95,
    96, 65, 66, 67, 68, 69, 70, 71, 72, 73, 74, 75, 76, 77, 78, 79,
    80, 81, 82, 83, 84, 85, 86, 87, 88, 89, 90, 123, 124, 125, 126, 127,
    128, 129, 130, 131, 132, 133, 134, 135, 136, 137, 138, 139, 140, 141, 142, 143,
    144, 145, 146, 147, 148, 149, 150, 151, 152, 153, 154, 155, 156, 157, 158, 159,
    160, 161, 162, 163, 164, 165, 166, 167, 168, 169, 170, 171, 172, 173, 174, 175,
    176, 177, 178, 179, 180, 181, 182, 183, 184, 185, 186, 187, 188, 189, 190, 191,
    192, 193, 194, 195, 196, 197, 198, 199, 200, 201, 202, 203, 204, 205, 206, 207,
    208, 209, 210, 211, 212, 213, 214, 215, 216, 217, 218, 219, 220, 221, 222, 223,
    224, 225, 226, 227, 228, 229, 230, 231, 232, 233, 234, 235, 236, 237, 238, 239,
    240, 241, 242, 243, 244, 245, 246, 247, 248, 249, 250, 251, 252, 253, 254, 255]"

definition default_cbits :: "byte list" where
  "default_cbits = [
    0, 0x3e, 0, 0, 0x01, 0, 0, 0, 0, 0, 0, 0, 0, 0, 0, 0,
    0, 0, 0, 0, 0, 0, 0, 0, 0, 0, 0, 0, 0, 0, 0, 0,
    0, 0, 0, 0, 0, 0, 0xff, 0x03, 0x7e, 0, 0, 0, 0x7e, 0, 0, 0,
    0, 0, 0, 0, 0, 0, 0, 0, 0, 0, 0, 0, 0, 0, 0, 0,
    0, 0, 0, 0, 0, 0, 0xff, 0x03, 0, 0, 0, 0, 0, 0, 0, 0,
    0, 0, 0, 0, 0, 0, 0, 0, 0, 0, 0, 0, 0, 0, 0, 0,
    0, 0, 0, 0, 0, 0, 0, 0, 0xfe, 0xff, 0xff, 0x07, 0, 0, 0, 0,
    0, 0, 0, 0, 0, 0, 0, 0, 0, 0, 0, 0, 0, 0, 0, 0,
    0, 0, 0, 0, 0, 0, 0, 0, 0, 0, 0, 0, 0xfe, 0xff, 0xff, 0x07,
    0, 0, 0, 0, 0, 0, 0, 0, 0, 0, 0, 0, 0, 0, 0, 0,
    0, 0, 0, 0, 0, 0, 0xff, 0x03, 0xfe, 0xff, 0xff, 0x87, 0xfe, 0xff, 0xff, 0x07,
    0, 0, 0, 0, 0, 0, 0, 0, 0, 0, 0, 0, 0, 0, 0, 0,
    0, 0, 0, 0, 0xfe, 0xff, 0xff, 0xff, 0xff, 0xff, 0xff, 0xff, 0xff, 0xff, 0xff, 0x7f,
    0, 0, 0, 0, 0, 0, 0, 0, 0, 0, 0, 0, 0, 0, 0, 0,
    0, 0, 0, 0, 0xff, 0xff, 0xff, 0xff, 0xff, 0xff, 0xff, 0xff, 0xff, 0xff, 0xff, 0x7f,
    0, 0, 0, 0, 0, 0, 0, 0, 0, 0, 0, 0, 0, 0, 0, 0,
    0, 0, 0, 0, 0xfe, 0xff, 0, 0xfc, 0x01, 0, 0, 0xf8, 0x01, 0, 0, 0x78,
    0, 0, 0, 0, 0, 0, 0, 0, 0, 0, 0, 0, 0, 0, 0, 0,
    0xff, 0xff, 0xff, 0xff, 0, 0, 0, 0, 0, 0, 0, 0, 0, 0, 0, 0x80,
    0, 0, 0, 0, 0, 0, 0, 0, 0, 0, 0, 0, 0, 0, 0, 0]"

definition default_ctypes :: "byte list" where
  "default_ctypes = [
    0x80, 0, 0, 0, 0, 0, 0, 0, 0, 0x01, 0x01, 0, 0x01, 0x01, 0, 0,
    0, 0, 0, 0, 0, 0, 0, 0, 0, 0, 0, 0, 0, 0, 0, 0,
    0x01, 0, 0, 0, 0x80, 0, 0, 0, 0x80, 0x80, 0x80, 0x80, 0, 0, 0x80, 0,
    0x1c, 0x1c, 0x1c, 0x1c, 0x1c, 0x1c, 0x1c, 0x1c, 0x1c, 0x1c, 0, 0, 0, 0, 0, 0x80,
    0, 0x1a, 0x1a, 0x1a, 0x1a, 0x1a, 0x1a, 0x12, 0x12, 0x12, 0x12, 0x12, 0x12, 0x12, 0x12, 0x12,
    0x12, 0x12, 0x12, 0x12, 0x12, 0x12, 0x12, 0x12, 0x12, 0x12, 0x12, 0x80, 0x80, 0, 0x80, 0x10,
    0, 0x1a, 0x1a, 0x1a, 0x1a, 0x1a, 0x1a, 0x12, 0x12, 0x12, 0x12, 0x12, 0x12, 0x12, 0x12, 0x12,
    0x12, 0x12, 0x12, 0x12, 0x12, 0x12, 0x12, 0x12, 0x12, 0x12, 0x12, 0x80, 0x80, 0, 0, 0,
    0, 0, 0, 0, 0, 0, 0, 0, 0, 0, 0, 0, 0, 0, 0, 0,
    0, 0, 0, 0, 0, 0, 0, 0, 0, 0, 0, 0, 0, 0, 0, 0,
    0, 0, 0, 0, 0, 0, 0, 0, 0, 0, 0, 0, 0, 0, 0, 0,
    0, 0, 0, 0, 0, 0, 0, 0, 0, 0, 0, 0, 0, 0, 0, 0,
    0, 0, 0, 0, 0, 0, 0, 0, 0, 0, 0, 0, 0, 0, 0, 0,
    0, 0, 0, 0, 0, 0, 0, 0, 0, 0, 0, 0, 0, 0, 0, 0,
    0, 0, 0, 0, 0, 0, 0, 0, 0, 0, 0, 0, 0, 0, 0, 0,
    0, 0, 0, 0, 0, 0, 0, 0, 0, 0, 0, 0, 0, 0, 0, 0]"

definition default_tables :: "byte list" where
  "default_tables = default_lcc @ default_fcc @ default_cbits @ default_ctypes"

section \<open>What the tables hold\<close>

text \<open>The classes in the order of their maps, as predicates.\<close>

definition class_preds :: "ctype_functions \<Rightarrow> (nat \<Rightarrow> bool) list" where
  "class_preds ct = [isspace ct, isxdigit ct, isdigit ct, isupper ct, islower ct,
     (\<lambda>i. isalnum ct i \<or> i = 95), isgraph ct, isprint ct, ispunct ct, iscntrl ct]"

lemma length_set_class [simp]: "length (set_class b off i p) = length p"
  by (simp add: set_class_def)

lemma bit_set_class:
  "a < length p \<Longrightarrow> bit (set_class b off i p ! a) k \<longleftrightarrow>
    bit (p ! a) k \<or> b \<and> a = off + i div 8 \<and> k = i mod 8"
proof -
  have "i mod 8 < 8" by simp
  then have one: "bit (push_bit (i mod 8) (1 :: byte)) k \<longleftrightarrow> k = i mod 8"
    by (auto simp: bit_push_bit_iff bit_1_iff simp del: push_bit_of_1)
  show "a < length p \<Longrightarrow> ?thesis"
    by (cases "a = off + i div 8") (auto simp: set_class_def bit_or_iff one simp del: push_bit_of_1)
qed

lemma length_class_step [simp]: "length (class_step ct i p) = length p"
  by (simp add: class_step_def Let_def)

lemma block_eq:
  fixes m q :: nat
  assumes b: "m < 32" "q < 32"
  shows "32 * c + m = 32 * d + q \<longleftrightarrow> 32 * c = 32 * d \<and> m = q"
proof
  assume q: "32 * c + m = 32 * d + q"
  then have "(32 * c + m) div 32 = (32 * d + q) div 32" by simp
  then have "c = d" using b by simp
  then show "32 * c = 32 * d \<and> m = q" using q by simp
qed simp

lemma bit_class_step:
  assumes "length p = 320" "c < 10" "m < 32" "i < 256" "k < 8"
  shows "bit (class_step ct i p ! (32 * c + m)) k \<longleftrightarrow>
    bit (p ! (32 * c + m)) k \<or> (class_preds ct ! c) i \<and> 8 * m + k = i"
proof -
  have at: "32 * c + m = off + i div 8 \<longleftrightarrow> 32 * c = off \<and> m = i div 8" if dvd: "32 dvd off" for off
  proof -
    obtain d where d: "off = 32 * d" using dvd by (auto elim: dvdE)
    have "i div 8 < 32" using assms(4) by simp
    then show ?thesis using assms(3) unfolding d by (simp add: block_eq)
  qed
  have pos: "m = i div 8 \<and> k = i mod 8 \<longleftrightarrow> 8 * m + k = i" using assms(5) by auto
  let ?here = "\<lambda>b off. b \<and> 32 * c = off \<and> m = i div 8 \<and> k = i mod 8"
  have "32 * c + m < length p" using assms(1-3) by simp
  then have "bit (class_step ct i p ! (32 * c + m)) k \<longleftrightarrow> bit (p ! (32 * c + m)) k \<or>
      ?here (isdigit ct i) 64 \<or> ?here (isupper ct i) 96 \<or> ?here (islower ct i) 128 \<or>
      ?here (isalnum ct i) 160 \<or> ?here (i = 95) 160 \<or> ?here (isspace ct i) 0 \<or> ?here (isxdigit ct i) 32 \<or>
      ?here (isgraph ct i) 192 \<or> ?here (isprint ct i) 224 \<or> ?here (ispunct ct i) 256 \<or> ?here (iscntrl ct i) 288"
    unfolding class_step_def Let_def cbit_offsets
    by (simp only: bit_set_class length_set_class at disj_assoc dvd_numeral_simp simp_thms)
      (simp add: at at [of 0, simplified])
  also have "\<dots> \<longleftrightarrow> bit (p ! (32 * c + m)) k \<or> (class_preds ct ! c) i \<and> 8 * m + k = i"
  proof -
    have "c = 0 \<or> c = 1 \<or> c = 2 \<or> c = 3 \<or> c = 4 \<or> c = 5 \<or> c = 6 \<or> c = 7 \<or> c = 8 \<or> c = 9"
      using assms(2) by arith
    then show ?thesis unfolding pos [symmetric] by (elim disjE) (simp_all add: class_preds_def conj_disj_distribR)
  qed
  finally show ?thesis .
qed

text \<open>The class maps after the loop, by induction over the characters handled.\<close>

lemma bit_class_loop:
  assumes "c < 10" "m < 32" "k < 8"
  shows "n \<le> 256 \<Longrightarrow> length (fold (class_step ct) [0..<n] (replicate 320 0)) = 320 \<and>
    (bit (fold (class_step ct) [0..<n] (replicate 320 0) ! (32 * c + m)) k \<longleftrightarrow>
      8 * m + k < n \<and> (class_preds ct ! c) (8 * m + k))"
proof (induction n)
  case 0
  have "32 * c + m < 320" using assms by simp
  then show ?case by simp
next
  case (Suc n)
  then show ?case using bit_class_step [of _ c m n k ct] assms by (auto simp: less_Suc_eq)
qed

definition class_byte :: "(nat \<Rightarrow> bool) \<Rightarrow> nat \<Rightarrow> byte" where
  "class_byte P m = horner_sum of_bool 2 (map (\<lambda>k. P (8 * m + k)) [0..<8])"

lemma bit_class_byte: "bit (class_byte P m) k \<longleftrightarrow> k < 8 \<and> P (8 * m + k)"
  by (auto simp: class_byte_def bit_horner_sum_bit_iff)

lemma class_loop_value:
  "fold (class_step ct) [0..<256] (replicate cbit_length 0) =
    concat (map (\<lambda>P. map (class_byte P) [0..<32]) (class_preds ct))" (is "?l = concat (map ?f ?ps)")
proof (rule nth_equalityI)
  have len: "length (concat (map ?f (take c ?ps))) = 32 * min c 10" for c
    by (simp add: length_concat comp_def sum_list_triv class_preds_def)
  have l: "length ?l = 320" using bit_class_loop [of 0 0 0 256 ct] by (simp add: cbit_length_def)
  show "length ?l = length (concat (map ?f ?ps))" using len [of 10] l by (simp add: class_preds_def)
  fix a assume "a < length ?l"
  then have a: "a < 320" using l by simp
  define c m where "c = a div 32" and "m = a mod 32"
  have cm: "c < 10" "m < 32" "a = 32 * c + m" using a by (auto simp: c_def m_def)
  have "c < length ?ps" using cm(1) by (simp add: class_preds_def del: One_nat_def)
  have split: "?ps = take c ?ps @ ?ps ! c # drop (Suc c) ?ps"
    by (rule id_take_nth_drop) (rule \<open>c < length ?ps\<close>)
  have "concat (map ?f ?ps) = concat (map ?f (take c ?ps)) @ ?f (?ps ! c) @ concat (map ?f (drop (Suc c) ?ps))"
    by (subst split) (simp only: map_append concat_append list.map concat.simps)
  then have "concat (map ?f ?ps) ! a = class_byte (?ps ! c) m"
    using len [of c] cm by (simp add: nth_append)
  moreover have "?l ! a = class_byte (?ps ! c) m"
  proof (rule bit_eqI)
    fix k
    show "bit (?l ! a) k \<longleftrightarrow> bit (class_byte (?ps ! c) m) k"
    proof (cases "k < 8")
      case True
      then show ?thesis using bit_class_loop [of c m k 256 ct] cm by (simp add: bit_class_byte cbit_length_def)
    next
      case False
      then show ?thesis using bit_byte_beyond [of k] by (simp add: bit_class_byte)
    qed
  qed
  ultimately show "?l ! a = concat (map ?f ?ps) ! a" by simp
qed

lemma maketables_value:
  "maketables True ct = Some (
     map (\<lambda>i. word_of_nat (tolower ct i)) [0..<256] @
     map (\<lambda>i. word_of_nat (if islower ct i then toupper ct i else tolower ct i)) [0..<256] @
     concat (map (\<lambda>P. map (class_byte P) [0..<32]) (class_preds ct)) @
     map (\<lambda>i. word_of_nat (ctype_entry ct i)) [0..<256])"
  unfolding maketables_def class_loop_value by simp

lemma bytes_upt: "[0..<256] = 0 # 1 # [2..<256]" "[0..<32] = 0 # 1 # [2..<32]" "[0..<8] = 0 # 1 # [2..<8]"
  by (simp_all add: upt_conv_Cons del: upt_rec_numeral)

lemma default_lcc_eq: "map (\<lambda>i. word_of_nat (tolower c_locale i)) [0..<256] = default_lcc"
  by (simp add: c_locale_def default_lcc_def bytes_upt)

lemma default_fcc_eq:
  "map (\<lambda>i. word_of_nat (if islower c_locale i then toupper c_locale i else tolower c_locale i)) [0..<256] = default_fcc"
  by (simp add: c_locale_def default_fcc_def bytes_upt)

lemma default_ctypes_eq: "map (\<lambda>i. word_of_nat (ctype_entry c_locale i)) [0..<256] = default_ctypes"
  by (simp add: c_locale_def default_ctypes_def bytes_upt ctype_entry_def meta_chars_def ctype_values)

lemma class_maps_eq: "concat (map (\<lambda>P. map (class_byte P) [0..<32]) (class_preds c_locale)) = default_cbits"
  by (simp add: c_locale_def default_cbits_def bytes_upt class_byte_def class_preds_def)

lemma maketables_c_locale: "maketables True c_locale = Some default_tables"
  unfolding maketables_value default_lcc_eq default_fcc_eq default_ctypes_eq class_maps_eq
  by (simp add: default_tables_def)

lemma length_class_maps: "length (concat (map (\<lambda>P. map (class_byte P) [0..<32]) (class_preds ct))) = 320"
  by (simp add: length_concat comp_def sum_list_triv class_preds_def)

lemma class_maps_nth:
  assumes "c < 10" "m < 32"
  shows "concat (map (\<lambda>P. map (class_byte P) [0..<32]) (class_preds ct)) ! (32 * c + m) =
    class_byte (class_preds ct ! c) m"
proof (rule bit_eqI)
  fix k
  show "bit (concat (map (\<lambda>P. map (class_byte P) [0..<32]) (class_preds ct)) ! (32 * c + m)) k \<longleftrightarrow>
      bit (class_byte (class_preds ct ! c) m) k"
  proof (cases "k < 8")
    case True
    then show ?thesis using bit_class_loop [of c m k 256 ct] assms
      unfolding class_loop_value [symmetric] by (simp add: bit_class_byte cbit_length_def)
  next
    case False
    then show ?thesis using bit_byte_beyond [of k] by (simp add: bit_class_byte)
  qed
qed

lemma ctype_entry_less: "ctype_entry ct i < 256"
  by (simp add: ctype_entry_def ctype_values Let_def)

lemma ctype_entry_bits:
  "bit (ctype_entry ct i) 0 \<longleftrightarrow> i \<noteq> 0x0b \<and> isspace ct i"
  "bit (ctype_entry ct i) 1 \<longleftrightarrow> isalpha ct i"
  "bit (ctype_entry ct i) 2 \<longleftrightarrow> isdigit ct i"
  "bit (ctype_entry ct i) 3 \<longleftrightarrow> isxdigit ct i"
  "bit (ctype_entry ct i) 4 \<longleftrightarrow> isalnum ct i \<or> i = 95"
  "bit (ctype_entry ct i) 7 \<longleftrightarrow> i \<in> set meta_chars"
  by (simp_all add: ctype_entry_def ctype_values Let_def bit_iff_odd) auto

text \<open>
  C25. The tables of \<^verbatim>\<open>pcre_chartables.c\<close>, used when the application passes none, are byte
  for byte what \<open>pcre_maketables\<close> builds in the C locale.
\<close>

theorem default_tables_built: "maketables True c_locale = Some default_tables"
  by (rule maketables_c_locale)

text \<open>
  C24. What the matcher relies on, in every locale. In the tables \<open>pcre_maketables\<close> builds, the
  entry of a character in the lower-casing table is its lower case and in the flipping table
  the other case; the bit of the character in the map of each of the ten classes tells whether
  it belongs to the class; and the bits of its entry in the type table tell space (without VT),
  letter, digit, hexadecimal digit, word character and metacharacter.
\<close>

theorem maketables_lookup:
  assumes "maketables True ct = Some t" "i < 256" "c < 10"
  shows "length t = 1088 \<and>
    t ! (lcc_offset + i) = word_of_nat (tolower ct i) \<and>
    t ! (fcc_offset + i) = word_of_nat (if islower ct i then toupper ct i else tolower ct i) \<and>
    (bit (t ! (cbits_offset + 32 * c + i div 8)) (i mod 8) \<longleftrightarrow> (class_preds ct ! c) i) \<and>
    (bit (t ! (ctypes_offset + i)) 0 \<longleftrightarrow> i \<noteq> 0x0b \<and> isspace ct i) \<and>
    (bit (t ! (ctypes_offset + i)) 1 \<longleftrightarrow> isalpha ct i) \<and>
    (bit (t ! (ctypes_offset + i)) 2 \<longleftrightarrow> isdigit ct i) \<and>
    (bit (t ! (ctypes_offset + i)) 3 \<longleftrightarrow> isxdigit ct i) \<and>
    (bit (t ! (ctypes_offset + i)) 4 \<longleftrightarrow> isalnum ct i \<or> i = 95) \<and>
    (bit (t ! (ctypes_offset + i)) 7 \<longleftrightarrow> i \<in> set meta_chars)"
proof -
  define lcc where "lcc = map (\<lambda>i. word_of_nat (tolower ct i) :: byte) [0..<256]"
  define fcc where "fcc = map (\<lambda>i. word_of_nat (if islower ct i then toupper ct i else tolower ct i) :: byte) [0..<256]"
  define cls where "cls = concat (map (\<lambda>P. map (class_byte P) [0..<32]) (class_preds ct))"
  define tys where "tys = map (\<lambda>i. word_of_nat (ctype_entry ct i) :: byte) [0..<256]"
  have t: "t = lcc @ fcc @ cls @ tys"
    using assms(1) unfolding maketables_value lcc_def fcc_def cls_def tys_def by simp
  have len: "length lcc = 256" "length fcc = 256" "length cls = 320" "length tys = 256"
    unfolding lcc_def fcc_def cls_def tys_def using length_class_maps by simp_all
  have "i div 8 < 32" "32 * c + i div 8 < 320" using assms(2,3) by auto
  have l: "t ! (lcc_offset + i) = lcc ! i" and f: "t ! (fcc_offset + i) = fcc ! i"
    and s: "t ! (cbits_offset + 32 * c + i div 8) = cls ! (32 * c + i div 8)"
    and y: "t ! (ctypes_offset + i) = tys ! i"
    using assms(2) len \<open>32 * c + i div 8 < 320\<close>
    by (simp_all add: t nth_append lcc_offset_def fcc_offset_def cbits_offset_def ctypes_offset_def cbit_length_def)
  have "cls ! (32 * c + i div 8) = class_byte (class_preds ct ! c) (i div 8)"
    unfolding cls_def by (rule class_maps_nth [OF assms(3) \<open>i div 8 < 32\<close>])
  then have bits: "bit (t ! (cbits_offset + 32 * c + i div 8)) (i mod 8) \<longleftrightarrow> (class_preds ct ! c) i"
    using s by (simp add: bit_class_byte)
  have tys: "bit (tys ! i) k \<longleftrightarrow> bit (ctype_entry ct i) k" if "k < 8" for k
    using assms(2) that by (simp add: tys_def bit_of_nat_iff possible_bit_def)
  have ln: "lcc ! i = word_of_nat (tolower ct i)" "fcc ! i = word_of_nat (if islower ct i then toupper ct i else tolower ct i)"
    using assms(2) by (simp_all add: lcc_def fcc_def)
  have "length t = 1088" by (simp add: t len)
  then show ?thesis
    unfolding l f ln y by (intro conjI bits) (simp_all add: tys ctype_entry_bits del: One_nat_def)
qed

theorem maketables_lookup_witness:
  "bit (default_tables ! (cbits_offset + 32 * 3 + 0x41 div 8)) (0x41 mod 8) \<and>
   default_tables ! (fcc_offset + 0x41) = 0x61"
  using maketables_lookup [OF maketables_c_locale, of "0x41" 3]
  by (simp add: class_preds_def c_locale_def)

end
