(* ===== verification/Xclass.thy ===== *)
theory Xclass
  imports Utf8
begin

text \<open>
  Extended character classes, \<^verbatim>\<open>src/AOS/aos/pcre/pcre_xclass.c\<close>: the interpreter
  \<open>_pcre_xclass\<close> of the class data the compiler emits, with the Unicode character database
  (the two-stage tables of \<^verbatim>\<open>pcre_ucd.c\<close>) as an argument, and what it decides.
\<close>

section \<open>Unicode properties\<close>

record ucd_record =
  script :: byte
  chartype :: byte
  other_case :: int

record ucd_tables =
  ucd_records :: "ucd_record list"
  ucd_stage1 :: "nat list"
  ucd_stage2 :: "nat list"

definition GET_UCD :: "ucd_tables \<Rightarrow> nat \<Rightarrow> ucd_record option" where
  "GET_UCD u ch = do {
    block \<leftarrow> peek (ucd_stage1 u) (ch div 128);
    r \<leftarrow> peek (ucd_stage2 u) (block * 128 + ch mod 128);
    peek (ucd_records u) r }"

definition ucp_Ll :: byte where "ucp_Ll = 5"
definition ucp_Lt :: byte where "ucp_Lt = 8"
definition ucp_Lu :: byte where "ucp_Lu = 9"

text \<open>The general category of each character type: \<open>C\<close>, \<open>L\<close>, \<open>M\<close>, \<open>N\<close>, \<open>P\<close>, \<open>S\<close>, \<open>Z\<close> are 0 to 6.\<close>

definition ucp_gentype :: "byte list" where
  "ucp_gentype = [
    0, 0, 0, 0, 0,
    1, 1, 1, 1, 1,
    2, 2, 2,
    3, 3, 3,
    4, 4, 4, 4, 4,
    4, 4,
    5, 5, 5, 5,
    6, 6, 6]"

section \<open>The interpreter\<close>

definition XCL_NOT :: byte where "XCL_NOT = 0x01"
definition XCL_MAP :: byte where "XCL_MAP = 0x02"
definition XCL_END :: byte where "XCL_END = 0"
definition XCL_SINGLE :: byte where "XCL_SINGLE = 1"
definition XCL_RANGE :: byte where "XCL_RANGE = 2"
definition XCL_PROP :: byte where "XCL_PROP = 3"
definition XCL_NOTPROP :: byte where "XCL_NOTPROP = 4"

definition PT_ANY :: byte where "PT_ANY = 0"
definition PT_LAMP :: byte where "PT_LAMP = 1"
definition PT_GC :: byte where "PT_GC = 2"
definition PT_PC :: byte where "PT_PC = 3"
definition PT_SC :: byte where "PT_SC = 4"

lemmas xcl_values = XCL_NOT_def XCL_MAP_def XCL_END_def XCL_SINGLE_def XCL_RANGE_def XCL_PROP_def
  XCL_NOTPROP_def PT_ANY_def PT_LAMP_def PT_GC_def PT_PC_def PT_SC_def

text \<open>
  The \<open>switch\<close> on the property type: \<open>Some True\<close> leaves it with \<open>return !negated\<close>, \<open>Some False\<close>
  with \<open>break\<close>, and \<open>Inl\<close> is the \<open>default\<close>, \<open>return FALSE\<close>.
\<close>

definition prop_switch :: "byte \<Rightarrow> ucd_record \<Rightarrow> byte list \<Rightarrow> (unit + bool) option" where
  "prop_switch t prop data = do {
    pt \<leftarrow> peek data 0;
    if pt = PT_ANY then Some (Inr (t = XCL_PROP))
    else if pt = PT_LAMP then
      Some (Inr ((chartype prop = ucp_Lu \<or> chartype prop = ucp_Ll \<or> chartype prop = ucp_Lt) = (t = XCL_PROP)))
    else if pt = PT_GC then do {
      v \<leftarrow> peek data 1;
      g \<leftarrow> peek ucp_gentype (unat (chartype prop));
      Some (Inr ((v = g) = (t = XCL_PROP))) }
    else if pt = PT_PC then do {
      v \<leftarrow> peek data 1;
      Some (Inr ((v = chartype prop) = (t = XCL_PROP))) }
    else if pt = PT_SC then do {
      v \<leftarrow> peek data 1;
      Some (Inr ((v = script prop) = (t = XCL_PROP))) }
    else Some (Inl ()) }"

lemma getcharinc_loop_length:
  "getcharinc_loop d n s c = Some (x, d') \<Longrightarrow> length d' \<le> length d"
proof (induction d n s c rule: getcharinc_loop.induct)
  case (2 d n s c)
  then show ?case by (cases d) (auto simp: Let_def intro: le_SucI)
qed simp

lemma GETCHARINC_length: "GETCHARINC d = Some (x, d') \<Longrightarrow> length d' < length d"
  by (cases d) (auto simp: GETCHARINC_def Let_def less_Suc_eq_le split: if_splits Option.bind_splits
      dest: getcharinc_loop_length)

text \<open>The loop \<open>while ((t = *data++) != XCL_END)\<close>.\<close>

function xclass_loop :: "ucd_tables \<Rightarrow> nat \<Rightarrow> bool \<Rightarrow> byte list \<Rightarrow> bool option" where
  "xclass_loop u c negated data =
    (case data of
       [] \<Rightarrow> None
     | t # data1 \<Rightarrow>
         if t = XCL_END then Some negated
         else if t = XCL_SINGLE then
           (case GETCHARINC data1 of
              None \<Rightarrow> None
            | Some (x, data2) \<Rightarrow>
                if int c = x then Some (\<not> negated) else xclass_loop u c negated data2)
         else if t = XCL_RANGE then
           (case GETCHARINC data1 of
              None \<Rightarrow> None
            | Some (x, data2) \<Rightarrow>
                (case GETCHARINC data2 of
                   None \<Rightarrow> None
                 | Some (y, data3) \<Rightarrow>
                     if x \<le> int c \<and> int c \<le> y then Some (\<not> negated)
                     else xclass_loop u c negated data3))
         else
           (case GET_UCD u c of
              None \<Rightarrow> None
            | Some prop \<Rightarrow>
                (case prop_switch t prop data1 of
                   None \<Rightarrow> None
                 | Some (Inl _) \<Rightarrow> Some False
                 | Some (Inr True) \<Rightarrow> Some (\<not> negated)
                 | Some (Inr False) \<Rightarrow> xclass_loop u c negated (drop 2 data1))))"
  by pat_completeness auto
termination
  by (relation "measure (\<lambda>(u, c, n, d). length d)") (auto dest!: GETCHARINC_length)

declare xclass_loop.simps [simp del]

definition xclass :: "ucd_tables \<Rightarrow> nat \<Rightarrow> byte list \<Rightarrow> bool option" where
  "xclass u c data = do {
    flags \<leftarrow> peek data 0;
    let negated = (flags AND XCL_NOT \<noteq> 0);
    found \<leftarrow> (if c < 256 \<and> flags AND XCL_MAP \<noteq> 0
              then do { b \<leftarrow> peek data (1 + c div 8); Some (b AND push_bit (c mod 8) 1 \<noteq> 0) }
              else Some False);
    if found then Some (\<not> negated)
    else xclass_loop u c negated (if flags AND XCL_MAP \<noteq> 0 then drop 33 data else drop 1 data) }"

section \<open>What a class means\<close>

datatype xitem = Single int | Range int int | Property bool byte byte

fun item_bytes :: "xitem \<Rightarrow> byte list" where
  "item_bytes (Single x) = XCL_SINGLE # utf8_bytes x"
| "item_bytes (Range x y) = XCL_RANGE # utf8_bytes x @ utf8_bytes y"
| "item_bytes (Property positive pt v) = [if positive then XCL_PROP else XCL_NOTPROP, pt, v]"

fun item_ok :: "xitem \<Rightarrow> bool" where
  "item_ok (Single x) \<longleftrightarrow> 0 \<le> x \<and> x < 2 ^ 31"
| "item_ok (Range x y) \<longleftrightarrow> 0 \<le> x \<and> x < 2 ^ 31 \<and> 0 \<le> y \<and> y < 2 ^ 31"
| "item_ok (Property _ pt _) \<longleftrightarrow> pt \<le> PT_SC"

definition has_property :: "ucd_record \<Rightarrow> byte \<Rightarrow> byte \<Rightarrow> bool" where
  "has_property r pt v \<longleftrightarrow>
    pt = PT_ANY \<or>
    pt = PT_LAMP \<and> chartype r \<in> {ucp_Lu, ucp_Ll, ucp_Lt} \<or>
    pt = PT_GC \<and> ucp_gentype ! unat (chartype r) = v \<or>
    pt = PT_PC \<and> chartype r = v \<or>
    pt = PT_SC \<and> script r = v"

fun item_matches :: "ucd_record \<Rightarrow> nat \<Rightarrow> xitem \<Rightarrow> bool" where
  "item_matches r c (Single x) \<longleftrightarrow> int c = x"
| "item_matches r c (Range x y) \<longleftrightarrow> x \<le> int c \<and> int c \<le> y"
| "item_matches r c (Property positive pt v) \<longleftrightarrow> has_property r pt v = positive"

text \<open>The data of a class: the flag byte, the bit map where there is one, the items, the end mark.\<close>

definition class_data :: "bool \<Rightarrow> byte list option \<Rightarrow> xitem list \<Rightarrow> byte list" where
  "class_data negated bits items =
    ((if negated then XCL_NOT else 0) OR (if bits = None then 0 else XCL_MAP)) #
    (case bits of None \<Rightarrow> [] | Some m \<Rightarrow> m) @ concat (map item_bytes items) @ [XCL_END]"

definition in_map :: "byte list option \<Rightarrow> nat \<Rightarrow> bool" where
  "in_map bits c \<longleftrightarrow> (case bits of None \<Rightarrow> False | Some m \<Rightarrow> c < 256 \<and> bit (m ! (c div 8)) (c mod 8))"

lemma prop_switch_value:
  assumes "pt \<le> PT_SC" "unat (chartype r) < 30"
  shows "prop_switch (if positive then XCL_PROP else XCL_NOTPROP) r (pt # v # rest) =
    Some (Inr (has_property r pt v = positive))"
proof -
  have "pt = 0 \<or> pt = 1 \<or> pt = 2 \<or> pt = 3 \<or> pt = 4"
  proof -
    have "unat pt \<le> 4" using assms(1) by (simp add: PT_SC_def word_le_nat_alt)
    then have "unat pt = 0 \<or> unat pt = 1 \<or> unat pt = 2 \<or> unat pt = 3 \<or> unat pt = 4" by arith
    then show ?thesis by (auto simp: word_unat_eq_iff)
  qed
  then show ?thesis using assms(2)
    by (elim disjE; cases positive) (auto simp: prop_switch_def has_property_def xcl_values peek_def ucp_gentype_def)
qed

lemma GETCHARINC_utf8_bytes:
  "0 \<le> x \<Longrightarrow> x < 2 ^ 31 \<Longrightarrow> GETCHARINC (utf8_bytes x @ rest) = Some (x, rest)"
  using GETCHARINC_encoded utf8_bytes_encoded by simp

lemma xclass_loop_items:
  assumes "GET_UCD u c = Some r" "unat (chartype r) < 30"
  shows "list_all item_ok items \<Longrightarrow>
    xclass_loop u c negated (concat (map item_bytes items) @ [XCL_END]) =
      Some ((\<exists>i\<in>set items. item_matches r c i) \<noteq> negated)"
proof (induction items)
  case Nil
  then show ?case by (simp add: xclass_loop.simps [of _ _ _ "[_]"])
next
  case (Cons i items)
  have ok: "item_ok i" "list_all item_ok items" using Cons.prems by simp_all
  note IH = Cons.IH [OF ok(2)]
  show ?case
  proof (cases i)
    case (Single x)
    then show ?thesis using ok(1) IH
      by (subst xclass_loop.simps) (simp add: GETCHARINC_utf8_bytes xcl_values)
  next
    case (Range x y)
    then show ?thesis using ok(1) IH
      by (subst xclass_loop.simps) (auto simp: GETCHARINC_utf8_bytes xcl_values)
  next
    case (Property p pt v)
    have ne: "(if p then XCL_PROP else XCL_NOTPROP) \<notin> {XCL_END, XCL_SINGLE, XCL_RANGE}" by (simp add: xcl_values)
    show ?thesis using ok(1) IH ne Property
      by (subst xclass_loop.simps) (simp add: assms prop_switch_value del: if_split, auto split: bool.splits)
  qed
qed


text \<open>
  C14. \<open>_pcre_xclass\<close> decides what the class data means. For a class laid out as the compiler
  does it (flags, optional 32-byte map, single characters, ranges and properties in any number
  and order, end mark), a character is accepted exactly when it is in the map or matches one of
  the items, or, for a negated class, when it is in neither; the interpreter reads nothing
  behind the end mark.
\<close>

theorem xclass_decides:
  assumes "list_all item_ok items" "\<And>m. bits = Some m \<Longrightarrow> length m = 32"
    and "GET_UCD u c = Some r" "unat (chartype r) < 30"
  shows "xclass u c (class_data negated bits items) =
    Some ((in_map bits c \<or> (\<exists>i\<in>set items. item_matches r c i)) \<noteq> negated)"
proof -
  let ?flags = "(if negated then XCL_NOT else 0) OR (if bits = None then 0 else XCL_MAP)"
  have flags: "?flags AND XCL_NOT \<noteq> 0 \<longleftrightarrow> negated" "?flags AND XCL_MAP \<noteq> 0 \<longleftrightarrow> bits \<noteq> None"
    by (simp_all add: xcl_values)
  note loop = xclass_loop_items [OF assms(3,4,1), of negated]
  show ?thesis
  proof (cases bits)
    case None
    then show ?thesis using flags loop
      by (simp add: xclass_def class_data_def in_map_def)
  next
    case (Some m)
    then have m: "length m = 32" by (rule assms(2))
    have bit: "b AND push_bit k 1 \<noteq> 0 \<longleftrightarrow> bit b k" for b :: byte and k
      by (simp add: bit_iff_and_push_bit_not_eq_0)
    show ?thesis
    proof (cases "c < 256")
      case True
      then have "c div 8 < 32" by simp
      then show ?thesis using Some flags loop m True
        by (simp add: xclass_def class_data_def in_map_def bit nth_append del: push_bit_of_1)
    next
      case False
      then show ?thesis using Some flags loop m
        by (simp add: xclass_def class_data_def in_map_def)
    qed
  qed
qed

theorem xclass_decides_witness:
  "xclass \<lparr> ucd_records = [\<lparr> script = 33, chartype = 9, other_case = 32 \<rparr>], ucd_stage1 = [0, 0, 0],
      ucd_stage2 = [0, 0, 0, 0, 0, 0, 0, 0, 0, 0] \<rparr> 0x101
    (class_data True None [Range 0x100 0x17f, Property False PT_GC 1]) = Some False"
proof -
  let ?u = "\<lparr> ucd_records = [\<lparr> script = 33, chartype = 9, other_case = 32 \<rparr>], ucd_stage1 = [0, 0, 0],
      ucd_stage2 = [0, 0, 0, 0, 0, 0, 0, 0, 0, 0] \<rparr>"
  have "GET_UCD ?u 0x101 = Some \<lparr> script = 33, chartype = 9, other_case = 32 \<rparr>"
    by (simp add: GET_UCD_def peek_def)
  then show ?thesis
    using xclass_decides [of "[Range 0x100 0x17f, Property False PT_GC 1]" None ?u "0x101" "\<lparr> script = 33, chartype = 9, other_case = 32 \<rparr>" True]
    by (simp add: in_map_def xcl_values)
qed

end
