(* ===== verification/Compiled_Info.thy ===== *)
theory Compiled_Info
  imports C_Prelude
begin

text \<open>
  Compiled patterns as seen from outside: the byte-order repair of
  \<^verbatim>\<open>src/AOS/aos/pcre/pcre_try_flipped.c\<close> and the information function of
  \<^verbatim>\<open>pcre_fullinfo.c\<close>, over the headers \<open>real_pcre\<close> and \<open>pcre_study_data\<close>.
\<close>

section \<open>The blocks\<close>

record real_pcre =
  magic_number :: "32 word"
  re_size :: "32 word"
  re_options :: "32 word"
  flags :: "16 word"
  dummy1 :: "16 word"
  top_bracket :: "16 word"
  top_backref :: "16 word"
  first_byte :: "16 word"
  req_byte :: "16 word"
  name_table_offset :: "16 word"
  name_entry_size :: "16 word"
  name_count :: "16 word"
  ref_count :: "16 word"

record study_data =
  study_size :: "32 word"
  study_options :: "32 word"
  start_bits :: "byte list"

record extra_data =
  extra_flags :: "32 word"
  extra_study :: "study_data option"

definition MAGIC_NUMBER :: "32 word" where "MAGIC_NUMBER = 0x50435245"

section \<open>Byte order\<close>

definition byteflip :: "32 word \<Rightarrow> nat \<Rightarrow> 32 word" where
  "byteflip value n =
    (if n = 2 then push_bit 8 (value AND 0x00ff) OR drop_bit 8 (value AND 0xff00)
     else push_bit 24 (value AND 0x000000ff) OR push_bit 8 (value AND 0x0000ff00) OR
          drop_bit 8 (value AND 0x00ff0000) OR drop_bit 24 (value AND 0xff000000))"

text \<open>A 16-bit field is widened for the call and the result cast back.\<close>

definition flip16 :: "16 word \<Rightarrow> 16 word" where
  "flip16 w = ucast (byteflip (ucast w) 2)"

definition try_flipped :: "real_pcre \<Rightarrow> study_data option \<Rightarrow> (real_pcre \<times> study_data option) option" where
  "try_flipped re study =
    (if byteflip (magic_number re) 4 \<noteq> MAGIC_NUMBER then None
     else Some (
       re \<lparr> re_size := byteflip (re_size re) 4,
            re_options := byteflip (re_options re) 4,
            flags := flip16 (flags re),
            top_bracket := flip16 (top_bracket re),
            top_backref := flip16 (top_backref re),
            first_byte := flip16 (first_byte re),
            req_byte := flip16 (req_byte re),
            name_table_offset := flip16 (name_table_offset re),
            name_entry_size := flip16 (name_entry_size re),
            name_count := flip16 (name_count re) \<rparr>,
       map_option (\<lambda>s. s \<lparr> study_size := byteflip (study_size s) 4,
                          study_options := byteflip (study_options s) 4 \<rparr>) study))"

section \<open>The information function\<close>

definition PCRE_ERROR_NULL :: int where "PCRE_ERROR_NULL = - 2"
definition PCRE_ERROR_BADOPTION :: int where "PCRE_ERROR_BADOPTION = - 3"
definition PCRE_ERROR_BADMAGIC :: int where "PCRE_ERROR_BADMAGIC = - 4"

definition PUBLIC_OPTIONS :: "32 word" where
  "PUBLIC_OPTIONS = 0x1 OR 0x8 OR 0x10 OR 0x2 OR 0x4 OR 0x20 OR 0x40 OR 0x200 OR 0x800 OR
     0x1000 OR 0x2000 OR 0x4000 OR 0x40000 OR 0x80000 OR
     (0x100000 OR 0x200000 OR 0x400000 OR 0x500000) OR 0x800000 OR 0x1000000 OR 0x2000000"

definition PCRE_NOPARTIAL :: "16 word" where "PCRE_NOPARTIAL = 0x0001"
definition PCRE_FIRSTSET :: "16 word" where "PCRE_FIRSTSET = 0x0002"
definition PCRE_REQCHSET :: "16 word" where "PCRE_REQCHSET = 0x0004"
definition PCRE_STARTLINE :: "16 word" where "PCRE_STARTLINE = 0x0008"
definition PCRE_JCHANGED :: "16 word" where "PCRE_JCHANGED = 0x0010"
definition PCRE_HASCRORLF :: "16 word" where "PCRE_HASCRORLF = 0x0020"

text \<open>
  What is stored through \<open>where\<close>. A pointer to the name table is the block it points into, the
  caller's or the local copy \<open>internal_re\<close>, and the offset.
\<close>

datatype block = Argument_Block | Internal_Block

datatype info =
  Unsigned "32 word"
  | Integer int
  | Start_Bits "byte list option"
  | Name_Table block nat
  | Default_Tables

text \<open>The \<open>switch\<close>; the external study data gives the start bits.\<close>

definition info_switch :: "block \<Rightarrow> real_pcre \<Rightarrow> study_data option \<Rightarrow> study_data option \<Rightarrow> int \<Rightarrow> int + info" where
  "info_switch b re study external what =
    (if what = 0 then Inr (Unsigned (re_options re AND PUBLIC_OPTIONS))
     else if what = 1 then Inr (Unsigned (re_size re))
     else if what = 10 then Inr (Unsigned (case study of None \<Rightarrow> 0 | Some s \<Rightarrow> study_size s))
     else if what = 2 then Inr (Integer (uint (top_bracket re)))
     else if what = 3 then Inr (Integer (uint (top_backref re)))
     else if what = 4 then Inr (Integer (
       if flags re AND PCRE_FIRSTSET \<noteq> 0 then uint (first_byte re)
       else if flags re AND PCRE_STARTLINE \<noteq> 0 then - 1 else - 2))
     else if what = 5 then Inr (Start_Bits (
       case study of None \<Rightarrow> None
       | Some s \<Rightarrow> if study_options s AND 0x01 \<noteq> 0 then map_option start_bits external else None))
     else if what = 6 then Inr (Integer (if flags re AND PCRE_REQCHSET \<noteq> 0 then uint (req_byte re) else - 1))
     else if what = 7 then Inr (Integer (uint (name_entry_size re)))
     else if what = 8 then Inr (Integer (uint (name_count re)))
     else if what = 9 then Inr (Name_Table b (unat (name_table_offset re)))
     else if what = 11 then Inr Default_Tables
     else if what = 12 then Inr (Integer (of_bool (flags re AND PCRE_NOPARTIAL = 0)))
     else if what = 13 then Inr (Integer (of_bool (flags re AND PCRE_JCHANGED \<noteq> 0)))
     else if what = 14 then Inr (Integer (of_bool (flags re AND PCRE_HASCRORLF \<noteq> 0)))
     else Inl PCRE_ERROR_BADOPTION)"

definition fullinfo :: "real_pcre option \<Rightarrow> extra_data option \<Rightarrow> int \<Rightarrow> bool \<Rightarrow> int + info" where
  "fullinfo argument_re extra what where_null =
    (case argument_re of None \<Rightarrow> Inl PCRE_ERROR_NULL
     | Some re \<Rightarrow>
       if where_null then Inl PCRE_ERROR_NULL
       else
         let external = (case extra of None \<Rightarrow> None
                         | Some e \<Rightarrow> if extra_flags e AND 0x0001 \<noteq> 0 then extra_study e else None)
         in if magic_number re \<noteq> MAGIC_NUMBER then
              (case try_flipped re external of
                 None \<Rightarrow> Inl PCRE_ERROR_BADMAGIC
               | Some (re, study) \<Rightarrow> info_switch Internal_Block re study external what)
            else info_switch Argument_Block re external external what)"

section \<open>Flipping bytes twice\<close>

lemma byteflip4_bytes:
  fixes w :: "32 word"
  shows "bit (byteflip w 4) n \<longleftrightarrow> n < 32 \<and> bit w (8 * (3 - n div 8) + n mod 8)"
proof -
  have m: "(0xff :: 32 word) = mask 8" "0xff00 = push_bit 8 (mask 8 :: 32 word)" "0xff0000 = push_bit 16 (mask 8 :: 32 word)"
    "0xff000000 = push_bit 24 (mask 8 :: 32 word)"
    by (simp_all add: mask_numeral)
  have "n < 8 \<or> 8 \<le> n \<and> n < 16 \<or> 16 \<le> n \<and> n < 24 \<or> 24 \<le> n \<and> n < 32 \<or> 32 \<le> n" by arith
  then show ?thesis
  proof (elim disjE conjE)
    assume "n < 8" then show ?thesis unfolding byteflip_def m by (simp add: bit_simps)
  next
    assume n: "8 \<le> n" "n < 16"
    then have "n div 8 = 1" "n mod 8 = n - 8" by (simp_all add: div_nat_eqI mod_nat_eqI)
    with n show ?thesis unfolding byteflip_def m by (auto simp: bit_simps)
  next
    assume n: "16 \<le> n" "n < 24"
    then have "n div 8 = 2" "n mod 8 = n - 16" by (simp_all add: div_nat_eqI mod_nat_eqI)
    with n show ?thesis unfolding byteflip_def m by (auto simp: bit_simps)
  next
    assume n: "24 \<le> n" "n < 32"
    then have "n div 8 = 3" "n mod 8 = n - 24" by (simp_all add: div_nat_eqI mod_nat_eqI)
    with n show ?thesis unfolding byteflip_def m by (auto simp: bit_simps)
  next
    assume "32 \<le> n" then show ?thesis using bit_beyond [of n "byteflip w 4"] by simp
  qed
qed

lemma byteflip4_byteflip4: "byteflip (byteflip w 4) 4 = w"
proof (rule bit_eqI)
  fix n
  show "bit (byteflip (byteflip w 4) 4) n \<longleftrightarrow> bit w n"
  proof (cases "n < 32")
    case True
    have "n div 8 \<le> 3" using True by simp
    then have "(8 * (3 - n div 8) + n mod 8) div 8 = 3 - n div 8" "8 * (3 - n div 8) + n mod 8 < 32"
      "8 * (3 - (3 - n div 8)) + n mod 8 = n" by simp_all
    then show ?thesis using True by (simp add: byteflip4_bytes)
  next
    case False
    then show ?thesis by (simp add: bit_beyond)
  qed
qed

lemma bit_flip16: "bit (flip16 w) n \<longleftrightarrow> n < 16 \<and> bit w (if n < 8 then n + 8 else n - 8)"
proof -
  have m: "(0xff :: 32 word) = mask 8" "0xff00 = push_bit 8 (mask 8 :: 32 word)" by (simp_all add: mask_numeral)
  show ?thesis unfolding flip16_def byteflip_def m by (auto simp: bit_simps add.commute)
qed

lemma flip16_flip16: "flip16 (flip16 w) = w"
proof (rule bit_eqI)
  fix n
  show "bit (flip16 (flip16 w)) n \<longleftrightarrow> bit w n"
    using bit_imp_le_length [of w n] by (cases "n < 16") (auto simp: bit_flip16)
qed

text \<open>The same blocks as a host of the other byte order writes them.\<close>

definition foreign_re :: "real_pcre \<Rightarrow> real_pcre" where
  "foreign_re re = \<lparr> magic_number = byteflip (magic_number re) 4, re_size = byteflip (re_size re) 4,
     re_options = byteflip (re_options re) 4, flags = flip16 (flags re), dummy1 = flip16 (dummy1 re),
     top_bracket = flip16 (top_bracket re), top_backref = flip16 (top_backref re),
     first_byte = flip16 (first_byte re), req_byte = flip16 (req_byte re),
     name_table_offset = flip16 (name_table_offset re), name_entry_size = flip16 (name_entry_size re),
     name_count = flip16 (name_count re), ref_count = flip16 (ref_count re) \<rparr>"

definition foreign_study :: "study_data \<Rightarrow> study_data" where
  "foreign_study s = s \<lparr> study_size := byteflip (study_size s) 4, study_options := byteflip (study_options s) 4 \<rparr>"

definition foreign_extra :: "extra_data \<Rightarrow> extra_data" where
  "foreign_extra e = e \<lparr> extra_study := map_option foreign_study (extra_study e) \<rparr>"

lemma try_flipped_foreign:
  assumes "magic_number re = MAGIC_NUMBER"
  shows "try_flipped (foreign_re re) (map_option foreign_study study) =
    Some (re \<lparr> magic_number := byteflip MAGIC_NUMBER 4, dummy1 := flip16 (dummy1 re), ref_count := flip16 (ref_count re) \<rparr>, study)"
  using assms
  by (cases study) (simp_all add: try_flipped_def foreign_re_def foreign_study_def byteflip4_byteflip4 flip16_flip16)

lemma info_switch_block:
  "what \<noteq> 9 \<Longrightarrow> info_switch b (re \<lparr> magic_number := m, dummy1 := d, ref_count := r \<rparr>) study external what =
    info_switch b' re study external' what"
  if "map_option start_bits external = map_option start_bits external'"
  using that by (cases study) (simp_all add: info_switch_def)

lemma magic_differs: "byteflip MAGIC_NUMBER 4 \<noteq> MAGIC_NUMBER"
  by (simp add: byteflip_def MAGIC_NUMBER_def)



text \<open>
  The request left out. For a block in the other byte order the address given for the name
  table is computed from \<open>re\<close> after it has been redirected to the function's own local copy, so
  the caller gets a pointer into a block that no longer exists when the function returns; for a
  native block it points into the caller's pattern.
\<close>

theorem name_table_of_foreign:
  assumes "magic_number re = MAGIC_NUMBER"
  shows "fullinfo (Some (foreign_re re)) ext 9 False = Inr (Name_Table Internal_Block (unat (name_table_offset re))) \<and>
    fullinfo (Some re) ext 9 False = Inr (Name_Table Argument_Block (unat (name_table_offset re)))"
proof -
  have magic: "magic_number (foreign_re re) \<noteq> MAGIC_NUMBER"
    using magic_differs assms by (simp add: foreign_re_def)
  have "byteflip (magic_number (foreign_re re)) 4 = MAGIC_NUMBER"
    using assms by (simp add: foreign_re_def byteflip4_byteflip4)
  moreover have "flip16 (name_table_offset (foreign_re re)) = name_table_offset re"
    by (simp add: foreign_re_def flip16_flip16)
  ultimately show ?thesis using magic assms
    by (simp add: fullinfo_def info_switch_def Let_def try_flipped_def)
qed

theorem name_table_of_foreign_witness:
  "fullinfo (Some (foreign_re \<lparr> magic_number = MAGIC_NUMBER, re_size = 100, re_options = 0, flags = 0, dummy1 = 0,
     top_bracket = 3, top_backref = 0, first_byte = 0, req_byte = 0, name_table_offset = 48,
     name_entry_size = 7, name_count = 1, ref_count = 0 \<rparr>)) None 9 False = Inr (Name_Table Internal_Block 48)"
  using name_table_of_foreign [of "\<lparr> magic_number = MAGIC_NUMBER, re_size = 100, re_options = 0, flags = 0, dummy1 = 0,
     top_bracket = 3, top_backref = 0, first_byte = 0, req_byte = 0, name_table_offset = 48,
     name_entry_size = 7, name_count = 1, ref_count = 0 \<rparr>" None]
  by simp

end
