(* ===== verification/Sg_Strings.thy ===== *)
theory Sg_Strings
  imports C_Prelude
begin

text \<open>
  The string routines of the statistics library,
  \<^verbatim>\<open>src/AOS/core/sys_stat/tools.c\<close>: bounded copy and append, the number and line
  readers. A C string is read through a pointer (the list from it on) up to its terminating
  zero; a destination is a buffer with a position.
\<close>

section \<open>Bounded copy\<close>

text \<open>\<open>while (--n != 0) { if ((*d++ = *s++) == '\0') break; }\<close>, entered with \<open>n \<noteq> 0\<close>.\<close>

fun copy_loop :: "byte list \<Rightarrow> nat \<Rightarrow> byte list \<Rightarrow> nat \<Rightarrow> (byte list \<times> nat \<times> byte list \<times> nat) option" where
  "copy_loop dst d s 0 = None"
| "copy_loop dst d s (Suc n) =
    (if n = 0 then Some (dst, d, s, 0)
     else do {
       (c, s) \<leftarrow> next_item s;
       dst \<leftarrow> poke dst d c;
       if c = 0 then Some (dst, d + 1, s, n) else copy_loop dst (d + 1) s n })"

text \<open>\<open>while (*s++) ;\<close>\<close>

fun skip_string :: "byte list \<Rightarrow> byte list option" where
  "skip_string [] = None"
| "skip_string (c # s) = (if c = 0 then Some s else skip_string s)"

definition strlcpy :: "byte list \<Rightarrow> byte list \<Rightarrow> nat \<Rightarrow> (nat \<times> byte list) option" where
  "strlcpy dst src siz = do {
    (dst, d, s, n) \<leftarrow> (if siz \<noteq> 0 then copy_loop dst 0 src siz else Some (dst, 0, src, 0));
    (dst, s) \<leftarrow> (if n = 0 then do {
        dst \<leftarrow> (if siz \<noteq> 0 then poke dst d 0 else Some dst);
        s \<leftarrow> skip_string s;
        Some (dst, s) }
      else Some (dst, s));
    Some (length src - length s - 1, dst) }"

section \<open>Bounded append\<close>

text \<open>\<open>while (n-- != 0 && *d != '\0') d++;\<close>\<close>

fun end_loop :: "byte list \<Rightarrow> nat \<Rightarrow> nat \<Rightarrow> nat option" where
  "end_loop dst d 0 = Some d"
| "end_loop dst d (Suc n) = do {
    c \<leftarrow> peek dst d;
    if c = 0 then Some d else end_loop dst (d + 1) n }"

fun c_strlen :: "byte list \<Rightarrow> nat option" where
  "c_strlen [] = None"
| "c_strlen (c # s) = (if c = 0 then Some 0 else map_option Suc (c_strlen s))"

text \<open>\<open>while (*s != '\0') { if (n != 1) { *d++ = *s; n--; } s++; }\<close>\<close>

fun append_loop :: "byte list \<Rightarrow> nat \<Rightarrow> byte list \<Rightarrow> nat \<Rightarrow> (byte list \<times> nat \<times> byte list) option" where
  "append_loop dst d [] n = None"
| "append_loop dst d (c # s) n =
    (if c = 0 then Some (dst, d, c # s)
     else if n \<noteq> 1 then do {
       dst \<leftarrow> poke dst d c;
       append_loop dst (d + 1) s (n - 1) }
     else append_loop dst d s n)"

definition strlcat :: "byte list \<Rightarrow> byte list \<Rightarrow> nat \<Rightarrow> (nat \<times> byte list) option" where
  "strlcat dst src siz = do {
    dlen \<leftarrow> end_loop dst 0 siz;
    let n = siz - dlen;
    if n = 0 then do { k \<leftarrow> c_strlen src; Some (dlen + k, dst) }
    else do {
      (dst, d, s) \<leftarrow> append_loop dst dlen src n;
      dst \<leftarrow> poke dst d 0;
      Some (dlen + (length src - length s), dst) } }"

section \<open>Numbers and lines\<close>

text \<open>\<open>atoll\<close>, for the systems whose C library has none.\<close>

fun skip_blanks :: "byte list \<Rightarrow> byte list" where
  "skip_blanks (c # s) = (if c = 32 \<or> c = 9 then skip_blanks s else c # s)"
| "skip_blanks [] = []"

fun digits_loop :: "byte list \<Rightarrow> int \<Rightarrow> int" where
  "digits_loop (c # s) value =
    (if 48 \<le> c \<and> c \<le> 57 then digits_loop s (10 * value + (uint c - 48)) else value)"
| "digits_loop [] value = value"

definition atoll :: "byte list \<Rightarrow> int" where
  "atoll s =
    (let s = skip_blanks s;
         isneg = (s \<noteq> [] \<and> hd s = 45);
         s = (if isneg then tl s else s);
         value = digits_loop s 0
     in if isneg then - value else value)"

text \<open>
  \<open>fgets\<close> on the rest of a file: at most \<open>n - 1\<close> bytes, up to and including a newline; \<open>None\<close>
  at the end of the file.
\<close>

fun line_prefix :: "nat \<Rightarrow> byte list \<Rightarrow> byte list \<times> byte list" where
  "line_prefix 0 f = ([], f)"
| "line_prefix (Suc n) [] = ([], [])"
| "line_prefix (Suc n) (c # f) =
    (if c = 10 then ([c], f) else (let (l, r) = line_prefix n f in (c # l, r)))"

definition fgets :: "nat \<Rightarrow> byte list \<Rightarrow> (byte list \<times> byte list) option" where
  "fgets n f = (if f = [] then None else Some (line_prefix (n - 1) f))"

text \<open>The comparison \<open>strncmp(string, line, strlen(string)) == 0\<close> of strings without zeros.\<close>

definition same_start :: "byte list \<Rightarrow> byte list \<Rightarrow> bool" where
  "same_start str line \<longleftrightarrow> take (length str) line = str"

lemma line_prefix_split: "line_prefix n f = (l, r) \<Longrightarrow> f = l @ r \<and> length l \<le> n"
  by (induction n f arbitrary: l r rule: line_prefix.induct) (auto split: if_splits prod.splits)

lemma line_prefix_nonempty: "0 < n \<Longrightarrow> f \<noteq> [] \<Longrightarrow> fst (line_prefix n f) \<noteq> []"
  by (cases n; cases f) (auto split: prod.splits)

lemma fgets_split: "1 < n \<Longrightarrow> fgets n f = Some (l, r) \<Longrightarrow> f = l @ r \<and> l \<noteq> [] \<and> length l < n"
  using line_prefix_split [of "n - 1" f l r] line_prefix_nonempty [of "n - 1" f]
  by (auto simp: fgets_def split: if_splits)

text \<open>\<open>sg_f_read_line\<close>: \<open>None\<close> where it sets \<open>SG_ERROR_PARSE\<close> and returns NULL.\<close>

function f_read_line :: "byte list \<Rightarrow> byte list \<Rightarrow> (byte list \<times> byte list) option" where
  "f_read_line f str =
    (case fgets 8192 f of
       None \<Rightarrow> None
     | Some (line, f') \<Rightarrow> if same_start str line then Some (line, f') else f_read_line f' str)"
  by pat_completeness auto
termination
  by (relation "measure (\<lambda>(f, s). length f)") (auto dest!: fgets_split [rotated])

declare f_read_line.simps [simp del]

section \<open>Copy and append: what the caller gets\<close>

lemma skip_string_zero: "0 \<notin> set x \<Longrightarrow> skip_string (x @ 0 # r) = Some r"
  by (induction x) auto

lemma c_strlen_zero: "0 \<notin> set x \<Longrightarrow> c_strlen (x @ 0 # r) = Some (length x)"
  by (induction x) auto

lemma copy_loop_result:
  assumes "0 \<notin> set x" "d + n < length dst"
  shows "copy_loop dst d (x @ 0 # r) (Suc n) =
    (if length x < n then Some (take d dst @ x @ 0 # drop (d + length x + 1) dst, d + length x + 1, r, n - length x)
     else Some (take d dst @ take n x @ drop (d + n) dst, d + n, drop n x @ 0 # r, 0))"
  using assms
proof (induction n arbitrary: dst d x)
  case (Suc n)
  show ?case
  proof (cases x)
    case Nil
    then show ?thesis using Suc.prems by (simp add: upd_conv_take_nth_drop)
  next
    case (Cons c x')
    let ?dst = "dst[d := c]"
    have "copy_loop dst d (x @ 0 # r) (Suc (Suc n)) = copy_loop ?dst (Suc d) (x' @ 0 # r) (Suc n)"
      using Cons Suc.prems by simp
    also have "\<dots> = (if length x' < n
        then Some (take (Suc d) ?dst @ x' @ 0 # drop (Suc d + length x' + 1) ?dst, Suc d + length x' + 1, r, n - length x')
        else Some (take (Suc d) ?dst @ take n x' @ drop (Suc d + n) ?dst, Suc d + n, drop n x' @ 0 # r, 0))"
      using Suc.prems Cons by (intro Suc.IH) auto
    finally show ?thesis using Cons Suc.prems by (simp add: take_Suc_conv_app_nth)
  qed
qed simp

lemma end_loop_result:
  "0 \<notin> set y \<Longrightarrow> dst = p @ y @ 0 # z \<Longrightarrow> length y < n \<Longrightarrow> end_loop dst (length p) n = Some (length p + length y)"
proof (induction y arbitrary: p n)
  case Nil
  then show ?case by (cases n) (auto simp: nth_append)
next
  case (Cons c y)
  then obtain m where n: "n = Suc m" by (cases n) auto
  have "end_loop dst (length (p @ [c])) m = Some (length (p @ [c]) + length y)"
    using Cons n by (intro Cons.IH) auto
  then show ?case using Cons.prems n by (simp add: nth_append)
qed

lemma append_loop_result:
  "0 \<notin> set x \<Longrightarrow> 0 < n \<Longrightarrow> d + n \<le> length dst \<Longrightarrow>
   append_loop dst d (x @ 0 # r) n =
     Some (take d dst @ take (n - 1) x @ drop (d + min (length x) (n - 1)) dst, d + min (length x) (n - 1), 0 # r)"
proof (induction x arbitrary: d n dst)
  case (Cons c x)
  show ?case
  proof (cases "n = 1")
    case True
    then show ?thesis using Cons by simp
  next
    case False
    then obtain m where m: "n = Suc m" "0 < m" using Cons.prems by (cases n) auto
    let ?dst = "dst[d := c]"
    have "append_loop dst d ((c # x) @ 0 # r) n = append_loop ?dst (Suc d) (x @ 0 # r) m"
      using Cons.prems m by simp
    also have "\<dots> = Some (take (Suc d) ?dst @ take (m - 1) x @ drop (Suc d + min (length x) (m - 1)) ?dst,
        Suc d + min (length x) (m - 1), 0 # r)"
      using Cons m by (intro Cons.IH) auto
    finally show ?thesis using m Cons.prems by (cases m) (simp_all add: take_Suc_conv_app_nth)
  qed
qed simp

lemma strlcpy_value:
  assumes "0 \<notin> set x" "siz \<le> length dst"
  shows "strlcpy dst (x @ 0 # r) siz = Some (length x,
    if siz = 0 then dst else take (siz - 1) x @ 0 # drop (min (length x) (siz - 1) + 1) dst)"
proof (cases siz)
  case 0
  then show ?thesis using skip_string_zero [OF assms(1)] by (simp add: strlcpy_def)
next
  case (Suc n)
  note loop = copy_loop_result [of x 0 n dst r]
  show ?thesis
  proof (cases "length x < n")
    case True
    then show ?thesis using assms loop Suc by (simp add: strlcpy_def)
  next
    case False
    have "0 \<notin> set (drop n x)" using assms(1) by (auto dest: in_set_dropD)
    then have "skip_string (drop n x @ 0 # r) = Some r" by (rule skip_string_zero)
    then show ?thesis using False assms loop Suc
      by (simp add: strlcpy_def list_update_append min_def flip: Cons_nth_drop_Suc)
  qed
qed

lemma strlcat_value:
  assumes "0 \<notin> set x" "0 \<notin> set y" "dst = y @ 0 # z" "length y < siz" "siz \<le> length dst"
  shows "strlcat dst (x @ 0 # r) siz = Some (length y + length x,
    take (siz - 1) (y @ x) @ 0 # drop (min (length y + length x) (siz - 1) + 1) dst)"
proof -
  let ?n = "siz - length y"
  let ?m = "min (length x) (?n - 1)"
  have "end_loop dst 0 siz = Some (length y)"
    using end_loop_result [of y dst "[]" z siz] assms by simp
  moreover have "append_loop dst (length y) (x @ 0 # r) ?n =
      Some (take (length y) dst @ take (?n - 1) x @ drop (length y + ?m) dst, length y + ?m, 0 # r)"
    using assms by (intro append_loop_result) auto
  moreover have m: "length y + ?m < length dst" "length (take (?n - 1) x) = ?m" using assms by auto
  then have "poke (take (length y) dst @ take (?n - 1) x @ drop (length y + ?m) dst) (length y + ?m) 0 =
      Some (y @ take (?n - 1) x @ 0 # drop (length y + ?m + 1) dst)"
    using assms(3) by (simp add: poke_def list_update_append flip: Cons_nth_drop_Suc)
  moreover have "length y + ?m = min (length y + length x) (siz - 1)" using assms(4) by auto
  moreover have "take (siz - 1) (y @ x) = y @ take (?n - 1) x" using assms(4) by simp
  ultimately show ?thesis using assms(4) m by (simp add: strlcat_def)
qed

lemma strlcat_full:
  assumes "0 \<notin> set x" "0 \<notin> set (take siz dst)" "siz \<le> length dst"
  shows "strlcat dst (x @ 0 # r) siz = Some (siz + length x, dst)"
proof -
  have "end_loop dst d n = Some (d + n)" if "0 \<notin> set (take n (drop d dst))" "d + n \<le> length dst" for d n
    using that
  proof (induction n arbitrary: d)
    case (Suc n)
    then have e: "drop d dst = dst ! d # drop (Suc d) dst" by (simp add: Cons_nth_drop_Suc)
    with Suc show ?case by auto
  qed simp
  from this [of siz 0] show ?thesis using assms by (simp add: strlcat_def c_strlen_zero)
qed

text \<open>
  C27. Bounded copy: for a source string \<open>x\<close> and a destination of at least \<open>siz\<close> bytes,
  \<open>sg_strlcpy\<close> stores the longest prefix of \<open>x\<close> that fits with its terminating zero in \<open>siz\<close>
  bytes, stores nothing when \<open>siz\<close> is 0, leaves every other byte of the destination as it was
  and returns the length of the source, so that a result of at least \<open>siz\<close> tells truncation.
\<close>

theorem strlcpy_bounded:
  assumes "0 \<notin> set x" "siz \<le> length dst"
  shows "strlcpy dst (x @ 0 # r) siz = Some (length x,
    if siz = 0 then dst else take (siz - 1) x @ 0 # drop (min (length x) (siz - 1) + 1) dst)"
  by (rule strlcpy_value [OF assms])

theorem strlcpy_bounded_witness:
  "strlcpy [9, 9, 9, 9] [0x61, 0x62, 0x63, 0x64, 0] 3 = Some (4, [0x61, 0x62, 0, 9])"
  using strlcpy_bounded [of "[0x61, 0x62, 0x63, 0x64]" 3 "[9, 9, 9, 9]" "[]"] by simp

text \<open>
  Bounded append: with the string \<open>y\<close> in the destination, \<open>sg_strlcat\<close> makes it the
  longest prefix of \<open>y @ x\<close> that fits with its zero in \<open>siz\<close> bytes and returns the length of
  \<open>y @ x\<close>; when the first \<open>siz\<close> bytes hold no zero it stores nothing and returns \<open>siz\<close> plus
  the length of \<open>x\<close>. No byte behind the \<open>siz\<close>-th is read or written.
\<close>

theorem strlcat_bounded:
  assumes "0 \<notin> set x" "0 \<notin> set y" "siz \<le> length (y @ 0 # z)"
  shows "strlcat (y @ 0 # z) (x @ 0 # r) siz =
    (if length y < siz
     then Some (length y + length x,
            take (siz - 1) (y @ x) @ 0 # drop (min (length y + length x) (siz - 1) + 1) (y @ 0 # z))
     else Some (siz + length x, y @ 0 # z))"
proof (cases "length y < siz")
  case True
  then show ?thesis using strlcat_value [OF assms(1,2) refl True assms(3)] by simp
next
  case False
  then have "0 \<notin> set (take siz (y @ 0 # z))" using assms(2) by (auto dest: in_set_takeD)
  then show ?thesis using strlcat_full [OF assms(1) _ assms(3)] False by simp
qed

theorem strlcat_bounded_witness:
  "strlcat [0x61, 0, 9, 9, 9] [0x62, 0x63, 0x64, 0] 3 = Some (4, [0x61, 0x62, 0, 9, 9])"
  using strlcat_bounded [of "[0x62, 0x63, 0x64]" "[0x61]" 3 "[9, 9, 9]" "[]"] by simp

section \<open>Reading lines\<close>

lemma line_prefix_line:
  "10 \<notin> set b \<Longrightarrow> length b < n \<Longrightarrow> line_prefix n (b @ 10 # f) = (b @ [10], f)"
proof (induction b arbitrary: n)
  case Nil
  then show ?case by (cases n) auto
next
  case (Cons c b)
  then show ?case by (cases n) auto
qed

definition is_line :: "byte list \<Rightarrow> bool" where
  "is_line l \<longleftrightarrow> l \<noteq> [] \<and> last l = 10 \<and> 10 \<notin> set (butlast l) \<and> length l < 8192"

lemma fgets_line: "is_line l \<Longrightarrow> fgets 8192 (l @ f) = Some (l, f)"
proof -
  assume l: "is_line l"
  have "l = butlast l @ [10]" using l append_butlast_last_id [of l] by (simp add: is_line_def)
  then obtain b where b: "l = b @ [10]" "10 \<notin> set b" "length b < 8191"
    using l by (intro that [of "butlast l"]) (auto simp: is_line_def)
  then show ?thesis using line_prefix_line [of b 8191 f] by (simp add: fgets_def)
qed

text \<open>
  C30. \<open>sg_f_read_line\<close> returns the first line of the file that starts with the given string,
  and leaves the file just behind it; it reports \<open>SG_ERROR_PARSE\<close> exactly when no line does.
  The lines are those of a text file, each shorter than the 8192 bytes of the buffer.
\<close>

theorem f_read_line_first:
  assumes "list_all is_line ls"
  shows "f_read_line (concat ls) str =
    (case dropWhile (\<lambda>l. \<not> same_start str l) ls of [] \<Rightarrow> None | l # rest \<Rightarrow> Some (l, concat rest))"
  using assms
proof (induction ls)
  case Nil
  then show ?case by (simp add: f_read_line.simps fgets_def)
next
  case (Cons l ls)
  then show ?case by (subst f_read_line.simps) (simp add: fgets_line)
qed

theorem f_read_line_first_witness:
  "f_read_line [0x61, 10, 0x62, 0x63, 10, 0x64, 10] [0x62] = Some ([0x62, 0x63, 10], [0x64, 10])"
  using f_read_line_first [of "[[0x61, 10], [0x62, 0x63, 10], [0x64, 10]]" "[0x62]"]
  by (simp add: is_line_def same_start_def)

end
