(* ===== verification/Sg_Error.thy ===== *)
theory Sg_Error
  imports Sg_Strings
begin

text \<open>
  The error state of the statistics library, \<^verbatim>\<open>src/AOS/core/sys_stat/error.c\<close>, and the
  memory routines of \<^verbatim>\<open>tools.c\<close> that report through it: \<open>sg_realloc\<close>,
  \<open>sg_update_string\<close> and \<open>sg_concat_string\<close>, over a heap of blocks.
\<close>

section \<open>Error codes and messages\<close>

datatype sg_error =
    SG_ERROR_NONE
  | SG_ERROR_ASPRINTF
  | SG_ERROR_DEVICES
  | SG_ERROR_DEVSTAT_GETDEVS
  | SG_ERROR_DEVSTAT_SELECTDEVS
  | SG_ERROR_DISKINFO
  | SG_ERROR_ENOENT
  | SG_ERROR_GETIFADDRS
  | SG_ERROR_GETMNTINFO
  | SG_ERROR_GETPAGESIZE
  | SG_ERROR_HOST
  | SG_ERROR_KSTAT_DATA_LOOKUP
  | SG_ERROR_KSTAT_LOOKUP
  | SG_ERROR_KSTAT_OPEN
  | SG_ERROR_KSTAT_READ
  | SG_ERROR_KVM_GETSWAPINFO
  | SG_ERROR_KVM_OPENFILES
  | SG_ERROR_MALLOC
  | SG_ERROR_MEMSTATUS
  | SG_ERROR_OPEN
  | SG_ERROR_OPENDIR
  | SG_ERROR_PARSE
  | SG_ERROR_PDHADD
  | SG_ERROR_PDHCOLLECT
  | SG_ERROR_PDHOPEN
  | SG_ERROR_PDHREAD
  | SG_ERROR_PERMISSION
  | SG_ERROR_PSTAT
  | SG_ERROR_SETEGID
  | SG_ERROR_SETEUID
  | SG_ERROR_SETMNTENT
  | SG_ERROR_SOCKET
  | SG_ERROR_SWAPCTL
  | SG_ERROR_SYSCONF
  | SG_ERROR_SYSCTL
  | SG_ERROR_SYSCTLBYNAME
  | SG_ERROR_SYSCTLNAMETOMIB
  | SG_ERROR_UNAME
  | SG_ERROR_UNSUPPORTED
  | SG_ERROR_XSW_VER_MISMATCH

text \<open>\<open>sg_str_error\<close>; every code of the enumeration has its own case.\<close>

fun str_error :: "sg_error \<Rightarrow> string" where
  "str_error SG_ERROR_NONE = ''no error''"
| "str_error SG_ERROR_ASPRINTF = ''asprintf failed''"
| "str_error SG_ERROR_DEVSTAT_GETDEVS = ''devstat_getdevs failed''"
| "str_error SG_ERROR_DEVSTAT_SELECTDEVS = ''devstat_selectdevs failed''"
| "str_error SG_ERROR_ENOENT = ''system call received ENOENT''"
| "str_error SG_ERROR_GETIFADDRS = ''getifaddress failed''"
| "str_error SG_ERROR_GETMNTINFO = ''getmntinfo failed''"
| "str_error SG_ERROR_GETPAGESIZE = ''getpagesize failed''"
| "str_error SG_ERROR_HOST = ''gather host information faile''"
| "str_error SG_ERROR_KSTAT_DATA_LOOKUP = ''kstat_data_lookup failed''"
| "str_error SG_ERROR_KSTAT_LOOKUP = ''kstat_lookup failed''"
| "str_error SG_ERROR_KSTAT_OPEN = ''kstat_open failed''"
| "str_error SG_ERROR_KSTAT_READ = ''kstat_read failed''"
| "str_error SG_ERROR_KVM_GETSWAPINFO = ''kvm_getswapinfo failed''"
| "str_error SG_ERROR_KVM_OPENFILES = ''kvm_openfiles failed''"
| "str_error SG_ERROR_MALLOC = ''malloc failed''"
| "str_error SG_ERROR_OPEN = ''failed to open file''"
| "str_error SG_ERROR_OPENDIR = ''failed to open directory''"
| "str_error SG_ERROR_PARSE = ''failed to parse input''"
| "str_error SG_ERROR_SETEGID = ''setegid failed''"
| "str_error SG_ERROR_SETEUID = ''seteuid failed''"
| "str_error SG_ERROR_SETMNTENT = ''setmntent failed''"
| "str_error SG_ERROR_SOCKET = ''socket failed''"
| "str_error SG_ERROR_SWAPCTL = ''swapctl failed''"
| "str_error SG_ERROR_SYSCONF = ''sysconf failed''"
| "str_error SG_ERROR_SYSCTL = ''sysctl failed''"
| "str_error SG_ERROR_SYSCTLBYNAME = ''sysctlbyname failed''"
| "str_error SG_ERROR_SYSCTLNAMETOMIB = ''sysctlnametomib failed''"
| "str_error SG_ERROR_UNAME = ''uname failed''"
| "str_error SG_ERROR_UNSUPPORTED = ''unsupported function''"
| "str_error SG_ERROR_XSW_VER_MISMATCH = ''XSW version mismatch''"
| "str_error SG_ERROR_PSTAT = ''pstat failed''"
| "str_error SG_ERROR_PDHOPEN = ''PDH open failed''"
| "str_error SG_ERROR_PDHCOLLECT = ''PDH snapshot failed''"
| "str_error SG_ERROR_PDHADD = ''PDH add counter failed''"
| "str_error SG_ERROR_PDHREAD = ''PDH read counter failed''"
| "str_error SG_ERROR_DEVICES = ''failed to get device list''"
| "str_error SG_ERROR_PERMISSION = ''access violation''"
| "str_error SG_ERROR_DISKINFO = ''disk function failed''"
| "str_error SG_ERROR_MEMSTATUS = ''memory status failed''"

section \<open>The error state\<close>

record err_state =
  error_code :: sg_error
  error_arg :: "byte list"
  errno_value :: int

definition ERROR_ARG_MAX :: nat where "ERROR_ARG_MAX = 256"

definition set_error :: "sg_error \<Rightarrow> byte list option \<Rightarrow> err_state \<Rightarrow> err_state option" where
  "set_error code arg es =
    (let es = es \<lparr> errno_value := 0, error_code := code \<rparr> in
     case arg of
       Some arg \<Rightarrow> do { (_, buf) \<leftarrow> strlcpy (error_arg es) arg ERROR_ARG_MAX; Some (es \<lparr> error_arg := buf \<rparr>) }
     | None \<Rightarrow> do { buf \<leftarrow> poke (error_arg es) 0 0; Some (es \<lparr> error_arg := buf \<rparr>) })"

definition set_error_with_errno :: "sg_error \<Rightarrow> byte list option \<Rightarrow> int \<Rightarrow> err_state \<Rightarrow> err_state option" where
  "set_error_with_errno code arg errno es = do {
    es \<leftarrow> set_error code arg es;
    Some (es \<lparr> errno_value := errno \<rparr>) }"

definition get_error :: "err_state \<Rightarrow> sg_error" where "get_error es = error_code es"
definition get_error_arg :: "err_state \<Rightarrow> byte list" where "get_error_arg es = error_arg es"
definition get_error_errno :: "err_state \<Rightarrow> int" where "get_error_errno es = errno_value es"

text \<open>The string a buffer holds.\<close>

definition c_string :: "byte list \<Rightarrow> byte list" where
  "c_string buf = takeWhile (\<lambda>c. c \<noteq> 0) buf"

section \<open>The heap\<close>

text \<open>
  Blocks are named by addresses that are never used twice; a pointer is an address or NULL.
  \<open>junk\<close> is the content of memory nobody has written yet.
\<close>

record 'a heap =
  blocks :: "nat \<Rightarrow> 'a list option"
  fresh :: nat
  junk :: 'a

definition heap_ok :: "'a heap \<Rightarrow> bool" where
  "heap_ok h \<longleftrightarrow> (\<forall>a. fresh h \<le> a \<longrightarrow> blocks h a = None)"

text \<open>
  \<open>realloc\<close>: the first argument says whether memory is available. A size of 0 frees the block and
  gives NULL; resizing a block that is not allocated is undefined.
\<close>

definition c_realloc :: "bool \<Rightarrow> nat option \<Rightarrow> nat \<Rightarrow> 'a heap \<Rightarrow> (nat option \<times> 'a heap) option" where
  "c_realloc available p n h =
    (case p of
       None \<Rightarrow>
         if available \<and> n \<noteq> 0
         then Some (Some (fresh h), h \<lparr> blocks := (blocks h)(fresh h := Some (replicate n (junk h))), fresh := fresh h + 1 \<rparr>)
         else Some (None, h)
     | Some a \<Rightarrow>
         (case blocks h a of
            None \<Rightarrow> None
          | Some old \<Rightarrow>
              if n = 0 then Some (None, h \<lparr> blocks := (blocks h)(a := None) \<rparr>)
              else if available then
                Some (Some (fresh h),
                  h \<lparr> blocks := (blocks h)(a := None, fresh h := Some (take n old @ replicate (n - length old) (junk h))),
                     fresh := fresh h + 1 \<rparr>)
              else Some (None, h)))"

definition c_free :: "nat option \<Rightarrow> 'a heap \<Rightarrow> 'a heap option" where
  "c_free p h =
    (case p of None \<Rightarrow> Some h
     | Some a \<Rightarrow> if blocks h a = None then None else Some (h \<lparr> blocks := (blocks h)(a := None) \<rparr>))"

definition sg_realloc :: "bool \<Rightarrow> int \<Rightarrow> nat option \<Rightarrow> nat \<Rightarrow> 'a heap \<times> err_state \<Rightarrow>
    (nat option \<times> 'a heap \<times> err_state) option" where
  "sg_realloc available errno p n s = (case s of (h, es) \<Rightarrow> do {
    (q, h) \<leftarrow> c_realloc available p n h;
    es \<leftarrow> (if q = None then set_error_with_errno SG_ERROR_MALLOC None errno es else Some es);
    Some (q, h, es) })"

section \<open>Strings on the heap\<close>

definition load :: "nat option \<Rightarrow> 'a heap \<Rightarrow> 'a list option" where
  "load p h = do { a \<leftarrow> p; blocks h a }"

definition store :: "nat option \<Rightarrow> 'a list \<Rightarrow> 'a heap \<Rightarrow> 'a heap option" where
  "store p xs h = do { a \<leftarrow> p; _ \<leftarrow> blocks h a; Some (h \<lparr> blocks := (blocks h)(a \<mapsto> xs) \<rparr>) }"

text \<open>
  The result is the return value, the new value of \<open>*dest\<close> and the state. \<open>src\<close> is the memory at
  the source string, outside the heap blocks that are resized.
\<close>

definition update_string :: "bool \<Rightarrow> int \<Rightarrow> nat option \<Rightarrow> byte list option \<Rightarrow> byte heap \<times> err_state \<Rightarrow>
    (int \<times> nat option \<times> byte heap \<times> err_state) option" where
  "update_string available errno dest src s =
    (case src of
       None \<Rightarrow> do { h \<leftarrow> c_free dest (fst s); Some (0, None, h, snd s) }
     | Some src \<Rightarrow> do {
         k \<leftarrow> c_strlen src;
         (new, h, es) \<leftarrow> sg_realloc available errno dest (k + 1) s;
         if new = None then Some (- 1, dest, h, es)
         else do {
           mem \<leftarrow> load new h;
           (_, mem) \<leftarrow> strlcpy mem src (k + 1);
           h \<leftarrow> store new mem h;
           Some (0, new, h, es) } })"

definition concat_string :: "bool \<Rightarrow> int \<Rightarrow> nat option \<Rightarrow> byte list \<Rightarrow> byte heap \<times> err_state \<Rightarrow>
    (int \<times> nat option \<times> byte heap \<times> err_state) option" where
  "concat_string available errno dest src s = do {
    old \<leftarrow> load dest (fst s);
    j \<leftarrow> c_strlen old;
    k \<leftarrow> c_strlen src;
    let len = j + k + 1;
    (new, h, es) \<leftarrow> sg_realloc available errno dest len s;
    if new = None then Some (- 1, dest, h, es)
    else do {
      mem \<leftarrow> load new h;
      (_, mem) \<leftarrow> strlcat mem src len;
      h \<leftarrow> store new mem h;
      Some (0, new, h, es) } }"

section \<open>What the error state tells\<close>

lemma c_string_zero: "0 \<notin> set x \<Longrightarrow> c_string (x @ 0 # r) = x"
  unfolding c_string_def by (induction x) auto

lemma set_error_state:
  assumes "length (error_arg es) = ERROR_ARG_MAX" "\<And>a. arg = Some a \<Longrightarrow> \<exists>x r. a = x @ 0 # r \<and> 0 \<notin> set x"
  shows "\<exists>buf. set_error code arg es = Some \<lparr> error_code = code, error_arg = buf, errno_value = 0 \<rparr> \<and>
    length buf = ERROR_ARG_MAX \<and>
    c_string buf = (case arg of None \<Rightarrow> [] | Some a \<Rightarrow> take 255 (c_string a))"
proof (cases arg)
  case None
  then show ?thesis using assms(1)
    by (cases es; cases "error_arg es") (auto simp: set_error_def ERROR_ARG_MAX_def c_string_def poke_def Let_def)
next
  case (Some a)
  then obtain x r where a: "a = x @ 0 # r" "0 \<notin> set x" using assms(2) by blast
  have "0 \<notin> set (take 255 x)" using a(2) by (auto dest: in_set_takeD)
  note string = c_string_zero [OF this]
  show ?thesis
    using Some strlcpy_value [OF a(2), of ERROR_ARG_MAX "error_arg es" r] assms(1) string a
    by (cases es) (simp add: set_error_def ERROR_ARG_MAX_def c_string_zero Let_def)
qed

lemma set_error_none [simp]:
  "length (error_arg es) = ERROR_ARG_MAX \<Longrightarrow>
   set_error code None es = Some \<lparr> error_code = code, error_arg = (error_arg es)[0 := 0], errno_value = 0 \<rparr>"
  by (cases es) (auto simp: set_error_def poke_def ERROR_ARG_MAX_def Let_def)

text \<open>
  What is set is what is read. After \<open>sg_set_error\<close> the three getters give the code, an
  \<open>errno\<close> of 0, and the argument string cut at 255 bytes (the empty string for NULL), in the
  same 256-byte buffer; whatever the length of the argument, nothing is written outside it.
\<close>

theorem set_error_read_back:
  assumes "length (error_arg es) = ERROR_ARG_MAX" "\<And>a. arg = Some a \<Longrightarrow> \<exists>x r. a = x @ 0 # r \<and> 0 \<notin> set x"
  shows "\<exists>es'. set_error code arg es = Some es' \<and> get_error es' = code \<and> get_error_errno es' = 0 \<and>
    c_string (get_error_arg es') = (case arg of None \<Rightarrow> [] | Some a \<Rightarrow> take 255 (c_string a)) \<and>
    length (error_arg es') = ERROR_ARG_MAX"
proof -
  obtain buf where "set_error code arg es = Some \<lparr> error_code = code, error_arg = buf, errno_value = 0 \<rparr>"
    "length buf = ERROR_ARG_MAX" "c_string buf = (case arg of None \<Rightarrow> [] | Some a \<Rightarrow> take 255 (c_string a))"
    using set_error_state [OF assms] by metis
  then show ?thesis by (simp add: get_error_def get_error_arg_def get_error_errno_def)
qed

theorem set_error_read_back_witness:
  "\<exists>es'. set_error SG_ERROR_PARSE (Some [0x63, 0x70, 0x75, 0])
      \<lparr> error_code = SG_ERROR_NONE, error_arg = replicate 256 0, errno_value = 3 \<rparr> = Some es' \<and>
    get_error es' = SG_ERROR_PARSE \<and> get_error_errno es' = 0 \<and> c_string (get_error_arg es') = [0x63, 0x70, 0x75]"
proof -
  let ?es = "\<lparr> error_code = SG_ERROR_NONE, error_arg = replicate 256 0, errno_value = 3 \<rparr>"
  have "\<exists>x r. a = x @ 0 # r \<and> 0 \<notin> set x" if "Some [0x63, 0x70, 0x75, 0] = Some a" for a :: "byte list"
    using that by (intro exI [of _ "[0x63, 0x70, 0x75]"] exI [of _ "[]"]) simp
  moreover have "length (error_arg ?es) = ERROR_ARG_MAX" by (simp add: ERROR_ARG_MAX_def)
  moreover have "take 255 (c_string [0x63, 0x70, 0x75, 0]) = [0x63, 0x70, 0x75 :: byte]" by (simp add: c_string_def)
  ultimately show ?thesis
    using set_error_read_back [of ?es "Some [0x63, 0x70, 0x75, 0]" SG_ERROR_PARSE] by auto
qed

definition all_errors :: "sg_error list" where
  "all_errors = [
     SG_ERROR_NONE, SG_ERROR_ASPRINTF, SG_ERROR_DEVSTAT_GETDEVS,
     SG_ERROR_DEVSTAT_SELECTDEVS, SG_ERROR_ENOENT, SG_ERROR_GETIFADDRS,
     SG_ERROR_GETMNTINFO, SG_ERROR_GETPAGESIZE, SG_ERROR_HOST,
     SG_ERROR_KSTAT_DATA_LOOKUP, SG_ERROR_KSTAT_LOOKUP, SG_ERROR_KSTAT_OPEN,
     SG_ERROR_KSTAT_READ, SG_ERROR_KVM_GETSWAPINFO, SG_ERROR_KVM_OPENFILES,
     SG_ERROR_MALLOC, SG_ERROR_OPEN, SG_ERROR_OPENDIR,
     SG_ERROR_PARSE, SG_ERROR_SETEGID, SG_ERROR_SETEUID,
     SG_ERROR_SETMNTENT, SG_ERROR_SOCKET, SG_ERROR_SWAPCTL,
     SG_ERROR_SYSCONF, SG_ERROR_SYSCTL, SG_ERROR_SYSCTLBYNAME,
     SG_ERROR_SYSCTLNAMETOMIB, SG_ERROR_UNAME, SG_ERROR_UNSUPPORTED,
     SG_ERROR_XSW_VER_MISMATCH, SG_ERROR_PSTAT, SG_ERROR_PDHOPEN,
     SG_ERROR_PDHCOLLECT, SG_ERROR_PDHADD, SG_ERROR_PDHREAD,
     SG_ERROR_DEVICES, SG_ERROR_PERMISSION, SG_ERROR_DISKINFO,
     SG_ERROR_MEMSTATUS]"

lemma all_errors_complete: "e \<in> set all_errors"
  by (cases e) (simp_all add: all_errors_def)

lemma messages_distinct: "distinct (''unknown error'' # map str_error all_errors)"
  by (simp add: all_errors_def)

text \<open>
  The messages tell the codes apart: two different codes never have the same message, and
  no code has the message \<open>unknown error\<close> that stands for a value outside the enumeration.
\<close>

theorem str_error_distinct:
  "inj str_error \<and> ''unknown error'' \<notin> range str_error"
proof -
  have "set all_errors = UNIV" using all_errors_complete by blast
  then show ?thesis using messages_distinct by (simp add: distinct_map)
qed

section \<open>Strings on the heap\<close>

lemma load_fresh: "load (Some a) (h \<lparr> blocks := (blocks h)(b := x, a := Some y), fresh := f \<rparr>) = Some y"
  by (simp add: load_def)

text \<open>A string in a block.\<close>

definition holds :: "byte heap \<Rightarrow> nat option \<Rightarrow> byte list \<Rightarrow> bool" where
  "holds h p x \<longleftrightarrow> 0 \<notin> set x \<and> (\<exists>a r. p = Some a \<and> blocks h a = Some (x @ 0 # r))"

text \<open>
  C28. \<open>sg_update_string\<close> replaces a string. When memory is available it returns 0 and \<open>*dest\<close>
  points to a block that holds exactly the new string, the old block is gone and every other
  block is as it was; when not, it returns -1 with \<open>SG_ERROR_MALLOC\<close> and \<open>*dest\<close> still holds
  the old string; for NULL it frees the block and sets \<open>*dest\<close> to NULL.
\<close>

theorem update_string_spec:
  assumes "heap_ok h" "length (error_arg es) = ERROR_ARG_MAX"
    and "dest = Some a" "blocks h a = Some old" "0 \<notin> set x"
  shows "update_string True errno dest (Some (x @ 0 # r)) (h, es) =
      Some (0, Some (fresh h), h \<lparr> blocks := (blocks h)(a := None, fresh h := Some (x @ [0])), fresh := fresh h + 1 \<rparr>, es) \<and>
    (\<exists>es'. update_string False errno dest (Some (x @ 0 # r)) (h, es) = Some (- 1, dest, h, es') \<and>
      get_error es' = SG_ERROR_MALLOC \<and> get_error_errno es' = errno) \<and>
    update_string b errno dest None (h, es) = Some (0, None, h \<lparr> blocks := (blocks h)(a := None) \<rparr>, es)"
proof (intro conjI)
  have fa: "fresh h \<noteq> a" using assms(1,4) by (metis heap_ok_def option.distinct(1) order_refl)
  let ?mem = "take (length x + 1) old @ replicate (length x + 1 - length old) (junk h)"
  let ?h = "h \<lparr> blocks := (blocks h)(a := None, fresh h := Some ?mem), fresh := fresh h + 1 \<rparr>"
  have re: "sg_realloc True errno dest (length x + 1) (h, es) = Some (Some (fresh h), ?h, es)"
    using assms(3,4) by (simp add: sg_realloc_def c_realloc_def)
  have "length ?mem = length x + 1" by simp
  then have "strlcpy ?mem (x @ 0 # r) (length x + 1) = Some (length x, x @ [0])"
    using strlcpy_value [OF assms(5), of "length x + 1" ?mem r] by simp
  then show "update_string True errno dest (Some (x @ 0 # r)) (h, es) =
      Some (0, Some (fresh h), h \<lparr> blocks := (blocks h)(a := None, fresh h := Some (x @ [0])), fresh := fresh h + 1 \<rparr>, es)"
    using re by (simp add: update_string_def c_strlen_zero assms(5) load_def store_def)
  show "\<exists>es'. update_string False errno dest (Some (x @ 0 # r)) (h, es) = Some (- 1, dest, h, es') \<and>
      get_error es' = SG_ERROR_MALLOC \<and> get_error_errno es' = errno"
    using assms by (simp add: update_string_def c_strlen_zero sg_realloc_def c_realloc_def set_error_with_errno_def
        get_error_def get_error_errno_def)
  show "update_string b errno dest None (h, es) = Some (0, None, h \<lparr> blocks := (blocks h)(a := None) \<rparr>, es)"
    using assms(3,4) by (simp add: update_string_def c_free_def)
qed

text \<open>A heap with one string, for the witnesses.\<close>

definition small_heap :: "byte heap" where
  "small_heap = \<lparr> blocks = (\<lambda>a. if a = 0 then Some [0x61, 0x62, 0] else None), fresh = 1, junk = 0xcc \<rparr>"

definition no_error :: err_state where
  "no_error = \<lparr> error_code = SG_ERROR_NONE, error_arg = replicate ERROR_ARG_MAX 0, errno_value = 0 \<rparr>"

theorem update_string_spec_witness:
  "\<exists>h'. update_string True 12 (Some 0) (Some [0x63, 0]) (small_heap, no_error) = Some (0, Some 1, h', no_error) \<and>
    blocks h' 1 = Some [0x63, 0] \<and> blocks h' 0 = None"
  using update_string_spec [of small_heap no_error "Some 0" 0 "[0x61, 0x62, 0]" "[0x63]" 12 "[]" True]
  by (simp add: small_heap_def no_error_def heap_ok_def)

text \<open>
  C29. \<open>sg_concat_string\<close> appends in place: when memory is available it returns 0 and \<open>*dest\<close>
  points to a block with exactly the old string, the new one and one zero; when not, it returns
  -1 with \<open>SG_ERROR_MALLOC\<close> and the old string is untouched.
\<close>

theorem concat_string_spec:
  assumes "heap_ok h" "length (error_arg es) = ERROR_ARG_MAX"
    and "dest = Some a" "blocks h a = Some (y @ 0 # z)" "0 \<notin> set y" "0 \<notin> set x"
  shows "concat_string True errno dest (x @ 0 # r) (h, es) =
      Some (0, Some (fresh h),
        h \<lparr> blocks := (blocks h)(a := None, fresh h := Some (y @ x @ [0])), fresh := fresh h + 1 \<rparr>, es) \<and>
    (\<exists>es'. concat_string False errno dest (x @ 0 # r) (h, es) = Some (- 1, dest, h, es') \<and>
      get_error es' = SG_ERROR_MALLOC \<and> get_error_errno es' = errno)"
proof
  let ?len = "length y + length x + 1"
  let ?mem = "take ?len (y @ 0 # z) @ replicate (?len - length (y @ 0 # z)) (junk h)"
  let ?h = "h \<lparr> blocks := (blocks h)(a := None, fresh h := Some ?mem), fresh := fresh h + 1 \<rparr>"
  have re: "sg_realloc True errno dest ?len (h, es) = Some (Some (fresh h), ?h, es)"
    using assms(3,4) by (simp add: sg_realloc_def c_realloc_def)
  have mem: "?mem = y @ 0 # (take (length x) z @ replicate (length x - length z) (junk h))"
    by (simp add: take_Cons')
  have "strlcat ?mem (x @ 0 # r) ?len = Some (length y + length x, y @ x @ [0])"
    unfolding mem using assms(5,6)
    by (subst strlcat_value [OF assms(6,5) refl]) (auto simp: min_def)
  then show "concat_string True errno dest (x @ 0 # r) (h, es) =
      Some (0, Some (fresh h),
        h \<lparr> blocks := (blocks h)(a := None, fresh h := Some (y @ x @ [0])), fresh := fresh h + 1 \<rparr>, es)"
    using re assms by (simp add: concat_string_def c_strlen_zero load_def store_def)
  show "\<exists>es'. concat_string False errno dest (x @ 0 # r) (h, es) = Some (- 1, dest, h, es') \<and>
      get_error es' = SG_ERROR_MALLOC \<and> get_error_errno es' = errno"
    using assms by (simp add: concat_string_def c_strlen_zero sg_realloc_def c_realloc_def set_error_with_errno_def
        get_error_def get_error_errno_def load_def)
qed

theorem concat_string_spec_witness:
  "\<exists>h'. concat_string True 12 (Some 0) [0x63, 0] (small_heap, no_error) = Some (0, Some 1, h', no_error) \<and>
    blocks h' 1 = Some [0x61, 0x62, 0x63, 0]"
  using concat_string_spec [of small_heap no_error "Some 0" 0 "[0x61, 0x62]" "[]" "[0x63]" 12 "[]"]
  by (simp add: small_heap_def no_error_def heap_ok_def)

end
