(* ===== verification/Sg_Vector.thy ===== *)
theory Sg_Vector
  imports Sg_Error
begin

text \<open>
  The growable vector of the statistics library, \<^verbatim>\<open>src/AOS/core/sys_stat/vector.c\<close>. The
  heap holds items, so that \<open>item_size\<close> is 1; \<open>init_fn\<close> is the function it applies to a cell,
  and the calls of \<open>destroy_fn\<close> are recorded in the order in which they happen.
\<close>

section \<open>State\<close>

record 'a vector_header =
  used_count :: nat
  alloc_count :: nat
  error :: int
  block_size :: nat
  init_fn :: "('a \<Rightarrow> 'a) option"
  destroy_fn :: bool

record 'a vstate =
  mem :: "'a heap"
  errs :: err_state
  destroyed :: "'a list"

section \<open>Resizing\<close>

text \<open>\<open>for (i = count; i < h->used_count; i++) h->destroy_fn(vector + i * h->item_size);\<close>\<close>

fun destroy_loop :: "'a list \<Rightarrow> nat \<Rightarrow> nat \<Rightarrow> 'a list \<Rightarrow> 'a list option" where
  "destroy_loop xs i 0 log = Some log"
| "destroy_loop xs i (Suc k) log = do { x \<leftarrow> peek xs i; destroy_loop xs (i + 1) k (log @ [x]) }"

text \<open>\<open>for (i = h->used_count; i < count; i++) h->init_fn(vector + i * h->item_size);\<close>\<close>

fun init_loop :: "('a \<Rightarrow> 'a) \<Rightarrow> 'a list \<Rightarrow> nat \<Rightarrow> nat \<Rightarrow> 'a list option" where
  "init_loop f xs i 0 = Some xs"
| "init_loop f xs i (Suc k) = do { x \<leftarrow> peek xs i; xs \<leftarrow> poke xs i (f x); init_loop f xs (i + 1) k }"

definition destroy_unused :: "nat option \<Rightarrow> 'a vector_header \<Rightarrow> nat \<Rightarrow> 'a vstate \<Rightarrow> 'a vstate option" where
  "destroy_unused vector h count s =
    (if count < used_count h \<and> destroy_fn h then do {
       xs \<leftarrow> load vector (mem s);
       log \<leftarrow> destroy_loop xs count (used_count h - count) (destroyed s);
       Some (s \<lparr> destroyed := log \<rparr>) }
     else Some s)"

text \<open>From the initialisation of the new items to the return.\<close>

definition finish_resize :: "nat option \<Rightarrow> 'a vector_header \<Rightarrow> nat \<Rightarrow> 'a vstate \<Rightarrow>
    (nat option \<times> 'a vector_header \<times> 'a vstate) option" where
  "finish_resize vector h count s = do {
    s \<leftarrow> (case init_fn h of
           Some f \<Rightarrow>
             if used_count h < count then do {
               xs \<leftarrow> load vector (mem s);
               xs \<leftarrow> init_loop f xs (used_count h) (count - used_count h);
               m \<leftarrow> store vector xs (mem s);
               Some (s \<lparr> mem := m \<rparr>) }
             else Some s
         | None \<Rightarrow> Some s);
    Some (vector, h \<lparr> used_count := count, error := 0 \<rparr>, s) }"

definition round_up :: "nat \<Rightarrow> nat \<Rightarrow> nat" where
  "round_up count b = ((count + b - 1) div b) * b"

lemma round_up_pos: "0 < b \<Longrightarrow> 0 < round_up c b \<Longrightarrow> 0 < c"
  by (cases c) (auto simp: round_up_def)

function vector_resize :: "bool \<Rightarrow> int \<Rightarrow> nat option \<Rightarrow> 'a vector_header \<Rightarrow> nat \<Rightarrow> 'a vstate \<Rightarrow>
    (nat option \<times> 'a vector_header \<times> 'a vstate) option" where
  "vector_resize available errno vector h count s =
    (if block_size h = 0 then None
     else
       case destroy_unused vector h count s of
         None \<Rightarrow> None
       | Some s \<Rightarrow>
           let new_count = round_up count (block_size h) in
           if new_count \<noteq> alloc_count h then
             (case sg_realloc available errno vector new_count (mem s, errs s) of
                None \<Rightarrow> None
              | Some (new_vector, m, e) \<Rightarrow>
                  let s = s \<lparr> mem := m, errs := e \<rparr> in
                  if new_vector = None \<and> new_count \<noteq> 0 then
                    (case vector_resize available errno vector h 0 s of
                       None \<Rightarrow> None
                     | Some (_, h, s) \<Rightarrow> Some (vector, h \<lparr> error := - 1 \<rparr>, s))
                  else finish_resize new_vector (h \<lparr> alloc_count := new_count \<rparr>) count s)
           else finish_resize vector h count s)"
  by pat_completeness auto
termination
  by (relation "measure (\<lambda>(av, e, v, h, c, s). c)") (auto dest: round_up_pos)

declare vector_resize.simps [simp del]

text \<open>\<open>VECTOR_FREE\<close>.\<close>

definition VECTOR_FREE :: "bool \<Rightarrow> int \<Rightarrow> nat option \<Rightarrow> 'a vector_header \<Rightarrow> 'a vstate \<Rightarrow>
    (nat option \<times> 'a vector_header \<times> 'a vstate) option" where
  "VECTOR_FREE available errno vector h s = vector_resize available errno vector h 0 s"

section \<open>The invariant\<close>

text \<open>
  Between the calls: the allocation is the item count rounded up to whole blocks, the pointer is
  NULL exactly when nothing is allocated, and otherwise it points to that many cells.
\<close>

definition vec_ok :: "nat option \<Rightarrow> 'a vector_header \<Rightarrow> 'a vstate \<Rightarrow> bool" where
  "vec_ok vector h s \<longleftrightarrow>
    0 < block_size h \<and> alloc_count h = round_up (used_count h) (block_size h) \<and>
    heap_ok (mem s) \<and> length (error_arg (errs s)) = ERROR_ARG_MAX \<and>
    (case vector of
       None \<Rightarrow> alloc_count h = 0
     | Some a \<Rightarrow> alloc_count h \<noteq> 0 \<and> (\<exists>xs. blocks (mem s) a = Some xs \<and> length xs = alloc_count h))"

definition items :: "nat option \<Rightarrow> 'a vector_header \<Rightarrow> 'a vstate \<Rightarrow> 'a list" where
  "items vector h s = (case load vector (mem s) of None \<Rightarrow> [] | Some xs \<Rightarrow> take (used_count h) xs)"

lemma round_up_ge: "0 < b \<Longrightarrow> n \<le> round_up n b"
proof -
  assume b: "0 < b"
  have "n + b - 1 = round_up n b + (n + b - 1) mod b" by (simp add: round_up_def)
  moreover have "(n + b - 1) mod b \<le> b - 1" using b by (simp add: less_eq_Suc_le [symmetric] Suc_pred' less_Suc_eq_le [symmetric])
  ultimately show ?thesis using b by linarith
qed

lemma round_up_0 [simp]: "0 < b \<Longrightarrow> round_up 0 b = 0"
  by (simp add: round_up_def)

lemma round_up_0_iff: "0 < b \<Longrightarrow> round_up n b = 0 \<longleftrightarrow> n = 0"
  using round_up_ge [of b n] by auto

lemma destroy_loop_result:
  "i + k \<le> length xs \<Longrightarrow> destroy_loop xs i k log = Some (log @ take k (drop i xs))"
proof (induction k arbitrary: i log)
  case (Suc k)
  then have "drop i xs = xs ! i # drop (Suc i) xs" by (simp add: Cons_nth_drop_Suc)
  then show ?case using Suc by simp
qed simp

lemma init_loop_result:
  "i + k \<le> length xs \<Longrightarrow>
   init_loop f xs i k = Some (take i xs @ map f (take k (drop i xs)) @ drop (i + k) xs)"
proof (induction k arbitrary: i xs)
  case (Suc k)
  then have "drop i xs = xs ! i # drop (Suc i) xs" by (simp add: Cons_nth_drop_Suc)
  then show ?case using Suc by (simp add: take_Suc_conv_app_nth)
qed simp


section \<open>Successful calls\<close>

lemma items_NULL [simp]: "items None h s = []"
  by (simp add: items_def load_def)

lemma destroy_unused_ok:
  assumes "vec_ok vector h s"
  shows "destroy_unused vector h count s =
    Some (s \<lparr> destroyed := destroyed s @ (if destroy_fn h then drop count (items vector h s) else []) \<rparr>)"
proof (cases vector)
  case None
  then have "used_count h = 0"
    using assms round_up_0_iff [of "block_size h" "used_count h"] by (simp add: vec_ok_def)
  then show ?thesis using None by (simp add: destroy_unused_def)
next
  case (Some a)
  then obtain xs where xs: "blocks (mem s) a = Some xs" "length xs = alloc_count h"
    using assms by (auto simp: vec_ok_def)
  have "used_count h \<le> length xs" using assms xs(2) round_up_ge [of "block_size h" "used_count h"]
    by (simp add: vec_ok_def)
  then show ?thesis using Some xs(1) destroy_loop_result [of count "used_count h - count" xs "destroyed s"]
    by (auto simp: destroy_unused_def load_def items_def drop_take)
qed

text \<open>What a call leaves, stated for the cells the vector points to.\<close>

lemma finish_resize_ok:
  assumes "blocks (mem s) a = Some xs" "count \<le> length xs"
  shows "\<exists>ys. finish_resize (Some a) h count s =
      Some (Some a, h \<lparr> used_count := count, error := 0 \<rparr>, s \<lparr> mem := (mem s) \<lparr> blocks := (blocks (mem s))(a \<mapsto> ys) \<rparr> \<rparr>) \<and>
    length ys = length xs \<and> take (min (used_count h) count) ys = take (min (used_count h) count) xs \<and>
    (\<forall>f. init_fn h = Some f \<longrightarrow> (\<forall>i. used_count h \<le> i \<and> i < count \<longrightarrow> (\<exists>x. ys ! i = f x)))"
proof (cases "\<exists>f. init_fn h = Some f \<and> used_count h < count")
  case True
  then obtain f where f: "init_fn h = Some f" "used_count h < count" by blast
  let ?u = "used_count h"
  let ?ys = "take ?u xs @ map f (take (count - ?u) (drop ?u xs)) @ drop count xs"
  have "init_loop f xs ?u (count - ?u) = Some ?ys"
    using init_loop_result [of ?u "count - ?u" xs f] f(2) assms(2) by simp
  moreover have "?ys ! i = f (xs ! i)" if "?u \<le> i" "i < count" for i
  proof -
    have "i - ?u < count - ?u" using that by linarith
    then show ?thesis using that f(2) assms(2) by (simp add: nth_append)
  qed
  ultimately show ?thesis using f assms
    by (intro exI [of _ ?ys]) (auto simp: finish_resize_def load_def store_def)
next
  case False
  have "finish_resize (Some a) h count s = Some (Some a, h \<lparr> used_count := count, error := 0 \<rparr>, s)"
    using False by (auto simp: finish_resize_def split: option.splits)
  moreover have "s = s \<lparr> mem := (mem s) \<lparr> blocks := (blocks (mem s))(a \<mapsto> xs) \<rparr> \<rparr>"
    using assms(1) by (simp add: fun_upd_idem)
  ultimately show ?thesis using False by (intro exI [of _ xs]) auto
qed

lemma finish_resize_NULL: "finish_resize None h 0 s = Some (None, h \<lparr> used_count := 0, error := 0 \<rparr>, s)"
  by (auto simp: finish_resize_def split: option.splits)


definition resized :: "nat option \<Rightarrow> 'a vector_header \<Rightarrow> nat \<Rightarrow> 'a vstate \<Rightarrow>
    nat option \<times> 'a vector_header \<times> 'a vstate \<Rightarrow> bool" where
  "resized vector h count s r \<longleftrightarrow> (case r of (vector', h', s') \<Rightarrow>
    vec_ok vector' h' s' \<and> used_count h' = count \<and> error h' = 0 \<and>
    length (items vector' h' s') = count \<and>
    take (min (used_count h) count) (items vector' h' s') = take count (items vector h s) \<and>
    (\<forall>f. init_fn h = Some f \<longrightarrow> (\<forall>i. used_count h \<le> i \<and> i < count \<longrightarrow> (\<exists>x. items vector' h' s' ! i = f x))) \<and>
    destroyed s' = destroyed s @ (if destroy_fn h then drop count (items vector h s) else []))"

text \<open>The end of a call on a block \<open>a\<close> of the right size whose first cells are the old items.\<close>

lemma finish_resized:
  assumes ok: "vec_ok vector h s"
    and s1: "destroyed s1 = destroyed s @ (if destroy_fn h then drop count (items vector h s) else [])"
    and cells: "blocks (mem s1) a = Some xs" "length xs = round_up count (block_size h)" "count \<noteq> 0"
    and heap: "heap_ok (mem s1)" "length (error_arg (errs s1)) = ERROR_ARG_MAX"
    and old: "take (min (used_count h) count) xs = take count (items vector h s)"
  shows "\<exists>r. finish_resize (Some a) (h \<lparr> alloc_count := round_up count (block_size h) \<rparr>) count s1 = Some r \<and>
    resized vector h count s r"
proof -
  let ?h = "h \<lparr> alloc_count := round_up count (block_size h) \<rparr>"
  have b: "0 < block_size h" using ok by (simp add: vec_ok_def)
  have le: "count \<le> length xs" using round_up_ge [OF b] cells(2) by simp
  obtain ys where ys: "finish_resize (Some a) ?h count s1 =
      Some (Some a, ?h \<lparr> used_count := count, error := 0 \<rparr>, s1 \<lparr> mem := (mem s1) \<lparr> blocks := (blocks (mem s1))(a \<mapsto> ys) \<rparr> \<rparr>)"
    "length ys = length xs" "take (min (used_count h) count) ys = take (min (used_count h) count) xs"
    "\<forall>f. init_fn h = Some f \<longrightarrow> (\<forall>i. used_count h \<le> i \<and> i < count \<longrightarrow> (\<exists>x. ys ! i = f x))"
    using finish_resize_ok [OF cells(1) le, of ?h] by auto
  have "heap_ok ((mem s1) \<lparr> blocks := (blocks (mem s1))(a \<mapsto> ys) \<rparr>)"
    using heap(1) cells(1) by (auto simp: heap_ok_def)
  moreover have "round_up count (block_size h) \<noteq> 0" using round_up_0_iff [OF b] cells(3) by simp
  ultimately show ?thesis
    unfolding ys(1) resized_def using ys(2-4) cells(2) heap(2) b le s1 old
    by (auto simp: vec_ok_def items_def load_def min_def)
qed

lemma vector_resize_available:
  assumes "vec_ok vector h s"
  shows "\<exists>r. vector_resize True errno vector h count s = Some r \<and> resized vector h count s r"
proof -
  let ?b = "block_size h" and ?n = "round_up count (block_size h)"
  let ?s1 = "s \<lparr> destroyed := destroyed s @ (if destroy_fn h then drop count (items vector h s) else []) \<rparr>"
  have b: "0 < ?b" "alloc_count h = round_up (used_count h) ?b" "heap_ok (mem s)"
    "length (error_arg (errs s)) = ERROR_ARG_MAX"
    using assms by (simp_all add: vec_ok_def)
  have n0: "?n = 0 \<longleftrightarrow> count = 0" using round_up_0_iff [OF b(1)] .
  have fr: "blocks (mem s) (fresh (mem s)) = None" using b(3) by (simp add: heap_ok_def)
  have start: "vector_resize True errno vector h count s =
      (if ?n \<noteq> alloc_count h then
         case sg_realloc True errno vector ?n (mem s, errs s) of None \<Rightarrow> None
         | Some (q, m, e) \<Rightarrow>
             if q = None \<and> ?n \<noteq> 0 then
               (case vector_resize True errno vector h 0 (?s1 \<lparr> mem := m, errs := e \<rparr>) of
                  None \<Rightarrow> None | Some (_, h, s) \<Rightarrow> Some (vector, h \<lparr> error := - 1 \<rparr>, s))
             else finish_resize q (h \<lparr> alloc_count := ?n \<rparr>) count (?s1 \<lparr> mem := m, errs := e \<rparr>)
       else finish_resize vector h count ?s1)"
    using b(1) by (subst vector_resize.simps, unfold Let_def destroy_unused_ok [OF assms]) simp
  show ?thesis
  proof (cases vector)
    case None
    have u: "used_count h = 0" "alloc_count h = 0"
      using assms None round_up_0_iff [OF b(1)] b(2) by (auto simp: vec_ok_def)
    show ?thesis
    proof (cases "count = 0")
      case True
      then show ?thesis using None u start n0 assms
        by (simp add: finish_resize_NULL resized_def vec_ok_def)
    next
      case False
      let ?xs = "replicate ?n (junk (mem s))"
      let ?m = "(mem s) \<lparr> blocks := (blocks (mem s))(fresh (mem s) := Some ?xs), fresh := fresh (mem s) + 1 \<rparr>"
      have "heap_ok ?m" using b(3) by (auto simp: heap_ok_def)
      then have "\<exists>r. finish_resize (Some (fresh (mem s))) (h \<lparr> alloc_count := ?n \<rparr>) count
          (?s1 \<lparr> mem := ?m, errs := errs s \<rparr>) = Some r \<and> resized vector h count s r"
        using False None u b by (intro finish_resized [OF assms, where xs = ?xs]) auto
      then show ?thesis using start False n0 None u by (simp add: sg_realloc_def c_realloc_def)
    qed
  next
    case (Some a)
    then obtain xs where xs: "blocks (mem s) a = Some xs" "length xs = alloc_count h" "alloc_count h \<noteq> 0"
      using assms by (auto simp: vec_ok_def)
    have u: "used_count h \<le> length xs" using round_up_ge [OF b(1)] b(2) xs(2) by simp
    have it: "items vector h s = take (used_count h) xs" using Some xs(1) by (simp add: items_def load_def)
    consider "?n = alloc_count h" | "?n \<noteq> alloc_count h" "count = 0" | "?n \<noteq> alloc_count h" "count \<noteq> 0" by blast
    then show ?thesis
    proof cases
      case 1
      then have "count \<noteq> 0" using xs(3) n0 by auto
      then have "\<exists>r. finish_resize (Some a) (h \<lparr> alloc_count := ?n \<rparr>) count ?s1 = Some r \<and> resized vector h count s r"
      proof (intro finish_resized [OF assms, where xs = xs])
        show "length xs = ?n" using 1 xs(2) by simp
        show "blocks (mem ?s1) a = Some xs" using xs(1) by simp
        show "take (min (used_count h) count) xs = take count (items vector h s)" by (simp add: it min.commute)
        show "heap_ok (mem ?s1)" "length (error_arg (errs ?s1)) = ERROR_ARG_MAX" using b(3,4) by simp_all
      qed simp_all
      moreover have "h \<lparr> alloc_count := ?n \<rparr> = h" using 1 by simp
      ultimately show ?thesis using start 1 Some by simp
    next
      case 2
      have "heap_ok ((mem s) \<lparr> blocks := (blocks (mem s))(a := None) \<rparr>)" using b(3) by (auto simp: heap_ok_def)
      then show ?thesis using start 2 Some xs b n0
        by (simp add: sg_realloc_def c_realloc_def set_error_with_errno_def finish_resize_NULL resized_def vec_ok_def)
    next
      case 3
      let ?ys = "take ?n xs @ replicate (?n - length xs) (junk (mem s))"
      let ?m = "(mem s) \<lparr> blocks := (blocks (mem s))(a := None, fresh (mem s) := Some ?ys), fresh := fresh (mem s) + 1 \<rparr>"
      have "heap_ok ?m" using b(3) by (auto simp: heap_ok_def)
      moreover have "take (min (used_count h) count) ?ys = take count (items vector h s)"
        using u round_up_ge [OF b(1), of count] it by (simp add: min_def)
      ultimately have "\<exists>r. finish_resize (Some (fresh (mem s))) (h \<lparr> alloc_count := ?n \<rparr>) count
          (?s1 \<lparr> mem := ?m, errs := errs s \<rparr>) = Some r \<and> resized vector h count s r"
        using 3 b by (intro finish_resized [OF assms, where xs = ?ys]) auto
      then show ?thesis using start 3 n0 Some xs by (simp add: sg_realloc_def c_realloc_def)
    qed
  qed
qed


section \<open>Running out of memory\<close>

lemma vector_free_any:
  assumes "vec_ok (Some a) h s"
  shows "\<exists>h' s'. vector_resize available errno (Some a) h 0 s = Some (None, h', s') \<and>
    used_count h' = 0 \<and> alloc_count h' = 0 \<and> block_size h' = block_size h \<and> blocks (mem s') a = None \<and>
    destroyed s' = destroyed s @ (if destroy_fn h then items (Some a) h s else [])"
proof -
  obtain xs where xs: "blocks (mem s) a = Some xs" "alloc_count h \<noteq> 0" "0 < block_size h"
    "length (error_arg (errs s)) = ERROR_ARG_MAX"
    using assms by (auto simp: vec_ok_def)
  have "round_up 0 (block_size h) = 0" using xs(3) by simp
  then show ?thesis using xs
    by (subst vector_resize.simps, unfold Let_def destroy_unused_ok [OF assms])
      (simp add: sg_realloc_def c_realloc_def set_error_with_errno_def finish_resize_NULL)
qed


text \<open>A vector of two blocks of two cells with three items, for the witnesses.\<close>

definition sample_header :: "nat vector_header" where
  "sample_header = \<lparr> used_count = 3, alloc_count = 4, error = 0, block_size = 2, init_fn = Some (\<lambda>_. 7), destroy_fn = True \<rparr>"

definition sample_state :: "nat vstate" where
  "sample_state = \<lparr> mem = \<lparr> blocks = (\<lambda>a. if a = 0 then Some [1, 2, 3, 0] else None), fresh = 1, junk = 9 \<rparr>,
     errs = \<lparr> error_code = SG_ERROR_NONE, error_arg = replicate ERROR_ARG_MAX 0, errno_value = 0 \<rparr>, destroyed = [] \<rparr>"

lemma sample_ok: "vec_ok (Some 0) sample_header sample_state"
  by (simp add: vec_ok_def sample_header_def sample_state_def round_up_def heap_ok_def)


text \<open>
  C23. The out-of-memory path of \<open>sg_vector_resize\<close> leaves a dangling pointer. The items are
  destroyed (the ones already cut off a second time), the error is -1 and the counts are 0, as
  the header comment says; but the pointer returned, which \<open>VECTOR_RESIZE\<close> stores into the
  vector variable, is the block that has just been freed and not NULL, so that the next growing
  call, whatever the memory situation, resizes freed memory.
\<close>

theorem vector_resize_out_of_memory:
  assumes "vec_ok (Some a) h s" "round_up count (block_size h) \<noteq> alloc_count h" "count \<noteq> 0"
  shows "\<exists>h' s'. vector_resize False errno (Some a) h count s = Some (Some a, h', s') \<and>
    error h' = - 1 \<and> used_count h' = 0 \<and> alloc_count h' = 0 \<and> blocks (mem s') a = None \<and>
    destroyed s' = destroyed s @ (if destroy_fn h then drop count (items (Some a) h s) @ items (Some a) h s else []) \<and>
    (\<forall>available errno' n. n \<noteq> 0 \<longrightarrow> vector_resize available errno' (Some a) h' n s' = None)"
proof -
  have ok: "0 < block_size h" "heap_ok (mem s)" "length (error_arg (errs s)) = ERROR_ARG_MAX" "blocks (mem s) a \<noteq> None"
    using assms(1) by (auto simp: vec_ok_def)
  let ?d = "destroyed s @ (if destroy_fn h then drop count (items (Some a) h s) else [])"
  let ?e = "\<lparr> error_code = SG_ERROR_MALLOC, error_arg = (error_arg (errs s))[0 := 0], errno_value = errno \<rparr>"
  let ?s = "s \<lparr> destroyed := ?d, mem := mem s, errs := ?e \<rparr>"
  have s_ok: "vec_ok (Some a) h ?s" using assms(1) by (auto simp: vec_ok_def)
  obtain h' s' where r: "vector_resize False errno (Some a) h 0 ?s = Some (None, h', s')"
    "used_count h' = 0" "alloc_count h' = 0" "block_size h' = block_size h" "blocks (mem s') a = None"
    "destroyed s' = destroyed ?s @ (if destroy_fn h then items (Some a) h ?s else [])"
    using vector_free_any [OF s_ok] by blast
  have n: "round_up count (block_size h) \<noteq> 0" using round_up_0_iff [OF ok(1)] assms(3) by simp
  have "sg_realloc False errno (Some a) (round_up count (block_size h)) (mem s, errs s) = Some (None, mem s, ?e)"
    using ok(3,4) n by (auto simp: sg_realloc_def c_realloc_def set_error_with_errno_def)
  then have result: "vector_resize False errno (Some a) h count s = Some (Some a, h' \<lparr> error := - 1 \<rparr>, s')"
    using ok(1) assms(2) n r(1)
    by (subst vector_resize.simps, unfold Let_def destroy_unused_ok [OF assms(1)]) simp
  have again: "vector_resize available errno' (Some a) (h' \<lparr> error := - 1 \<rparr>) m s' = None" if "m \<noteq> 0" for available errno' m
  proof -
    have "round_up m (block_size h) \<noteq> 0" using round_up_0_iff [OF ok(1)] that by simp
    then show ?thesis using r(2-5) ok(1)
      by (subst vector_resize.simps) (simp add: destroy_unused_def Let_def sg_realloc_def c_realloc_def)
  qed
  show ?thesis
    unfolding result using r again by (auto simp: items_def)
qed

theorem vector_resize_out_of_memory_witness:
  "\<exists>h' s'. vector_resize False 12 (Some 0) sample_header 5 sample_state = Some (Some 0, h', s') \<and>
    error h' = - 1 \<and> blocks (mem s') 0 = None \<and> destroyed s' = [1, 2, 3] \<and>
    vector_resize True 12 (Some 0) h' 1 s' = None"
proof -
  have "round_up 5 (block_size sample_header) \<noteq> alloc_count sample_header"
    by (simp add: round_up_def sample_header_def)
  from vector_resize_out_of_memory [OF sample_ok this, of 12]
  show ?thesis by (force simp: items_def load_def sample_header_def sample_state_def)
qed

end
