(* ===== verification/Inflate_Sync.thy ===== *)
theory Inflate_Sync
  imports Inflate_Bits Inflate
begin

text \<open>
  Synchronisation, \<open>syncsearch\<close> and \<open>inflateSync\<close> of \<^verbatim>\<open>src/AOS/aos/zlib/inflate.c\<close>: the search is exact, in whatever pieces
  the input comes; the bit buffer, though, is not brought to a byte boundary.
\<close>

section \<open>The search\<close>

definition sync_pattern :: "byte list" where
  "sync_pattern = [0, 0, 0xff, 0xff]"

text \<open>\<open>got\<close> is how much of the pattern the bytes read end with, and no more of it.\<close>

definition tracks :: "nat \<Rightarrow> byte list \<Rightarrow> bool" where
  "tracks got xs \<longleftrightarrow> got \<le> 4 \<and> (\<forall>k \<le> 4. suffix (take k sync_pattern) xs \<longleftrightarrow> k \<le> got \<and> suffix (take k sync_pattern) (take got sync_pattern))"

lemma suffix_pattern_snoc:
  "k < 4 \<Longrightarrow> suffix (take (Suc k) sync_pattern) (xs @ [b]) \<longleftrightarrow> b = sync_pattern ! k \<and> suffix (take k sync_pattern) xs"
proof -
  assume "k < 4"
  then have "take (Suc k) sync_pattern = take k sync_pattern @ [sync_pattern ! k]"
    by (intro take_Suc_conv_app_nth) (simp add: sync_pattern_def)
  then show ?thesis by auto
qed

lemma all_upto_4: "(\<forall>k \<le> 4. P k) \<longleftrightarrow> P 0 \<and> P 1 \<and> P 2 \<and> P 3 \<and> P (4 :: nat)"
  by (auto simp: le_Suc_eq numeral_eq_Suc)

lemma tracks_Nil: "tracks 0 []"
  by (auto simp: tracks_def all_upto_4 sync_pattern_def)

lemma tracks_step:
  assumes "tracks got xs" "got < 4"
  shows "tracks (sync_byte got b) (xs @ [b])"
proof -
  define P where "P k = suffix (take k sync_pattern) xs" for k
  define Q where "Q k = suffix (take k sync_pattern) (xs @ [b])" for k
  have P: "P k \<longleftrightarrow> k \<le> got \<and> suffix (take k sync_pattern) (take got sync_pattern)" if "k \<le> 4" for k
    using assms(1) that by (simp add: tracks_def P_def)
  have Q: "Q 0" "Q 1 \<longleftrightarrow> b = 0 \<and> P 0" "Q 2 \<longleftrightarrow> b = 0 \<and> P 1" "Q 3 \<longleftrightarrow> b = 0xff \<and> P 2" "Q 4 \<longleftrightarrow> b = 0xff \<and> P 3"
    using suffix_pattern_snoc [of 0 xs b] suffix_pattern_snoc [of 1 xs b] suffix_pattern_snoc [of 2 xs b] suffix_pattern_snoc [of 3 xs b]
    by (simp_all add: P_def Q_def sync_pattern_def numeral_eq_Suc)
  have "got = 0 \<or> got = 1 \<or> got = 2 \<or> got = 3" using assms(2) by linarith
  moreover have "(0 :: byte) \<noteq> 0xff" by simp
  ultimately have "\<forall>k \<le> 4. Q k \<longleftrightarrow> k \<le> sync_byte got b \<and> suffix (take k sync_pattern) (take (sync_byte got b) sync_pattern)"
    unfolding all_upto_4 Q
    by (elim disjE; cases "b = 0"; cases "b = 0xff") (simp_all add: P Q(1) sync_byte_def sync_pattern_def suffix_def Cons_eq_append_conv numeral_eq_Suc)
  then show ?thesis using assms(2) by (auto simp: tracks_def Q_def sync_byte_def)
qed

lemma tracks_4: "tracks got xs \<Longrightarrow> got = 4 \<longleftrightarrow> suffix sync_pattern xs"
  by (auto simp: tracks_def all_upto_4 sync_pattern_def)

text \<open>Where the pattern ends for the first time.\<close>

definition sync_end :: "byte list \<Rightarrow> nat \<Rightarrow> bool" where
  "sync_end xs n \<longleftrightarrow> n \<le> length xs \<and> suffix sync_pattern (take n xs) \<and> (\<forall>m < n. \<not> suffix sync_pattern (take m xs))"

lemma syncsearch_finds:
  assumes "tracks got xs" "syncsearch got bs = (got', n)" "\<forall>m < length xs. \<not> suffix sync_pattern (take m xs)"
  shows "n \<le> length bs \<and> tracks got' (xs @ take n bs) \<and> (got' \<noteq> 4 \<longrightarrow> n = length bs) \<and>
    (\<forall>m < length xs + n. \<not> suffix sync_pattern (take m (xs @ bs)))"
  using assms
proof (induction got bs arbitrary: xs got' n rule: syncsearch.induct)
  case (1 got)
  then show ?case by auto
next
  case (2 got b bs)
  show ?case
  proof (cases "got < 4")
    case False
    then show ?thesis using 2 by (auto simp: tracks_def)
  next
    case True
    obtain n' where n': "syncsearch (sync_byte got b) bs = (got', n')" "n = Suc n'"
      using 2(3) True by (auto split: prod.splits)
    have "\<not> suffix sync_pattern xs" using tracks_4 [OF 2(2)] True by simp
    then have "\<forall>m < length (xs @ [b]). \<not> suffix sync_pattern (take m (xs @ [b]))"
      using 2(4) by (auto simp: less_Suc_eq)
    then show ?thesis using 2(1) [OF True tracks_step [OF 2(2) True] n'(1)] n'(2) by simp
  qed
qed

lemma syncsearch_end:
  assumes "syncsearch 0 bs = (got, n)"
  shows "if got = 4 then sync_end bs n else n = length bs \<and> (\<forall>m \<le> length bs. \<not> suffix sync_pattern (take m bs))"
proof -
  note f = syncsearch_finds [OF tracks_Nil assms]
  then have t: "n \<le> length bs" "tracks got (take n bs)" "got \<noteq> 4 \<longrightarrow> n = length bs" "\<forall>m < n. \<not> suffix sync_pattern (take m bs)" by simp_all
  show ?thesis
  proof (cases "got = 4")
    case True
    then show ?thesis using tracks_4 [OF t(2)] t(1,4) by (simp add: sync_end_def)
  next
    case False
    have "\<not> suffix sync_pattern (take m bs)" if "m \<le> length bs" for m
      using tracks_4 [OF t(2)] t(3,4) False that by (cases "m = n") auto
    then show ?thesis using False t(3) by simp
  qed
qed

text \<open>A search goes on where it has stopped.\<close>

lemma syncsearch_append:
  "syncsearch got (xs @ ys) =
    (case syncsearch got xs of (g, n) \<Rightarrow> case syncsearch g ys of (g', m) \<Rightarrow> (g', n + m))"
proof (induction got xs rule: syncsearch.induct)
  case (1 got)
  then show ?case by (simp split: prod.splits)
next
  case (2 got b bs)
  then show ?case by (cases ys) (auto split: prod.splits)
qed

section \<open>The bytes of the bit buffer\<close>

lemma flush_bytes_bits:
  "n = 8 * k \<Longrightarrow> (\<forall>i \<ge> n. \<not> bit h i) \<Longrightarrow> \<exists>bs. flush_bytes h n = (bs, 0, 0) \<and> byte_bits bs = bits n h"
proof (induction k arbitrary: h n)
  case 0
  then have "h = 0" by (intro bit_eqI) simp
  then show ?case using 0 by (simp add: flush_bytes.simps)
next
  case (Suc k)
  obtain bs where bs: "flush_bytes (drop_bit 8 h) (8 * k) = (bs, 0, 0)" "byte_bits bs = bits (8 * k) (drop_bit 8 h)"
    using Suc.IH [OF refl, of "drop_bit 8 h"] Suc.prems by (auto simp: bit_drop_bit_eq)
  have "bits 8 (ucast h :: byte) = bits 8 h" by (rule bits_cong) (simp add: bit_simps)
  then have "byte_bits (ucast h # bs) = bits n h" using bits_append [of 8 "8 * k" h] Suc.prems(1) bs(2) by simp
  moreover have "flush_bytes h n = (ucast h # bs, 0, 0)" using bs(1) Suc.prems(1) by (subst flush_bytes.simps) simp
  ultimately show ?case by blast
qed

lemma sync_end_unique: "sync_end xs n \<Longrightarrow> sync_end xs m \<Longrightarrow> n = m"
  by (metis linorder_neqE_nat sync_end_def)

lemma syncsearch_no_end:
  assumes "syncsearch 0 bs = (got, n)"
  shows "got = 4 \<longleftrightarrow> (\<exists>n. sync_end bs n)" "got = 4 \<Longrightarrow> sync_end bs n" "got \<noteq> 4 \<Longrightarrow> n = length bs"
  using syncsearch_end [OF assms] by (auto simp: sync_end_def split: if_splits)

section \<open>Properties\<close>

text \<open>
  C13. From a byte boundary \<open>inflateSync\<close> is exact. It returns \<open>Z_OK\<close> if and only if the bytes in the bit buffer and in
  the input contain 0, 0, 0xff, 0xff; then the input goes on right after the first such place, the stream is reset to
  wait for a new block, and the total counts are kept. Otherwise it returns \<open>Z_DATA_ERROR\<close> with all of the input
  taken and its progress kept, from which a later call goes on.
\<close>

theorem inflateSync_exact:
  assumes "mode s \<noteq> SYNC" "acc_ok s" "8 dvd bitcnt s" "byte_bits buf = bits (bitcnt s) (hold s)" "next_in s \<noteq> []"
  shows "\<exists>t. inflateSync (Stateful s) = (if \<exists>n. sync_end (buf @ next_in s) n then Z_OK else Z_DATA_ERROR, Stateful t) \<and>
    total_in t = total_in s + of_nat (avail_in s - avail_in t) \<and>
    (if \<exists>n. sync_end (buf @ next_in s) n then
       (\<exists>n. sync_end (buf @ next_in s) n \<and> next_in t = drop n (buf @ next_in s)) \<and>
       mode t = TYPE_MODE \<and> bitcnt t = 0 \<and> total_out t = total_out s
     else next_in t = [] \<and> mode t = SYNC \<and> tracks (have_lens t) (buf @ next_in s))"
proof -
  let ?all = "buf @ next_in s"
  obtain k where k: "bitcnt s = 8 * k" using assms(3) by (elim dvdE)
  have "\<exists>bs. flush_bytes (hold s) (bitcnt s) = (bs, 0, 0) \<and> byte_bits bs = bits (bitcnt s) (hold s)"
    using flush_bytes_bits [OF k] assms(2) by (simp add: acc_ok_def)
  then have f: "flush_bytes (hold s) (bitcnt s) = (buf, 0, 0)" using byte_bits_inject assms(4) by metis
  obtain g n1 where g: "syncsearch 0 buf = (g, n1)" by fastforce
  obtain g' n2 where g': "syncsearch g (next_in s) = (g', n2)" by fastforce
  have all: "syncsearch 0 ?all = (g', n1 + n2)" by (simp add: syncsearch_append g g')
  note e = syncsearch_no_end [OF all]
  have "length buf = k" using arg_cong [OF assms(4), of length] k by simp
  moreover have "bitcnt s \<le> 32" using assms(2) by (simp add: acc_ok_def)
  ultimately have buf: "length buf \<le> 4" using k by simp
  have n1: "n1 = length buf"
  proof (cases "g = 4")
    case True
    then have "sync_end buf n1" using syncsearch_no_end(2) [OF g] by simp
    then have "4 \<le> n1" "n1 \<le> length buf" by (auto simp: sync_end_def sync_pattern_def dest!: suffix_length_le)
    then show ?thesis using buf by simp
  qed (rule syncsearch_no_end(3) [OF g])
  have n2: "n2 \<le> avail_in s"
  proof (cases "g' = 4")
    case True
    then have "sync_end ?all (n1 + n2)" using e(2) by simp
    then show ?thesis using n1 by (simp add: sync_end_def)
  qed (use e(3) n1 in simp)
  have start: "start_sync s = s \<lparr> mode := SYNC, hold := 0, bitcnt := 0, have_lens := g \<rparr>"
    using assms(1) f k by (simp add: start_sync_def g)
  have tr: "tracks g' (take (n1 + n2) ?all)" using syncsearch_finds [OF tracks_Nil all] by simp
  show ?thesis
  proof (cases "g' = 4")
    case True
    let ?t = "reset_state (start_sync s \<lparr> have_lens := g', next_in := drop n2 (next_in s), total_in := total_in s + of_nat n2 \<rparr>)
      \<lparr> total_in := total_in s + of_nat n2, total_out := total_out s, mode := TYPE_MODE \<rparr>"
    have "inflateSync (Stateful s) = (Z_OK, Stateful ?t)" using True assms(5) start g' by (simp add: inflateSync_def Let_def)
    moreover have "sync_end ?all (n1 + n2)" "\<exists>n. sync_end ?all n" using e(1,2) True by blast+
    ultimately show ?thesis using n1 n2 by (intro exI [of _ ?t]) (auto simp: reset_state_def intro!: exI [of _ "n1 + n2"])
  next
    case False
    let ?t = "start_sync s \<lparr> have_lens := g', next_in := drop n2 (next_in s), total_in := total_in s + of_nat n2 \<rparr>"
    have "inflateSync (Stateful s) = (Z_DATA_ERROR, Stateful ?t)" using False assms(5) start g' by (simp add: inflateSync_def Let_def)
    moreover have "\<not> (\<exists>n. sync_end ?all n)" "n2 = avail_in s" using e(1,3) False n1 by auto
    ultimately show ?thesis using n1 tr by (intro exI [of _ ?t]) (simp add: start)
  qed
qed

lemma inflateSync_exact_witness:
  "let s = sample_state [0, 0xff, 0xff, 7, 8] \<lparr> bitcnt := 8 \<rparr> in
    \<exists>t. inflateSync (Stateful s) = (Z_OK, Stateful t) \<and> next_in t = [7, 8] \<and> total_in t = 3"
proof -
  let ?s = "sample_state [0, 0xff, 0xff, 7, 8] \<lparr> bitcnt := 8 \<rparr>"
  have s: "acc_ok ?s" "bitcnt ?s = 8" "hold ?s = 0" "next_in ?s = [0, 0xff, 0xff, 7, 8]" "mode ?s = HEAD" "total_in ?s = 0"
    by (simp_all add: acc_ok_def sample_state_def)
  have e: "sync_end ([0] @ [0, 0xff, 0xff, 7, 8]) 4"
    by (auto simp: sync_end_def sync_pattern_def suffix_def less_Suc_eq numeral_eq_Suc Cons_eq_append_conv)
  then have n: "n = 4" if "sync_end ([0] @ [0, 0xff, 0xff, 7, 8]) n" for n using sync_end_unique that by blast
  have ex: "\<exists>n. sync_end ([0] @ [0, 0xff, 0xff, 7, 8]) n" using e by blast
  have b: "byte_bits [0] = bits 8 (0 :: ulong)" by (simp add: byte_bits_def bits_def)
  have c: "HEAD \<noteq> SYNC" "8 dvd (8 :: nat)" "[0, 0xff, 0xff, 7, 8 :: byte] \<noteq> []" by simp_all
  obtain t where t: "inflateSync (Stateful ?s) = (Z_OK, Stateful t)" "total_in t = 0 + of_nat (length [0, 0xff, 0xff, 7, 8 :: byte] - avail_in t)"
      "\<exists>n. sync_end ([0] @ [0, 0xff, 0xff, 7, 8]) n \<and> next_in t = drop n ([0] @ [0, 0xff, 0xff, 7, 8])"
    using inflateSync_exact [of ?s "[0]", unfolded s, OF c(1) s(1) c(2) b c(3)] unfolding if_P [OF ex] by blast
  from t(3) obtain k where k: "sync_end ([0] @ [0, 0xff, 0xff, 7, 8]) k" "next_in t = drop k ([0] @ [0, 0xff, 0xff, 7, 8])" by blast
  have "next_in t = [7, 8]" using k(2) unfolding n [OF k(1)] by simp
  then show ?thesis using t(1,2) by (simp add: Let_def)
qed


end
