(* ===== verification/Inflate_Faults.thy ===== *)
theory Inflate_Faults
  imports Inflate_Match Inflate
begin

text \<open>
  Where \<^verbatim>\<open>src/AOS/aos/zlib/inflate.c\<close> and \<^verbatim>\<open>src/AOS/aos/zlib/inffast.c\<close> leave their objects or lose count.
\<close>

section \<open>The extra field\<close>

text \<open>
  C39. The extra field of a gzip header overruns the caller's buffer. When more than \<open>extra_max\<close> bytes of the field have
  been read and some are left, the space that remains is computed as \<open>extra_max - len\<close> in \<open>unsigned int\<close>, which wraps
  around: the next call that has a byte of it writes outside of the buffer, for every buffer of up to 4 GB.
\<close>

theorem extra_field_overrun:
  assumes "flags s AND 0x0400 \<noteq> 0" "head s" "extra (gz s) = Some buf" "length buf < 2 ^ 32"
    and "length_of s \<le> extra_len (gz s)" "unat (extra_len (gz s)) < 2 ^ 16" "extra_max (gz s) < extra_len (gz s) - length_of s"
    and "length_of s \<noteq> 0" "next_in s \<noteq> []"
  shows "do_EXTRA s = Fault"
proof -
  let ?at = "extra_len (gz s) - length_of s" and ?cp = "min (unat (length_of s)) (avail_in s)"
  have at: "unat ?at = unat (extra_len (gz s)) - unat (length_of s)" "unat (length_of s) \<le> unat (extra_len (gz s))"
    using assms(5) by (simp_all add: unat_sub word_le_nat_alt)
  have cp: "?cp \<noteq> 0" "unat ?at + ?cp < 2 ^ 16" using assms(6,8,9) at by (simp_all add: unat_eq_0 unat_gt_0)
  have n: "unat (of_nat ?cp :: uint) = ?cp" using cp(2) by (simp add: unat_of_nat)
  have sum: "unat (?at + of_nat ?cp) = unat ?at + ?cp" using n cp(2) by (simp add: unat_plus_if')
  have over: "extra_max (gz s) < ?at + of_nat ?cp"
    using assms(7) sum by (simp add: word_less_nat_alt)
  have "unat (extra_max (gz s) - ?at) = 2 ^ 32 + unat (extra_max (gz s)) - unat ?at"
    using assms(7) by (simp add: unat_sub_if' word_less_nat_alt)
  then have size: "unat ?at + unat (extra_copy_size ?at (of_nat ?cp) (extra_max (gz s))) = 2 ^ 32 + unat (extra_max (gz s))"
    using over at(1) cp(2) by (simp add: extra_copy_size_def)
  have "copy_to buf (unat ?at) (next_in s) (unat (extra_copy_size ?at (of_nat ?cp) (extra_max (gz s)))) = None"
    unfolding copy_to_def size using assms(4) by auto
  then have "save_extra ?cp s = None" using assms(2,3) by (simp add: save_extra_def Let_def)
  then show ?thesis using assms(1) cp(1) by (simp add: do_EXTRA_def getting_def Let_def)
qed

lemma extra_field_overrun_witness:
  "do_EXTRA (sample_call [1, 2] \<lparr> flags := 0x0408, head := True, length_of := 4,
    gz := sample_header \<lparr> extra := Some [0, 0, 0], extra_len := 10, extra_max := 3 \<rparr> \<rparr>) = Fault"
proof -
  let ?s = "sample_call [1, 2] \<lparr> flags := 0x0408, head := True, length_of := 4,
    gz := sample_header \<lparr> extra := Some [0, 0, 0], extra_len := 10, extra_max := 3 \<rparr> \<rparr>"
  have "next_in ?s \<noteq> []" by (simp add: sample_call_def sample_state_def inflate_state.defs)
  then show ?thesis using extra_field_overrun [of ?s "[0, 0, 0]"] by simp
qed

section \<open>A dictionary\<close>

text \<open>
  A call that asks for a dictionary does not count its input. The four bytes of the identifier are taken, \<open>inflate\<close>
  returns \<open>Z_NEED_DICT\<close>, and \<open>total_in\<close> is what it was.
\<close>

theorem need_dict_not_counted:
  assumes "mode s = DICTID" "\<not> havedict s" "bitcnt s = 0" "hold s = 0" "next_in s = [a, b, c, d] @ rest"
  shows "\<exists>r. inflate_run flush s = Some r \<and> rc r = Z_NEED_DICT \<and> next_in (after r) = rest \<and> total_in (after r) = total_in s"
proof -
  let ?s = "start_call s"
  have s: "mode ?s = DICTID" "\<not> havedict ?s" "bitcnt ?s = 0" "hold ?s = 0" "next_in ?s = a # b # c # d # rest" "total_in ?s = total_in s"
    using assms by (simp_all add: start_call_def inflate_state.defs)
  obtain t where t: "NEEDBITS 32 ?s = (True, t)" "next_in t = rest" "havedict t = havedict ?s" "total_in t = total_in ?s"
    using s(3-5) by (simp add: NEEDBITS.simps PULLBYTE_def)
  let ?u = "INITBITS (t \<lparr> adler := REVERSE (hold t), check := REVERSE (hold t), mode := DICT \<rparr>)"
  have "inflate_switch flush ?s = Again ?u" using t(1) s(1) by (simp add: inflate_switch_def do_DICTID_def needing_def)
  moreover have "inflate_switch flush ?u = Return Z_NEED_DICT ?u"
    using t(3) s(2) by (simp add: inflate_switch_def do_DICT_def INITBITS_def)
  ultimately have "inflate_loop flush ?s = Some (Return Z_NEED_DICT ?u)" by (simp add: inflate_loop.simps)
  then show ?thesis using t(2,4) s(6) by (simp add: inflate_run_def result_of_def INITBITS_def inflate_state.defs)
qed

lemma need_dict_not_counted_witness:
  "\<exists>r. inflate_run Z_NO_FLUSH (sample_state [0, 0, 0, 1, 7] \<lparr> mode := DICTID \<rparr>) = Some r \<and> rc r = Z_NEED_DICT \<and>
    next_in (after r) = [7] \<and> total_in (after r) = 0"
  using need_dict_not_counted [of "sample_state [0, 0, 0, 1, 7] \<lparr> mode := DICTID \<rparr>" 0 0 0 1 "[7]" Z_NO_FLUSH] by (simp add: sample_state_def)

text \<open>
  C40. After a dictionary the window claims more than it holds. Say a window of \<open>wsize\<close> bytes is empty, a dictionary of \<open>n\<close>
  bytes is set, and the output is then kept in two calls of \<open>k\<close> and \<open>wsize - k\<close> bytes, with \<open>k < wsize < n + k\<close>. Then
  \<open>whave\<close> is \<open>n + k\<close>, more than the window has, and the write index is at the beginning: a distance beyond the window
  passes the check, and the next match reads before the window.
\<close>

lemma dictionary_kept:
  assumes "window s = Some w" "length w = wsize s" "write_at s = 0" "n = length dict" "0 < n" "n \<le> wsize s"
  shows "\<exists>w'. load_dictionary dict s = Some (s \<lparr> window := Some w', whave := n \<rparr>) \<and> length w' = wsize s"
  using assms by (auto simp: load_dictionary_def copy_to_def)

lemma output_kept:
  assumes "window s = Some w" "length w = wsize s" "write_at s + k \<le> wsize s" "k < wsize s" "k = length p"
  shows "\<exists>w'. updatewindow p (avail_out s + k) s = Updated (s \<lparr> window := Some w', write_at := (if write_at s + k = wsize s then 0 else write_at s + k),
      whave := (if whave s < wsize s then whave s + k else whave s) \<rparr>) \<and> length w' = wsize s"
proof -
  let ?w = "take (write_at s) w @ p @ drop (write_at s + k) w"
  have k: "\<not> wsize s \<le> k" "min (wsize s - write_at s) k = k" "wsize s \<noteq> 0" using assms(3,4) by simp_all
  have "copy_to w (write_at s) p k = Some ?w" using assms(2,3,5) by (simp add: copy_to_def)
  then have "copy_to_window p k w s = Some (s \<lparr> window := Some ?w, write_at := (if write_at s + k = wsize s then 0 else write_at s + k),
      whave := (if whave s < wsize s then whave s + k else whave s) \<rparr>)"
    using k assms(5) by (simp add: copy_to_window_def last_bytes_def Let_def)
  moreover have "length ?w = wsize s" using assms(2,3,5) by simp
  ultimately show ?thesis using assms(1) k(3)
    by (intro exI [of _ ?w]) (simp add: updatewindow_def allocated_window_def started_window_def)
qed

theorem dictionary_overstates_window:
  assumes "window s = Some w" "length w = wsize s" "write_at s = 0" "0 < length dict" "length dict < wsize s"
    and "length p < wsize s" "wsize s < length dict + length p" "length p + length q = wsize s" "q \<noteq> []"
  shows "\<exists>t u v. load_dictionary dict s = Some t \<and> updatewindow p (avail_out t + length p) t = Updated u \<and>
    updatewindow q (avail_out u + length q) u = Updated v \<and>
    whave v = length dict + length p \<and> whave v > wsize v \<and> write_at v = 0 \<and>
    (\<forall>x. window x = window v \<longrightarrow> wsize x = wsize v \<longrightarrow> whave x = whave v \<longrightarrow> write_at x = 0 \<longrightarrow> put x = [] \<longrightarrow>
      out_start x = avail_out x \<longrightarrow> 0 < avail_out x \<longrightarrow> 0 < unat (length_of x) \<longrightarrow> wsize x < unat (offset x) \<longrightarrow>
      unat (offset x) \<le> whave x \<longrightarrow> whave x < 2 ^ 32 \<longrightarrow>
      check_distance x = Again (x \<lparr> mode := MATCH \<rparr>) \<and> do_MATCH x = Fault)"
proof -
  have le: "length dict \<le> wsize s" using assms(5) by simp
  obtain w1 where 1: "load_dictionary dict s = Some (s \<lparr> window := Some w1, whave := length dict \<rparr>)" "length w1 = wsize s"
    using dictionary_kept [OF assms(1-3) refl assms(4) le] by blast
  let ?t = "s \<lparr> window := Some w1, whave := length dict \<rparr>"
  obtain w2 where 2: "updatewindow p (avail_out ?t + length p) ?t =
      Updated (s \<lparr> window := Some w2, write_at := length p, whave := length dict + length p \<rparr>)" "length w2 = wsize s"
    using output_kept [of ?t w1 "length p" p] 1(2) assms(3,5,6) by auto
  let ?u = "s \<lparr> window := Some w2, write_at := length p, whave := length dict + length p \<rparr>"
  have q: "length q < wsize s" "length p + length q \<le> wsize s" using assms(5,7,8) by linarith+
  obtain w3 where 3: "updatewindow q (avail_out ?u + length q) ?u = Updated (s \<lparr> window := Some w3, write_at := 0, whave := length dict + length p \<rparr>)"
    using output_kept [of ?u w2 "length q" q] 2(2) q assms(7,8) by auto
  let ?v = "s \<lparr> window := Some w3, write_at := 0, whave := length dict + length p \<rparr>"
  have "check_distance x = Again (x \<lparr> mode := MATCH \<rparr>) \<and> do_MATCH x = Fault"
    if x: "write_at x = 0" "put x = []" "out_start x = avail_out x" "0 < avail_out x" "0 < unat (length_of x)"
      "wsize x < unat (offset x)" "unat (offset x) \<le> whave x" "whave x < 2 ^ 32" for x
  proof
    show "check_distance x = Again (x \<lparr> mode := MATCH \<rparr>)" using x by (simp add: check_distance_def)
    let ?n = "min (unat (offset x)) (unat (length_of x))"
    have n: "match_source x = (Before_Window, ?n)" "0 < ?n"
      using x(1-6) by (simp_all add: match_source_def window_minus_def Let_def)
    obtain m where "min ?n (avail_out x) = Suc m" using n(2) x(4) by (cases "min ?n (avail_out x)") auto
    then show "do_MATCH x = Fault"
      using x(4) n(1) by (simp add: do_MATCH_def copy_while_def copy_byte_def getting_def)
  qed
  then show ?thesis using 1(1) 2(1) 3 assms(7)
    by (intro exI [of _ ?t] exI [of _ ?u] exI [of _ ?v]) simp
qed

lemma dictionary_overstates_window_witness:
  "\<exists>t u v. load_dictionary [7, 8, 9] (sample_state [] \<lparr> window := Some [0, 0, 0, 0], wsize := 4 \<rparr>) = Some t \<and>
    updatewindow [1, 2, 3] (avail_out t + 3) t = Updated u \<and> updatewindow [4] (avail_out u + 1) u = Updated v \<and> whave v = 6 \<and> wsize v < whave v"
proof -
  let ?s = "sample_state [] \<lparr> window := Some [0, 0, 0, 0], wsize := 4 \<rparr>"
  have l: "length [1, 2, 3 :: byte] = 3" "length [4 :: byte] = 1" "length [7, 8, 9 :: byte] = 3" "(3 :: nat) + 3 = 6" by simp_all
  have "write_at ?s = 0" "length [0, 0, 0, 0 :: byte] = wsize ?s" by (simp_all add: sample_state_def)
  then show ?thesis
    using dictionary_overstates_window [of ?s "[0, 0, 0, 0]" "[7, 8, 9]" "[1, 2, 3]" "[4]", unfolded l] by auto
qed

end
