(* ===== verification/Spec2Isabelle.thy ===== *)
theory Spec2Isabelle
  imports Deflate Deflate_Stream Adler32 Crc32 Newline Char_Tables Xclass Compiled_Info Sg_Vector Fixed_Match
    Inflate_Sync Inflate_Roundtrip Inflate_Faults
begin

text \<open>
  A verification library for the C code of this repository: the compression library in \<^verbatim>\<open>src/AOS/aos/zlib\<close>, the
  regular expressions in \<^verbatim>\<open>src/AOS/aos/pcre\<close> and the system statistics in \<^verbatim>\<open>src/AOS/core/sys_stat\<close>.

  \<^bold>\<open>The program.\<close> The three libraries are independent of each other. In the compression library the compressor tallies
  literals and matches and sends them as blocks (\<^verbatim>\<open>trees.c\<close>); the decompressor (\<^verbatim>\<open>inflate.c\<close>, with the decoding tables of
  \<^verbatim>\<open>inftrees.c\<close> and the fast loop of \<^verbatim>\<open>inffast.c\<close>) reads them back, keeps a sliding window of its output, and compares
  check values (\<^verbatim>\<open>adler32.c\<close>, \<^verbatim>\<open>crc32.c\<close>). The regular expressions keep a compiled pattern as a byte code block; modelled
  are the parts around the compiler and the matcher: UTF-8, newlines, character tables, extended classes, and the information on
  compiled blocks, with patterns of the other byte order. The statistics library has its own strings, errors and vectors.

  \<^bold>\<open>Conventions.\<close>
  A C \<open>unsigned\<close> or \<open>unsigned long\<close> is a word of 32 bits where its wrap-around can be observed (\<open>unsigned long\<close> has 32 bits,
  as on the platforms the build files name) and a \<open>nat\<close> where it is an index or a count that the code keeps in range; \<open>int\<close>
  return codes are \<open>int\<close>. A struct is a record, with the fields in the order of the header file; a pointer into a
  buffer is an index or the rest of a list; a buffer is the list of its bytes with its real size. An access outside of an
  object has no value: it is \<open>None\<close>, or the outcome \<open>Fault\<close> in the decompressor, and what cannot happen is proved not to.
  The allocator is a parameter (the function \<open>zalloc\<close> of the stream, the reply of the statistics library's allocator), and so are the
  ctype functions of a locale. Loops are recursive functions with their termination proved, or
  \<open>partial_function (option)\<close> where the code has a loop that may not end: its \<open>None\<close> is a loop without an end. No fuel is used but in
  the heap functions, where the bound is the size of the heap.

  \<^bold>\<open>The theories.\<close>
  \<^item> \<open>C_Prelude\<close>: the word types, accesses to lists by index that can fail, and the lemmas and simplification rules that all share.
  \<^item> \<open>Checksum\<close>: the interface (a locale) of a check value that is updated piece by piece, interpreted for both check values.
    \<open>Adler32\<close>: \<^verbatim>\<open>adler32.c\<close>; \<open>Crc_Tables\<close>, \<open>Crc32\<close>: \<^verbatim>\<open>crc32.h\<close> and \<^verbatim>\<open>crc32.c\<close>, with the bit-by-bit shift
    register as the reference for the three table-driven builds.
  \<^item> \<open>Bit_Output\<close>: the bit buffer of \<^verbatim>\<open>trees.c\<close> as a refinement of a list of bits. \<open>Gen_Codes\<close>: \<open>gen_codes\<close> and prefix-free codes.
    \<open>Static_Trees\<close>: \<^verbatim>\<open>trees.h\<close> and \<open>tr_static_init\<close>, which computes it. \<open>Tree_Coding\<close>: run-length coding of code lengths.
    \<open>Tree_Build\<close>: the heap, \<open>build_tree\<close> and \<open>gen_bitlen\<close>. \<open>Tree_Blocks\<close>: all kinds of blocks and \<open>_tr_flush_block\<close>.
  \<^item> \<open>Inf_Trees\<close>: \<open>inflate_table\<close>. \<open>Inf_Fixed\<close>, \<open>Fixed_Match\<close>: the tables of \<^verbatim>\<open>inffixed.h\<close>, against the static trees.
  \<^item> \<open>Inflate_State\<close>: the records, the bit macros, and \<open>updatewindow\<close>. \<open>Inflate_Header\<close>, \<open>Inflate_Blocks\<close>, \<open>Inflate_Codes\<close>: one
    definition per mode of \<open>inflate()\<close>. \<open>Inffast\<close>: \<open>inflate_fast\<close>. \<open>Inflate\<close>: the switch, the loop, \<open>inf_leave\<close>, and the other
    functions of \<^verbatim>\<open>inflate.c\<close> on the stream. An outcome says whether the loop goes round, leaves, returns, or accesses memory
    outside of an object. The registers that \<open>LOAD()\<close> and \<open>RESTORE()\<close> copy are the fields themselves.
  \<^item> \<open>Inflate_Bits\<close>: the bit macros as a refinement of a list of bits. \<open>Inflate_Window\<close>: the circular window stands for the last
    bytes of the output. \<open>Inflate_Match\<close>: \<open>MATCH\<close> and the copy loops of \<open>inflate_fast\<close> against one reference. \<open>Inflate_Sync\<close>:
    \<open>inflateSync\<close>. \<open>Inflate_Faults\<close>: where the code leaves its objects. \<open>Inflate_Tables\<close>: the interface
    \<open>decoding_table\<close> between a table and its lookups, byte by byte and with the bits at hand; \<open>Inflate_Fixed\<close>: the fixed tables provide it.
    \<open>Inflate_Decode\<close>: the interface \<open>block_tables\<close> and an item through the modes. \<open>Inflate_Block\<close>: an item through \<open>inflate_fast\<close>,
    and whole blocks. \<open>Inflate_Roundtrip\<close>: what the compressor sends, through the decompressor.
  \<^item> \<open>Utf8\<close>, \<open>Newline\<close>, \<open>Char_Tables\<close>, \<open>Xclass\<close>, \<open>Compiled_Info\<close>: \<^verbatim>\<open>pcre_ord2utf8.c\<close>, \<^verbatim>\<open>pcre_valid_utf8.c\<close>,
    \<^verbatim>\<open>pcre_newline.c\<close>, \<^verbatim>\<open>pcre_maketables.c\<close>, \<^verbatim>\<open>pcre_chartables.c\<close>, \<^verbatim>\<open>pcre_xclass.c\<close>, \<^verbatim>\<open>pcre_try_flipped.c\<close>, \<^verbatim>\<open>pcre_fullinfo.c\<close>.
  \<^item> \<open>Sg_Strings\<close>, \<open>Sg_Error\<close>, \<open>Sg_Vector\<close>: \<^verbatim>\<open>tools.c\<close>, \<^verbatim>\<open>error.c\<close>, \<^verbatim>\<open>vector.c\<close>.

  \<^bold>\<open>What is shown.\<close> The check values, the CRC tables, the static trees and the fixed decoding tables are what their references say. Codes
  are prefix-free and what is sent can be read back: code lengths, stored blocks, compressed blocks. The decompressor undoes the blocks
  of the compressor, through \<open>inflate_fast\<close> as through its modes, and a raw stream comes back in one call. The window, the
  matches and the bit macros refine lists. The other properties give each routine's meaning on every
  branch, errors included, or show where the code departs from what it means to do.

  \<^bold>\<open>Not modelled.\<close> \<^verbatim>\<open>deflate.c\<close> (matching), \<^verbatim>\<open>compress.c\<close>, \<^verbatim>\<open>gzio.c\<close>, \<^verbatim>\<open>infback.c\<close>, \<^verbatim>\<open>zutil.c\<close>; the compiler and the matcher of
  the regular expressions; the counters that only pass on results of the operating system; builds with
  \<open>DEBUG\<close>, \<open>TRUNCATE_BLOCK\<close>, \<open>BUILDFIXED\<close>, \<open>MAKEFIXED\<close>, \<open>NO_GZIP\<close>, \<open>INFLATE_STRICT\<close> or \<open>PKZIP_BUG_WORKAROUND\<close>; the
  writers of generated files (\<open>gen_trees_header\<close>, \<open>makefixed\<close>, \<open>write_table\<close>); all of the C++ code and the third-party
  libraries (asio, stx, sqlite, nedmalloc). The buffers \<open>l_buf\<close> and \<open>d_buf\<close> of the compressor are lists of their own, which the code
  overlays on the pending buffer.
\<close>

end
